(* ===== verification/Prelude.thy ===== *)
theory Prelude
  imports "HOL-Library.Word" "HOL-Library.Sublist"
begin

text \<open>
  Shared vocabulary of the development: names for the machine integers of the C++ code, the
  little-endian value of a list of limbs (the representation of \<^verbatim>\<open>base_uint\<close>, \<^verbatim>\<open>uint256\<close> and of
  every serialized integer), the codec interface that all serializers satisfy, and the generic
  lemmas on lists, options and words that the component theories use.
\<close>

unbundle bit_operations_syntax

named_theorems limb_simps \<open>length and shape of limb-list operations\<close>
named_theorems codec_simps \<open>round-trip equations of serializers\<close>

type_synonym u8 = "8 word"
type_synonym u16 = "16 word"
type_synonym u32 = "32 word"
type_synonym u64 = "64 word"
type_synonym u256 = "256 word"
type_synonym bytes = "8 word list"

subsection \<open>Words as numbers\<close>

lemma unat_bound: "unat (x :: 'a::len word) < 2 ^ LENGTH('a)"
  by simp

lemma unat_ucast: "unat (ucast (x :: 'a::len word) :: 'b::len word) = unat x mod 2 ^ LENGTH('b)"
  by (simp add: unsigned_ucast_eq take_bit_eq_mod)

lemma unat_ucast_up: "LENGTH('a) \<le> LENGTH('b) \<Longrightarrow> unat (ucast (x :: 'a::len word) :: 'b::len word) = unat x"
  using less_le_trans [OF unat_bound [of x] power_increasing [of "LENGTH('a)" "LENGTH('b)"]] by (simp add: unat_ucast)

lemma ucast_ucast_small: "unat (x :: 'a::len word) < 2 ^ LENGTH('b) \<Longrightarrow> ucast (ucast x :: 'b::len word) = x"
  by (simp add: word_unat_eq_iff unat_ucast)

lemma unat_drop_bit: "unat (drop_bit n (x :: 'a::len word)) = unat x div 2 ^ n"
  unfolding unat_drop_bit_eq by (rule drop_bit_eq_div)

subsection \<open>Little-endian value of a limb list\<close>

fun le_val :: "'a::len word list \<Rightarrow> nat" where
  "le_val [] = 0"
| "le_val (x # xs) = unat x + 2 ^ LENGTH('a) * le_val xs"

lemma le_val_bound: "le_val (xs :: 'a::len word list) < 2 ^ (LENGTH('a) * length xs)"
proof (induction xs)
  case Nil
  then show ?case by simp
next
  case (Cons x xs)
  have x: "unat x < 2 ^ LENGTH('a)" by (rule unsigned_less)
  have "unat x + 2 ^ LENGTH('a) * le_val xs < 2 ^ LENGTH('a) * Suc (le_val xs)"
    using x by simp
  also have "\<dots> \<le> 2 ^ LENGTH('a) * 2 ^ (LENGTH('a) * length xs)"
    using Cons.IH by (intro mult_le_mono2) simp
  finally show ?case by (simp add: power_add)
qed

lemma le_val_append:
  "le_val (xs @ ys) = le_val (xs :: 'a::len word list) + 2 ^ (LENGTH('a) * length xs) * le_val ys"
  by (induction xs) (simp_all add: power_add algebra_simps)

text \<open>One limb of a carry loop: the low part is kept, the rest is carried on.\<close>

lemma limb_step_mod:
  assumes "lo < 2 ^ w"
  shows "lo + 2 ^ w * (m mod 2 ^ k) = (lo + 2 ^ w * m) mod (2 ^ (w + k) :: nat)"
proof -
  have "(lo + 2 ^ w * m) mod (2 ^ w * 2 ^ k) = 2 ^ w * ((lo + 2 ^ w * m) div 2 ^ w mod 2 ^ k) + (lo + 2 ^ w * m) mod 2 ^ w"
    by (rule mod_mult2_eq)
  with assms show ?thesis by (simp add: power_add)
qed

lemma le_val_replicate_0 [simp]: "le_val (replicate n 0) = 0"
  by (induction n) simp_all

lemma le_val_mod: "le_val (xs :: 'a::len word list) mod 2 ^ (LENGTH('a) * length xs) = le_val xs"
  by (simp add: le_val_bound)

lemma le_val_take:
  "n \<le> length xs \<Longrightarrow> le_val (take n xs) = le_val (xs :: 'a::len word list) mod 2 ^ (LENGTH('a) * n)"
proof -
  assume n: "n \<le> length xs"
  have "le_val xs = le_val (take n xs) + 2 ^ (LENGTH('a) * n) * le_val (drop n xs)"
    using le_val_append [of "take n xs" "drop n xs"] n by simp
  moreover have "le_val (take n xs) < 2 ^ (LENGTH('a) * n)"
    using le_val_bound [of "take n xs"] n by simp
  ultimately show ?thesis by simp
qed

lemma le_val_drop:
  "n \<le> length xs \<Longrightarrow> le_val (drop n xs) = le_val (xs :: 'a::len word list) div 2 ^ (LENGTH('a) * n)"
proof -
  assume n: "n \<le> length xs"
  have "le_val xs = le_val (take n xs) + 2 ^ (LENGTH('a) * n) * le_val (drop n xs)"
    using le_val_append [of "take n xs" "drop n xs"] n by simp
  moreover have "le_val (take n xs) < 2 ^ (LENGTH('a) * n)"
    using le_val_bound [of "take n xs"] n by simp
  ultimately show ?thesis by simp
qed

lemma le_val_inj:
  "length xs = length ys \<Longrightarrow> le_val xs = le_val ys \<Longrightarrow> xs = (ys :: 'a::len word list)"
proof (induction xs ys rule: list_induct2)
  case Nil
  then show ?case by simp
next
  case (Cons x xs y ys)
  have "unat x = le_val (x # xs) mod 2 ^ LENGTH('a)" and "unat y = le_val (y # ys) mod 2 ^ LENGTH('a)"
    by (simp_all add: unsigned_less)
  with Cons.prems have xy: "x = y" by (metis unat_eq_nat_uint word_eq_iff_unsigned unat_arith_simps(3))
  with Cons.prems have "le_val xs = le_val ys" by simp
  with Cons.IH xy show ?case by simp
qed

lemma le_val_eq_0_iff: "le_val xs = 0 \<longleftrightarrow> (\<forall>x \<in> set xs. x = 0)"
  by (induction xs) (auto simp: unat_eq_zero)

lemma bit_le_val:
  "bit (le_val (xs :: 'a::len word list)) n \<longleftrightarrow>
     n div LENGTH('a) < length xs \<and> bit (xs ! (n div LENGTH('a))) (n mod LENGTH('a))"
proof (induction xs arbitrary: n)
  case Nil
  then show ?case by simp
next
  case (Cons x xs)
  have split: "le_val (x # xs) = unat x OR push_bit LENGTH('a) (le_val xs)"
  proof -
    have "unat x AND push_bit LENGTH('a) (le_val xs) = 0"
      by (rule bit_eqI) (auto simp: bit_simps dest: bit_imp_le_length)
    then show ?thesis
      using disjunctive_add_eq_or [of "unat x" "push_bit LENGTH('a) (le_val xs)"]
      by (simp add: push_bit_eq_mult ac_simps)
  qed
  show ?case
  proof (cases "n < LENGTH('a)")
    case True
    then show ?thesis unfolding split by (simp add: bit_simps)
  next
    case False
    then have d: "n div LENGTH('a) = Suc ((n - LENGTH('a)) div LENGTH('a))"
      and m: "n mod LENGTH('a) = (n - LENGTH('a)) mod LENGTH('a)"
      by (simp_all add: le_div_geq le_mod_geq)
    have "\<not> bit (unat x) n" using False by (auto simp: bit_simps dest: bit_imp_le_length)
    with False show ?thesis unfolding split
      by (simp add: bit_simps Cons.IH d m)
  qed
qed

end
