(* ===== verification/Endian.thy ===== *)
theory Endian
  imports Prelude
begin

text \<open>
  The byte-order helpers of \<^verbatim>\<open>src/src/crypto/common.h\<close>. A memory region is a list of bytes;
  \<^verbatim>\<open>memcpy\<close> of an integer after \<^verbatim>\<open>htole\<close> or \<^verbatim>\<open>htobe\<close> writes its bytes least or most significant
  first, and reading past the end of the list is the caller's responsibility, as in the source.
\<close>

subsection \<open>Bytes of a word\<close>

definition le_bytes :: "nat \<Rightarrow> 'a::len word \<Rightarrow> bytes" where
  "le_bytes n x = map (\<lambda>i. ucast (drop_bit (8 * i) x)) [0..<n]"

definition le_word :: "bytes \<Rightarrow> 'a::len word" where
  "le_word bs = of_nat (le_val bs)"

text \<open>The notation of the hash standards, which the reference definitions of the digests use: a word given by its bits, and a
  word as a sequence of bytes with the most significant byte first.\<close>

definition word_of_bits :: "(nat \<Rightarrow> bool) \<Rightarrow> 'a::len word" where
  "word_of_bits f = horner_sum of_bool 2 (map f [0..<LENGTH('a)])"

definition be_word :: "bytes \<Rightarrow> 'a::len word" where
  "be_word bs = fold (\<lambda>b w. 256 * w + ucast b) bs 0"

definition be_split :: "nat \<Rightarrow> 'a::len word \<Rightarrow> bytes" where
  "be_split n w = map (\<lambda>i. of_nat (unat w div 256 ^ (n - 1 - i))) [0..<n]"

lemma bit_word_of_bits: "bit (word_of_bits f :: 'a::len word) n \<longleftrightarrow> n < LENGTH('a) \<and> f n"
  by (auto simp: word_of_bits_def bit_horner_sum_bit_word_iff)

lemma length_be_split [simp]: "length (be_split n w) = n"
  by (simp add: be_split_def)

lemma length_le_bytes [simp]: "length (le_bytes n x) = n"
  by (simp add: le_bytes_def)

lemma le_bytes_Suc: "le_bytes (Suc n) x = ucast x # le_bytes n (drop_bit 8 x)"
proof -
  have "[0..<Suc n] = 0 # map Suc [0..<n]"
    by (simp add: map_Suc_upt upt_conv_Cons del: upt_Suc)
  then show ?thesis
    by (simp add: le_bytes_def drop_bit_drop_bit add.commute del: upt_Suc)
qed

lemma le_val_le_bytes: "le_val (le_bytes n (x :: 'a::len word)) = unat x mod 2 ^ (8 * n)"
proof (induction n arbitrary: x)
  case 0
  then show ?case by (simp add: le_bytes_def)
next
  case (Suc n)
  have "le_val (le_bytes (Suc n) x) = unat x mod 2 ^ 8 + 2 ^ 8 * ((unat x div 2 ^ 8) mod 2 ^ (8 * n))"
    by (simp add: le_bytes_Suc Suc.IH unat_ucast unat_drop_bit)
  also have "\<dots> = unat x mod (2 ^ 8 * 2 ^ (8 * n))"
    by (simp only: mod_mult2_eq add.commute)
  also have "(2::nat) ^ 8 * 2 ^ (8 * n) = 2 ^ (8 * Suc n)"
    by (simp add: power_add)
  finally show ?case .
qed

lemma le_word_le_bytes:
  "LENGTH('a) \<le> 8 * n \<Longrightarrow> le_word (le_bytes n x) = (x :: 'a::len word)"
proof -
  assume n: "LENGTH('a) \<le> 8 * n"
  have "unat x < 2 ^ (8 * n)"
    by (rule less_le_trans [OF unat_bound]) (use n in \<open>simp add: power_increasing\<close>)
  then show ?thesis by (simp add: le_word_def le_val_le_bytes)
qed

lemma le_bytes_le_word:
  "length bs = n \<Longrightarrow> 8 * n \<le> LENGTH('a) \<Longrightarrow> le_bytes n (le_word bs :: 'a::len word) = bs"
proof (rule le_val_inj)
  assume l: "length bs = n" and n: "8 * n \<le> LENGTH('a)"
  show "length (le_bytes n (le_word bs :: 'a word)) = length bs" by (simp add: l)
  have b: "le_val bs < 2 ^ (8 * n)" using le_val_bound [of bs] l by simp
  then have "le_val bs < 2 ^ LENGTH('a)"
    by (rule less_le_trans) (use n in \<open>simp add: power_increasing\<close>)
  then show "le_val (le_bytes n (le_word bs :: 'a word)) = le_val bs"
    using b by (simp add: le_val_le_bytes le_word_def unat_of_nat)
qed

subsection \<open>The functions of the header\<close>

(* src/src/crypto/common.h:17-22 ReadLE16 *)
definition ReadLE16 :: "bytes \<Rightarrow> u16" where
  "ReadLE16 ptr = le_word (take 2 ptr)"

(* src/src/crypto/common.h:24-29 ReadLE32 *)
definition ReadLE32 :: "bytes \<Rightarrow> u32" where
  "ReadLE32 ptr = le_word (take 4 ptr)"

(* src/src/crypto/common.h:31-36 ReadLE64 *)
definition ReadLE64 :: "bytes \<Rightarrow> u64" where
  "ReadLE64 ptr = le_word (take 8 ptr)"

(* src/src/crypto/common.h:38-42 WriteLE16 *)
definition WriteLE16 :: "u16 \<Rightarrow> bytes" where
  "WriteLE16 x = le_bytes 2 x"

(* src/src/crypto/common.h:44-48 WriteLE32 *)
definition WriteLE32 :: "u32 \<Rightarrow> bytes" where
  "WriteLE32 x = le_bytes 4 x"

(* src/src/crypto/common.h:50-54 WriteLE64 *)
definition WriteLE64 :: "u64 \<Rightarrow> bytes" where
  "WriteLE64 x = le_bytes 8 x"

(* src/src/crypto/common.h:56-61 ReadBE32 *)
definition ReadBE32 :: "bytes \<Rightarrow> u32" where
  "ReadBE32 ptr = le_word (rev (take 4 ptr))"

(* src/src/crypto/common.h:63-68 ReadBE64 *)
definition ReadBE64 :: "bytes \<Rightarrow> u64" where
  "ReadBE64 ptr = le_word (rev (take 8 ptr))"

(* src/src/crypto/common.h:70-74 WriteBE32 *)
definition WriteBE32 :: "u32 \<Rightarrow> bytes" where
  "WriteBE32 x = rev (le_bytes 4 x)"

(* src/src/crypto/common.h:76-80 WriteBE64 *)
definition WriteBE64 :: "u64 \<Rightarrow> bytes" where
  "WriteBE64 x = rev (le_bytes 8 x)"

lemma be_word_le: "(be_word bs :: 'a::len word) = le_word (rev bs)"
proof (induction bs rule: rev_induct)
  case (snoc b bs)
  have "(word_of_nat (unat b) :: 'a word) = ucast b" by simp
  with snoc show ?case by (simp add: be_word_def le_word_def)
qed (simp add: be_word_def le_word_def)

lemma be_split_le: "be_split n (w :: 'a::len word) = rev (le_bytes n w)"
proof (rule nth_equalityI)
  fix i assume "i < length (be_split n w)"
  moreover have "(of_nat (unat w div 256 ^ k) :: u8) = ucast (drop_bit (8 * k) w)" for k
  proof -
    have "unat w div 256 ^ k = unat (drop_bit (8 * k) w)" by (simp add: unat_drop_bit_eq drop_bit_nat_def power_mult)
    then show ?thesis by simp
  qed
  ultimately show "be_split n w ! i = rev (le_bytes n w) ! i" by (simp add: be_split_def le_bytes_def rev_nth)
qed simp

lemma big_endian_standard:
  "ReadBE32 = be_word \<circ> take 4" "ReadBE64 = be_word \<circ> take 8" "WriteBE32 = be_split 4" "WriteBE64 = be_split 8"
  by (simp_all add: fun_eq_iff ReadBE32_def ReadBE64_def WriteBE32_def WriteBE64_def be_word_le be_split_le)

lemmas endian_defs = ReadLE16_def ReadLE32_def ReadLE64_def WriteLE16_def WriteLE32_def
  WriteLE64_def ReadBE32_def ReadBE64_def WriteBE32_def WriteBE64_def

lemma length_WriteLE [simp]:
  "length (WriteLE16 x) = 2" "length (WriteLE32 y) = 4" "length (WriteLE64 z) = 8"
  by (simp_all add: endian_defs)

lemma ReadLE_WriteLE [codec_simps]:
  "ReadLE16 (WriteLE16 x @ r) = x" "ReadLE32 (WriteLE32 y @ r) = y" "ReadLE64 (WriteLE64 z @ r) = z"
  by (simp_all add: endian_defs le_word_le_bytes)

lemma WriteLE_ReadLE:
  "length bs = 2 \<Longrightarrow> WriteLE16 (ReadLE16 bs) = bs"
  "length cs = 4 \<Longrightarrow> WriteLE32 (ReadLE32 cs) = cs"
  "length ds = 8 \<Longrightarrow> WriteLE64 (ReadLE64 ds) = ds"
  by (simp_all add: endian_defs le_bytes_le_word)

end
