(* ===== verification/Keccak.thy ===== *)
theory Keccak
  imports Endian
begin

text \<open>
  SHA-3: \<^verbatim>\<open>src/src/crypto/sha3/Keccak.cpp\<close> and the wrapper \<^verbatim>\<open>src/src/crypto/sha3.cpp\<close> that the node uses
  for every \<^verbatim>\<open>SerializeHash\<close>. The code keeps a state with a partly filled block buffer, mixes blocks
  with an unrolled permutation and tabulated constants. It is compared with the definitions of
  FIPS 202: the step mappings on lanes with rotations as permutations of bits, offsets and round constants generated by
  their recurrences, and the sponge on the padded message as a string of bits.
\<close>

subsection \<open>Tables\<close>

(* src/src/crypto/sha3/Keccak.cpp:9-18 RC *)
definition keccak_RC :: "u64 list" where
  "keccak_RC = [0x0000000000000001, 0x0000000000008082, 0x800000000000808a,
         0x8000000080008000, 0x000000000000808b, 0x0000000080000001,
         0x8000000080008081, 0x8000000000008009, 0x000000000000008a,
         0x0000000000000088, 0x0000000080008009, 0x000000008000000a,
         0x000000008000808b, 0x800000000000008b, 0x8000000000008089,
         0x8000000000008003, 0x8000000000008002, 0x8000000000000080,
         0x000000000000800a, 0x800000008000000a, 0x8000000080008081,
         0x8000000000008080, 0x0000000080000001, 0x8000000080008008]"

(* src/src/crypto/sha3/Keccak.cpp:20-23 R *)
definition keccak_R :: "nat list" where
  "keccak_R = [0, 1, 62, 28, 27, 36, 44, 6, 55, 20, 3, 10, 43, 25, 39, 41, 45, 15, 21, 8, 18, 2, 61, 56, 14]"

(* src/src/crypto/sha3/Rotation.h:8-15 rotateLeft *)
definition rotateLeft :: "u64 \<Rightarrow> nat \<Rightarrow> u64" where
  "rotateLeft x n = (let n' = n mod 64 in push_bit n' x OR drop_bit ((64 - n') mod 64) x)"

subsection \<open>State\<close>

(* src/src/crypto/sha3/Keccak.h:8-16 keccakState *)
record keccakState =
  ks_A :: "u64 list"
  blockLen :: nat
  ks_buffer :: bytes
  bufferLen :: nat
  ks_length :: nat
  ks_d :: nat

(* src/src/crypto/sha3/Keccak.cpp:31-45 keccakCreate *)
definition keccakCreate :: "nat \<Rightarrow> keccakState" where
  "keccakCreate len =
     \<lparr>ks_A = replicate 25 0, blockLen = 200 - 2 * (len div 8), ks_buffer = replicate (200 - 2 * (len div 8)) 0,
      bufferLen = 0, ks_length = len, ks_d = len\<rparr>"

(* src/src/crypto/sha3/Keccak.cpp:49-63 shakeCreate *)
definition shakeCreate :: "nat \<Rightarrow> nat \<Rightarrow> keccakState" where
  "shakeCreate len d =
     \<lparr>ks_A = replicate 25 0, blockLen = 200 - 2 * (len div 8), ks_buffer = replicate (200 - 2 * (len div 8)) 0,
      bufferLen = 0, ks_length = len, ks_d = d\<rparr>"

(* src/src/crypto/sha3/Keccak.cpp:65-72 keccakReset *)
definition keccakReset :: "keccakState \<Rightarrow> keccakState" where
  "keccakReset st = st\<lparr>ks_A := fold (\<lambda>i A. A[i := 0]) [0..<25] (ks_A st), bufferLen := 0\<rparr>"

subsection \<open>The permutation\<close>

text \<open>
  \<^verbatim>\<open>index\<close> reduces modulo 5; the code only applies it to \<open>-1\<close> among negative numbers.
\<close>

(* src/src/crypto/sha3/Keccak.cpp:249-252 index *)
definition index1 :: "int \<Rightarrow> nat" where
  "index1 x = nat (x mod 5)"

(* src/src/crypto/sha3/Keccak.cpp:254-257 index *)
definition index2 :: "int \<Rightarrow> int \<Rightarrow> nat" where
  "index2 x y = index1 x + 5 * index1 y"

text \<open>The loops over \<open>x\<close> (outer) and \<open>y\<close> (inner) are written out in the code.\<close>

definition xy_pairs :: "(int \<times> int) list" where
  "xy_pairs = [(0,0), (0,1), (0,2), (0,3), (0,4), (1,0), (1,1), (1,2), (1,3), (1,4),
               (2,0), (2,1), (2,2), (2,3), (2,4), (3,0), (3,1), (3,2), (3,3), (3,4),
               (4,0), (4,1), (4,2), (4,3), (4,4)]"

(* src/src/crypto/sha3/Keccak.cpp:274-277 keccakf *)
definition keccak_C :: "u64 list \<Rightarrow> u64 list" where
  "keccak_C A = map (\<lambda>x. A ! index2 x 0 XOR A ! index2 x 1 XOR A ! index2 x 2 XOR A ! index2 x 3 XOR A ! index2 x 4) [0..4]"

(* src/src/crypto/sha3/Keccak.cpp:282-282 keccakf *)
definition keccak_D :: "u64 list \<Rightarrow> int \<Rightarrow> u64" where
  "keccak_D C x = C ! index1 (x - 1) XOR rotateLeft (C ! index1 (x + 1)) 1"

(* src/src/crypto/sha3/Keccak.cpp:278-340 keccakf *)
definition keccak_theta :: "u64 list \<Rightarrow> u64 list" where
  "keccak_theta A = (let C = keccak_C A
     in fold (\<lambda>(x, y) A. A[index2 x y := A ! index2 x y XOR keccak_D C x]) xy_pairs A)"

(* src/src/crypto/sha3/Keccak.cpp:343-422 keccakf *)
definition keccak_rho_pi :: "u64 list \<Rightarrow> u64 list \<Rightarrow> u64 list" where
  "keccak_rho_pi A B =
     fold (\<lambda>(x, y) B. B[index2 y (x * 2 + 3 * y) := rotateLeft (A ! index2 x y) (keccak_R ! index2 x y)]) xy_pairs B"

(* src/src/crypto/sha3/Keccak.cpp:424-503 keccakf *)
definition keccak_chi :: "u64 list \<Rightarrow> u64 list \<Rightarrow> u64 list" where
  "keccak_chi B A =
     fold (\<lambda>(x, y) A. A[index2 x y := B ! index2 x y XOR (NOT (B ! index2 (x + 1) y) AND B ! index2 (x + 2) y)]) xy_pairs A"

text \<open>One round; \<open>B\<close> is the scratch array, whose contents persist from round to round.\<close>

(* src/src/crypto/sha3/Keccak.cpp:272-506 keccakf *)
definition keccak_round :: "nat \<Rightarrow> u64 list \<times> u64 list \<Rightarrow> u64 list \<times> u64 list" where
  "keccak_round n AB =
     (let A1 = keccak_theta (fst AB);
          B = keccak_rho_pi A1 (snd AB);
          A2 = keccak_chi B A1
      in (A2[0 := A2 ! 0 XOR keccak_RC ! n], B))"

(* src/src/crypto/sha3/Keccak.cpp:268-507 keccakf *)
definition keccakf :: "u64 list \<Rightarrow> u64 list" where
  "keccakf A = fst (fold keccak_round [0..<24] (A, replicate 25 0))"

subsection \<open>Absorbing and squeezing\<close>

(* src/src/crypto/sha3/Keccak.cpp:238-247 keccakProcessBuffer *)
definition keccakProcessBuffer :: "keccakState \<Rightarrow> keccakState" where
  "keccakProcessBuffer st =
     st\<lparr>ks_A := keccakf (fold (\<lambda>i A. A[i := A ! i XOR ReadLE64 (drop (8 * i) (ks_buffer st))]) [0..<blockLen st div 8] (ks_A st)),
        bufferLen := 0\<rparr>"

(* src/src/crypto/sha3/Keccak.cpp:77-84 keccakUpdate(uint8_t) *)
definition keccakUpdate1 :: "u8 \<Rightarrow> keccakState \<Rightarrow> keccakState" where
  "keccakUpdate1 input st =
     (let st1 = st\<lparr>ks_buffer := (ks_buffer st)[bufferLen st := input], bufferLen := bufferLen st + 1\<rparr>
      in if bufferLen st1 = blockLen st1 then keccakProcessBuffer st1 else st1)"

(* src/src/crypto/sha3/Keccak.cpp:90-113 keccakUpdate *)
fun keccakUpdate_loop :: "nat \<Rightarrow> bytes \<Rightarrow> keccakState \<Rightarrow> keccakState option" where
  "keccakUpdate_loop fuel input st =
     (if input = [] then Some st
      else case fuel of 0 \<Rightarrow> None
        | Suc f \<Rightarrow>
            let cpLen = (if blockLen st - bufferLen st > length input then length input else blockLen st - bufferLen st);
                st1 = st\<lparr>ks_buffer := fold (\<lambda>i b. b[bufferLen st + i := input ! i]) [0..<cpLen] (ks_buffer st),
                         bufferLen := bufferLen st + cpLen\<rparr>;
                st2 = (if bufferLen st1 = blockLen st1 then keccakProcessBuffer st1 else st1)
            in keccakUpdate_loop f (drop cpLen input) st2)"

declare keccakUpdate_loop.simps [simp del]

(* src/src/crypto/sha3/Keccak.cpp:87-114 keccakUpdate *)
definition keccakUpdate :: "bytes \<Rightarrow> keccakState \<Rightarrow> keccakState option" where
  "keccakUpdate input st = keccakUpdate_loop (length input) input st"

text \<open>The three padding functions differ in the domain bits: \<open>d0\<close> with and \<open>d1\<close> without the final bit.\<close>

definition add_padding :: "u8 \<Rightarrow> u8 \<Rightarrow> keccakState \<Rightarrow> keccakState" where
  "add_padding d0 d1 st =
     (if bufferLen st + 1 = blockLen st
      then st\<lparr>ks_buffer := (ks_buffer st)[bufferLen st := d0]\<rparr>
      else st\<lparr>ks_buffer := (fold (\<lambda>i b. b[i := 0]) [bufferLen st + 1..<blockLen st - 1]
                 ((ks_buffer st)[bufferLen st := d1]))[blockLen st - 1 := 0x80]\<rparr>)"

(* src/src/crypto/sha3/Keccak.cpp:181-198 sha3AddPadding *)
definition sha3AddPadding :: "keccakState \<Rightarrow> keccakState" where
  "sha3AddPadding = add_padding 0x86 0x06"

(* src/src/crypto/sha3/Keccak.cpp:200-217 keccakAddPadding *)
definition keccakAddPadding :: "keccakState \<Rightarrow> keccakState" where
  "keccakAddPadding = add_padding 0x81 0x01"

(* src/src/crypto/sha3/Keccak.cpp:219-236 shakeAddPadding *)
definition shakeAddPadding :: "keccakState \<Rightarrow> keccakState" where
  "shakeAddPadding = add_padding 0x9F 0x1F"

(* src/src/crypto/sha3/Keccak.cpp:117-152 digest *)
definition digest :: "keccakState \<Rightarrow> nat \<Rightarrow> (keccakState \<Rightarrow> keccakState) \<Rightarrow> bytes \<times> keccakState" where
  "digest st hashLength paddingFunc =
     (let lengthInBytes = hashLength div 8;
          lengthInQuads = lengthInBytes div 8;
          st1 = keccakProcessBuffer (paddingFunc st);
          quad = (\<lambda>b j. ucast (drop_bit (8 * j) b AND 0xFF :: u64) :: u8);
          tmp = concat (map (\<lambda>i. map (quad (ks_A st1 ! i)) [0..<8]) [0..<lengthInQuads]);
          tmp' = (if lengthInBytes mod 8 \<noteq> 0 then tmp @ map (quad (ks_A st1 ! lengthInQuads)) [0..<lengthInBytes mod 8] else tmp)
      in (tmp', keccakReset st1))"

(* src/src/crypto/sha3/Keccak.cpp:157-161 keccakDigest *)
definition keccakDigest :: "keccakState \<Rightarrow> bytes \<times> keccakState" where
  "keccakDigest st = digest st (ks_length st) keccakAddPadding"

(* src/src/crypto/sha3/Keccak.cpp:166-170 sha3Digest *)
definition sha3Digest :: "keccakState \<Rightarrow> bytes \<times> keccakState" where
  "sha3Digest st = digest st (ks_length st) sha3AddPadding"

(* src/src/crypto/sha3/Keccak.cpp:175-179 shakeDigest *)
definition shakeDigest :: "keccakState \<Rightarrow> bytes \<times> keccakState" where
  "shakeDigest st = digest st (ks_d st) shakeAddPadding"

subsection \<open>The hasher class\<close>

(* src/src/crypto/sha3.cpp:12-16 CSHA3::Init *)
definition CSHA3_Init :: keccakState where
  "CSHA3_Init = keccakCreate 256"

text \<open>Input is passed on in blocks of 4096 bytes, the last one shorter, possibly empty. The length is a \<^verbatim>\<open>size_t\<close>, the
  position an \<^verbatim>\<open>unsigned int\<close> that wraps at \<open>2 ^ 32\<close>; a loop that does not end is \<open>None\<close>.\<close>

(* src/src/crypto/sha3.cpp:23-36 CSHA3::Write *)
partial_function (option) CSHA3_Write_loop :: "bytes \<Rightarrow> u32 \<Rightarrow> keccakState \<Rightarrow> keccakState option" where
  "CSHA3_Write_loop dat pos st =
     (let bytesRead = (if length dat - unat pos < 4096 then length dat - unat pos else 4096)
      in case keccakUpdate (take bytesRead (drop (unat pos) dat)) st of None \<Rightarrow> None
         | Some st' \<Rightarrow> if bytesRead < 4096 then Some st' else CSHA3_Write_loop dat (pos + of_nat bytesRead) st')"

(* src/src/crypto/sha3.cpp:18-39 CSHA3::Write *)
definition CSHA3_Write :: "bytes \<Rightarrow> keccakState \<Rightarrow> keccakState option" where
  "CSHA3_Write dat st = CSHA3_Write_loop dat 0 st"

(* src/src/crypto/sha3.cpp:41-47 CSHA3::Finalize *)
definition CSHA3_Finalize :: "keccakState \<Rightarrow> bytes" where
  "CSHA3_Finalize st = take 32 (fst (sha3Digest st))"

subsection \<open>The permutation of FIPS 202\<close>

type_synonym lanes = "nat \<Rightarrow> nat \<Rightarrow> u64"

definition lane :: "u64 list \<Rightarrow> lanes" where
  "lane A x y = A ! (x + 5 * y)"

definition fips_parity :: "lanes \<Rightarrow> nat \<Rightarrow> u64" where
  "fips_parity a x = a x 0 XOR a x 1 XOR a x 2 XOR a x 3 XOR a x 4"

text \<open>A lane rotated by \<open>n\<close> positions has the bit at \<open>(z - n) mod 64\<close> at position \<open>z\<close>.\<close>

definition fips_rot :: "u64 \<Rightarrow> nat \<Rightarrow> u64" where
  "fips_rot a n = word_of_bits (\<lambda>z. bit a (nat ((int z - int n) mod 64)))"

definition fips_theta :: "lanes \<Rightarrow> lanes" where
  "fips_theta a x y = a x y XOR (fips_parity a ((x + 4) mod 5) XOR fips_rot (fips_parity a ((x + 1) mod 5)) 1)"

text \<open>Step \<open>t\<close> of the walk visits a lane, whose offset is the triangular number \<open>(t+1)(t+2)/2\<close>.\<close>

fun fips_walk :: "nat \<Rightarrow> nat \<times> nat" where
  "fips_walk 0 = (1, 0)"
| "fips_walk (Suc t) = (let (x, y) = fips_walk t in (y, (2 * x + 3 * y) mod 5))"

definition fips_offset :: "nat \<Rightarrow> nat \<Rightarrow> nat" where
  "fips_offset x y =
     (case map_of (map (\<lambda>t. (fips_walk t, (t + 1) * (t + 2) div 2 mod 64)) [0..<24]) (x, y) of None \<Rightarrow> 0 | Some n \<Rightarrow> n)"

definition fips_rho :: "lanes \<Rightarrow> lanes" where
  "fips_rho a x y = fips_rot (a x y) (fips_offset x y)"

definition fips_pi :: "lanes \<Rightarrow> lanes" where
  "fips_pi a x y = a ((x + 3 * y) mod 5) x"

definition fips_chi :: "lanes \<Rightarrow> lanes" where
  "fips_chi a x y = a x y XOR (NOT (a ((x + 1) mod 5) y) AND a ((x + 2) mod 5) y)"

text \<open>The round constants come from a linear feedback shift register.\<close>

fun fips_lfsr :: "bool list \<Rightarrow> bool list" where
  "fips_lfsr [r0, r1, r2, r3, r4, r5, r6, r7] = [r7, r0, r1, r2, r3 \<noteq> r7, r4 \<noteq> r7, r5 \<noteq> r7, r6]"
| "fips_lfsr rs = rs"

definition fips_rc :: "nat \<Rightarrow> bool" where
  "fips_rc t = hd ((fips_lfsr ^^ (t mod 255)) [True, False, False, False, False, False, False, False])"

definition fips_RC :: "nat \<Rightarrow> u64" where
  "fips_RC ir = foldr (\<lambda>j acc. (if fips_rc (j + 7 * ir) then push_bit (2 ^ j - 1) 1 else 0) OR acc) [0..<7] 0"

definition fips_iota :: "nat \<Rightarrow> lanes \<Rightarrow> lanes" where
  "fips_iota ir a x y = (if x = 0 \<and> y = 0 then a x y XOR fips_RC ir else a x y)"

definition fips_round :: "nat \<Rightarrow> lanes \<Rightarrow> lanes" where
  "fips_round ir a = fips_iota ir (fips_chi (fips_pi (fips_rho (fips_theta a))))"

definition fips_keccak_f :: "u64 list \<Rightarrow> u64 list" where
  "fips_keccak_f A = (let a = fold fips_round [0..<24] (lane A) in map (\<lambda>i. a (i mod 5) (i div 5)) [0..<25])"

subsection \<open>The tables are the generated constants\<close>

lemma keccak_R_offsets: "keccak_R = map (\<lambda>i. fips_offset (i mod 5) (i div 5)) [0..<25]"
  by code_simp

lemma keccak_RC_lfsr: "keccak_RC = map fips_RC [0..<24]"
  by code_simp

subsection \<open>The unrolled rounds are the step mappings\<close>

lemma fold_upd_length [simp]: "length (fold (\<lambda>p A. A[f p := g p A]) ps A) = length A"
  by (induction ps arbitrary: A) simp_all

lemma fold_upd_other: "j \<notin> f ` set ps \<Longrightarrow> fold (\<lambda>p A. A[f p := g p A]) ps A ! j = A ! j"
  by (induction ps arbitrary: A) auto

lemma fold_upd_nth:
  assumes "distinct (map f ps)" "p \<in> set ps" "\<forall>p\<in>set ps. f p < length A"
  shows "fold (\<lambda>p A. A[f p := g p (A ! f p)]) ps A ! f p = g p (A ! f p)"
  using assms
proof (induction ps arbitrary: A)
  case (Cons q ps)
  show ?case
  proof (cases "p = q")
    case True
    then show ?thesis using Cons.prems fold_upd_other [of "f q" f ps "\<lambda>p A. g p (A ! f p)"] by auto
  next
    case False
    then have "f p \<noteq> f q" using Cons.prems by (metis (mono_tags) distinct.simps(2) image_eqI list.set_map list.simps(9) set_ConsD)
    with False Cons show ?thesis by simp
  qed
qed simp

lemma index1_nat: "x < 5 \<Longrightarrow> index1 (int x) = x" "index1 (int n) = n mod 5"
  "index1 (int n + 1) = (n + 1) mod 5" "index1 (int n + 2) = (n + 2) mod 5" "index1 (int n - 1) = (n + 4) mod 5"
proof -
  show gen: "index1 (int n) = n mod 5" for n by (simp add: index1_def nat_mod_distrib)
  show "index1 (int x) = x" if "x < 5" using that gen by simp
  show "index1 (int n + 1) = (n + 1) mod 5" using gen [of "n + 1"] by (simp add: add.commute)
  show "index1 (int n + 2) = (n + 2) mod 5" using gen [of "n + 2"] by (simp add: add.commute)
  have "(int n - 1) mod 5 = (int n - 1 + 5) mod 5" by (rule mod_add_self2 [symmetric])
  then show "index1 (int n - 1) = (n + 4) mod 5" using gen [of "n + 4"] by (simp add: index1_def add.commute)
qed

lemma index2_nat: "x < 5 \<Longrightarrow> y < 5 \<Longrightarrow> index2 (int x) (int y) = x + 5 * y"
  by (simp add: index2_def index1_nat)

lemma xy_pairs_all: "x < 5 \<Longrightarrow> y < 5 \<Longrightarrow> (int x, int y) \<in> set xy_pairs"
proof -
  assume "x < 5" "y < 5"
  then have "x = 0 \<or> x = 1 \<or> x = 2 \<or> x = 3 \<or> x = 4" "y = 0 \<or> y = 1 \<or> y = 2 \<or> y = 3 \<or> y = 4" by linarith+
  then show ?thesis by (elim disjE) (simp_all add: xy_pairs_def)
qed

lemma xy_pairs_index:
  "distinct (map (\<lambda>p. index2 (fst p) (snd p)) xy_pairs)" "\<forall>p\<in>set xy_pairs. index2 (fst p) (snd p) < 25"
  "distinct (map (\<lambda>p. index2 (snd p) (fst p * 2 + 3 * snd p)) xy_pairs)"
  "\<forall>p\<in>set xy_pairs. index2 (snd p) (fst p * 2 + 3 * snd p) < 25"
  by code_simp+

lemma rotateLeft_fips: "rotateLeft a n = fips_rot a n"
proof (rule bit_word_eqI)
  fix z assume "z < LENGTH(64)"
  then have z: "z < 64" by simp
  let ?k = "n mod 64"
  have m: "(int z - int n) mod 64 = (int z - int ?k) mod 64" by (simp add: zmod_int mod_diff_right_eq)
  have "nat ((int z - int ?k) mod 64) = (if ?k \<le> z then z - ?k else z + 64 - ?k)"
  proof (cases "?k \<le> z")
    case True
    then have "(int z - int ?k) mod 64 = int z - int ?k" using z by (intro mod_pos_pos_trivial) linarith+
    with True show ?thesis by simp
  next
    case False
    have "(int z - int ?k) mod 64 = (int z - int ?k + 64) mod 64" by simp
    also have "\<dots> = int z - int ?k + 64" using False z by (intro mod_pos_pos_trivial) linarith+
    finally show ?thesis using False by simp
  qed
  moreover have "\<not> bit a (z + 64 - ?k)" if "?k \<le> z" using that bit_imp_le_length [of a "z + 64 - ?k"] by auto
  moreover have "?k < 64" by simp
  ultimately show "bit (rotateLeft a n) z = bit (fips_rot a n) z"
    using z bit_imp_le_length [of a z] unfolding fips_rot_def bit_word_of_bits m
    by (cases "?k = 0") (auto simp: rotateLeft_def Let_def bit_simps add.commute)
qed

lemma keccak_theta_lane:
  assumes "length A = 25" "x < 5" "y < 5"
  shows "lane (keccak_theta A) x y = fips_theta (lane A) x y"
proof -
  have C: "keccak_C A ! k = fips_parity (lane A) k" if "k < 5" for k
  proof -
    have "[0..4] ! k = int k" using that by (auto simp: less_Suc_eq numeral_eq_Suc upto.simps)
    then show ?thesis using that by (simp add: keccak_C_def fips_parity_def lane_def index2_def index1_nat index1_def)
  qed
  have "keccak_theta A ! index2 (int x) (int y) = A ! index2 (int x) (int y) XOR keccak_D (keccak_C A) (int x)"
    using fold_upd_nth [OF xy_pairs_index(1) xy_pairs_all [OF assms(2,3)], of A "\<lambda>p v. v XOR keccak_D (keccak_C A) (fst p)"]
      xy_pairs_index(2) assms(1)
    by (simp add: keccak_theta_def split_def)
  then show ?thesis using assms C
    by (simp add: lane_def index2_nat fips_theta_def keccak_D_def index1_nat rotateLeft_fips)
qed

lemma keccak_rho_pi_lane:
  assumes "length B = 25" "x < 5" "y < 5"
  shows "lane (keccak_rho_pi A B) x y = fips_pi (fips_rho (lane A)) x y"
proof -
  let ?x = "(x + 3 * y) mod 5"
  have off: "keccak_R ! (?x + 5 * x) = fips_offset ?x x"
  proof -
    have "?x < 5" by simp
    then have "?x + 5 * x < 25" using assms(2) by linarith
    with \<open>?x < 5\<close> show ?thesis by (simp add: keccak_R_offsets)
  qed
  have pos: "index2 (int x) (int ?x * 2 + 3 * int x) = x + 5 * y"
  proof -
    have "(?x * 2 + 3 * x) mod 5 = ((x + 3 * y) * 2 + 3 * x) mod 5" by (metis mod_add_left_eq mod_mult_left_eq)
    also have "(x + 3 * y) * 2 + 3 * x = y + 5 * (x + y)" by simp
    also have "(y + 5 * (x + y)) mod 5 = y" using assms(3) by (simp only: mod_mult_self2 mod_less)
    finally have "(?x * 2 + 3 * x) mod 5 = y" .
    then show ?thesis using index1_nat(1) [of x] index1_nat(2) [of "?x * 2 + 3 * x"] assms by (simp add: index2_def)
  qed
  have "keccak_rho_pi A B ! index2 (int x) (int ?x * 2 + 3 * int x) =
      rotateLeft (A ! index2 (int ?x) (int x)) (keccak_R ! index2 (int ?x) (int x))"
    using fold_upd_nth [OF xy_pairs_index(3) xy_pairs_all [of ?x x], of B
        "\<lambda>p v. rotateLeft (A ! index2 (fst p) (snd p)) (keccak_R ! index2 (fst p) (snd p))"] xy_pairs_index(4) assms
    by (simp add: keccak_rho_pi_def split_def)
  then show ?thesis unfolding pos using assms off by (simp add: lane_def fips_pi_def fips_rho_def index2_nat rotateLeft_fips)
qed

lemma keccak_chi_lane:
  assumes "length A = 25" "x < 5" "y < 5"
  shows "lane (keccak_chi B A) x y = fips_chi (lane B) x y"
proof -
  have "keccak_chi B A ! index2 (int x) (int y) = B ! index2 (int x) (int y) XOR
      (NOT (B ! index2 (int x + 1) (int y)) AND B ! index2 (int x + 2) (int y))"
    using fold_upd_nth [OF xy_pairs_index(1) xy_pairs_all [OF assms(2,3)], of A
        "\<lambda>p v. B ! index2 (fst p) (snd p) XOR (NOT (B ! index2 (fst p + 1) (snd p)) AND B ! index2 (fst p + 2) (snd p))"]
      xy_pairs_index(2) assms(1)
    by (simp add: keccak_chi_def split_def)
  then show ?thesis using assms by (simp add: lane_def fips_chi_def index2_def index1_nat)
qed

lemma keccak_lengths [simp]:
  "length (keccak_theta A) = length A" "length (keccak_rho_pi A B) = length B" "length (keccak_chi B A) = length A"
  by (simp_all add: keccak_theta_def keccak_rho_pi_def keccak_chi_def split_def Let_def)

text \<open>Lane functions that agree on the 25 lanes; every step mapping respects agreement.\<close>

definition lanes_eq :: "lanes \<Rightarrow> lanes \<Rightarrow> bool" where
  "lanes_eq a b \<longleftrightarrow> (\<forall>x<5. \<forall>y<5. a x y = b x y)"

lemma fips_round_cong: "lanes_eq a b \<Longrightarrow> lanes_eq (fips_round n a) (fips_round n b)"
  by (simp add: lanes_eq_def fips_round_def fips_iota_def fips_chi_def fips_pi_def fips_rho_def fips_theta_def fips_parity_def)

lemma keccak_round_lanes:
  assumes "length A = 25" "length B = 25" "n < 24"
  shows "lanes_eq (lane (fst (keccak_round n (A, B)))) (fips_round n (lane A))"
  unfolding lanes_eq_def
proof (intro allI impI)
  fix x y :: nat
  assume xy: "x < 5" "y < 5"
  let ?A1 = "keccak_theta A"
  let ?B = "keccak_rho_pi ?A1 B"
  have rc: "keccak_RC ! n = fips_RC n" using assms(3) by (simp add: keccak_RC_lfsr)
  have B: "lane ?B u v = fips_pi (fips_rho (fips_theta (lane A))) u v" if "u < 5" "v < 5" for u v
    using that keccak_rho_pi_lane [OF assms(2) that, of ?A1] keccak_theta_lane [OF assms(1)]
    by (simp add: fips_pi_def fips_rho_def)
  have chi: "lane (keccak_chi ?B ?A1) x y = fips_chi (fips_pi (fips_rho (fips_theta (lane A)))) x y"
    using keccak_chi_lane [of ?A1 x y ?B] assms(1) xy B by (simp add: fips_chi_def)
  show "lane (fst (keccak_round n (A, B))) x y = fips_round n (lane A) x y"
  proof (cases "x = 0 \<and> y = 0")
    case True
    then show ?thesis using chi rc assms(1) by (simp add: keccak_round_def fips_round_def fips_iota_def lane_def Let_def)
  next
    case False
    then have "x + 5 * y \<noteq> 0" by simp
    with False show ?thesis using chi by (auto simp: keccak_round_def fips_round_def fips_iota_def lane_def Let_def)
  qed
qed

lemma keccak_rounds:
  "set ns \<subseteq> {..<24} \<Longrightarrow> length A = 25 \<Longrightarrow> length B = 25 \<Longrightarrow> lanes_eq (lane A) a \<Longrightarrow>
    length (fst (fold keccak_round ns (A, B))) = 25 \<and>
    lanes_eq (lane (fst (fold keccak_round ns (A, B)))) (fold fips_round ns a)"
proof (induction ns arbitrary: A B a)
  case (Cons n ns)
  obtain A' B' where r: "keccak_round n (A, B) = (A', B')" by (cases "keccak_round n (A, B)")
  then have len: "length A' = 25" "length B' = 25" using Cons.prems by (auto simp: keccak_round_def Let_def)
  have "lanes_eq (lane A') (fips_round n a)"
    using keccak_round_lanes [of A B n] fips_round_cong [OF Cons.prems(4), of n] Cons.prems r by (simp add: lanes_eq_def)
  with Cons.IH [OF _ len] Cons.prems r show ?case by simp
qed simp

lemma keccakf_fips: "length A = 25 \<Longrightarrow> keccakf A = fips_keccak_f A"
proof -
  assume A: "length A = 25"
  have r: "length (keccakf A) = 25" "lanes_eq (lane (keccakf A)) (fold fips_round [0..<24] (lane A))"
    using keccak_rounds [of "[0..<24]" A "replicate 25 0" "lane A"] A
    by (simp_all add: keccakf_def lanes_eq_def atLeast0LessThan del: upt_rec_numeral)
  show ?thesis
  proof (rule nth_equalityI)
    show "length (keccakf A) = length (fips_keccak_f A)" using r(1) by (simp add: fips_keccak_f_def)
    fix i
    assume "i < length (keccakf A)"
    then have i: "i < 25" "i mod 5 < 5" "i div 5 < 5" using r(1) by auto
    have "keccakf A ! i = lane (keccakf A) (i mod 5) (i div 5)" by (simp add: lane_def)
    then show "keccakf A ! i = fips_keccak_f A ! i" using r(2) i by (simp add: fips_keccak_f_def Let_def lanes_eq_def)
  qed
qed

subsection \<open>The sponge of FIPS 202\<close>

text \<open>A message is a string of bits, the least significant bit of every byte first, and bit \<open>z\<close> of lane \<open>i\<close> is bit
  \<open>64 i + z\<close> of that string.\<close>

definition fips_lane :: "bytes \<Rightarrow> nat \<Rightarrow> u64" where
  "fips_lane blk i = word_of_bits (\<lambda>z. bit (blk ! (8 * i + z div 8)) (z mod 8))"

definition fips_byte :: "u64 list \<Rightarrow> nat \<Rightarrow> u8" where
  "fips_byte A k = word_of_bits (\<lambda>z. bit (A ! (k div 8)) (8 * (k mod 8) + z))"

definition absorb_block :: "nat \<Rightarrow> u64 list \<Rightarrow> bytes \<Rightarrow> u64 list" where
  "absorb_block rate A blk =
     fips_keccak_f (map (\<lambda>i. if i < rate div 8 then A ! i XOR fips_lane blk i else A ! i) [0..<25])"

text \<open>The lanes after absorbing all complete blocks of a message, and the incomplete rest.\<close>

function sponge :: "nat \<Rightarrow> u64 list \<Rightarrow> bytes \<Rightarrow> u64 list \<times> bytes" where
  "sponge rate A m = (if rate = 0 \<or> length m < rate then (A, m) else sponge rate (absorb_block rate A (take rate m)) (drop rate m))"
  by pat_completeness auto
termination
  by (relation "measure (\<lambda>(rate, A, m). length m)") auto

declare sponge.simps [simp del]

definition sha3_pad :: "nat \<Rightarrow> bytes" where
  "sha3_pad q = (if q = 1 then [0x86] else [0x06] @ replicate (q - 2) 0 @ [0x80])"

definition fips_sha3_256 :: "bytes \<Rightarrow> bytes" where
  "fips_sha3_256 m = map (fips_byte (fst (sponge 136 (replicate 25 0) (m @ sha3_pad (136 - length m mod 136))))) [0..<32]"

lemma length_fips_sha3_256 [simp]: "length (fips_sha3_256 m) = 32"
  by (simp add: fips_sha3_256_def)

lemma fips_lane_read:
  assumes "8 * i + 8 \<le> length blk"
  shows "fips_lane blk i = ReadLE64 (drop (8 * i) blk)"
proof (rule bit_word_eqI)
  fix z assume "z < LENGTH(64)"
  then have z: "z < 64" "z div 8 < 8" by auto
  then show "bit (fips_lane blk i) z = bit (ReadLE64 (drop (8 * i) blk)) z" using assms
    by (simp add: fips_lane_def bit_word_of_bits ReadLE64_def le_word_def bit_of_nat_iff bit_le_val nth_append)
qed

lemma fips_byte_written:
  assumes "length A = 25"
  shows "map (fips_byte A) [0..<32] = concat (map (\<lambda>i. WriteLE64 (A ! i)) [0..<4])"
proof -
  have b: "fips_byte A (8 * i + j) = ucast (drop_bit (8 * j) (A ! i))" if "j < 8" for i j
    using that by (intro bit_word_eqI) (auto simp: fips_byte_def bit_word_of_bits bit_simps dest: bit_imp_le_length)
  have "[0..<32] = concat (map (\<lambda>i. map (\<lambda>j. 8 * i + j) [0..<8]) [0..<4])" by code_simp
  then have "map (fips_byte A) [0..<32] = concat (map (\<lambda>i. map (\<lambda>j. fips_byte A (8 * i + j)) [0..<8]) [0..<4])"
    by (simp add: map_concat o_def del: upt_rec_numeral)
  also have "\<dots> = concat (map (\<lambda>i. WriteLE64 (A ! i)) [0..<4])"
    unfolding WriteLE64_def le_bytes_def by (intro arg_cong [where f = concat] map_cong refl b) simp
  finally show ?thesis .
qed

lemma length_fips_keccak_f [simp]: "length (fips_keccak_f A) = 25"
  by (simp add: fips_keccak_f_def Let_def)

lemma length_absorb_block [simp]: "length (absorb_block rate A b) = 25"
  by (simp add: absorb_block_def)

lemma sponge_short: "length m < rate \<Longrightarrow> sponge rate A m = (A, m)"
  by (simp add: sponge.simps)

lemma sponge_length: "0 < rate \<Longrightarrow> length A = 25 \<Longrightarrow> length (snd (sponge rate A m)) = length m mod rate \<and> length (fst (sponge rate A m)) = 25"
proof (induction rate A m rule: sponge.induct)
  case (1 rate A m)
  then show ?case by (cases "length m < rate") (auto simp: sponge.simps [of rate A m] le_mod_geq)
qed

lemma sponge_append: "0 < rate \<Longrightarrow> sponge rate A (m @ m') = sponge rate (fst (sponge rate A m)) (snd (sponge rate A m) @ m')"
proof (induction rate A m rule: sponge.induct)
  case (1 rate A m)
  show ?case
  proof (cases "length m < rate")
    case False
    then show ?thesis using 1 by (simp add: sponge.simps [of rate A m] sponge.simps [of rate A "m @ m'"])
  qed (simp add: sponge_short)
qed

lemma sponge_block: "0 < rate \<Longrightarrow> length m = rate \<Longrightarrow> sponge rate A m = (absorb_block rate A m, [])"
  by (simp add: sponge.simps [of rate A m] sponge_short)

subsection \<open>The buffered state implements the sponge\<close>

definition ks_ok :: "keccakState \<Rightarrow> bool" where
  "ks_ok st \<longleftrightarrow> length (ks_A st) = 25 \<and> length (ks_buffer st) = blockLen st \<and> bufferLen st < blockLen st \<and> blockLen st \<le> 200"

definition ks_abs :: "keccakState \<Rightarrow> u64 list \<times> bytes" where
  "ks_abs st = (ks_A st, take (bufferLen st) (ks_buffer st))"

lemma xor_lanes: "k \<le> length A \<Longrightarrow>
  fold (\<lambda>i A. A[i := A ! i XOR f i]) [0..<k] A = map (\<lambda>i. if i < k then A ! i XOR f i else A ! i) [0..<length A]"
proof (rule nth_equalityI)
  fix j
  assume k: "k \<le> length A" and "j < length (fold (\<lambda>i A. A[i := A ! i XOR f i]) [0..<k] A)"
  then have j: "j < length A" by (simp add: fold_upd_length [where f = id, simplified])
  show "fold (\<lambda>i A. A[i := A ! i XOR f i]) [0..<k] A ! j = map (\<lambda>i. if i < k then A ! i XOR f i else A ! i) [0..<length A] ! j"
  proof (cases "j < k")
    case True
    with j k show ?thesis using fold_upd_nth [of id "[0..<k]" j A "\<lambda>i v. v XOR f i"] by simp
  next
    case False
    with j show ?thesis using fold_upd_other [of j id "[0..<k]" "\<lambda>i A. A ! i XOR f i" A] by simp
  qed
qed (simp add: fold_upd_length [where f = id, simplified])

lemma keccakProcessBuffer_absorb:
  assumes "length (ks_A st) = 25" "blockLen st \<le> 200" "length (ks_buffer st) = blockLen st"
  shows "keccakProcessBuffer st = st\<lparr>ks_A := absorb_block (blockLen st) (ks_A st) (ks_buffer st), bufferLen := 0\<rparr>"
proof -
  have "fips_lane (ks_buffer st) i = ReadLE64 (drop (8 * i) (ks_buffer st))" if "i < blockLen st div 8" for i
    using that assms(3) by (intro fips_lane_read) linarith
  moreover have "blockLen st div 8 \<le> 25" using assms(2) by simp
  ultimately show ?thesis using assms(1)
    by (simp add: keccakProcessBuffer_def xor_lanes keccakf_fips absorb_block_def cong: if_cong map_cong del: upt_rec_numeral)
qed

lemma keccakUpdate1_abs:
  assumes "ks_ok st"
  shows "ks_ok (keccakUpdate1 b st) \<and> blockLen (keccakUpdate1 b st) = blockLen st \<and> ks_length (keccakUpdate1 b st) = ks_length st \<and>
    ks_abs (keccakUpdate1 b st) = sponge (blockLen st) (ks_A st) (take (bufferLen st) (ks_buffer st) @ [b])"
proof -
  let ?st = "st\<lparr>ks_buffer := (ks_buffer st)[bufferLen st := b], bufferLen := bufferLen st + 1\<rparr>"
  have t: "take (bufferLen st + 1) ((ks_buffer st)[bufferLen st := b]) = take (bufferLen st) (ks_buffer st) @ [b]"
    using assms by (simp add: ks_ok_def take_Suc_conv_app_nth)
  show ?thesis
  proof (cases "bufferLen st + 1 = blockLen st")
    case True
    have "(ks_buffer st)[bufferLen st := b] = take (bufferLen st) (ks_buffer st) @ [b]"
      using t assms True by (simp add: ks_ok_def)
    moreover have "keccakUpdate1 b st = keccakProcessBuffer ?st" using True by (simp add: keccakUpdate1_def)
    ultimately show ?thesis
      using assms True keccakProcessBuffer_absorb [of ?st] sponge_block [of "blockLen st"]
      by (simp add: ks_ok_def ks_abs_def min_def)
  next
    case False
    then have "keccakUpdate1 b st = ?st" by (simp add: keccakUpdate1_def)
    with False assms t show ?thesis by (simp add: ks_ok_def ks_abs_def sponge_short)
  qed
qed

lemma fold_keccakUpdate1_abs:
  "ks_ok st \<Longrightarrow> ks_ok (fold keccakUpdate1 m st) \<and> blockLen (fold keccakUpdate1 m st) = blockLen st \<and>
    ks_length (fold keccakUpdate1 m st) = ks_length st \<and>
    ks_abs (fold keccakUpdate1 m st) = sponge (blockLen st) (ks_A st) (take (bufferLen st) (ks_buffer st) @ m)"
proof (induction m arbitrary: st)
  case Nil
  then show ?case by (simp add: ks_abs_def ks_ok_def sponge_short)
next
  case (Cons b m)
  note u = keccakUpdate1_abs [OF Cons.prems, of b]
  let ?u = "keccakUpdate1 b st" and ?s = "sponge (blockLen st) (ks_A st) (take (bufferLen st) (ks_buffer st) @ [b])"
  have f: "fst ?s = ks_A ?u" "snd ?s = take (bufferLen ?u) (ks_buffer ?u)" using u by (simp_all add: ks_abs_def prod_eq_iff)
  have "sponge (blockLen st) (ks_A st) ((take (bufferLen st) (ks_buffer st) @ [b]) @ m) =
      sponge (blockLen st) (ks_A ?u) (take (bufferLen ?u) (ks_buffer ?u) @ m)"
    unfolding f [symmetric] by (rule sponge_append) (use Cons.prems in \<open>simp add: ks_ok_def\<close>)
  with Cons.IH [of ?u] u show ?case by simp
qed

text \<open>Copying a run of input bytes into the buffer is feeding them one by one.\<close>

definition fill :: "nat \<Rightarrow> bytes \<Rightarrow> keccakState \<Rightarrow> keccakState" where
  "fill k input st = st\<lparr>ks_buffer := fold (\<lambda>i b. b[bufferLen st + i := input ! i]) [0..<k] (ks_buffer st),
     bufferLen := bufferLen st + k\<rparr>"

lemma fill_Suc: "fill (Suc k) input st = (let s = fill k input st in
    s\<lparr>ks_buffer := (ks_buffer s)[bufferLen s := input ! k], bufferLen := bufferLen s + 1\<rparr>)"
  by (simp add: fill_def)

lemma fill_sel [simp]: "bufferLen (fill k input st) = bufferLen st + k" "blockLen (fill k input st) = blockLen st"
  by (simp_all add: fill_def)

lemma fold_keccakUpdate1_fill:
  "k \<le> length input \<Longrightarrow> bufferLen st + k < blockLen st \<Longrightarrow> fold keccakUpdate1 (take k input) st = fill k input st"
proof (induction k)
  case 0
  show ?case by (simp add: fill_def)
next
  case (Suc k)
  then have "fold keccakUpdate1 (take (Suc k) input) st = keccakUpdate1 (input ! k) (fill k input st)"
    by (simp add: take_Suc_conv_app_nth)
  also have "\<dots> = fill (Suc k) input st" using Suc.prems by (simp add: keccakUpdate1_def fill_Suc Let_def)
  finally show ?case .
qed

lemma fold_keccakUpdate1_run:
  assumes "0 < k" "k \<le> length input" "bufferLen st + k \<le> blockLen st"
  shows "fold keccakUpdate1 (take k input) st =
    (if bufferLen st + k = blockLen st then keccakProcessBuffer (fill k input st) else fill k input st)"
proof (cases k)
  case (Suc j)
  then have "fold keccakUpdate1 (take k input) st = keccakUpdate1 (input ! j) (fill j input st)"
    using fold_keccakUpdate1_fill [of j input st] assms by (simp add: take_Suc_conv_app_nth)
  also have "\<dots> = (if bufferLen st + k = blockLen st then keccakProcessBuffer (fill k input st) else fill k input st)"
    unfolding Suc by (simp add: keccakUpdate1_def fill_Suc Let_def)
  finally show ?thesis .
qed (use assms in simp)

lemma keccakUpdate_bytewise:
  "ks_ok st \<Longrightarrow> length input \<le> fuel \<Longrightarrow> keccakUpdate_loop fuel input st = Some (fold keccakUpdate1 input st)"
proof (induction fuel arbitrary: input st)
  case 0
  then show ?case by (simp add: keccakUpdate_loop.simps)
next
  case (Suc f)
  show ?case
  proof (cases "input = []")
    case False
    define k where "k = (if blockLen st - bufferLen st > length input then length input else blockLen st - bufferLen st)"
    define st' where "st' = fold keccakUpdate1 (take k input) st"
    have k: "0 < k" "k \<le> length input" "bufferLen st + k \<le> blockLen st"
      using False Suc.prems(1) by (auto simp: k_def ks_ok_def)
    have "keccakUpdate_loop (Suc f) input st = keccakUpdate_loop f (drop k input) st'"
      using False fold_keccakUpdate1_run [OF k]
      by (simp add: keccakUpdate_loop.simps [of "Suc f"] Let_def st'_def fill_def flip: k_def)
    also have "\<dots> = Some (fold keccakUpdate1 (drop k input) st')"
    proof (rule Suc.IH)
      show "ks_ok st'" using fold_keccakUpdate1_abs [OF Suc.prems(1)] by (simp add: st'_def)
      show "length (drop k input) \<le> f" using k(1) Suc.prems(2) by simp
    qed
    also have "fold keccakUpdate1 (drop k input) st' = fold keccakUpdate1 input st"
      unfolding st'_def by (metis append_take_drop_id fold_append o_apply)
    finally show ?thesis .
  qed (simp add: keccakUpdate_loop.simps)
qed

lemma CSHA3_Write_loop_bytewise:
  assumes "ks_ok st" "unat pos \<le> length dat" "length dat < 2 ^ 32"
  shows "CSHA3_Write_loop dat pos st = Some (fold keccakUpdate1 (drop (unat pos) dat) st)"
  using assms
proof (induction "length dat - unat pos" arbitrary: pos st rule: less_induct)
  case less
  let ?d = "drop (unat pos) dat" and ?n = "length dat - unat pos"
  let ?k = "if ?n < 4096 then ?n else 4096"
  have u: "keccakUpdate (take ?k ?d) st = Some (fold keccakUpdate1 (take ?k ?d) st)"
    unfolding keccakUpdate_def by (rule keccakUpdate_bytewise [OF less.prems(1)]) simp
  show ?case
  proof (cases "?n < 4096")
    case True
    then show ?thesis using u by (simp add: CSHA3_Write_loop.simps [of dat] Let_def)
  next
    case False
    then have p: "unat (pos + 4096) = unat pos + 4096"
      using less.prems(3) by (simp add: unat_word_ariths)
    have "CSHA3_Write_loop dat pos st = CSHA3_Write_loop dat (pos + 4096) (fold keccakUpdate1 (take 4096 ?d) st)"
      using u False by (simp add: CSHA3_Write_loop.simps [of dat pos] Let_def)
    also have "\<dots> = Some (fold keccakUpdate1 (drop (unat pos + 4096) dat) (fold keccakUpdate1 (take 4096 ?d) st))"
      using less.hyps [of "pos + 4096" "fold keccakUpdate1 (take 4096 ?d) st"] less.prems False p
        fold_keccakUpdate1_abs [OF less.prems(1), of "take 4096 ?d"] by simp
    also have "\<dots> = Some (fold keccakUpdate1 (take 4096 ?d @ drop 4096 ?d) st)" by (simp add: add.commute)
    finally show ?thesis by (simp only: append_take_drop_id)
  qed
qed

lemma CSHA3_Write_bytewise: "ks_ok st \<Longrightarrow> length dat < 2 ^ 32 \<Longrightarrow> CSHA3_Write dat st = Some (fold keccakUpdate1 dat st)"
  by (simp add: CSHA3_Write_def CSHA3_Write_loop_bytewise)

text \<open>With 4 GiB or more the position comes back to zero before fewer than 4096 bytes are left.\<close>

lemma CSHA3_Write_loop_short:
  assumes "CSHA3_Write_loop dat pos st = Some st'"
  shows "4096 dvd unat pos \<longrightarrow> length dat < 2 ^ 32"
proof (rule CSHA3_Write_loop.raw_induct [where P = "\<lambda>dat pos st st'. 4096 dvd unat pos \<longrightarrow> length dat < 2 ^ 32", OF _ assms])
  fix f and dat :: bytes and pos :: u32 and st st' :: keccakState
  assume IH: "\<And>dat pos st st'. f dat pos st = Some st' \<Longrightarrow> 4096 dvd unat pos \<longrightarrow> length dat < 2 ^ 32"
    and eq: "(let bytesRead = if length dat - unat pos < 4096 then length dat - unat pos else 4096
       in case keccakUpdate (take bytesRead (drop (unat pos) dat)) st of None \<Rightarrow> None
          | Some st' \<Rightarrow> if bytesRead < 4096 then Some st' else f dat (pos + of_nat bytesRead) st') = Some st'"
  show "4096 dvd unat pos \<longrightarrow> length dat < 2 ^ 32"
  proof
    assume d: "4096 dvd unat pos"
    show "length dat < 2 ^ 32"
    proof (cases "length dat - unat pos < 4096")
      case True
      obtain k where "unat pos = 4096 * k" using d by blast
      moreover have "unat pos < 2 ^ 32" using unsigned_less [of pos] by simp
      ultimately have "unat pos + 4096 \<le> 2 ^ 32" by simp
      then show ?thesis using True by linarith
    next
      case False
      then obtain s where "f dat (pos + 4096) s = Some st'" using eq by (auto simp: Let_def split: option.splits)
      moreover have "4096 dvd unat (pos + 4096)" using d by (simp add: unat_word_ariths dvd_mod)
      ultimately show ?thesis using IH by blast
    qed
  qed
qed

lemma CSHA3_Write_stuck: "2 ^ 32 \<le> length dat \<Longrightarrow> CSHA3_Write dat st = None"
  using CSHA3_Write_loop_short [of dat 0 st] by (cases "CSHA3_Write dat st") (auto simp: CSHA3_Write_def)

subsection \<open>Padding and output\<close>

lemma fold_zero: "b \<le> length xs \<Longrightarrow> a \<le> b \<Longrightarrow>
  fold (\<lambda>i b. b[i := 0]) [a..<b] xs = take a xs @ replicate (b - a) 0 @ drop b xs"
proof (induction "b - a" arbitrary: b)
  case (Suc n)
  then obtain c where c: "b = Suc c" "a \<le> c" "n = c - a" by (cases b) auto
  have "fold (\<lambda>i b. b[i := 0]) [a..<b] xs = (take a xs @ replicate (c - a) 0 @ drop c xs)[c := 0]"
    using Suc.hyps(1) [of c] Suc.prems c by simp
  also have "\<dots> = take a xs @ replicate (c - a) 0 @ (drop c xs)[0 := 0]"
    using Suc.prems c by (simp add: list_update_append)
  also have "(drop c xs)[0 := 0] = 0 # drop b xs"
    using Suc.prems c by (simp add: Cons_nth_drop_Suc [symmetric])
  finally show ?case using c by (simp add: Suc_diff_le replicate_append_same)
qed simp

lemma sha3AddPadding_buffer:
  assumes "ks_ok st"
  shows "ks_buffer (sha3AddPadding st) = take (bufferLen st) (ks_buffer st) @ sha3_pad (blockLen st - bufferLen st)"
    and "ks_A (sha3AddPadding st) = ks_A st" "blockLen (sha3AddPadding st) = blockLen st"
proof -
  let ?n = "bufferLen st" and ?r = "blockLen st" and ?b = "ks_buffer st"
  have n: "?n < ?r" "length ?b = ?r" using assms by (auto simp: ks_ok_def)
  show "ks_A (sha3AddPadding st) = ks_A st" "blockLen (sha3AddPadding st) = ?r"
    by (simp_all add: sha3AddPadding_def add_padding_def)
  show "ks_buffer (sha3AddPadding st) = take ?n ?b @ sha3_pad (?r - ?n)"
  proof (cases "?n + 1 = ?r")
    case True
    then have "?b[?n := 0x86] = take ?n ?b @ [0x86]" using n by (simp add: upd_conv_take_nth_drop)
    with True show ?thesis using n by (auto simp: sha3AddPadding_def add_padding_def sha3_pad_def)
  next
    case False
    let ?c = "?b[?n := 0x06]"
    let ?pre = "take ?n ?b @ [0x06] @ replicate (?r - 1 - (?n + 1)) 0"
    have t: "take (?n + 1) ?c = take ?n ?b @ [0x06]" using n by (simp add: take_Suc_conv_app_nth)
    have "length (drop (?r - 1) ?c) = 1" using n by simp
    then obtain z where z: "drop (?r - 1) ?c = [z]" by (metis One_nat_def length_0_conv length_Suc_conv)
    have "fold (\<lambda>i b. b[i := 0]) [?n + 1..<?r - 1] ?c = ?pre @ [z]"
      using fold_zero [of "?r - 1" ?c "?n + 1"] n False unfolding t z by simp
    moreover have "length ?pre = ?r - 1" using n False by simp
    ultimately have "(fold (\<lambda>i b. b[i := 0]) [?n + 1..<?r - 1] ?c)[?r - 1 := 0x80] = ?pre @ [0x80]"
      using list_update_length [of ?pre z "[]" "0x80"] by simp
    moreover have "?r - 1 - (?n + 1) = ?r - ?n - 2" by simp
    ultimately show ?thesis using False n by (auto simp: sha3AddPadding_def add_padding_def sha3_pad_def)
  qed
qed

lemma length_sha3_pad: "0 < q \<Longrightarrow> length (sha3_pad q) = q"
  by (auto simp: sha3_pad_def)

lemma ucast_and_255: "(ucast (x AND 0xFF :: u64) :: u8) = ucast x"
proof (rule bit_word_eqI)
  fix n
  assume "n < LENGTH(8)"
  then show "bit (ucast (x AND 0xFF :: u64) :: u8) n = bit (ucast x :: u8) n"
    using bit_mask_iff [where 'a = u64, of 8 n] by (auto simp: bit_ucast_iff bit_and_iff mask_eq_exp_minus_1)
qed

lemma digest_out:
  assumes "length (ks_A st1) = 25"
  shows "concat (map (\<lambda>i. map (\<lambda>j. ucast (drop_bit (8 * j) (ks_A st1 ! i) AND 0xFF :: u64) :: u8) [0..<8]) [0..<4]) =
    map (fips_byte (ks_A st1)) [0..<32]"
  unfolding fips_byte_written [OF assms] WriteLE64_def le_bytes_def ucast_and_255 ..

lemma sha3_refines:
  assumes "ks_ok st" "blockLen st = 136" "ks_length st = 256" "ks_abs st = sponge 136 (replicate 25 0) m"
  shows "CSHA3_Finalize st = fips_sha3_256 m"
proof -
  let ?A = "fst (sponge 136 (replicate 25 0) m)" and ?p = "snd (sponge 136 (replicate 25 0) m)"
  have a: "ks_A st = ?A" "take (bufferLen st) (ks_buffer st) = ?p" using assms(4) by (simp_all add: ks_abs_def prod_eq_iff)
  have l: "length ?p = length m mod 136" using sponge_length [of 136 "replicate 25 0" m] by simp
  have "length (take (bufferLen st) (ks_buffer st)) = bufferLen st" using assms(1) by (simp add: ks_ok_def)
  then have bl: "bufferLen st = length m mod 136" using l unfolding a(2) by simp
  let ?pad = "sha3_pad (136 - length m mod 136)"
  note pb = sha3AddPadding_buffer [OF assms(1), unfolded assms(2) bl, folded bl]
  have "keccakProcessBuffer (sha3AddPadding st) = (sha3AddPadding st)\<lparr>ks_A := absorb_block 136 ?A (?p @ ?pad), bufferLen := 0\<rparr>"
    using keccakProcessBuffer_absorb [of "sha3AddPadding st"] pb assms(1,2) a bl l length_sha3_pad [of "136 - length m mod 136"]
    by (simp add: ks_ok_def)
  moreover have "sponge 136 (replicate 25 0) (m @ ?pad) = (absorb_block 136 ?A (?p @ ?pad), [])"
    using sponge_append [of 136 "replicate 25 0" m ?pad] sponge_block [of 136 "?p @ ?pad" ?A] l length_sha3_pad [of "136 - length m mod 136"]
    by simp
  ultimately show ?thesis
    using digest_out [of "keccakProcessBuffer (sha3AddPadding st)"] assms(3)
    by (simp add: CSHA3_Finalize_def sha3Digest_def digest_def fips_sha3_256_def Let_def del: upt_rec_numeral)
qed

lemma CSHA3_Init_ok: "ks_ok CSHA3_Init" "blockLen CSHA3_Init = 136" "ks_length CSHA3_Init = 256"
  "ks_A CSHA3_Init = replicate 25 0" "bufferLen CSHA3_Init = 0"
  by (simp_all add: CSHA3_Init_def keccakCreate_def ks_ok_def)

subsection \<open>Properties\<close>

text \<open>
  The unrolled permutation \<^verbatim>\<open>keccakf\<close>, with its tabulated rotation offsets and round constants, is
  the permutation Keccak-f[1600] of FIPS 202, whose offsets and constants are generated by their
  recurrences.
\<close>

theorem keccakf_is_fips202:
  assumes "length A = 25"
  shows "keccakf A = fips_keccak_f A"
  by (rule keccakf_fips [OF assms])

theorem keccakf_is_fips202_witness: "keccakf (replicate 25 0) = fips_keccak_f (replicate 25 0)"
  by (rule keccakf_is_fips202) simp

lemma CSHA3_writes:
  "ks_ok st \<Longrightarrow> (\<And>p. p \<in> set ps \<Longrightarrow> length p < 2 ^ 32) \<Longrightarrow>
    foldl (\<lambda>s p. Option.bind s (CSHA3_Write p)) (Some st) ps = Some (fold keccakUpdate1 (concat ps) st)"
proof (induction ps arbitrary: st)
  case (Cons p ps)
  have "ks_ok (fold keccakUpdate1 p st)" using fold_keccakUpdate1_abs [OF Cons.prems(1)] by blast
  with Cons show ?case by (simp add: CSHA3_Write_bytewise)
qed simp

lemma CSHA3_Finalize_sha3: "CSHA3_Finalize (fold keccakUpdate1 m CSHA3_Init) = fips_sha3_256 m"
  using fold_keccakUpdate1_abs [OF CSHA3_Init_ok(1), of m] CSHA3_Init_ok by (intro sha3_refines) simp_all

text \<open>
  C13. Feeding a message to the hasher in any number of pieces (each piece copied through a 4096-byte buffer and
  the block buffer) and finalizing gives SHA3-256 of the concatenated message as FIPS 202 defines it on strings of bits, if
  every piece is shorter than 4 GiB; every such update returns. An update with a longer piece never returns, because its
  32-bit position wraps.
\<close>

theorem CSHA3_is_sha3_256:
  assumes "\<And>p. p \<in> set ps \<Longrightarrow> length p < 2 ^ 32"
  shows "map_option CSHA3_Finalize (foldl (\<lambda>s p. Option.bind s (CSHA3_Write p)) (Some CSHA3_Init) ps) = Some (fips_sha3_256 (concat ps)) \<and>
    (2 ^ 32 \<le> length m \<longrightarrow> CSHA3_Write m st = None)"
  using CSHA3_writes [OF CSHA3_Init_ok(1) assms] CSHA3_Write_stuck by (simp add: CSHA3_Finalize_sha3)

theorem CSHA3_is_sha3_256_witness:
  "map_option CSHA3_Finalize (foldl (\<lambda>s p. Option.bind s (CSHA3_Write p)) (Some CSHA3_Init) [[1, 2], [], replicate 5000 3]) =
     Some (fips_sha3_256 ([1, 2] @ replicate 5000 3)) \<and>
   CSHA3_Write (replicate (2 ^ 32) 0) CSHA3_Init = None"
proof -
  have "length p < 2 ^ 32" if "p \<in> set [[1, 2], [], replicate 5000 3]" for p :: bytes using that by auto
  from CSHA3_is_sha3_256 [OF this, where m = "replicate (2 ^ 32) 0" and st = CSHA3_Init]
  show ?thesis by (simp only: concat.simps append_Nil append_Nil2 length_replicate order_refl simp_thms)
qed

end
