(* ===== verification/Md_Hash.thy ===== *)
theory Md_Hash
  imports Endian
begin

text \<open>
  Block hashes fed in pieces: the buffering that \<^verbatim>\<open>CSHA1\<close>, \<^verbatim>\<open>CSHA256\<close>, \<^verbatim>\<open>CSHA512\<close> and \<^verbatim>\<open>CRIPEMD160\<close>
  share. A hasher keeps the chaining state, a partial block and the number of bytes written. The
  contract \<open>streaming_hash\<close> says that writing is absorbing complete blocks and keeping the rest; from
  it alone follows that any split of the input gives the digest of the padded whole.
\<close>

subsection \<open>Absorbing complete blocks\<close>

function absorb :: "nat \<Rightarrow> ('s \<Rightarrow> bytes \<Rightarrow> 's) \<Rightarrow> 's \<Rightarrow> bytes \<Rightarrow> 's \<times> bytes" where
  "absorb B tr s m = (if B = 0 \<or> length m < B then (s, m) else absorb B tr (tr s (take B m)) (drop B m))"
  by pat_completeness auto
termination
  by (relation "measure (\<lambda>(B, tr, s, m). length m)") auto

declare absorb.simps [simp del]

lemma absorb_short: "length m < B \<Longrightarrow> absorb B tr s m = (s, m)"
  by (simp add: absorb.simps)

lemma absorb_long: "0 < B \<Longrightarrow> B \<le> length m \<Longrightarrow> absorb B tr s m = absorb B tr (tr s (take B m)) (drop B m)"
  by (simp add: absorb.simps [of B tr s m])

lemma absorb_append: "0 < B \<Longrightarrow> absorb B tr s (m @ m') = absorb B tr (fst (absorb B tr s m)) (snd (absorb B tr s m) @ m')"
proof (induction B tr s m rule: absorb.induct)
  case (1 B tr s m)
  show ?case
  proof (cases "length m < B")
    case False
    then show ?thesis using 1 by (simp add: absorb_long)
  qed (simp add: absorb_short)
qed

lemma absorb_rest: "0 < B \<Longrightarrow> length (snd (absorb B tr s m)) = length m mod B"
proof (induction B tr s m rule: absorb.induct)
  case (1 B tr s m)
  then show ?case by (cases "length m < B") (auto simp: absorb_short absorb_long le_mod_geq)
qed

subsection \<open>The contract\<close>

locale streaming_hash =
  fixes B :: nat
    and tr :: "'s \<Rightarrow> bytes \<Rightarrow> 's"
    and ok :: "'h \<Rightarrow> bool"
    and chain :: "'h \<Rightarrow> 's"
    and rest :: "'h \<Rightarrow> bytes"
    and written :: "'h \<Rightarrow> u64"
    and feed :: "bytes \<Rightarrow> 'h \<Rightarrow> 'h"
  assumes block_pos: "0 < B"
    and feed_ok: "ok h \<Longrightarrow> ok (feed d h)"
    and feed_absorb: "ok h \<Longrightarrow> (chain (feed d h), rest (feed d h)) = absorb B tr (chain h) (rest h @ d)"
    and feed_count: "ok h \<Longrightarrow> written (feed d h) = written h + of_nat (length d)"
    and rest_count: "ok h \<Longrightarrow> length (rest h) = unat (written h) mod B"
begin

text \<open>Feeding pieces is feeding their concatenation; padding leaves the chaining value of the padded whole.\<close>

lemma pieces:
  "ok h \<Longrightarrow> ok (fold feed ms h) \<and> written (fold feed ms h) = written h + of_nat (length (concat ms)) \<and>
     (chain (fold feed ms h), rest (fold feed ms h)) = absorb B tr (chain h) (rest h @ concat ms)"
proof (induction ms arbitrary: h)
  case Nil
  then show ?case using mod_less_divisor [OF block_pos, of "unat (written h)"] by (simp add: absorb_short rest_count)
next
  case (Cons m ms)
  have "absorb B tr (chain (feed m h)) (rest (feed m h) @ concat ms) = absorb B tr (chain h) ((rest h @ m) @ concat ms)"
    using absorb_append [OF block_pos, of tr "chain h" "rest h @ m"] by (simp add: feed_absorb [OF Cons.prems, symmetric])
  with Cons show ?case by (simp add: feed_ok feed_count add.assoc)
qed

lemma padded_digest:
  assumes h: "ok h" "rest h = []" "written h = 0"
  shows "chain (feed q (feed p (fold feed ms h))) = fst (absorb B tr (chain h) (concat ms @ p @ q))"
proof -
  have "chain (feed q (feed p (fold feed ms h))) = chain (fold feed (ms @ [p, q]) h)" by simp
  also have "\<dots> = fst (absorb B tr (chain h) (concat ms @ p @ q))"
    using pieces [OF h(1), of "ms @ [p, q]"] h(2) by (metis append.right_neutral append_Nil concat.simps concat_append fst_conv)
  finally show ?thesis .
qed

lemma count_from_start:
  assumes "ok h" "written h = 0"
  shows "written (fold feed ms h) = of_nat (length (concat ms))"
  using assms pieces by simp

end

subsection \<open>Buffered hashers\<close>

text \<open>The members of the four hasher classes: chaining state, buffer array, number of bytes written.\<close>

(* src/src/crypto/sha256.h:15-18 CSHA256 *)
record 'w hasher =
  hs_s :: "'w list"
  hs_buf :: bytes
  hs_bytes :: u64

definition memcpy :: "bytes \<Rightarrow> nat \<Rightarrow> bytes \<Rightarrow> bytes" where
  "memcpy buf off d = take off buf @ d @ drop (off + length d) buf"

text \<open>
  The three steps of \<^verbatim>\<open>Write\<close>: complete a partial block, process whole blocks from the source, keep the
  rest. \<open>B\<close> is the block size and \<open>tr\<close> the compression function of the class.
\<close>

(* src/src/crypto/sha1.cpp:157-165 CSHA1::Write *)
definition fill_buffer :: "nat \<Rightarrow> ('w list \<Rightarrow> bytes \<Rightarrow> 'w list) \<Rightarrow> bytes \<Rightarrow> 'w hasher \<Rightarrow> 'w hasher \<times> bytes \<times> nat" where
  "fill_buffer B tr data h =
     (let bufsize = unat (hs_bytes h) mod B
      in if bufsize \<noteq> 0 \<and> bufsize + length data \<ge> B
         then let buf = memcpy (hs_buf h) bufsize (take (B - bufsize) data)
              in (h\<lparr>hs_buf := buf, hs_bytes := hs_bytes h + of_nat (B - bufsize), hs_s := tr (hs_s h) buf\<rparr>,
                  drop (B - bufsize) data, 0)
         else (h, data, bufsize))"

(* src/src/crypto/sha1.cpp:166-171 CSHA1::Write *)
function whole_blocks :: "nat \<Rightarrow> ('w list \<Rightarrow> bytes \<Rightarrow> 'w list) \<Rightarrow> bytes \<Rightarrow> 'w hasher \<Rightarrow> 'w hasher \<times> bytes" where
  "whole_blocks B tr data h =
     (if 0 < B \<and> length data \<ge> B
      then whole_blocks B tr (drop B data) (h\<lparr>hs_s := tr (hs_s h) (take B data), hs_bytes := hs_bytes h + of_nat B\<rparr>)
      else (h, data))"
  by pat_completeness auto
termination
  by (relation "measure (\<lambda>(B, tr, data, h). length data)") auto

declare whole_blocks.simps [simp del]

(* src/src/crypto/sha1.cpp:172-176 CSHA1::Write *)
definition keep_rest :: "nat \<Rightarrow> bytes \<Rightarrow> 'w hasher \<Rightarrow> 'w hasher" where
  "keep_rest bufsize data h =
     (if data \<noteq> [] then h\<lparr>hs_buf := memcpy (hs_buf h) bufsize data, hs_bytes := hs_bytes h + of_nat (length data)\<rparr> else h)"

definition hasher_Write :: "nat \<Rightarrow> ('w list \<Rightarrow> bytes \<Rightarrow> 'w list) \<Rightarrow> bytes \<Rightarrow> 'w hasher \<Rightarrow> 'w hasher" where
  "hasher_Write B tr data h =
     (let (h1, data1, bufsize) = fill_buffer B tr data h;
          (h2, data2) = whole_blocks B tr data1 h1
      in keep_rest bufsize data2 h2)"

text \<open>A fresh buffer has unspecified contents; zeros stand for them.\<close>

definition hasher_start :: "nat \<Rightarrow> 'w list \<Rightarrow> 'w hasher" where
  "hasher_start B s = \<lparr>hs_s = s, hs_buf = replicate B 0, hs_bytes = 0\<rparr>"

subsection \<open>Buffered hashers satisfy the contract\<close>

definition hasher_ok :: "nat \<Rightarrow> 'w hasher \<Rightarrow> bool" where
  "hasher_ok B h \<longleftrightarrow> length (hs_buf h) = B"

definition hasher_rest :: "nat \<Rightarrow> 'w hasher \<Rightarrow> bytes" where
  "hasher_rest B h = take (unat (hs_bytes h) mod B) (hs_buf h)"

lemma length_memcpy: "off + length d \<le> length buf \<Longrightarrow> length (memcpy buf off d) = length buf"
  by (simp add: memcpy_def)

lemma unat_add_mod: "B dvd 2 ^ 64 \<Longrightarrow> unat (x + of_nat n :: u64) mod B = (unat x mod B + n) mod B"
  by (simp add: unat_word_ariths unat_of_nat mod_mod_cancel mod_simps)

lemma whole_blocks_absorb:
  "0 < B \<Longrightarrow> B dvd 2 ^ 64 \<Longrightarrow> whole_blocks B tr data h = (h', data') \<Longrightarrow>
     (hs_s h', data') = absorb B tr (hs_s h) data \<and> hs_buf h' = hs_buf h \<and> length data' < B \<and>
     hs_bytes h' = hs_bytes h + of_nat (length data - length data') \<and> length data' \<le> length data \<and>
     unat (hs_bytes h') mod B = unat (hs_bytes h) mod B"
proof (induction B tr data h rule: whole_blocks.induct)
  case (1 B tr data h)
  show ?case
  proof (cases "B \<le> length data")
    case True
    let ?h = "h\<lparr>hs_s := tr (hs_s h) (take B data), hs_bytes := hs_bytes h + of_nat B\<rparr>"
    have w: "whole_blocks B tr (drop B data) ?h = (h', data')"
      using "1.prems" True by (simp add: whole_blocks.simps [of B tr data h])
    note ih = "1.IH" [OF _ "1.prems"(1,2) w]
    have "of_nat B + of_nat (length data - B - length data') = (of_nat (length data - length data') :: u64)"
      if "length data' \<le> length data - B"
      unfolding of_nat_add [symmetric] by (rule arg_cong [of _ _ of_nat]) (use that True in simp)
    with ih True "1.prems"(1,2) show ?thesis by (auto simp: absorb_long unat_add_mod add.assoc)
  next
    case False
    with "1.prems" show ?thesis by (simp add: whole_blocks.simps [of B tr data h] absorb_short)
  qed
qed

lemma keep_rest_props:
  assumes "hasher_ok B h" "B dvd 2 ^ 64" "unat (hs_bytes h) mod B = k" "k + length d < B"
  shows "hasher_ok B (keep_rest k d h)" "hs_s (keep_rest k d h) = hs_s h"
    "hs_bytes (keep_rest k d h) = hs_bytes h + of_nat (length d)"
    "hasher_rest B (keep_rest k d h) = take k (hs_buf h) @ d"
proof -
  show "hasher_ok B (keep_rest k d h)" "hs_s (keep_rest k d h) = hs_s h"
    "hs_bytes (keep_rest k d h) = hs_bytes h + of_nat (length d)"
    using assms by (auto simp: keep_rest_def hasher_ok_def length_memcpy)
  have "unat (hs_bytes h + of_nat (length d)) mod B = k + length d"
    using assms by (simp add: unat_add_mod)
  then show "hasher_rest B (keep_rest k d h) = take k (hs_buf h) @ d"
    using assms by (auto simp: keep_rest_def hasher_rest_def hasher_ok_def memcpy_def)
qed

lemma fill_buffer_props:
  assumes B: "0 < B" "B dvd 2 ^ 64" and ok: "hasher_ok B h" and f: "fill_buffer B tr data h = (h1, data1, k)"
  shows "hasher_ok B h1" "k < B" "unat (hs_bytes h1) mod B = k" "length data1 \<le> length data"
    "hs_bytes h1 = hs_bytes h + of_nat (length data - length data1)"
    "k \<noteq> 0 \<Longrightarrow> length data1 + k < B"
    "absorb B tr (hs_s h1) (take k (hs_buf h1) @ data1) = absorb B tr (hs_s h) (hasher_rest B h @ data)"
proof -
  let ?k = "unat (hs_bytes h) mod B"
  have lt: "?k < B" using B(1) by simp
  have len: "length (hs_buf h) = B" using ok by (simp add: hasher_ok_def)
  have "hasher_ok B h1 \<and> k < B \<and> unat (hs_bytes h1) mod B = k \<and> length data1 \<le> length data \<and>
    hs_bytes h1 = hs_bytes h + of_nat (length data - length data1) \<and> (k \<noteq> 0 \<longrightarrow> length data1 + k < B) \<and>
    absorb B tr (hs_s h1) (take k (hs_buf h1) @ data1) = absorb B tr (hs_s h) (hasher_rest B h @ data)"
  proof (cases "?k \<noteq> 0 \<and> ?k + length data \<ge> B")
    case True
    let ?m = "memcpy (hs_buf h) ?k (take (B - ?k) data)"
    have "drop (?k + length (take (B - ?k) data)) (hs_buf h) = []" using True lt len by (simp only: drop_eq_Nil length_take) linarith
    then have m: "?m = take ?k (hs_buf h) @ take (B - ?k) data" by (simp only: memcpy_def append_Nil2)
    have d: "data1 = drop (B - ?k) data" "k = 0" "hs_s h1 = tr (hs_s h) ?m" "hs_buf h1 = ?m"
      "hs_bytes h1 = hs_bytes h + of_nat (B - ?k)"
      using f True by (auto simp: fill_buffer_def Let_def)
    have l: "length ?m = B" unfolding m length_append length_take len using True lt by linarith
    have "unat (hs_bytes h1) mod B = k" unfolding d unat_add_mod [OF B(2)] using lt by simp
    moreover have "absorb B tr (hs_s h) (hasher_rest B h @ data) = absorb B tr (tr (hs_s h) ?m) data1"
    proof -
      have s: "hasher_rest B h @ data = ?m @ data1" unfolding m d(1) hasher_rest_def by simp
      show ?thesis unfolding s using B(1) l by (subst absorb_long) simp_all
    qed
    moreover have "length data - length data1 = B - ?k" "length data1 \<le> length data" using True lt d(1) by auto
    moreover have "hasher_ok B h1" using l d(4) by (simp add: hasher_ok_def)
    ultimately show ?thesis using B(1) d(2,3,5) by (simp only: take_0 append_Nil simp_thms)
  next
    case False
    then have "fill_buffer B tr data h = (h, data, ?k)" by (simp only: fill_buffer_def Let_def if_False)
    then have "h1 = h" "data1 = data" "k = ?k" using f by auto
    moreover have "?k \<noteq> 0 \<longrightarrow> length data + ?k < B" using False by linarith
    ultimately show ?thesis using ok lt
      by (simp add: hasher_rest_def)
  qed
  then show "hasher_ok B h1" "k < B" "unat (hs_bytes h1) mod B = k" "length data1 \<le> length data"
    "hs_bytes h1 = hs_bytes h + of_nat (length data - length data1)"
    "k \<noteq> 0 \<Longrightarrow> length data1 + k < B"
    "absorb B tr (hs_s h1) (take k (hs_buf h1) @ data1) = absorb B tr (hs_s h) (hasher_rest B h @ data)"
    by blast+
qed

lemma hasher_Write_props:
  assumes B: "0 < B" "B dvd 2 ^ 64" and ok: "hasher_ok B h"
  shows "hasher_ok B (hasher_Write B tr d h)"
    and "(hs_s (hasher_Write B tr d h), hasher_rest B (hasher_Write B tr d h)) = absorb B tr (hs_s h) (hasher_rest B h @ d)"
    and "hs_bytes (hasher_Write B tr d h) = hs_bytes h + of_nat (length d)"
proof -
  obtain h1 d1 k where f: "fill_buffer B tr d h = (h1, d1, k)" by (cases "fill_buffer B tr d h")
  obtain h2 d2 where w: "whole_blocks B tr d1 h1 = (h2, d2)" by (cases "whole_blocks B tr d1 h1")
  have u: "hasher_Write B tr d h = keep_rest k d2 h2" by (simp add: hasher_Write_def f w)
  note fp = fill_buffer_props [OF B ok f]
  note wp = whole_blocks_absorb [OF B w]
  have k: "k + length d2 < B" using wp fp(2,6) by (cases "k = 0") auto
  have ok2: "hasher_ok B h2" using wp fp(1) by (simp add: hasher_ok_def)
  note kp = keep_rest_props [OF ok2 B(2) _ k]
  have "unat (hs_bytes h2) mod B = unat (hs_bytes h1) mod B" using wp by blast
  then have m: "unat (hs_bytes h2) mod B = k" unfolding fp(3) .
  show "hasher_ok B (hasher_Write B tr d h)" unfolding u by (rule kp [OF m])
  have "length d - length d1 + (length d1 - length d2) + length d2 = length d" using wp fp(4) by simp
  then show "hs_bytes (hasher_Write B tr d h) = hs_bytes h + of_nat (length d)"
    unfolding u kp(3) [OF m] using conjunct1 [OF conjunct2 [OF conjunct2 [OF conjunct2 [OF wp]]]] fp(5)
    by (simp only: add.assoc of_nat_add [symmetric])
  have "absorb B tr (hs_s h) (hasher_rest B h @ d) = (hs_s h2, take k (hs_buf h2) @ d2)"
  proof (cases "k = 0")
    case True
    then show ?thesis using fp(7) wp by simp
  next
    case False
    then have "length d1 < B" "length d1 + k < B" using fp(6) by auto
    then have "(hs_s h2, d2) = (hs_s h1, d1)" using wp by (simp add: absorb_short)
    with fp(7) [symmetric] wp \<open>length d1 + k < B\<close> show ?thesis by (simp add: absorb_short)
  qed
  then show "(hs_s (hasher_Write B tr d h), hasher_rest B (hasher_Write B tr d h)) = absorb B tr (hs_s h) (hasher_rest B h @ d)"
    unfolding u kp(2,4) [OF m] by simp
qed

lemma streaming_hasher:
  assumes "0 < B" "B dvd 2 ^ 64"
  shows "streaming_hash B tr (hasher_ok B) hs_s (hasher_rest B) hs_bytes (hasher_Write B tr)"
proof
  show "length (hasher_rest B h) = unat (hs_bytes h) mod B" if "hasher_ok B h" for h
    using that assms mod_less_divisor [of B "unat (hs_bytes h)"] by (simp add: hasher_rest_def hasher_ok_def)
qed (use assms hasher_Write_props [OF assms] in auto)

lemma hasher_start_ok: "hasher_ok B (hasher_start B s)" "hasher_rest B (hasher_start B s) = []"
  "hs_bytes (hasher_start B s) = 0" "hs_s (hasher_start B s) = s"
  by (simp_all add: hasher_start_def hasher_ok_def hasher_rest_def)

end
