(* ===== verification/Sha2.thy ===== *)
theory Sha2
  imports Md_Hash
begin

text \<open>
  SHA-256 and SHA-512 (\<^verbatim>\<open>src/src/crypto/sha256.cpp\<close>, \<^verbatim>\<open>src/src/crypto/sha512.cpp\<close>). The unrolled
  compression functions are transcribed line by line into tables: the registers passed to
  \<^verbatim>\<open>Round\<close> in that line, its constant, and the expression for the message word. The locale
  \<open>sha2_rounds\<close> proves once that such a program (registers renamed instead of shifted, message schedule
  in a ring of sixteen words) computes the compression function of FIPS 180-4.
\<close>

subsection \<open>SHA-256\<close>

(* src/src/crypto/sha256.cpp:28-28 Ch *)
definition sha256_Ch :: "u32 \<Rightarrow> u32 \<Rightarrow> u32 \<Rightarrow> u32" where
  "sha256_Ch x y z = z XOR (x AND (y XOR z))"

(* src/src/crypto/sha256.cpp:29-29 Maj *)
definition sha256_Maj :: "u32 \<Rightarrow> u32 \<Rightarrow> u32 \<Rightarrow> u32" where
  "sha256_Maj x y z = (x AND y) OR (z AND (x OR y))"

(* src/src/crypto/sha256.cpp:30-30 Sigma0 *)
definition sha256_Sigma0 :: "u32 \<Rightarrow> u32" where
  "sha256_Sigma0 x = (drop_bit 2 x OR push_bit 30 x) XOR (drop_bit 13 x OR push_bit 19 x) XOR (drop_bit 22 x OR push_bit 10 x)"

(* src/src/crypto/sha256.cpp:31-31 Sigma1 *)
definition sha256_Sigma1 :: "u32 \<Rightarrow> u32" where
  "sha256_Sigma1 x = (drop_bit 6 x OR push_bit 26 x) XOR (drop_bit 11 x OR push_bit 21 x) XOR (drop_bit 25 x OR push_bit 7 x)"

(* src/src/crypto/sha256.cpp:32-32 sigma0 *)
definition sha256_sigma0 :: "u32 \<Rightarrow> u32" where
  "sha256_sigma0 x = (drop_bit 7 x OR push_bit 25 x) XOR (drop_bit 18 x OR push_bit 14 x) XOR drop_bit 3 x"

(* src/src/crypto/sha256.cpp:33-33 sigma1 *)
definition sha256_sigma1 :: "u32 \<Rightarrow> u32" where
  "sha256_sigma1 x = (drop_bit 17 x OR push_bit 15 x) XOR (drop_bit 19 x OR push_bit 13 x) XOR drop_bit 10 x"

text \<open>\<^verbatim>\<open>Round\<close> assigns to its reference parameters \<open>d\<close> and \<open>h\<close>: the pair is their new values.\<close>

(* src/src/crypto/sha256.cpp:36-42 Round *)
definition sha256_Round :: "u32 \<Rightarrow> u32 \<Rightarrow> u32 \<Rightarrow> u32 \<Rightarrow> u32 \<Rightarrow> u32 \<Rightarrow> u32 \<Rightarrow> u32 \<Rightarrow> u32 \<Rightarrow> u32 \<Rightarrow> u32 \<times> u32" where
  "sha256_Round a b c d e f g h k w =
     (let t1 = h + sha256_Sigma1 e + sha256_Ch e f g + k + w;
          t2 = sha256_Sigma0 a + sha256_Maj a b c
      in (d + t1, t1 + t2))"

(* src/src/crypto/sha256.cpp:45-55 Initialize *)
definition sha256_Initialize :: "u32 list" where
  "sha256_Initialize = [0x6a09e667, 0xbb67ae85, 0x3c6ef372, 0xa54ff53a, 0x510e527f, 0x9b05688c, 0x1f83d9ab, 0x5be0cd19]"

text \<open>
  The last argument of a line: a word read from the chunk into \<open>w\<^sub>i\<close>, an update
  \<open>w\<^sub>i += sigma1(w\<^sub>j) + w\<^sub>k + sigma0(w\<^sub>l)\<close>, or the same sum without an assignment.
\<close>

datatype sha2_w = Load nat nat | Sched nat nat nat nat | Last nat nat nat nat

fun sha2_word :: "(bytes \<Rightarrow> 'a::len word) \<Rightarrow> ('a word \<Rightarrow> 'a word) \<Rightarrow> ('a word \<Rightarrow> 'a word) \<Rightarrow> bytes \<Rightarrow>
    sha2_w \<Rightarrow> 'a word list \<Rightarrow> 'a word \<times> 'a word list" where
  "sha2_word rd sg0 sg1 chunk (Load i off) w = (let x = rd (drop off chunk) in (x, w[i := x]))"
| "sha2_word rd sg0 sg1 chunk (Sched i j k l) w = (let x = w ! i + (sg1 (w ! j) + w ! k + sg0 (w ! l)) in (x, w[i := x]))"
| "sha2_word rd sg0 sg1 chunk (Last i j k l) w = (w ! i + sg1 (w ! j) + w ! k + sg0 (w ! l), w)"

text \<open>One line: the registers are numbered, \<open>a\<close> is 0 and \<open>h\<close> is 7.\<close>

definition sha2_step :: "('a::len word \<Rightarrow> 'a word \<Rightarrow> 'a word \<Rightarrow> 'a word \<Rightarrow> 'a word \<Rightarrow> 'a word \<Rightarrow> 'a word \<Rightarrow> 'a word \<Rightarrow>
      'a word \<Rightarrow> 'a word \<Rightarrow> 'a word \<times> 'a word) \<Rightarrow> (sha2_w \<Rightarrow> 'a word list \<Rightarrow> 'a word \<times> 'a word list) \<Rightarrow>
    nat list \<times> 'a word \<times> sha2_w \<Rightarrow> 'a word list \<times> 'a word list \<Rightarrow> 'a word list \<times> 'a word list" where
  "sha2_step Round word line rw =
     (let (ix, k, e) = line; (r, w) = rw; (x, w') = word e w;
          (d, h) = Round (r ! (ix ! 0)) (r ! (ix ! 1)) (r ! (ix ! 2)) (r ! (ix ! 3)) (r ! (ix ! 4)) (r ! (ix ! 5))
                     (r ! (ix ! 6)) (r ! (ix ! 7)) k x
      in (r[ix ! 3 := d, ix ! 7 := h], w'))"

(* src/src/crypto/sha256.cpp:64-130 Transform *)
definition sha256_lines :: "(nat list \<times> u32 \<times> sha2_w) list" where
  "sha256_lines =
     [([0, 1, 2, 3, 4, 5, 6, 7], 0x428a2f98, Load 0 0), ([7, 0, 1, 2, 3, 4, 5, 6], 0x71374491, Load 1 4),
      ([6, 7, 0, 1, 2, 3, 4, 5], 0xb5c0fbcf, Load 2 8), ([5, 6, 7, 0, 1, 2, 3, 4], 0xe9b5dba5, Load 3 12),
      ([4, 5, 6, 7, 0, 1, 2, 3], 0x3956c25b, Load 4 16), ([3, 4, 5, 6, 7, 0, 1, 2], 0x59f111f1, Load 5 20),
      ([2, 3, 4, 5, 6, 7, 0, 1], 0x923f82a4, Load 6 24), ([1, 2, 3, 4, 5, 6, 7, 0], 0xab1c5ed5, Load 7 28),
      ([0, 1, 2, 3, 4, 5, 6, 7], 0xd807aa98, Load 8 32), ([7, 0, 1, 2, 3, 4, 5, 6], 0x12835b01, Load 9 36),
      ([6, 7, 0, 1, 2, 3, 4, 5], 0x243185be, Load 10 40), ([5, 6, 7, 0, 1, 2, 3, 4], 0x550c7dc3, Load 11 44),
      ([4, 5, 6, 7, 0, 1, 2, 3], 0x72be5d74, Load 12 48), ([3, 4, 5, 6, 7, 0, 1, 2], 0x80deb1fe, Load 13 52),
      ([2, 3, 4, 5, 6, 7, 0, 1], 0x9bdc06a7, Load 14 56), ([1, 2, 3, 4, 5, 6, 7, 0], 0xc19bf174, Load 15 60),
      ([0, 1, 2, 3, 4, 5, 6, 7], 0xe49b69c1, Sched 0 14 9 1), ([7, 0, 1, 2, 3, 4, 5, 6], 0xefbe4786, Sched 1 15 10 2),
      ([6, 7, 0, 1, 2, 3, 4, 5], 0x0fc19dc6, Sched 2 0 11 3), ([5, 6, 7, 0, 1, 2, 3, 4], 0x240ca1cc, Sched 3 1 12 4),
      ([4, 5, 6, 7, 0, 1, 2, 3], 0x2de92c6f, Sched 4 2 13 5), ([3, 4, 5, 6, 7, 0, 1, 2], 0x4a7484aa, Sched 5 3 14 6),
      ([2, 3, 4, 5, 6, 7, 0, 1], 0x5cb0a9dc, Sched 6 4 15 7), ([1, 2, 3, 4, 5, 6, 7, 0], 0x76f988da, Sched 7 5 0 8),
      ([0, 1, 2, 3, 4, 5, 6, 7], 0x983e5152, Sched 8 6 1 9), ([7, 0, 1, 2, 3, 4, 5, 6], 0xa831c66d, Sched 9 7 2 10),
      ([6, 7, 0, 1, 2, 3, 4, 5], 0xb00327c8, Sched 10 8 3 11), ([5, 6, 7, 0, 1, 2, 3, 4], 0xbf597fc7, Sched 11 9 4 12),
      ([4, 5, 6, 7, 0, 1, 2, 3], 0xc6e00bf3, Sched 12 10 5 13), ([3, 4, 5, 6, 7, 0, 1, 2], 0xd5a79147, Sched 13 11 6 14),
      ([2, 3, 4, 5, 6, 7, 0, 1], 0x06ca6351, Sched 14 12 7 15), ([1, 2, 3, 4, 5, 6, 7, 0], 0x14292967, Sched 15 13 8 0),
      ([0, 1, 2, 3, 4, 5, 6, 7], 0x27b70a85, Sched 0 14 9 1), ([7, 0, 1, 2, 3, 4, 5, 6], 0x2e1b2138, Sched 1 15 10 2),
      ([6, 7, 0, 1, 2, 3, 4, 5], 0x4d2c6dfc, Sched 2 0 11 3), ([5, 6, 7, 0, 1, 2, 3, 4], 0x53380d13, Sched 3 1 12 4),
      ([4, 5, 6, 7, 0, 1, 2, 3], 0x650a7354, Sched 4 2 13 5), ([3, 4, 5, 6, 7, 0, 1, 2], 0x766a0abb, Sched 5 3 14 6),
      ([2, 3, 4, 5, 6, 7, 0, 1], 0x81c2c92e, Sched 6 4 15 7), ([1, 2, 3, 4, 5, 6, 7, 0], 0x92722c85, Sched 7 5 0 8),
      ([0, 1, 2, 3, 4, 5, 6, 7], 0xa2bfe8a1, Sched 8 6 1 9), ([7, 0, 1, 2, 3, 4, 5, 6], 0xa81a664b, Sched 9 7 2 10),
      ([6, 7, 0, 1, 2, 3, 4, 5], 0xc24b8b70, Sched 10 8 3 11), ([5, 6, 7, 0, 1, 2, 3, 4], 0xc76c51a3, Sched 11 9 4 12),
      ([4, 5, 6, 7, 0, 1, 2, 3], 0xd192e819, Sched 12 10 5 13), ([3, 4, 5, 6, 7, 0, 1, 2], 0xd6990624, Sched 13 11 6 14),
      ([2, 3, 4, 5, 6, 7, 0, 1], 0xf40e3585, Sched 14 12 7 15), ([1, 2, 3, 4, 5, 6, 7, 0], 0x106aa070, Sched 15 13 8 0),
      ([0, 1, 2, 3, 4, 5, 6, 7], 0x19a4c116, Sched 0 14 9 1), ([7, 0, 1, 2, 3, 4, 5, 6], 0x1e376c08, Sched 1 15 10 2),
      ([6, 7, 0, 1, 2, 3, 4, 5], 0x2748774c, Sched 2 0 11 3), ([5, 6, 7, 0, 1, 2, 3, 4], 0x34b0bcb5, Sched 3 1 12 4),
      ([4, 5, 6, 7, 0, 1, 2, 3], 0x391c0cb3, Sched 4 2 13 5), ([3, 4, 5, 6, 7, 0, 1, 2], 0x4ed8aa4a, Sched 5 3 14 6),
      ([2, 3, 4, 5, 6, 7, 0, 1], 0x5b9cca4f, Sched 6 4 15 7), ([1, 2, 3, 4, 5, 6, 7, 0], 0x682e6ff3, Sched 7 5 0 8),
      ([0, 1, 2, 3, 4, 5, 6, 7], 0x748f82ee, Sched 8 6 1 9), ([7, 0, 1, 2, 3, 4, 5, 6], 0x78a5636f, Sched 9 7 2 10),
      ([6, 7, 0, 1, 2, 3, 4, 5], 0x84c87814, Sched 10 8 3 11), ([5, 6, 7, 0, 1, 2, 3, 4], 0x8cc70208, Sched 11 9 4 12),
      ([4, 5, 6, 7, 0, 1, 2, 3], 0x90befffa, Sched 12 10 5 13), ([3, 4, 5, 6, 7, 0, 1, 2], 0xa4506ceb, Sched 13 11 6 14),
      ([2, 3, 4, 5, 6, 7, 0, 1], 0xbef9a3f7, Last 14 12 7 15), ([1, 2, 3, 4, 5, 6, 7, 0], 0xc67178f2, Last 15 13 8 0)]"

(* src/src/crypto/sha256.cpp:61-139 Transform *)
definition sha256_block :: "u32 list \<Rightarrow> bytes \<Rightarrow> u32 list" where
  "sha256_block s chunk =
     map2 (+) s (fst (fold (sha2_step sha256_Round (sha2_word ReadBE32 sha256_sigma0 sha256_sigma1 chunk))
       sha256_lines (s, replicate 16 0)))"

(* src/src/crypto/sha256.cpp:58-142 Transform *)
fun sha256_Transform :: "u32 list \<Rightarrow> bytes \<Rightarrow> nat \<Rightarrow> u32 list" where
  "sha256_Transform s chunk 0 = s"
| "sha256_Transform s chunk (Suc blocks) = sha256_Transform (sha256_block s chunk) (drop 64 chunk) blocks"

(* src/src/crypto/sha256.cpp:196-199 CSHA256::CSHA256 *)
definition CSHA256_Init :: "u32 hasher" where
  "CSHA256_Init = hasher_start 64 sha256_Initialize"

(* src/src/crypto/sha256.cpp:201-225 CSHA256::Write *)
definition CSHA256_Write :: "bytes \<Rightarrow> u32 hasher \<Rightarrow> u32 hasher" where
  "CSHA256_Write data0 h0 =
     (let (h1, data1, bufsize) = fill_buffer 64 (\<lambda>s b. sha256_Transform s b 1) data0 h0;
          (h2, data2) =
            (if length data1 \<ge> 64
             then let blocks = length data1 div 64
                  in (h1\<lparr>hs_s := sha256_Transform (hs_s h1) data1 blocks, hs_bytes := hs_bytes h1 + of_nat (64 * blocks)\<rparr>,
                      drop (64 * blocks) data1)
             else (h1, data1))
      in keep_rest bufsize data2 h2)"

(* src/src/crypto/sha256.cpp:227-242 CSHA256::Finalize *)
definition CSHA256_Finalize :: "u32 hasher \<Rightarrow> bytes" where
  "CSHA256_Finalize h =
     (let sizedesc = WriteBE64 (push_bit 3 (hs_bytes h));
          h1 = CSHA256_Write (take (1 + (119 - unat (hs_bytes h) mod 64) mod 64) (0x80 # replicate 63 0)) h;
          h2 = CSHA256_Write sizedesc h1
      in concat (map WriteBE32 (hs_s h2)))"

(* src/src/crypto/sha256.cpp:244-249 CSHA256::Reset *)
definition CSHA256_Reset :: "u32 hasher \<Rightarrow> u32 hasher" where
  "CSHA256_Reset h = h\<lparr>hs_bytes := 0, hs_s := sha256_Initialize\<rparr>"

subsection \<open>SHA-512\<close>

(* src/src/crypto/sha512.cpp:17-17 Ch *)
definition sha512_Ch :: "u64 \<Rightarrow> u64 \<Rightarrow> u64 \<Rightarrow> u64" where
  "sha512_Ch x y z = z XOR (x AND (y XOR z))"

(* src/src/crypto/sha512.cpp:18-18 Maj *)
definition sha512_Maj :: "u64 \<Rightarrow> u64 \<Rightarrow> u64 \<Rightarrow> u64" where
  "sha512_Maj x y z = (x AND y) OR (z AND (x OR y))"

(* src/src/crypto/sha512.cpp:19-19 Sigma0 *)
definition sha512_Sigma0 :: "u64 \<Rightarrow> u64" where
  "sha512_Sigma0 x = (drop_bit 28 x OR push_bit 36 x) XOR (drop_bit 34 x OR push_bit 30 x) XOR (drop_bit 39 x OR push_bit 25 x)"

(* src/src/crypto/sha512.cpp:20-20 Sigma1 *)
definition sha512_Sigma1 :: "u64 \<Rightarrow> u64" where
  "sha512_Sigma1 x = (drop_bit 14 x OR push_bit 50 x) XOR (drop_bit 18 x OR push_bit 46 x) XOR (drop_bit 41 x OR push_bit 23 x)"

(* src/src/crypto/sha512.cpp:21-21 sigma0 *)
definition sha512_sigma0 :: "u64 \<Rightarrow> u64" where
  "sha512_sigma0 x = (drop_bit 1 x OR push_bit 63 x) XOR (drop_bit 8 x OR push_bit 56 x) XOR drop_bit 7 x"

(* src/src/crypto/sha512.cpp:22-22 sigma1 *)
definition sha512_sigma1 :: "u64 \<Rightarrow> u64" where
  "sha512_sigma1 x = (drop_bit 19 x OR push_bit 45 x) XOR (drop_bit 61 x OR push_bit 3 x) XOR drop_bit 6 x"

(* src/src/crypto/sha512.cpp:25-31 Round *)
definition sha512_Round :: "u64 \<Rightarrow> u64 \<Rightarrow> u64 \<Rightarrow> u64 \<Rightarrow> u64 \<Rightarrow> u64 \<Rightarrow> u64 \<Rightarrow> u64 \<Rightarrow> u64 \<Rightarrow> u64 \<Rightarrow> u64 \<times> u64" where
  "sha512_Round a b c d e f g h k w =
     (let t1 = h + sha512_Sigma1 e + sha512_Ch e f g + k + w;
          t2 = sha512_Sigma0 a + sha512_Maj a b c
      in (d + t1, t1 + t2))"

(* src/src/crypto/sha512.cpp:34-44 Initialize *)
definition sha512_Initialize :: "u64 list" where
  "sha512_Initialize =
     [0x6a09e667f3bcc908, 0xbb67ae8584caa73b, 0x3c6ef372fe94f82b, 0xa54ff53a5f1d36f1,
      0x510e527fade682d1, 0x9b05688c2b3e6c1f, 0x1f83d9abfb41bd6b, 0x5be0cd19137e2179]"

(* src/src/crypto/sha512.cpp:52-135 Transform *)
definition sha512_lines :: "(nat list \<times> u64 \<times> sha2_w) list" where
  "sha512_lines =
     [([0, 1, 2, 3, 4, 5, 6, 7], 0x428a2f98d728ae22, Load 0 0), ([7, 0, 1, 2, 3, 4, 5, 6], 0x7137449123ef65cd, Load 1 8),
      ([6, 7, 0, 1, 2, 3, 4, 5], 0xb5c0fbcfec4d3b2f, Load 2 16), ([5, 6, 7, 0, 1, 2, 3, 4], 0xe9b5dba58189dbbc, Load 3 24),
      ([4, 5, 6, 7, 0, 1, 2, 3], 0x3956c25bf348b538, Load 4 32), ([3, 4, 5, 6, 7, 0, 1, 2], 0x59f111f1b605d019, Load 5 40),
      ([2, 3, 4, 5, 6, 7, 0, 1], 0x923f82a4af194f9b, Load 6 48), ([1, 2, 3, 4, 5, 6, 7, 0], 0xab1c5ed5da6d8118, Load 7 56),
      ([0, 1, 2, 3, 4, 5, 6, 7], 0xd807aa98a3030242, Load 8 64), ([7, 0, 1, 2, 3, 4, 5, 6], 0x12835b0145706fbe, Load 9 72),
      ([6, 7, 0, 1, 2, 3, 4, 5], 0x243185be4ee4b28c, Load 10 80), ([5, 6, 7, 0, 1, 2, 3, 4], 0x550c7dc3d5ffb4e2, Load 11 88),
      ([4, 5, 6, 7, 0, 1, 2, 3], 0x72be5d74f27b896f, Load 12 96), ([3, 4, 5, 6, 7, 0, 1, 2], 0x80deb1fe3b1696b1, Load 13 104),
      ([2, 3, 4, 5, 6, 7, 0, 1], 0x9bdc06a725c71235, Load 14 112), ([1, 2, 3, 4, 5, 6, 7, 0], 0xc19bf174cf692694, Load 15 120),
      ([0, 1, 2, 3, 4, 5, 6, 7], 0xe49b69c19ef14ad2, Sched 0 14 9 1), ([7, 0, 1, 2, 3, 4, 5, 6], 0xefbe4786384f25e3, Sched 1 15 10 2),
      ([6, 7, 0, 1, 2, 3, 4, 5], 0x0fc19dc68b8cd5b5, Sched 2 0 11 3), ([5, 6, 7, 0, 1, 2, 3, 4], 0x240ca1cc77ac9c65, Sched 3 1 12 4),
      ([4, 5, 6, 7, 0, 1, 2, 3], 0x2de92c6f592b0275, Sched 4 2 13 5), ([3, 4, 5, 6, 7, 0, 1, 2], 0x4a7484aa6ea6e483, Sched 5 3 14 6),
      ([2, 3, 4, 5, 6, 7, 0, 1], 0x5cb0a9dcbd41fbd4, Sched 6 4 15 7), ([1, 2, 3, 4, 5, 6, 7, 0], 0x76f988da831153b5, Sched 7 5 0 8),
      ([0, 1, 2, 3, 4, 5, 6, 7], 0x983e5152ee66dfab, Sched 8 6 1 9), ([7, 0, 1, 2, 3, 4, 5, 6], 0xa831c66d2db43210, Sched 9 7 2 10),
      ([6, 7, 0, 1, 2, 3, 4, 5], 0xb00327c898fb213f, Sched 10 8 3 11), ([5, 6, 7, 0, 1, 2, 3, 4], 0xbf597fc7beef0ee4, Sched 11 9 4 12),
      ([4, 5, 6, 7, 0, 1, 2, 3], 0xc6e00bf33da88fc2, Sched 12 10 5 13), ([3, 4, 5, 6, 7, 0, 1, 2], 0xd5a79147930aa725, Sched 13 11 6 14),
      ([2, 3, 4, 5, 6, 7, 0, 1], 0x06ca6351e003826f, Sched 14 12 7 15), ([1, 2, 3, 4, 5, 6, 7, 0], 0x142929670a0e6e70, Sched 15 13 8 0),
      ([0, 1, 2, 3, 4, 5, 6, 7], 0x27b70a8546d22ffc, Sched 0 14 9 1), ([7, 0, 1, 2, 3, 4, 5, 6], 0x2e1b21385c26c926, Sched 1 15 10 2),
      ([6, 7, 0, 1, 2, 3, 4, 5], 0x4d2c6dfc5ac42aed, Sched 2 0 11 3), ([5, 6, 7, 0, 1, 2, 3, 4], 0x53380d139d95b3df, Sched 3 1 12 4),
      ([4, 5, 6, 7, 0, 1, 2, 3], 0x650a73548baf63de, Sched 4 2 13 5), ([3, 4, 5, 6, 7, 0, 1, 2], 0x766a0abb3c77b2a8, Sched 5 3 14 6),
      ([2, 3, 4, 5, 6, 7, 0, 1], 0x81c2c92e47edaee6, Sched 6 4 15 7), ([1, 2, 3, 4, 5, 6, 7, 0], 0x92722c851482353b, Sched 7 5 0 8),
      ([0, 1, 2, 3, 4, 5, 6, 7], 0xa2bfe8a14cf10364, Sched 8 6 1 9), ([7, 0, 1, 2, 3, 4, 5, 6], 0xa81a664bbc423001, Sched 9 7 2 10),
      ([6, 7, 0, 1, 2, 3, 4, 5], 0xc24b8b70d0f89791, Sched 10 8 3 11), ([5, 6, 7, 0, 1, 2, 3, 4], 0xc76c51a30654be30, Sched 11 9 4 12),
      ([4, 5, 6, 7, 0, 1, 2, 3], 0xd192e819d6ef5218, Sched 12 10 5 13), ([3, 4, 5, 6, 7, 0, 1, 2], 0xd69906245565a910, Sched 13 11 6 14),
      ([2, 3, 4, 5, 6, 7, 0, 1], 0xf40e35855771202a, Sched 14 12 7 15), ([1, 2, 3, 4, 5, 6, 7, 0], 0x106aa07032bbd1b8, Sched 15 13 8 0),
      ([0, 1, 2, 3, 4, 5, 6, 7], 0x19a4c116b8d2d0c8, Sched 0 14 9 1), ([7, 0, 1, 2, 3, 4, 5, 6], 0x1e376c085141ab53, Sched 1 15 10 2),
      ([6, 7, 0, 1, 2, 3, 4, 5], 0x2748774cdf8eeb99, Sched 2 0 11 3), ([5, 6, 7, 0, 1, 2, 3, 4], 0x34b0bcb5e19b48a8, Sched 3 1 12 4),
      ([4, 5, 6, 7, 0, 1, 2, 3], 0x391c0cb3c5c95a63, Sched 4 2 13 5), ([3, 4, 5, 6, 7, 0, 1, 2], 0x4ed8aa4ae3418acb, Sched 5 3 14 6),
      ([2, 3, 4, 5, 6, 7, 0, 1], 0x5b9cca4f7763e373, Sched 6 4 15 7), ([1, 2, 3, 4, 5, 6, 7, 0], 0x682e6ff3d6b2b8a3, Sched 7 5 0 8),
      ([0, 1, 2, 3, 4, 5, 6, 7], 0x748f82ee5defb2fc, Sched 8 6 1 9), ([7, 0, 1, 2, 3, 4, 5, 6], 0x78a5636f43172f60, Sched 9 7 2 10),
      ([6, 7, 0, 1, 2, 3, 4, 5], 0x84c87814a1f0ab72, Sched 10 8 3 11), ([5, 6, 7, 0, 1, 2, 3, 4], 0x8cc702081a6439ec, Sched 11 9 4 12),
      ([4, 5, 6, 7, 0, 1, 2, 3], 0x90befffa23631e28, Sched 12 10 5 13), ([3, 4, 5, 6, 7, 0, 1, 2], 0xa4506cebde82bde9, Sched 13 11 6 14),
      ([2, 3, 4, 5, 6, 7, 0, 1], 0xbef9a3f7b2c67915, Sched 14 12 7 15), ([1, 2, 3, 4, 5, 6, 7, 0], 0xc67178f2e372532b, Sched 15 13 8 0),
      ([0, 1, 2, 3, 4, 5, 6, 7], 0xca273eceea26619c, Sched 0 14 9 1), ([7, 0, 1, 2, 3, 4, 5, 6], 0xd186b8c721c0c207, Sched 1 15 10 2),
      ([6, 7, 0, 1, 2, 3, 4, 5], 0xeada7dd6cde0eb1e, Sched 2 0 11 3), ([5, 6, 7, 0, 1, 2, 3, 4], 0xf57d4f7fee6ed178, Sched 3 1 12 4),
      ([4, 5, 6, 7, 0, 1, 2, 3], 0x06f067aa72176fba, Sched 4 2 13 5), ([3, 4, 5, 6, 7, 0, 1, 2], 0x0a637dc5a2c898a6, Sched 5 3 14 6),
      ([2, 3, 4, 5, 6, 7, 0, 1], 0x113f9804bef90dae, Sched 6 4 15 7), ([1, 2, 3, 4, 5, 6, 7, 0], 0x1b710b35131c471b, Sched 7 5 0 8),
      ([0, 1, 2, 3, 4, 5, 6, 7], 0x28db77f523047d84, Sched 8 6 1 9), ([7, 0, 1, 2, 3, 4, 5, 6], 0x32caab7b40c72493, Sched 9 7 2 10),
      ([6, 7, 0, 1, 2, 3, 4, 5], 0x3c9ebe0a15c9bebc, Sched 10 8 3 11), ([5, 6, 7, 0, 1, 2, 3, 4], 0x431d67c49c100d4c, Sched 11 9 4 12),
      ([4, 5, 6, 7, 0, 1, 2, 3], 0x4cc5d4becb3e42b6, Sched 12 10 5 13), ([3, 4, 5, 6, 7, 0, 1, 2], 0x597f299cfc657e2a, Sched 13 11 6 14),
      ([2, 3, 4, 5, 6, 7, 0, 1], 0x5fcb6fab3ad6faec, Last 14 12 7 15), ([1, 2, 3, 4, 5, 6, 7, 0], 0x6c44198c4a475817, Last 15 13 8 0)]"

(* src/src/crypto/sha512.cpp:47-145 Transform *)
definition sha512_Transform :: "u64 list \<Rightarrow> bytes \<Rightarrow> u64 list" where
  "sha512_Transform s chunk =
     map2 (+) s (fst (fold (sha2_step sha512_Round (sha2_word ReadBE64 sha512_sigma0 sha512_sigma1 chunk))
       sha512_lines (s, replicate 16 0)))"

(* src/src/crypto/sha512.cpp:154-157 CSHA512::CSHA512 *)
definition CSHA512_Init :: "u64 hasher" where
  "CSHA512_Init = hasher_start 128 sha512_Initialize"

(* src/src/crypto/sha512.cpp:159-183 CSHA512::Write *)
definition CSHA512_Write :: "bytes \<Rightarrow> u64 hasher \<Rightarrow> u64 hasher" where
  "CSHA512_Write = hasher_Write 128 sha512_Transform"

(* src/src/crypto/sha512.cpp:185-200 CSHA512::Finalize *)
definition CSHA512_Finalize :: "u64 hasher \<Rightarrow> bytes" where
  "CSHA512_Finalize h =
     (let sizedesc = replicate 8 0 @ WriteBE64 (push_bit 3 (hs_bytes h));
          h1 = CSHA512_Write (take (1 + (239 - unat (hs_bytes h) mod 128) mod 128) (0x80 # replicate 127 0)) h;
          h2 = CSHA512_Write sizedesc h1
      in concat (map WriteBE64 (hs_s h2)))"

(* src/src/crypto/sha512.cpp:202-207 CSHA512::Reset *)
definition CSHA512_Reset :: "u64 hasher \<Rightarrow> u64 hasher" where
  "CSHA512_Reset h = h\<lparr>hs_bytes := 0, hs_s := sha512_Initialize\<rparr>"

subsection \<open>The standard\<close>

text \<open>
  FIPS 180-4: message schedule, one step of the compression function on the working variables
  \<open>a..h\<close>, and the compression function. The constants are the first bits of the fractional parts of
  roots of the first primes.
\<close>

definition fips_Ch :: "'a::len word \<Rightarrow> 'a word \<Rightarrow> 'a word \<Rightarrow> 'a word" where
  "fips_Ch x y z = (x AND y) XOR (NOT x AND z)"

definition fips_Maj :: "'a::len word \<Rightarrow> 'a word \<Rightarrow> 'a word \<Rightarrow> 'a word" where
  "fips_Maj x y z = (x AND y) XOR (x AND z) XOR (y AND z)"

definition fips_Sum :: "nat \<Rightarrow> nat \<Rightarrow> nat \<Rightarrow> 'a::len word \<Rightarrow> 'a word" where
  "fips_Sum i j k x = word_rotr i x XOR word_rotr j x XOR word_rotr k x"

definition fips_sigma :: "nat \<Rightarrow> nat \<Rightarrow> nat \<Rightarrow> 'a::len word \<Rightarrow> 'a word" where
  "fips_sigma i j k x = word_rotr i x XOR word_rotr j x XOR drop_bit k x"

fun fips_W :: "('a::len word \<Rightarrow> 'a word) \<Rightarrow> ('a word \<Rightarrow> 'a word) \<Rightarrow> (nat \<Rightarrow> 'a word) \<Rightarrow> nat \<Rightarrow> 'a word" where
  "fips_W sg0 sg1 M t =
     (if t < 16 then M t
      else sg1 (fips_W sg0 sg1 M (t - 2)) + fips_W sg0 sg1 M (t - 7) + sg0 (fips_W sg0 sg1 M (t - 15)) + fips_W sg0 sg1 M (t - 16))"

declare fips_W.simps [simp del]

definition fips_round :: "('a::len word \<Rightarrow> 'a word) \<Rightarrow> ('a word \<Rightarrow> 'a word) \<Rightarrow> 'a word \<Rightarrow> 'a word \<Rightarrow> 'a word list \<Rightarrow> 'a word list" where
  "fips_round S0 S1 k w v =
     (let T1 = v ! 7 + S1 (v ! 4) + fips_Ch (v ! 4) (v ! 5) (v ! 6) + k + w;
          T2 = S0 (v ! 0) + fips_Maj (v ! 0) (v ! 1) (v ! 2)
      in [T1 + T2, v ! 0, v ! 1, v ! 2, v ! 3 + T1, v ! 4, v ! 5, v ! 6])"

definition fips_compress :: "('a::len word \<Rightarrow> 'a word) \<Rightarrow> ('a word \<Rightarrow> 'a word) \<Rightarrow> 'a word list \<Rightarrow> (nat \<Rightarrow> 'a word) \<Rightarrow> 'a word list \<Rightarrow> 'a word list" where
  "fips_compress S0 S1 K W H = map2 (+) H (fold (\<lambda>t. fips_round S0 S1 (K ! t) (W t)) [0..<length K] H)"

definition first_primes :: "int list" where
  "first_primes =
     [2, 3, 5, 7, 11, 13, 17, 19, 23, 29, 31, 37, 41, 43, 47, 53, 59, 61, 67, 71,
      73, 79, 83, 89, 97, 101, 103, 107, 109, 113, 127, 131, 137, 139, 149, 151, 157, 163, 167, 173,
      179, 181, 191, 193, 197, 199, 211, 223, 227, 229, 233, 239, 241, 251, 257, 263, 269, 271, 277, 281,
      283, 293, 307, 311, 313, 317, 331, 337, 347, 349, 353, 359, 367, 373, 379, 383, 389, 397, 401, 409]"

definition frac_root :: "nat \<Rightarrow> nat \<Rightarrow> int \<Rightarrow> int \<Rightarrow> bool" where
  "frac_root n b p k \<longleftrightarrow> 0 \<le> k \<and> k < 2 ^ b \<and>
     (let r = int (length (filter (\<lambda>i. i ^ n \<le> p) [1..8])) * 2 ^ b + k
      in r ^ n \<le> p * 2 ^ (n * b) \<and> p * 2 ^ (n * b) < (r + 1) ^ n)"

definition fips256_K :: "u32 list" where
  "fips256_K = map (\<lambda>l. fst (snd l)) sha256_lines"

definition fips512_K :: "u64 list" where
  "fips512_K = map (\<lambda>l. fst (snd l)) sha512_lines"

definition fips256_compress :: "u32 list \<Rightarrow> bytes \<Rightarrow> u32 list" where
  "fips256_compress H blk = fips_compress (fips_Sum 2 13 22) (fips_Sum 6 11 25) fips256_K
     (fips_W (fips_sigma 7 18 3) (fips_sigma 17 19 10) (\<lambda>t. be_word (take 4 (drop (4 * t) blk)))) H"

definition fips512_compress :: "u64 list \<Rightarrow> bytes \<Rightarrow> u64 list" where
  "fips512_compress H blk = fips_compress (fips_Sum 28 34 39) (fips_Sum 14 18 41) fips512_K
     (fips_W (fips_sigma 1 8 7) (fips_sigma 19 61 6) (\<lambda>t. be_word (take 8 (drop (8 * t) blk)))) H"

text \<open>Padding: a one bit, zeros, and the bit length in the last 8 (16) bytes of the last block.\<close>

definition fips_pad :: "nat \<Rightarrow> nat \<Rightarrow> nat \<Rightarrow> bytes" where
  "fips_pad B L n = 0x80 # replicate ((2 * B - 1 - L - n mod B) mod B) 0 @
     map (\<lambda>i. of_nat (8 * n div 256 ^ (L - 1 - i))) [0..<L]"

definition fips_sha256 :: "bytes \<Rightarrow> bytes" where
  "fips_sha256 m = concat (map (be_split 4) (fst (absorb 64 fips256_compress sha256_Initialize (m @ fips_pad 64 8 (length m)))))"

definition fips_sha512 :: "bytes \<Rightarrow> bytes" where
  "fips_sha512 m = concat (map (be_split 8) (fst (absorb 128 fips512_compress sha512_Initialize (m @ fips_pad 128 16 (length m)))))"

subsection \<open>Renamed registers and a ring of message words\<close>

definition reg_ix :: "nat \<Rightarrow> nat list" where
  "reg_ix t = map (\<lambda>j. (j + 8 - t mod 8) mod 8) [0..<8]"

definition regular_line :: "nat \<Rightarrow> nat \<Rightarrow> 'a::len word list \<Rightarrow> nat \<Rightarrow> nat list \<times> 'a word \<times> sha2_w" where
  "regular_line wb N K t = (reg_ix t, K ! t,
     if t < 16 then Load t (wb * t)
     else if t < N - 2 then Sched (t mod 16) ((t - 2) mod 16) ((t - 7) mod 16) ((t - 15) mod 16)
     else Last (t mod 16) ((t - 2) mod 16) ((t - 7) mod 16) ((t - 15) mod 16))"

definition reg_view :: "nat \<Rightarrow> 'a list \<Rightarrow> 'a list" where
  "reg_view t r = map (\<lambda>i. r ! i) (reg_ix t)"

lemma mod8_cases: "(t::nat) mod 8 \<in> {0, 1, 2, 3, 4, 5, 6, 7}"
  using mod_less_divisor [of 8 t] by auto

lemma length8E:
  assumes "length r = 8"
  obtains a b c d e f g h where "r = [a, b, c, d, e, f, g, h]"
  using assms by (auto simp: length_Suc_conv eval_nat_numeral)

lemma reg_ix_eval:
  "reg_ix 0 = [0,1,2,3,4,5,6,7]" "reg_ix 1 = [7,0,1,2,3,4,5,6]" "reg_ix 2 = [6,7,0,1,2,3,4,5]" "reg_ix 3 = [5,6,7,0,1,2,3,4]"
  "reg_ix 4 = [4,5,6,7,0,1,2,3]" "reg_ix 5 = [3,4,5,6,7,0,1,2]" "reg_ix 6 = [2,3,4,5,6,7,0,1]" "reg_ix 7 = [1,2,3,4,5,6,7,0]"
  by code_simp+

lemma reg_ix_mod: "reg_ix t = reg_ix (t mod 8)"
  by (simp add: reg_ix_def)

lemma reg_ix_Suc: "reg_ix (Suc t) = last (reg_ix t) # butlast (reg_ix t)"
proof -
  have s: "Suc t mod 8 = (if t mod 8 = 7 then 0 else Suc (t mod 8))" by (simp add: mod_Suc)
  show ?thesis unfolding reg_ix_mod [of "Suc t"] reg_ix_mod [of t] s
    using mod8_cases [of t] by (auto simp: reg_ix_eval [simplified] reg_ix_eval numeral_2_eq_2 [symmetric])
qed

lemma reg_ix_perm: "length (reg_ix t) = 8" "distinct (reg_ix t)" "\<forall>i \<in> set (reg_ix t). i < 8"
proof -
  have "list_all (\<lambda>k. length (reg_ix k) = 8 \<and> distinct (reg_ix k) \<and> list_all (\<lambda>i. i < 8) (reg_ix k)) [0..<8]"
    by code_simp
  then have "length (reg_ix (t mod 8)) = 8 \<and> distinct (reg_ix (t mod 8)) \<and> (\<forall>i \<in> set (reg_ix (t mod 8)). i < 8)"
    unfolding list_all_iff by (rule bspec) simp
  then show "length (reg_ix t) = 8" "distinct (reg_ix t)" "\<forall>i \<in> set (reg_ix t). i < 8"
    unfolding reg_ix_mod [of t, symmetric] by blast+
qed

lemma rename_step:
  assumes "length ix = 8" "distinct ix" "\<forall>i \<in> set ix. i < length r"
  shows "map ((!) (r[ix ! 3 := d, ix ! 7 := h])) (last ix # butlast ix) =
    (let v = map ((!) r) ix in [h, v ! 0, v ! 1, v ! 2, d, v ! 4, v ! 5, v ! 6])"
proof -
  obtain i0 i1 i2 i3 i4 i5 i6 i7 where ix: "ix = [i0, i1, i2, i3, i4, i5, i6, i7]" using assms(1) by (rule length8E)
  have "i7 < length r" "i3 < length r" "i7 \<notin> {i0, i1, i2, i3, i4, i5, i6}" "i3 \<notin> {i0, i1, i2, i4, i5, i6}"
    using assms(2,3) unfolding ix by auto
  then show ?thesis unfolding ix by (simp add: Let_def)
qed

lemma reg_view_Suc:
  assumes "length r = 8"
  shows "reg_view (Suc t) (r[reg_ix t ! 3 := d, reg_ix t ! 7 := h]) =
    (let v = reg_view t r in [h, v ! 0, v ! 1, v ! 2, d, v ! 4, v ! 5, v ! 6])"
  unfolding reg_view_def reg_ix_Suc by (rule rename_step) (use assms reg_ix_perm [of t] in simp_all)

locale sha2_rounds =
  fixes Round :: "'a::len word \<Rightarrow> 'a word \<Rightarrow> 'a word \<Rightarrow> 'a word \<Rightarrow> 'a word \<Rightarrow> 'a word \<Rightarrow> 'a word \<Rightarrow> 'a word \<Rightarrow>
      'a word \<Rightarrow> 'a word \<Rightarrow> 'a word \<times> 'a word"
    and rd :: "bytes \<Rightarrow> 'a word"
    and sg0 sg1 S0 S1 :: "'a word \<Rightarrow> 'a word"
    and wb N :: nat
    and K :: "'a word list"
    and lns :: "(nat list \<times> 'a word \<times> sha2_w) list"
  assumes Round_law: "Round a b c d e f g h k w =
      (let T1 = h + S1 e + fips_Ch e f g + k + w; T2 = S0 a + fips_Maj a b c in (d + T1, T1 + T2))"
    and rounds: "18 \<le> N" "N mod 8 = 0" "length K = N"
    and lines_law: "lns = map (regular_line wb N K) [0..<N]"
begin

lemma step_round:
  assumes "length r = 8" "sha2_word rd sg0 sg1 chunk e w = (x, w')"
  shows "\<exists>r'. sha2_step Round (sha2_word rd sg0 sg1 chunk) (reg_ix t, k, e) (r, w) = (r', w') \<and> length r' = 8 \<and>
    reg_view (Suc t) r' = fips_round S0 S1 k x (reg_view t r)"
proof -
  have v: "r ! (reg_ix t ! i) = reg_view t r ! i" if "i < 8" for i
    using that by (simp add: reg_view_def reg_ix_def)
  let ?v = "reg_view t r"
  let ?T1 = "?v ! 7 + S1 (?v ! 4) + fips_Ch (?v ! 4) (?v ! 5) (?v ! 6) + k + x" and ?T2 = "S0 (?v ! 0) + fips_Maj (?v ! 0) (?v ! 1) (?v ! 2)"
  let ?r = "r[reg_ix t ! 3 := ?v ! 3 + ?T1, reg_ix t ! 7 := ?T1 + ?T2]"
  have "sha2_step Round (sha2_word rd sg0 sg1 chunk) (reg_ix t, k, e) (r, w) = (?r, w')"
    by (simp add: sha2_step_def assms v Round_law Let_def)
  moreover have "reg_view (Suc t) ?r = fips_round S0 S1 k x ?v"
    unfolding reg_view_Suc [OF assms(1)] by (simp add: fips_round_def Let_def)
  ultimately show ?thesis using assms(1) by simp
qed

text \<open>The ring holds the last sixteen schedule words (the last two words are never stored).\<close>

definition ring_ok :: "(nat \<Rightarrow> 'a word) \<Rightarrow> nat \<Rightarrow> 'a word list \<Rightarrow> bool" where
  "ring_ok W t w \<longleftrightarrow> length w = 16 \<and> (\<forall>i < t. t \<le> i + 16 \<longrightarrow> i < N - 2 \<longrightarrow> w ! (i mod 16) = W i)"

lemma ring_store:
  assumes "ring_ok W t w"
  shows "ring_ok W (Suc t) (w[t mod 16 := W t])"
proof -
  have "w[t mod 16 := W t] ! (i mod 16) = W i" if i: "i < Suc t" "Suc t \<le> i + 16" "i < N - 2" for i
  proof (cases "i = t")
    case False
    then have "i mod 16 \<noteq> t mod 16" using i mod_eq_dvd_iff_nat [of i t 16] nat_dvd_not_less [of "t - i" 16] by auto
    with False i assms show ?thesis by (auto simp: ring_ok_def nth_list_update)
  qed (use assms in \<open>simp add: ring_ok_def\<close>)
  with assms show ?thesis by (simp add: ring_ok_def)
qed

lemma word_law:
  assumes "ring_ok (fips_W sg0 sg1 (\<lambda>t. rd (drop (wb * t) chunk))) t w" "t < N"
  shows "\<exists>w'. sha2_word rd sg0 sg1 chunk (snd (snd (regular_line wb N K t))) w =
      (fips_W sg0 sg1 (\<lambda>t. rd (drop (wb * t) chunk)) t, w') \<and> ring_ok (fips_W sg0 sg1 (\<lambda>t. rd (drop (wb * t) chunk))) (Suc t) w'"
proof -
  let ?W = "fips_W sg0 sg1 (\<lambda>t. rd (drop (wb * t) chunk))"
  consider "t < 16" | "16 \<le> t" "t < N - 2" | "16 \<le> t" "N - 2 \<le> t" by linarith
  then show ?thesis
  proof cases
    case 1
    then have "?W t = rd (drop (wb * t) chunk)" by (simp add: fips_W.simps)
    with 1 ring_store [OF assms(1)] show ?thesis by (simp add: regular_line_def Let_def)
  next
    case 2
    have r: "w ! ((t - k) mod 16) = ?W (t - k)" if "k \<in> {2, 7, 15, 16}" for k
      using assms(1) 2 that by (auto simp: ring_ok_def)
    have "w ! (t mod 16) = ?W (t - 16)" using r [of 16] 2 by (simp add: le_mod_geq)
    then have "w ! (t mod 16) + (sg1 (w ! ((t - 2) mod 16)) + w ! ((t - 7) mod 16) + sg0 (w ! ((t - 15) mod 16))) = ?W t"
      using 2 by (simp add: r fips_W.simps [of _ _ _ t] ac_simps)
    with 2 ring_store [OF assms(1)] show ?thesis by (simp add: regular_line_def Let_def)
  next
    case 3
    have r: "w ! ((t - k) mod 16) = ?W (t - k)" if "k \<in> {2, 7, 15, 16}" for k
      using assms 3 that rounds(1) by (auto simp: ring_ok_def)
    have "w ! (t mod 16) = ?W (t - 16)" using r [of 16] 3 by (simp add: le_mod_geq)
    then have "w ! (t mod 16) + sg1 (w ! ((t - 2) mod 16)) + w ! ((t - 7) mod 16) + sg0 (w ! ((t - 15) mod 16)) = ?W t"
      using 3 by (simp add: r fips_W.simps [of _ _ _ t] ac_simps)
    moreover have "ring_ok ?W (Suc t) w" using assms(1) 3 by (auto simp: ring_ok_def less_Suc_eq)
    ultimately show ?thesis using 3 by (simp add: regular_line_def)
  qed
qed

lemma rounds_law:
  assumes "length s = 8" "t \<le> N"
  shows "\<exists>r w. fold (sha2_step Round (sha2_word rd sg0 sg1 chunk)) (map (regular_line wb N K) [0..<t]) (s, replicate 16 0) = (r, w) \<and>
    length r = 8 \<and> ring_ok (fips_W sg0 sg1 (\<lambda>t. rd (drop (wb * t) chunk))) t w \<and>
    reg_view t r = fold (\<lambda>t. fips_round S0 S1 (K ! t) (fips_W sg0 sg1 (\<lambda>t. rd (drop (wb * t) chunk)) t)) [0..<t] s"
  using assms(2)
proof (induction t)
  case 0
  have "reg_view 0 s = s" using assms(1) by (rule length8E) (simp add: reg_view_def reg_ix_eval)
  with assms(1) show ?case by (simp add: ring_ok_def)
next
  case (Suc t)
  then obtain r w where r: "fold (sha2_step Round (sha2_word rd sg0 sg1 chunk)) (map (regular_line wb N K) [0..<t]) (s, replicate 16 0) = (r, w)"
      "length r = 8" "ring_ok (fips_W sg0 sg1 (\<lambda>t. rd (drop (wb * t) chunk))) t w"
      "reg_view t r = fold (\<lambda>t. fips_round S0 S1 (K ! t) (fips_W sg0 sg1 (\<lambda>t. rd (drop (wb * t) chunk)) t)) [0..<t] s"
    by auto
  let ?e = "snd (snd (regular_line wb N K t))"
  obtain w' where w: "sha2_word rd sg0 sg1 chunk ?e w = (fips_W sg0 sg1 (\<lambda>t. rd (drop (wb * t) chunk)) t, w')"
      "ring_ok (fips_W sg0 sg1 (\<lambda>t. rd (drop (wb * t) chunk))) (Suc t) w'"
    using word_law [OF r(3)] Suc.prems by auto
  have "regular_line wb N K t = (reg_ix t, K ! t, ?e)" by (simp add: regular_line_def)
  with step_round [OF r(2) w(1), of t "K ! t"] r w(2) show ?case by auto
qed

lemma compress_law:
  assumes "length s = 8"
  shows "map2 (+) s (fst (fold (sha2_step Round (sha2_word rd sg0 sg1 chunk)) lns (s, replicate 16 0))) =
    fips_compress S0 S1 K (fips_W sg0 sg1 (\<lambda>t. rd (drop (wb * t) chunk))) s"
proof -
  obtain r w where r: "fold (sha2_step Round (sha2_word rd sg0 sg1 chunk)) lns (s, replicate 16 0) = (r, w)" "length r = 8"
      "reg_view N r = fold (\<lambda>t. fips_round S0 S1 (K ! t) (fips_W sg0 sg1 (\<lambda>t. rd (drop (wb * t) chunk)) t)) [0..<N] s"
    using rounds_law [OF assms order_refl] unfolding lines_law by blast
  have "reg_view N r = r" using r(2) by (rule length8E) (simp add: reg_view_def reg_ix_mod [of N] rounds(2) reg_ix_eval)
  with r rounds(3) show ?thesis by (simp add: fips_compress_def)
qed

end

subsection \<open>The two programs implement the standard\<close>

lemma rotr_shifts:
  assumes "0 < n" "n < LENGTH('a)"
  shows "drop_bit n x OR push_bit (LENGTH('a) - n) x = word_rotr n (x :: 'a::len word)"
proof (rule bit_word_eqI)
  fix i
  assume i: "i < LENGTH('a)"
  show "bit (drop_bit n x OR push_bit (LENGTH('a) - n) x) i = bit (word_rotr n x) i"
  proof (cases "i + n < LENGTH('a)")
    case True
    then show ?thesis using i by (auto simp: bit_simps bit_word_rotr_iff add.commute)
  next
    case False
    then have m: "(i + n) mod LENGTH('a) = i + n - LENGTH('a)" using i assms by (simp add: le_mod_geq)
    moreover have "\<not> bit x (n + i)" using False by (auto dest: bit_imp_le_length)
    moreover have "i - (LENGTH('a) - n) = i + n - LENGTH('a)" "LENGTH('a) - n \<le> i" using False assms by linarith+
    ultimately show ?thesis using i by (simp add: bit_simps bit_word_rotr_iff)
  qed
qed

lemma rotr32: "0 < n \<Longrightarrow> n < 32 \<Longrightarrow> drop_bit n x OR push_bit (32 - n) x = word_rotr n (x :: u32)"
  using rotr_shifts [of n x] by simp

lemma rotr64: "0 < n \<Longrightarrow> n < 64 \<Longrightarrow> drop_bit n x OR push_bit (64 - n) x = word_rotr n (x :: u64)"
  using rotr_shifts [of n x] by simp

lemma Ch_fips: "z XOR (x AND (y XOR z)) = fips_Ch x y (z :: 'a::len word)"
  by (rule bit_word_eqI) (auto simp: fips_Ch_def bit_simps)

lemma Maj_fips: "(x AND y) OR (z AND (x OR y)) = fips_Maj x y (z :: 'a::len word)"
  by (rule bit_word_eqI) (auto simp: fips_Maj_def bit_simps)

lemma sha256_sums:
  "sha256_Sigma0 = fips_Sum 2 13 22" "sha256_Sigma1 = fips_Sum 6 11 25"
  "sha256_sigma0 = fips_sigma 7 18 3" "sha256_sigma1 = fips_sigma 17 19 10"
  using rotr32 [of 2] rotr32 [of 13] rotr32 [of 22] rotr32 [of 6] rotr32 [of 11] rotr32 [of 25]
    rotr32 [of 7] rotr32 [of 18] rotr32 [of 17] rotr32 [of 19]
  by (simp_all add: fun_eq_iff sha256_Sigma0_def sha256_Sigma1_def sha256_sigma0_def sha256_sigma1_def fips_Sum_def fips_sigma_def)

lemma sha512_sums:
  "sha512_Sigma0 = fips_Sum 28 34 39" "sha512_Sigma1 = fips_Sum 14 18 41"
  "sha512_sigma0 = fips_sigma 1 8 7" "sha512_sigma1 = fips_sigma 19 61 6"
  using rotr64 [of 28] rotr64 [of 34] rotr64 [of 39] rotr64 [of 14] rotr64 [of 18] rotr64 [of 41]
    rotr64 [of 1] rotr64 [of 8] rotr64 [of 19] rotr64 [of 61]
  by (simp_all add: fun_eq_iff sha512_Sigma0_def sha512_Sigma1_def sha512_sigma0_def sha512_sigma1_def fips_Sum_def fips_sigma_def)

lemma sha256_lines_regular: "sha256_lines = map (regular_line 4 64 fips256_K) [0..<64]"
  by code_simp

lemma sha512_lines_regular: "sha512_lines = map (regular_line 8 80 fips512_K) [0..<80]"
  by code_simp

lemma length_K: "length fips256_K = 64" "length fips512_K = 80"
  by code_simp+

interpretation sha256: sha2_rounds sha256_Round ReadBE32 sha256_sigma0 sha256_sigma1 sha256_Sigma0 sha256_Sigma1 4 64 fips256_K sha256_lines
  by unfold_locales
     (simp_all add: sha256_Round_def sha256_Ch_def sha256_Maj_def Ch_fips Maj_fips length_K sha256_lines_regular)

interpretation sha512: sha2_rounds sha512_Round ReadBE64 sha512_sigma0 sha512_sigma1 sha512_Sigma0 sha512_Sigma1 8 80 fips512_K sha512_lines
  by unfold_locales
     (simp_all add: sha512_Round_def sha512_Ch_def sha512_Maj_def Ch_fips Maj_fips length_K sha512_lines_regular)

lemma sha256_block_fips: "length s = 8 \<Longrightarrow> sha256_block s chunk = fips256_compress s chunk"
  using sha256.compress_law [of s chunk] by (simp add: sha256_block_def fips256_compress_def sha256_sums big_endian_standard)

lemma sha512_Transform_fips: "length s = 8 \<Longrightarrow> sha512_Transform s chunk = fips512_compress s chunk"
  using sha512.compress_law [of s chunk] by (simp add: sha512_Transform_def fips512_compress_def sha512_sums big_endian_standard)

lemma length_fips_compress: "length H = 8 \<Longrightarrow> 0 < length K \<Longrightarrow> length (fips_compress S0 S1 K W H) = 8"
proof -
  assume a: "length H = 8" "0 < length K"
  have "length (fold (\<lambda>t. fips_round S0 S1 (K ! t) (W t)) ts v) = 8" if "length v = 8" for ts v
    using that by (induction ts arbitrary: v) (simp_all add: fips_round_def Let_def)
  with a show ?thesis by (simp add: fips_compress_def)
qed

lemma absorb_cong:
  assumes "\<And>s b. P s \<Longrightarrow> tr s b = tr' s b \<and> P (tr' s b)"
  shows "P s \<Longrightarrow> absorb B tr s m = absorb B tr' s m"
proof (induction m arbitrary: s rule: length_induct)
  case (1 m)
  show ?case
  proof (cases "B = 0 \<or> length m < B")
    case False
    then have "length (drop B m) < length m" by auto
    with 1 assms [of s "take B m"] False show ?thesis by (simp add: absorb.simps [of B _ s m])
  qed (auto simp: absorb.simps [of B _ _ m])
qed

subsection \<open>Streaming\<close>

lemma sha256_loads: "list_all (\<lambda>(ix, k, e). case e of Load i off \<Rightarrow> off + 4 \<le> 64 | _ \<Rightarrow> True) sha256_lines"
  by code_simp

lemma sha256_block_take: "sha256_block s (take 64 data) = sha256_block s data"
proof -
  have "sha2_step sha256_Round (sha2_word ReadBE32 sha256_sigma0 sha256_sigma1 (take 64 data)) l rw =
      sha2_step sha256_Round (sha2_word ReadBE32 sha256_sigma0 sha256_sigma1 data) l rw" if "l \<in> set sha256_lines" for l rw
  proof -
    obtain ix k e where l: "l = (ix, k, e)" by (cases l)
    have "take 4 (drop off (take 64 data)) = take 4 (drop off data)" if "off + 4 \<le> 64" for off
      using that by (simp add: drop_take min_def)
    then have "sha2_word ReadBE32 sha256_sigma0 sha256_sigma1 (take 64 data) e w = sha2_word ReadBE32 sha256_sigma0 sha256_sigma1 data e w" for w
      using sha256_loads that unfolding list_all_iff l by (cases e) (auto simp: ReadBE32_def)
    then show ?thesis by (simp add: l sha2_step_def)
  qed
  then have "fold (sha2_step sha256_Round (sha2_word ReadBE32 sha256_sigma0 sha256_sigma1 (take 64 data))) sha256_lines =
      fold (sha2_step sha256_Round (sha2_word ReadBE32 sha256_sigma0 sha256_sigma1 data)) sha256_lines"
    by (intro ext fold_cong refl)
  then show ?thesis unfolding sha256_block_def by simp
qed

lemma sha256_Transform_blocks:
  "whole_blocks 64 sha256_block data h =
     (h\<lparr>hs_s := sha256_Transform (hs_s h) data (length data div 64), hs_bytes := hs_bytes h + of_nat (64 * (length data div 64))\<rparr>,
      drop (64 * (length data div 64)) data)"
proof (induction "64 :: nat" sha256_block data h rule: whole_blocks.induct)
  case (1 data h)
  show ?case
  proof (cases "64 \<le> length data")
    case True
    then obtain n where n: "length data div 64 = Suc n" by (cases "length data div 64") auto
    then have m: "length (drop 64 data) div 64 = n" using True by (simp add: le_div_geq)
    have w: "whole_blocks 64 sha256_block data h =
        whole_blocks 64 sha256_block (drop 64 data) (h\<lparr>hs_s := sha256_block (hs_s h) (take 64 data), hs_bytes := hs_bytes h + of_nat 64\<rparr>)"
      using True by (simp add: whole_blocks.simps [of _ _ data h])
    show ?thesis unfolding w n using "1.hyps" [unfolded m] True
      by (simp add: sha256_block_take add.assoc drop_drop add.commute)
  qed (simp add: whole_blocks.simps [of _ _ data h])
qed

lemma CSHA256_Write_hasher: "CSHA256_Write = hasher_Write 64 sha256_block"
proof (intro ext)
  fix d h
  have t: "(\<lambda>s b. sha256_Transform s b 1) = sha256_block" by (simp add: fun_eq_iff)
  have "length d1 < 64 \<Longrightarrow> length d1 div 64 = 0" for d1 :: bytes by simp
  then show "CSHA256_Write d h = hasher_Write 64 sha256_block d h"
    unfolding CSHA256_Write_def hasher_Write_def t sha256_Transform_blocks
    by (auto simp: Let_def not_le split: prod.splits)
qed

interpretation sha256s: streaming_hash 64 sha256_block "hasher_ok 64" hs_s "hasher_rest 64" hs_bytes CSHA256_Write
  unfolding CSHA256_Write_hasher by (rule streaming_hasher) simp_all

interpretation sha512s: streaming_hash 128 sha512_Transform "hasher_ok 128" hs_s "hasher_rest 128" hs_bytes CSHA512_Write
  unfolding CSHA512_Write_def by (rule streaming_hasher) simp_all

text \<open>The length field: big-endian bytes of the bit count.\<close>

lemma WriteBE64_length:
  assumes "n < 2 ^ 61"
  shows "WriteBE64 (push_bit 3 (of_nat n)) = map (\<lambda>i. of_nat (8 * n div 256 ^ (7 - i))) [0..<8]"
proof -
  have u: "unat (push_bit 3 (of_nat n) :: u64) = 8 * n" using assms by (simp add: push_bit_eq_mult unat_word_ariths unat_of_nat)
  have "ucast (drop_bit (8 * i) (push_bit 3 (of_nat n) :: u64)) = (of_nat (8 * n div 256 ^ i) :: u8)" for i
    by (simp add: word_unat_eq_iff unat_ucast unat_drop_bit u unat_of_nat power_mult)
  then have "le_bytes 8 (push_bit 3 (of_nat n) :: u64) = map (\<lambda>i. of_nat (8 * n div 256 ^ i)) [0..<8]"
    by (simp only: le_bytes_def)
  then show ?thesis by (simp add: WriteBE64_def upt_rec)
qed

lemma zero_prefix: "n < 2 ^ 61 \<Longrightarrow> 8 \<le> k \<Longrightarrow> 8 * n div 256 ^ k = (0 :: nat)"
proof -
  assume a: "n < 2 ^ 61" "8 \<le> k"
  have "8 * n < 256 ^ 8" using a(1) by simp
  also have "\<dots> \<le> (256::nat) ^ k" using a(2) by (rule power_increasing) simp
  finally show ?thesis by simp
qed

lemma fips_pad_256:
  assumes "n < 2 ^ 61"
  shows "take (1 + (119 - n mod 64) mod 64) (0x80 # replicate 63 0) @ WriteBE64 (push_bit 3 (of_nat n)) = fips_pad 64 8 n"
  by (simp add: fips_pad_def WriteBE64_length [OF assms] min_def)

lemma fips_pad_512:
  assumes "n < 2 ^ 61"
  shows "take (1 + (239 - n mod 128) mod 128) (0x80 # replicate 127 0) @ replicate 8 0 @ WriteBE64 (push_bit 3 (of_nat n)) = fips_pad 128 16 n"
proof -
  have u: "[0..<16] = [0..<8] @ map ((+) 8) [0..<8::nat]" by code_simp
  have "map (\<lambda>i. of_nat (8 * n div 256 ^ (15 - i)) :: u8) [0..<8] = map (\<lambda>i. 0) [0..<8]"
    using zero_prefix [OF assms] by (intro map_cong) simp_all
  then have "map (\<lambda>i. of_nat (8 * n div 256 ^ (16 - 1 - i)) :: u8) [0..<16] = replicate 8 0 @ WriteBE64 (push_bit 3 (of_nat n))"
    unfolding u WriteBE64_length [OF assms] by (simp add: o_def map_replicate_const del: upt_rec_numeral)
  then show ?thesis by (simp add: fips_pad_def min_def del: upt_rec_numeral)
qed

lemma CSHA256_Init_ok: "hasher_ok 64 CSHA256_Init" "hasher_rest 64 CSHA256_Init = []" "hs_bytes CSHA256_Init = 0"
  "hs_s CSHA256_Init = sha256_Initialize"
  by (simp_all add: CSHA256_Init_def hasher_start_ok)

lemma CSHA512_Init_ok: "hasher_ok 128 CSHA512_Init" "hasher_rest 128 CSHA512_Init = []" "hs_bytes CSHA512_Init = 0"
  "hs_s CSHA512_Init = sha512_Initialize"
  by (simp_all add: CSHA512_Init_def hasher_start_ok)

lemma CSHA256_digest_from:
  assumes h: "hasher_ok 64 h" "hasher_rest 64 h = []" "hs_bytes h = 0" "hs_s h = sha256_Initialize"
    and "length (concat ms) < 2 ^ 61"
  shows "CSHA256_Finalize (fold CSHA256_Write ms h) = fips_sha256 (concat ms)"
proof -
  have u: "unat (of_nat (length (concat ms)) :: u64) = length (concat ms)" using assms(5) by (simp add: unat_of_nat)
  have "CSHA256_Finalize (fold CSHA256_Write ms h) =
      concat (map WriteBE32 (fst (absorb 64 sha256_block sha256_Initialize (concat ms @ fips_pad 64 8 (length (concat ms))))))"
    unfolding CSHA256_Finalize_def Let_def sha256s.count_from_start [OF h(1,3)] u
      sha256s.padded_digest [OF h(1-3)] fips_pad_256 [OF assms(5)] h(4) ..
  also have "absorb 64 sha256_block sha256_Initialize = absorb 64 fips256_compress sha256_Initialize"
    by (intro ext absorb_cong [of "\<lambda>s. length s = 8"])
       (simp_all add: sha256_block_fips fips256_compress_def length_fips_compress length_K sha256_Initialize_def)
  finally show ?thesis by (simp add: fips_sha256_def big_endian_standard)
qed

lemma CSHA256_digest:
  "length (concat ms) < 2 ^ 61 \<Longrightarrow> CSHA256_Finalize (fold CSHA256_Write ms CSHA256_Init) = fips_sha256 (concat ms)"
  by (rule CSHA256_digest_from [OF CSHA256_Init_ok])

lemma CSHA512_digest:
  assumes "length (concat ms) < 2 ^ 61"
  shows "CSHA512_Finalize (fold CSHA512_Write ms CSHA512_Init) = fips_sha512 (concat ms)"
proof -
  have u: "unat (of_nat (length (concat ms)) :: u64) = length (concat ms)" using assms by (simp add: unat_of_nat)
  have "CSHA512_Finalize (fold CSHA512_Write ms CSHA512_Init) =
      concat (map WriteBE64 (fst (absorb 128 sha512_Transform sha512_Initialize (concat ms @ fips_pad 128 16 (length (concat ms))))))"
    unfolding CSHA512_Finalize_def Let_def sha512s.count_from_start [OF CSHA512_Init_ok(1,3)] u
      sha512s.padded_digest [OF CSHA512_Init_ok(1-3)] fips_pad_512 [OF assms] CSHA512_Init_ok(4) ..
  also have "absorb 128 sha512_Transform sha512_Initialize = absorb 128 fips512_compress sha512_Initialize"
    by (intro ext absorb_cong [of "\<lambda>s. length s = 8"])
       (simp_all add: sha512_Transform_fips fips512_compress_def length_fips_compress length_K sha512_Initialize_def)
  finally show ?thesis by (simp add: fips_sha512_def big_endian_standard)
qed

subsection \<open>The constants\<close>

lemma upto8: "[1..8] = [1, 2, 3, 4, 5, 6, 7, 8 :: int]"
  by code_simp

lemma sha256_constants:
  "list_all2 (frac_root 3 32) (take 64 first_primes) (map uint fips256_K)"
  "list_all2 (frac_root 2 32) (take 8 first_primes) (map uint sha256_Initialize)"
  by (simp_all add: first_primes_def frac_root_def upto8 fips256_K_def sha256_lines_def sha256_Initialize_def)

lemma sha512_constants:
  "list_all2 (frac_root 3 64) first_primes (map uint fips512_K)"
  "list_all2 (frac_root 2 64) (take 8 first_primes) (map uint sha512_Initialize)"
  by (simp_all add: first_primes_def frac_root_def upto8 fips512_K_def sha512_lines_def sha512_Initialize_def)

subsection \<open>Properties\<close>

text \<open>
  C14. Feeding a message below \<open>2 ^ 61\<close> bytes to \<^verbatim>\<open>CSHA256\<close> in any pieces and finalizing gives its SHA-256
  digest as FIPS 180-4 defines it, and the round constants and the initial state in the code are the
  first 32 bits of the fractional parts of the cube roots of the first 64 primes and of the square
  roots of the first 8.
\<close>

theorem CSHA256_is_sha256:
  assumes "length (concat ms) < 2 ^ 61"
  shows "CSHA256_Finalize (fold CSHA256_Write ms CSHA256_Init) = fips_sha256 (concat ms) \<and>
    list_all2 (frac_root 3 32) (take 64 first_primes) (map uint fips256_K) \<and>
    list_all2 (frac_root 2 32) (take 8 first_primes) (map uint sha256_Initialize)"
  using CSHA256_digest [OF assms] sha256_constants by blast

theorem CSHA256_is_sha256_witness:
  "CSHA256_Finalize (CSHA256_Write [3] (CSHA256_Write [1, 2] CSHA256_Init)) = fips_sha256 [1, 2, 3]"
  using CSHA256_is_sha256 [of "[[1, 2], [3]]"] by simp

text \<open>
  The same for \<^verbatim>\<open>CSHA512\<close>: any pieces of a message below \<open>2 ^ 61\<close> bytes give its SHA-512 digest,
  although the code keeps only a 64-bit byte count where the standard has a 128-bit length field.
\<close>

theorem CSHA512_is_sha512:
  assumes "length (concat ms) < 2 ^ 61"
  shows "CSHA512_Finalize (fold CSHA512_Write ms CSHA512_Init) = fips_sha512 (concat ms) \<and>
    list_all2 (frac_root 3 64) first_primes (map uint fips512_K) \<and>
    list_all2 (frac_root 2 64) (take 8 first_primes) (map uint sha512_Initialize)"
  using CSHA512_digest [OF assms] sha512_constants by blast

theorem CSHA512_is_sha512_witness:
  "CSHA512_Finalize (CSHA512_Write [3] (CSHA512_Write [1, 2] CSHA512_Init)) = fips_sha512 [1, 2, 3]"
  using CSHA512_is_sha512 [of "[[1, 2], [3]]"] by simp

end
