(* ===== verification/Sha1.thy ===== *)
theory Sha1
  imports Sha2
begin

text \<open>
  SHA-1 (\<^verbatim>\<open>src/src/crypto/sha1.cpp\<close>): the unrolled compression function as a table of its lines, and the
  proof that it computes the compression function of FIPS 180-4.
\<close>

subsection \<open>The code\<close>

text \<open>\<^verbatim>\<open>Round\<close> assigns to its reference parameters \<open>b\<close> and \<open>e\<close>: the pair is their new values.\<close>

(* src/src/crypto/sha1.cpp:18-22 Round *)
definition sha1_Round :: "u32 \<Rightarrow> u32 \<Rightarrow> u32 \<Rightarrow> u32 \<Rightarrow> u32 \<Rightarrow> u32 \<Rightarrow> u32 \<Rightarrow> u32 \<Rightarrow> u32 \<times> u32" where
  "sha1_Round a b c d e f k w =
     (push_bit 30 b OR drop_bit 2 b, e + ((push_bit 5 a OR drop_bit 27 a) + f + k + w))"

(* src/src/crypto/sha1.cpp:24-24 f1 *)
definition sha1_f1 :: "u32 \<Rightarrow> u32 \<Rightarrow> u32 \<Rightarrow> u32" where
  "sha1_f1 b c d = d XOR (b AND (c XOR d))"

(* src/src/crypto/sha1.cpp:25-25 f2 *)
definition sha1_f2 :: "u32 \<Rightarrow> u32 \<Rightarrow> u32 \<Rightarrow> u32" where
  "sha1_f2 b c d = b XOR c XOR d"

(* src/src/crypto/sha1.cpp:26-26 f3 *)
definition sha1_f3 :: "u32 \<Rightarrow> u32 \<Rightarrow> u32 \<Rightarrow> u32" where
  "sha1_f3 b c d = (b AND c) OR (d AND (b OR c))"

(* src/src/crypto/sha1.cpp:28-28 left *)
definition sha1_left :: "u32 \<Rightarrow> u32" where
  "sha1_left x = push_bit 1 x OR drop_bit 31 x"

(* src/src/crypto/sha1.cpp:31-38 Initialize *)
definition sha1_Initialize :: "u32 list" where
  "sha1_Initialize = [0x67452301, 0xEFCDAB89, 0x98BADCFE, 0x10325476, 0xC3D2E1F0]"

(* src/src/crypto/sha1.cpp:40-40 k1 *)
definition sha1_k1 :: u32 where
  "sha1_k1 = 0x5A827999"

(* src/src/crypto/sha1.cpp:41-41 k2 *)
definition sha1_k2 :: u32 where
  "sha1_k2 = 0x6ED9EBA1"

(* src/src/crypto/sha1.cpp:42-42 k3 *)
definition sha1_k3 :: u32 where
  "sha1_k3 = 0x8F1BBCDC"

(* src/src/crypto/sha1.cpp:43-43 k4 *)
definition sha1_k4 :: u32 where
  "sha1_k4 = 0xCA62C1D6"

text \<open>
  The last argument of a line: a word read from the chunk into \<open>w\<^sub>i\<close>, an assignment
  \<open>w\<^sub>i = left(w\<^sub>j ^ w\<^sub>k ^ w\<^sub>l ^ w\<^sub>m)\<close>, or the same value without an assignment.
\<close>

datatype sha1_w = Fetch nat nat | Mix nat nat nat nat nat | MixLast nat nat nat nat

fun sha1_word :: "bytes \<Rightarrow> sha1_w \<Rightarrow> u32 list \<Rightarrow> u32 \<times> u32 list" where
  "sha1_word chunk (Fetch i off) w = (let x = ReadBE32 (drop off chunk) in (x, w[i := x]))"
| "sha1_word chunk (Mix i j k l m) w = (let x = sha1_left (w ! j XOR w ! k XOR w ! l XOR w ! m) in (x, w[i := x]))"
| "sha1_word chunk (MixLast j k l m) w = (sha1_left (w ! j XOR w ! k XOR w ! l XOR w ! m), w)"

text \<open>
  A line of \<^verbatim>\<open>Transform\<close>: the registers passed to \<^verbatim>\<open>Round\<close> (\<open>a\<close> is 0, \<open>e\<close> is 4), the number of the function
  with the registers it is applied to, the constant, the message word.
\<close>

type_synonym sha1_line = "nat list \<times> nat \<times> nat list \<times> u32 \<times> sha1_w"

definition sha1_f :: "nat \<Rightarrow> u32 \<Rightarrow> u32 \<Rightarrow> u32 \<Rightarrow> u32" where
  "sha1_f n = (if n = 1 then sha1_f1 else if n = 2 then sha1_f2 else sha1_f3)"

definition sha1_step :: "bytes \<Rightarrow> sha1_line \<Rightarrow> u32 list \<times> u32 list \<Rightarrow> u32 list \<times> u32 list" where
  "sha1_step chunk line rw =
     (let (ix, f, fx, k, e) = line; (r, w) = rw; (x, w') = sha1_word chunk e w;
          (b', e') = sha1_Round (r ! (ix ! 0)) (r ! (ix ! 1)) (r ! (ix ! 2)) (r ! (ix ! 3)) (r ! (ix ! 4))
                       (sha1_f f (r ! (fx ! 0)) (r ! (fx ! 1)) (r ! (fx ! 2))) k x
      in (r[ix ! 1 := b', ix ! 4 := e'], w'))"

(* src/src/crypto/sha1.cpp:51-134 Transform *)
definition sha1_lines :: "sha1_line list" where
  "sha1_lines =
     [([0, 1, 2, 3, 4], 1, [1, 2, 3], sha1_k1, Fetch 0 0), ([4, 0, 1, 2, 3], 1, [0, 1, 2], sha1_k1, Fetch 1 4),
      ([3, 4, 0, 1, 2], 1, [4, 0, 1], sha1_k1, Fetch 2 8), ([2, 3, 4, 0, 1], 1, [3, 4, 0], sha1_k1, Fetch 3 12),
      ([1, 2, 3, 4, 0], 1, [2, 3, 4], sha1_k1, Fetch 4 16), ([0, 1, 2, 3, 4], 1, [1, 2, 3], sha1_k1, Fetch 5 20),
      ([4, 0, 1, 2, 3], 1, [0, 1, 2], sha1_k1, Fetch 6 24), ([3, 4, 0, 1, 2], 1, [4, 0, 1], sha1_k1, Fetch 7 28),
      ([2, 3, 4, 0, 1], 1, [3, 4, 0], sha1_k1, Fetch 8 32), ([1, 2, 3, 4, 0], 1, [2, 3, 4], sha1_k1, Fetch 9 36),
      ([0, 1, 2, 3, 4], 1, [1, 2, 3], sha1_k1, Fetch 10 40), ([4, 0, 1, 2, 3], 1, [0, 1, 2], sha1_k1, Fetch 11 44),
      ([3, 4, 0, 1, 2], 1, [4, 0, 1], sha1_k1, Fetch 12 48), ([2, 3, 4, 0, 1], 1, [3, 4, 0], sha1_k1, Fetch 13 52),
      ([1, 2, 3, 4, 0], 1, [2, 3, 4], sha1_k1, Fetch 14 56), ([0, 1, 2, 3, 4], 1, [1, 2, 3], sha1_k1, Fetch 15 60),
      ([4, 0, 1, 2, 3], 1, [0, 1, 2], sha1_k1, Mix 0 0 13 8 2), ([3, 4, 0, 1, 2], 1, [4, 0, 1], sha1_k1, Mix 1 1 14 9 3),
      ([2, 3, 4, 0, 1], 1, [3, 4, 0], sha1_k1, Mix 2 2 15 10 4), ([1, 2, 3, 4, 0], 1, [2, 3, 4], sha1_k1, Mix 3 3 0 11 5),
      ([0, 1, 2, 3, 4], 2, [1, 2, 3], sha1_k2, Mix 4 4 1 12 6), ([4, 0, 1, 2, 3], 2, [0, 1, 2], sha1_k2, Mix 5 5 2 13 7),
      ([3, 4, 0, 1, 2], 2, [4, 0, 1], sha1_k2, Mix 6 6 3 14 8), ([2, 3, 4, 0, 1], 2, [3, 4, 0], sha1_k2, Mix 7 7 4 15 9),
      ([1, 2, 3, 4, 0], 2, [2, 3, 4], sha1_k2, Mix 8 8 5 0 10), ([0, 1, 2, 3, 4], 2, [1, 2, 3], sha1_k2, Mix 9 9 6 1 11),
      ([4, 0, 1, 2, 3], 2, [0, 1, 2], sha1_k2, Mix 10 10 7 2 12), ([3, 4, 0, 1, 2], 2, [4, 0, 1], sha1_k2, Mix 11 11 8 3 13),
      ([2, 3, 4, 0, 1], 2, [3, 4, 0], sha1_k2, Mix 12 12 9 4 14), ([1, 2, 3, 4, 0], 2, [2, 3, 4], sha1_k2, Mix 13 13 10 5 15),
      ([0, 1, 2, 3, 4], 2, [1, 2, 3], sha1_k2, Mix 14 14 11 6 0), ([4, 0, 1, 2, 3], 2, [0, 1, 2], sha1_k2, Mix 15 15 12 7 1),
      ([3, 4, 0, 1, 2], 2, [4, 0, 1], sha1_k2, Mix 0 0 13 8 2), ([2, 3, 4, 0, 1], 2, [3, 4, 0], sha1_k2, Mix 1 1 14 9 3),
      ([1, 2, 3, 4, 0], 2, [2, 3, 4], sha1_k2, Mix 2 2 15 10 4), ([0, 1, 2, 3, 4], 2, [1, 2, 3], sha1_k2, Mix 3 3 0 11 5),
      ([4, 0, 1, 2, 3], 2, [0, 1, 2], sha1_k2, Mix 4 4 1 12 6), ([3, 4, 0, 1, 2], 2, [4, 0, 1], sha1_k2, Mix 5 5 2 13 7),
      ([2, 3, 4, 0, 1], 2, [3, 4, 0], sha1_k2, Mix 6 6 3 14 8), ([1, 2, 3, 4, 0], 2, [2, 3, 4], sha1_k2, Mix 7 7 4 15 9),
      ([0, 1, 2, 3, 4], 3, [1, 2, 3], sha1_k3, Mix 8 8 5 0 10), ([4, 0, 1, 2, 3], 3, [0, 1, 2], sha1_k3, Mix 9 9 6 1 11),
      ([3, 4, 0, 1, 2], 3, [4, 0, 1], sha1_k3, Mix 10 10 7 2 12), ([2, 3, 4, 0, 1], 3, [3, 4, 0], sha1_k3, Mix 11 11 8 3 13),
      ([1, 2, 3, 4, 0], 3, [2, 3, 4], sha1_k3, Mix 12 12 9 4 14), ([0, 1, 2, 3, 4], 3, [1, 2, 3], sha1_k3, Mix 13 13 10 5 15),
      ([4, 0, 1, 2, 3], 3, [0, 1, 2], sha1_k3, Mix 14 14 11 6 0), ([3, 4, 0, 1, 2], 3, [4, 0, 1], sha1_k3, Mix 15 15 12 7 1),
      ([2, 3, 4, 0, 1], 3, [3, 4, 0], sha1_k3, Mix 0 0 13 8 2), ([1, 2, 3, 4, 0], 3, [2, 3, 4], sha1_k3, Mix 1 1 14 9 3),
      ([0, 1, 2, 3, 4], 3, [1, 2, 3], sha1_k3, Mix 2 2 15 10 4), ([4, 0, 1, 2, 3], 3, [0, 1, 2], sha1_k3, Mix 3 3 0 11 5),
      ([3, 4, 0, 1, 2], 3, [4, 0, 1], sha1_k3, Mix 4 4 1 12 6), ([2, 3, 4, 0, 1], 3, [3, 4, 0], sha1_k3, Mix 5 5 2 13 7),
      ([1, 2, 3, 4, 0], 3, [2, 3, 4], sha1_k3, Mix 6 6 3 14 8), ([0, 1, 2, 3, 4], 3, [1, 2, 3], sha1_k3, Mix 7 7 4 15 9),
      ([4, 0, 1, 2, 3], 3, [0, 1, 2], sha1_k3, Mix 8 8 5 0 10), ([3, 4, 0, 1, 2], 3, [4, 0, 1], sha1_k3, Mix 9 9 6 1 11),
      ([2, 3, 4, 0, 1], 3, [3, 4, 0], sha1_k3, Mix 10 10 7 2 12), ([1, 2, 3, 4, 0], 3, [2, 3, 4], sha1_k3, Mix 11 11 8 3 13),
      ([0, 1, 2, 3, 4], 2, [1, 2, 3], sha1_k4, Mix 12 12 9 4 14), ([4, 0, 1, 2, 3], 2, [0, 1, 2], sha1_k4, Mix 13 13 10 5 15),
      ([3, 4, 0, 1, 2], 2, [4, 0, 1], sha1_k4, Mix 14 14 11 6 0), ([2, 3, 4, 0, 1], 2, [3, 4, 0], sha1_k4, Mix 15 15 12 7 1),
      ([1, 2, 3, 4, 0], 2, [2, 3, 4], sha1_k4, Mix 0 0 13 8 2), ([0, 1, 2, 3, 4], 2, [1, 2, 3], sha1_k4, Mix 1 1 14 9 3),
      ([4, 0, 1, 2, 3], 2, [0, 1, 2], sha1_k4, Mix 2 2 15 10 4), ([3, 4, 0, 1, 2], 2, [4, 0, 1], sha1_k4, Mix 3 3 0 11 5),
      ([2, 3, 4, 0, 1], 2, [3, 4, 0], sha1_k4, Mix 4 4 1 12 6), ([1, 2, 3, 4, 0], 2, [2, 3, 4], sha1_k4, Mix 5 5 2 13 7),
      ([0, 1, 2, 3, 4], 2, [1, 2, 3], sha1_k4, Mix 6 6 3 14 8), ([4, 0, 1, 2, 3], 2, [0, 1, 2], sha1_k4, Mix 7 7 4 15 9),
      ([3, 4, 0, 1, 2], 2, [4, 0, 1], sha1_k4, Mix 8 8 5 0 10), ([2, 3, 4, 0, 1], 2, [3, 4, 0], sha1_k4, Mix 9 9 6 1 11),
      ([1, 2, 3, 4, 0], 2, [2, 3, 4], sha1_k4, Mix 10 10 7 2 12), ([0, 1, 2, 3, 4], 2, [1, 2, 3], sha1_k4, Mix 11 11 8 3 13),
      ([4, 0, 1, 2, 3], 2, [0, 1, 2], sha1_k4, Mix 12 12 9 4 14), ([3, 4, 0, 1, 2], 2, [4, 0, 1], sha1_k4, MixLast 13 10 5 15),
      ([2, 3, 4, 0, 1], 2, [3, 4, 0], sha1_k4, MixLast 14 11 6 0), ([1, 2, 3, 4, 0], 2, [2, 3, 4], sha1_k4, MixLast 15 12 7 1)]"

(* src/src/crypto/sha1.cpp:46-141 Transform *)
definition sha1_Transform :: "u32 list \<Rightarrow> bytes \<Rightarrow> u32 list" where
  "sha1_Transform s chunk = map2 (+) s (fst (fold (sha1_step chunk) sha1_lines (s, replicate 16 0)))"

(* src/src/crypto/sha1.cpp:149-152 CSHA1::CSHA1 *)
definition CSHA1_Init :: "u32 hasher" where
  "CSHA1_Init = hasher_start 64 sha1_Initialize"

(* src/src/crypto/sha1.cpp:154-178 CSHA1::Write *)
definition CSHA1_Write :: "bytes \<Rightarrow> u32 hasher \<Rightarrow> u32 hasher" where
  "CSHA1_Write = hasher_Write 64 sha1_Transform"

(* src/src/crypto/sha1.cpp:180-192 CSHA1::Finalize *)
definition CSHA1_Finalize :: "u32 hasher \<Rightarrow> bytes" where
  "CSHA1_Finalize h =
     (let sizedesc = WriteBE64 (push_bit 3 (hs_bytes h));
          h1 = CSHA1_Write (take (1 + (119 - unat (hs_bytes h) mod 64) mod 64) (0x80 # replicate 63 0)) h;
          h2 = CSHA1_Write sizedesc h1
      in concat (map WriteBE32 (hs_s h2)))"

(* src/src/crypto/sha1.cpp:194-199 CSHA1::Reset *)
definition CSHA1_Reset :: "u32 hasher \<Rightarrow> u32 hasher" where
  "CSHA1_Reset h = h\<lparr>hs_bytes := 0, hs_s := sha1_Initialize\<rparr>"

subsection \<open>The standard\<close>

fun fips1_W :: "(nat \<Rightarrow> u32) \<Rightarrow> nat \<Rightarrow> u32" where
  "fips1_W M t = (if t < 16 then M t else
     word_rotl 1 (fips1_W M (t - 3) XOR fips1_W M (t - 8) XOR fips1_W M (t - 14) XOR fips1_W M (t - 16)))"

declare fips1_W.simps [simp del]

definition fips1_f :: "nat \<Rightarrow> u32 \<Rightarrow> u32 \<Rightarrow> u32 \<Rightarrow> u32" where
  "fips1_f t x y z = (if t < 20 then fips_Ch x y z else if t < 40 then x XOR y XOR z
     else if t < 60 then fips_Maj x y z else x XOR y XOR z)"

definition fips1_K :: "nat \<Rightarrow> u32" where
  "fips1_K t = (if t < 20 then 0x5a827999 else if t < 40 then 0x6ed9eba1 else if t < 60 then 0x8f1bbcdc else 0xca62c1d6)"

definition fips1_round :: "nat \<Rightarrow> u32 \<Rightarrow> u32 list \<Rightarrow> u32 list" where
  "fips1_round t w v =
     (let T = word_rotl 5 (v ! 0) + fips1_f t (v ! 1) (v ! 2) (v ! 3) + v ! 4 + fips1_K t + w
      in [T, v ! 0, word_rotl 30 (v ! 1), v ! 2, v ! 3])"

definition fips1_compress :: "u32 list \<Rightarrow> bytes \<Rightarrow> u32 list" where
  "fips1_compress H blk =
     map2 (+) H (fold (\<lambda>t. fips1_round t (fips1_W (\<lambda>t. be_word (take 4 (drop (4 * t) blk))) t)) [0..<80] H)"

definition fips_sha1 :: "bytes \<Rightarrow> bytes" where
  "fips_sha1 m = concat (map (be_split 4) (fst (absorb 64 fips1_compress sha1_Initialize (m @ fips_pad 64 8 (length m)))))"

subsection \<open>Five renamed registers\<close>

definition ix5 :: "nat \<Rightarrow> nat list" where
  "ix5 t = map (\<lambda>j. (j + 5 - t mod 5) mod 5) [0..<5]"

definition view5 :: "nat \<Rightarrow> 'a list \<Rightarrow> 'a list" where
  "view5 t r = map ((!) r) (ix5 t)"

lemma ix5_mod: "ix5 t = ix5 (t mod 5)"
  by (simp add: ix5_def)

lemma length5E:
  assumes "length r = 5"
  obtains a b c d e where "r = [a, b, c, d, e]"
  using assms by (auto simp: length_Suc_conv eval_nat_numeral)

lemma ix5_props:
  "length (ix5 t) = 5" "distinct (ix5 t)" "\<forall>i \<in> set (ix5 t). i < 5" "ix5 (Suc t) = last (ix5 t) # butlast (ix5 t)"
proof -
  have "list_all (\<lambda>k. length (ix5 k) = 5 \<and> distinct (ix5 k) \<and> list_all (\<lambda>i. i < 5) (ix5 k) \<and>
      ix5 (Suc k) = last (ix5 k) # butlast (ix5 k)) [0..<5]"
    by code_simp
  then have "length (ix5 (t mod 5)) = 5 \<and> distinct (ix5 (t mod 5)) \<and> (\<forall>i \<in> set (ix5 (t mod 5)). i < 5) \<and>
      ix5 (Suc (t mod 5)) = last (ix5 (t mod 5)) # butlast (ix5 (t mod 5))"
    unfolding list_all_iff by (rule bspec) simp
  moreover have "ix5 (Suc (t mod 5)) = ix5 (Suc t)" unfolding ix5_mod [of "Suc t"] ix5_mod [of "Suc (t mod 5)"] by (simp add: mod_Suc_eq)
  ultimately show "length (ix5 t) = 5" "distinct (ix5 t)" "\<forall>i \<in> set (ix5 t). i < 5" "ix5 (Suc t) = last (ix5 t) # butlast (ix5 t)"
    unfolding ix5_mod [of t, symmetric] by auto
qed

lemma view5_0: "length r = 5 \<Longrightarrow> t mod 5 = 0 \<Longrightarrow> view5 t r = r"
proof -
  assume t: "t mod 5 = 0"
  have "ix5 0 = [0, 1, 2, 3, 4]" by code_simp
  then have "ix5 t = [0, 1, 2, 3, 4]" unfolding ix5_mod [of t] t .
  then show ?thesis if "length r = 5" using that by (auto elim!: length5E simp: view5_def)
qed

lemma view5_nth: "i < 5 \<Longrightarrow> r ! (ix5 t ! i) = view5 t r ! i"
  by (simp add: view5_def ix5_props)

text \<open>After assigning to two of the renamed registers, the view of the next line is shifted by one.\<close>

lemma view5_Suc:
  assumes "length r = 5" "p < 5" "q < 5" "p \<noteq> q"
  shows "view5 (Suc t) (r[ix5 t ! p := x, ix5 t ! q := y]) = (let v = (view5 t r)[p := x, q := y] in last v # butlast v)"
proof -
  let ?ix = "ix5 t"
  have "r[?ix ! p := x, ?ix ! q := y] ! (?ix ! i) = (view5 t r)[p := x, q := y] ! i" if "i < 5" for i
    using assms that ix5_props [of t] by (auto simp: nth_list_update nth_eq_iff_index_eq view5_def)
  then have m: "map ((!) (r[?ix ! p := x, ?ix ! q := y])) ?ix = (view5 t r)[p := x, q := y]"
    by (intro nth_equalityI) (simp_all add: ix5_props view5_def)
  have "?ix \<noteq> []" using ix5_props(1) [of t] by auto
  then show ?thesis unfolding m [symmetric] by (simp add: view5_def [of "Suc t"] ix5_props(4) Let_def last_map map_butlast)
qed

subsection \<open>The code implements the standard\<close>

lemma rotl_shifts:
  assumes "0 < n" "n < 32"
  shows "push_bit n x OR drop_bit (32 - n) x = word_rotl n (x :: u32)"
proof -
  have "word_rotl n x = word_rotr (32 - n) x"
    by (rule bit_word_eqI) (use assms in \<open>auto simp: bit_word_rotl_iff bit_word_rotr_iff\<close>)
  with rotr32 [of "32 - n" x] assms show ?thesis by (simp add: or.commute)
qed

lemma sha1_left_rotl: "sha1_left x = word_rotl 1 x"
  using rotl_shifts [of 1 x] by (simp add: sha1_left_def)

lemma sha1_Round_fips:
  "sha1_Round a b c d e f k w = (word_rotl 30 b, word_rotl 5 a + f + e + k + w)"
  using rotl_shifts [of 30 b] rotl_shifts [of 5 a] by (simp add: sha1_Round_def ac_simps)

definition sha1_wop :: "nat \<Rightarrow> sha1_w" where
  "sha1_wop t = (if t < 16 then Fetch t (4 * t)
     else if t < 77 then Mix (t mod 16) (t mod 16) ((t - 3) mod 16) ((t - 8) mod 16) ((t - 14) mod 16)
     else MixLast (t mod 16) ((t - 3) mod 16) ((t - 8) mod 16) ((t - 14) mod 16))"

definition sha1_fn :: "nat \<Rightarrow> nat" where
  "sha1_fn t = (if t < 20 then 1 else if t < 40 then 2 else if t < 60 then 3 else 2)"

definition sha1_regular :: "nat \<Rightarrow> sha1_line" where
  "sha1_regular t = (ix5 t, sha1_fn t, take 3 (drop 1 (ix5 t)), fips1_K t, sha1_wop t)"

lemma sha1_lines_regular: "sha1_lines = map sha1_regular [0..<80]"
  by code_simp

lemma sha1_f_fips: "sha1_f (sha1_fn t) = fips1_f t"
  by (auto simp: fun_eq_iff sha1_f_def sha1_fn_def fips1_f_def sha1_f1_def sha1_f2_def sha1_f3_def Ch_fips Maj_fips)

definition ring1_ok :: "(nat \<Rightarrow> u32) \<Rightarrow> nat \<Rightarrow> u32 list \<Rightarrow> bool" where
  "ring1_ok W t w \<longleftrightarrow> length w = 16 \<and> (\<forall>i < t. t \<le> i + 16 \<longrightarrow> i < 77 \<longrightarrow> w ! (i mod 16) = W i)"

lemma ring1_store:
  assumes "ring1_ok W t w"
  shows "ring1_ok W (Suc t) (w[t mod 16 := W t])"
proof -
  have "w[t mod 16 := W t] ! (i mod 16) = W i" if i: "i < Suc t" "Suc t \<le> i + 16" "i < 77" for i
  proof (cases "i = t")
    case False
    then have "i mod 16 \<noteq> t mod 16" using i mod_eq_dvd_iff_nat [of i t 16] nat_dvd_not_less [of "t - i" 16] by auto
    with False i assms show ?thesis by (auto simp: ring1_ok_def nth_list_update)
  qed (use assms in \<open>simp add: ring1_ok_def\<close>)
  with assms show ?thesis by (simp add: ring1_ok_def)
qed

lemma sha1_word_fips:
  assumes "ring1_ok (fips1_W (\<lambda>t. ReadBE32 (drop (4 * t) chunk))) t w" "t < 80"
  shows "\<exists>w'. sha1_word chunk (sha1_wop t) w = (fips1_W (\<lambda>t. ReadBE32 (drop (4 * t) chunk)) t, w') \<and>
    ring1_ok (fips1_W (\<lambda>t. ReadBE32 (drop (4 * t) chunk))) (Suc t) w'"
proof (cases "t < 16")
  case True
  then have "fips1_W (\<lambda>t. ReadBE32 (drop (4 * t) chunk)) t = ReadBE32 (drop (4 * t) chunk)" by (simp add: fips1_W.simps)
  with True ring1_store [OF assms(1)] show ?thesis by (simp add: sha1_wop_def Let_def)
next
  case False
  let ?W = "fips1_W (\<lambda>t. ReadBE32 (drop (4 * t) chunk))"
  have r: "w ! ((t - k) mod 16) = ?W (t - k)" if "k \<in> {3, 8, 14, 16}" for k
    using assms False that by (auto simp: ring1_ok_def)
  have "w ! (t mod 16) = ?W (t - 16)" using r [of 16] False by (simp add: le_mod_geq)
  then have x: "sha1_left (w ! (t mod 16) XOR w ! ((t - 3) mod 16) XOR w ! ((t - 8) mod 16) XOR w ! ((t - 14) mod 16)) = ?W t"
    using False by (simp add: r fips1_W.simps [of _ t] sha1_left_rotl ac_simps)
  show ?thesis
  proof (cases "t < 77")
    case True
    with False x ring1_store [OF assms(1)] show ?thesis by (simp add: sha1_wop_def Let_def)
  next
    case last: False
    have "ring1_ok ?W (Suc t) w" using assms(1) last by (auto simp: ring1_ok_def less_Suc_eq)
    with False last x show ?thesis by (simp add: sha1_wop_def)
  qed
qed

lemma sha1_rounds:
  assumes "length s = 5" "t \<le> 80"
  shows "\<exists>r w. fold (sha1_step chunk) (map sha1_regular [0..<t]) (s, replicate 16 0) = (r, w) \<and> length r = 5 \<and>
    ring1_ok (fips1_W (\<lambda>t. ReadBE32 (drop (4 * t) chunk))) t w \<and>
    view5 t r = fold (\<lambda>t. fips1_round t (fips1_W (\<lambda>t. ReadBE32 (drop (4 * t) chunk)) t)) [0..<t] s"
  using assms(2)
proof (induction t)
  case 0
  with assms(1) show ?case by (simp add: ring1_ok_def view5_0)
next
  case (Suc t)
  let ?W = "fips1_W (\<lambda>t. ReadBE32 (drop (4 * t) chunk))"
  obtain r w where r: "fold (sha1_step chunk) (map sha1_regular [0..<t]) (s, replicate 16 0) = (r, w)" "length r = 5"
      "ring1_ok ?W t w" "view5 t r = fold (\<lambda>t. fips1_round t (?W t)) [0..<t] s"
    using Suc by auto
  obtain w' where w: "sha1_word chunk (sha1_wop t) w = (?W t, w')" "ring1_ok ?W (Suc t) w'"
    using sha1_word_fips [OF r(3)] Suc.prems by auto
  let ?v = "view5 t r"
  let ?T = "word_rotl 5 (?v ! 0) + fips1_f t (?v ! 1) (?v ! 2) (?v ! 3) + ?v ! 4 + fips1_K t + ?W t"
  have "sha1_step chunk (sha1_regular t) (r, w) = (r[ix5 t ! 1 := word_rotl 30 (?v ! 1), ix5 t ! 4 := ?T], w')"
    by (simp add: sha1_step_def sha1_regular_def w sha1_Round_fips view5_nth sha1_f_fips ix5_props(1) eval_nat_numeral(1)
        del: One_nat_def)
  moreover have "view5 (Suc t) (r[ix5 t ! 1 := word_rotl 30 (?v ! 1), ix5 t ! 4 := ?T]) = fips1_round t (?W t) ?v"
  proof -
    have "length ?v = 5" by (simp add: view5_def ix5_props)
    then obtain a b c d e where "?v = [a, b, c, d, e]" by (rule length5E)
    then show ?thesis by (simp add: view5_Suc r(2) fips1_round_def Let_def)
  qed
  ultimately show ?case using r w(2) by simp
qed

lemma sha1_Transform_fips:
  assumes "length s = 5"
  shows "sha1_Transform s chunk = fips1_compress s chunk"
  using sha1_rounds [OF assms order_refl, of chunk]
  by (auto simp: sha1_Transform_def fips1_compress_def big_endian_standard sha1_lines_regular view5_0 simp del: upt_rec_numeral)

subsection \<open>Streaming\<close>

interpretation sha1s: streaming_hash 64 sha1_Transform "hasher_ok 64" hs_s "hasher_rest 64" hs_bytes CSHA1_Write
  unfolding CSHA1_Write_def by (rule streaming_hasher) simp_all

lemma CSHA1_Init_ok: "hasher_ok 64 CSHA1_Init" "hasher_rest 64 CSHA1_Init = []" "hs_bytes CSHA1_Init = 0"
  "hs_s CSHA1_Init = sha1_Initialize"
  by (simp_all add: CSHA1_Init_def hasher_start_ok)

lemma length_fips1_compress: "length H = 5 \<Longrightarrow> length (fips1_compress H blk) = 5"
proof -
  assume "length H = 5"
  moreover have "length (fold (\<lambda>t. fips1_round t (W t)) ts v) = 5" if "length v = 5" for ts v and W :: "nat \<Rightarrow> u32"
    using that by (induction ts arbitrary: v) (simp_all add: fips1_round_def Let_def)
  ultimately show ?thesis by (simp add: fips1_compress_def del: upt_rec_numeral)
qed

lemma CSHA1_digest:
  assumes "length (concat ms) < 2 ^ 61"
  shows "CSHA1_Finalize (fold CSHA1_Write ms CSHA1_Init) = fips_sha1 (concat ms)"
proof -
  have u: "unat (of_nat (length (concat ms)) :: u64) = length (concat ms)" using assms by (simp add: unat_of_nat)
  have "CSHA1_Finalize (fold CSHA1_Write ms CSHA1_Init) =
      concat (map WriteBE32 (fst (absorb 64 sha1_Transform sha1_Initialize (concat ms @ fips_pad 64 8 (length (concat ms))))))"
    unfolding CSHA1_Finalize_def Let_def sha1s.count_from_start [OF CSHA1_Init_ok(1,3)] u
      sha1s.padded_digest [OF CSHA1_Init_ok(1-3)] fips_pad_256 [OF assms] CSHA1_Init_ok(4) ..
  also have "absorb 64 sha1_Transform sha1_Initialize = absorb 64 fips1_compress sha1_Initialize"
    by (intro ext absorb_cong [of "\<lambda>s. length s = 5"])
       (simp_all add: sha1_Transform_fips length_fips1_compress sha1_Initialize_def)
  finally show ?thesis by (simp add: fips_sha1_def big_endian_standard)
qed

subsection \<open>Properties\<close>

text \<open>
  Feeding a message below \<open>2 ^ 61\<close> bytes to \<^verbatim>\<open>CSHA1\<close> in any pieces and finalizing gives its SHA-1
  digest as FIPS 180-4 defines it.
\<close>

theorem CSHA1_is_sha1:
  "length (concat ms) < 2 ^ 61 \<Longrightarrow> CSHA1_Finalize (fold CSHA1_Write ms CSHA1_Init) = fips_sha1 (concat ms)"
  by (rule CSHA1_digest)

theorem CSHA1_is_sha1_witness: "CSHA1_Finalize (CSHA1_Write [3] (CSHA1_Write [1, 2] CSHA1_Init)) = fips_sha1 [1, 2, 3]"
  using CSHA1_is_sha1 [of "[[1, 2], [3]]"] by simp

end
