(* ===== verification/Ripemd160.thy ===== *)
theory Ripemd160
  imports Sha1
begin

text \<open>
  RIPEMD-160 (\<^verbatim>\<open>src/src/crypto/ripemd160.cpp\<close>): the unrolled compression function, whose two lines are
  interleaved, as a table, and the proof that it computes the compression function of the
  RIPEMD-160 specification, given by its word permutations \<open>\<rho>\<close> and \<open>\<pi>\<close> and its table of shifts.
\<close>

subsection \<open>The code\<close>

(* src/src/crypto/ripemd160.cpp:17-17 f1 *)
definition rmd_f1 :: "u32 \<Rightarrow> u32 \<Rightarrow> u32 \<Rightarrow> u32" where
  "rmd_f1 x y z = x XOR y XOR z"

(* src/src/crypto/ripemd160.cpp:18-18 f2 *)
definition rmd_f2 :: "u32 \<Rightarrow> u32 \<Rightarrow> u32 \<Rightarrow> u32" where
  "rmd_f2 x y z = (x AND y) OR (NOT x AND z)"

(* src/src/crypto/ripemd160.cpp:19-19 f3 *)
definition rmd_f3 :: "u32 \<Rightarrow> u32 \<Rightarrow> u32 \<Rightarrow> u32" where
  "rmd_f3 x y z = (x OR NOT y) XOR z"

(* src/src/crypto/ripemd160.cpp:20-20 f4 *)
definition rmd_f4 :: "u32 \<Rightarrow> u32 \<Rightarrow> u32 \<Rightarrow> u32" where
  "rmd_f4 x y z = (x AND z) OR (y AND NOT z)"

(* src/src/crypto/ripemd160.cpp:21-21 f5 *)
definition rmd_f5 :: "u32 \<Rightarrow> u32 \<Rightarrow> u32 \<Rightarrow> u32" where
  "rmd_f5 x y z = x XOR (y OR NOT z)"

(* src/src/crypto/ripemd160.cpp:24-31 Initialize *)
definition rmd_Initialize :: "u32 list" where
  "rmd_Initialize = [0x67452301, 0xEFCDAB89, 0x98BADCFE, 0x10325476, 0xC3D2E1F0]"

(* src/src/crypto/ripemd160.cpp:33-33 rol *)
definition rmd_rol :: "u32 \<Rightarrow> nat \<Rightarrow> u32" where
  "rmd_rol x i = push_bit i x OR drop_bit (32 - i) x"

text \<open>\<^verbatim>\<open>Round\<close> assigns to its reference parameters \<open>a\<close> and \<open>c\<close>: the pair is their new values.\<close>

(* src/src/crypto/ripemd160.cpp:35-39 Round *)
definition rmd_Round :: "u32 \<Rightarrow> u32 \<Rightarrow> u32 \<Rightarrow> u32 \<Rightarrow> u32 \<Rightarrow> u32 \<Rightarrow> u32 \<Rightarrow> u32 \<Rightarrow> nat \<Rightarrow> u32 \<times> u32" where
  "rmd_Round a b c d e f x k r = (rmd_rol (a + f + x + k) r + e, rmd_rol c 10)"

(* src/src/crypto/ripemd160.cpp:41-51 R11 *)
datatype rmd_R = R11 | R21 | R31 | R41 | R51 | R12 | R22 | R32 | R42 | R52

(* src/src/crypto/ripemd160.cpp:41-51 R11 *)
fun rmd_RN :: "rmd_R \<Rightarrow> u32 \<Rightarrow> u32 \<Rightarrow> u32 \<Rightarrow> u32 \<Rightarrow> u32 \<Rightarrow> u32 \<Rightarrow> nat \<Rightarrow> u32 \<times> u32" where
  "rmd_RN R11 a b c d e x r = rmd_Round a b c d e (rmd_f1 b c d) x 0 r"
| "rmd_RN R21 a b c d e x r = rmd_Round a b c d e (rmd_f2 b c d) x 0x5A827999 r"
| "rmd_RN R31 a b c d e x r = rmd_Round a b c d e (rmd_f3 b c d) x 0x6ED9EBA1 r"
| "rmd_RN R41 a b c d e x r = rmd_Round a b c d e (rmd_f4 b c d) x 0x8F1BBCDC r"
| "rmd_RN R51 a b c d e x r = rmd_Round a b c d e (rmd_f5 b c d) x 0xA953FD4E r"
| "rmd_RN R12 a b c d e x r = rmd_Round a b c d e (rmd_f5 b c d) x 0x50A28BE6 r"
| "rmd_RN R22 a b c d e x r = rmd_Round a b c d e (rmd_f4 b c d) x 0x5C4DD124 r"
| "rmd_RN R32 a b c d e x r = rmd_Round a b c d e (rmd_f3 b c d) x 0x6D703EF3 r"
| "rmd_RN R42 a b c d e x r = rmd_Round a b c d e (rmd_f2 b c d) x 0x7A6D76E9 r"
| "rmd_RN R52 a b c d e x r = rmd_Round a b c d e (rmd_f1 b c d) x 0 r"

text \<open>
  A line of \<^verbatim>\<open>Transform\<close>: the macro, the registers passed to it (\<open>a\<close> is 0, \<open>e\<close> is 4), the message word and the
  rotation. The macros \<open>R11..R51\<close> are called with the registers \<open>a1..e1\<close>, the others with \<open>a2..e2\<close>.
\<close>

type_synonym rmd_line = "rmd_R \<times> nat list \<times> nat \<times> nat"

definition rmd_side :: "rmd_R \<Rightarrow> bool" where
  "rmd_side R = (R \<in> {R11, R21, R31, R41, R51})"

definition rmd_exec :: "u32 list \<Rightarrow> rmd_line \<Rightarrow> u32 list \<Rightarrow> u32 list" where
  "rmd_exec w line r =
     (let (R, ix, wi, s) = line;
          (a', c') = rmd_RN R (r ! (ix ! 0)) (r ! (ix ! 1)) (r ! (ix ! 2)) (r ! (ix ! 3)) (r ! (ix ! 4)) (w ! wi) s
      in r[ix ! 0 := a', ix ! 2 := c'])"

definition rmd_step :: "u32 list \<Rightarrow> rmd_line \<Rightarrow> u32 list \<times> u32 list \<Rightarrow> u32 list \<times> u32 list" where
  "rmd_step w line r12 =
     (if rmd_side (fst line) then (rmd_exec w line (fst r12), snd r12) else (fst r12, rmd_exec w line (snd r12)))"

(* src/src/crypto/ripemd160.cpp:63-226 Transform *)
definition rmd_lines :: "rmd_line list" where
  "rmd_lines =
     [(R11, [0, 1, 2, 3, 4], 0, 11), (R12, [0, 1, 2, 3, 4], 5, 8), (R11, [4, 0, 1, 2, 3], 1, 14), (R12, [4, 0, 1, 2, 3], 14, 9),
      (R11, [3, 4, 0, 1, 2], 2, 15), (R12, [3, 4, 0, 1, 2], 7, 9), (R11, [2, 3, 4, 0, 1], 3, 12), (R12, [2, 3, 4, 0, 1], 0, 11),
      (R11, [1, 2, 3, 4, 0], 4, 5), (R12, [1, 2, 3, 4, 0], 9, 13), (R11, [0, 1, 2, 3, 4], 5, 8), (R12, [0, 1, 2, 3, 4], 2, 15),
      (R11, [4, 0, 1, 2, 3], 6, 7), (R12, [4, 0, 1, 2, 3], 11, 15), (R11, [3, 4, 0, 1, 2], 7, 9), (R12, [3, 4, 0, 1, 2], 4, 5),
      (R11, [2, 3, 4, 0, 1], 8, 11), (R12, [2, 3, 4, 0, 1], 13, 7), (R11, [1, 2, 3, 4, 0], 9, 13), (R12, [1, 2, 3, 4, 0], 6, 7),
      (R11, [0, 1, 2, 3, 4], 10, 14), (R12, [0, 1, 2, 3, 4], 15, 8), (R11, [4, 0, 1, 2, 3], 11, 15), (R12, [4, 0, 1, 2, 3], 8, 11),
      (R11, [3, 4, 0, 1, 2], 12, 6), (R12, [3, 4, 0, 1, 2], 1, 14), (R11, [2, 3, 4, 0, 1], 13, 7), (R12, [2, 3, 4, 0, 1], 10, 14),
      (R11, [1, 2, 3, 4, 0], 14, 9), (R12, [1, 2, 3, 4, 0], 3, 12), (R11, [0, 1, 2, 3, 4], 15, 8), (R12, [0, 1, 2, 3, 4], 12, 6),
      (R21, [4, 0, 1, 2, 3], 7, 7), (R22, [4, 0, 1, 2, 3], 6, 9), (R21, [3, 4, 0, 1, 2], 4, 6), (R22, [3, 4, 0, 1, 2], 11, 13),
      (R21, [2, 3, 4, 0, 1], 13, 8), (R22, [2, 3, 4, 0, 1], 3, 15), (R21, [1, 2, 3, 4, 0], 1, 13), (R22, [1, 2, 3, 4, 0], 7, 7),
      (R21, [0, 1, 2, 3, 4], 10, 11), (R22, [0, 1, 2, 3, 4], 0, 12), (R21, [4, 0, 1, 2, 3], 6, 9), (R22, [4, 0, 1, 2, 3], 13, 8),
      (R21, [3, 4, 0, 1, 2], 15, 7), (R22, [3, 4, 0, 1, 2], 5, 9), (R21, [2, 3, 4, 0, 1], 3, 15), (R22, [2, 3, 4, 0, 1], 10, 11),
      (R21, [1, 2, 3, 4, 0], 12, 7), (R22, [1, 2, 3, 4, 0], 14, 7), (R21, [0, 1, 2, 3, 4], 0, 12), (R22, [0, 1, 2, 3, 4], 15, 7),
      (R21, [4, 0, 1, 2, 3], 9, 15), (R22, [4, 0, 1, 2, 3], 8, 12), (R21, [3, 4, 0, 1, 2], 5, 9), (R22, [3, 4, 0, 1, 2], 12, 7),
      (R21, [2, 3, 4, 0, 1], 2, 11), (R22, [2, 3, 4, 0, 1], 4, 6), (R21, [1, 2, 3, 4, 0], 14, 7), (R22, [1, 2, 3, 4, 0], 9, 15),
      (R21, [0, 1, 2, 3, 4], 11, 13), (R22, [0, 1, 2, 3, 4], 1, 13), (R21, [4, 0, 1, 2, 3], 8, 12), (R22, [4, 0, 1, 2, 3], 2, 11),
      (R31, [3, 4, 0, 1, 2], 3, 11), (R32, [3, 4, 0, 1, 2], 15, 9), (R31, [2, 3, 4, 0, 1], 10, 13), (R32, [2, 3, 4, 0, 1], 5, 7),
      (R31, [1, 2, 3, 4, 0], 14, 6), (R32, [1, 2, 3, 4, 0], 1, 15), (R31, [0, 1, 2, 3, 4], 4, 7), (R32, [0, 1, 2, 3, 4], 3, 11),
      (R31, [4, 0, 1, 2, 3], 9, 14), (R32, [4, 0, 1, 2, 3], 7, 8), (R31, [3, 4, 0, 1, 2], 15, 9), (R32, [3, 4, 0, 1, 2], 14, 6),
      (R31, [2, 3, 4, 0, 1], 8, 13), (R32, [2, 3, 4, 0, 1], 6, 6), (R31, [1, 2, 3, 4, 0], 1, 15), (R32, [1, 2, 3, 4, 0], 9, 14),
      (R31, [0, 1, 2, 3, 4], 2, 14), (R32, [0, 1, 2, 3, 4], 11, 12), (R31, [4, 0, 1, 2, 3], 7, 8), (R32, [4, 0, 1, 2, 3], 8, 13),
      (R31, [3, 4, 0, 1, 2], 0, 13), (R32, [3, 4, 0, 1, 2], 12, 5), (R31, [2, 3, 4, 0, 1], 6, 6), (R32, [2, 3, 4, 0, 1], 2, 14),
      (R31, [1, 2, 3, 4, 0], 13, 5), (R32, [1, 2, 3, 4, 0], 10, 13), (R31, [0, 1, 2, 3, 4], 11, 12), (R32, [0, 1, 2, 3, 4], 0, 13),
      (R31, [4, 0, 1, 2, 3], 5, 7), (R32, [4, 0, 1, 2, 3], 4, 7), (R31, [3, 4, 0, 1, 2], 12, 5), (R32, [3, 4, 0, 1, 2], 13, 5),
      (R41, [2, 3, 4, 0, 1], 1, 11), (R42, [2, 3, 4, 0, 1], 8, 15), (R41, [1, 2, 3, 4, 0], 9, 12), (R42, [1, 2, 3, 4, 0], 6, 5),
      (R41, [0, 1, 2, 3, 4], 11, 14), (R42, [0, 1, 2, 3, 4], 4, 8), (R41, [4, 0, 1, 2, 3], 10, 15), (R42, [4, 0, 1, 2, 3], 1, 11),
      (R41, [3, 4, 0, 1, 2], 0, 14), (R42, [3, 4, 0, 1, 2], 3, 14), (R41, [2, 3, 4, 0, 1], 8, 15), (R42, [2, 3, 4, 0, 1], 11, 14),
      (R41, [1, 2, 3, 4, 0], 12, 9), (R42, [1, 2, 3, 4, 0], 15, 6), (R41, [0, 1, 2, 3, 4], 4, 8), (R42, [0, 1, 2, 3, 4], 0, 14),
      (R41, [4, 0, 1, 2, 3], 13, 9), (R42, [4, 0, 1, 2, 3], 5, 6), (R41, [3, 4, 0, 1, 2], 3, 14), (R42, [3, 4, 0, 1, 2], 12, 9),
      (R41, [2, 3, 4, 0, 1], 7, 5), (R42, [2, 3, 4, 0, 1], 2, 12), (R41, [1, 2, 3, 4, 0], 15, 6), (R42, [1, 2, 3, 4, 0], 13, 9),
      (R41, [0, 1, 2, 3, 4], 14, 8), (R42, [0, 1, 2, 3, 4], 9, 12), (R41, [4, 0, 1, 2, 3], 5, 6), (R42, [4, 0, 1, 2, 3], 7, 5),
      (R41, [3, 4, 0, 1, 2], 6, 5), (R42, [3, 4, 0, 1, 2], 10, 15), (R41, [2, 3, 4, 0, 1], 2, 12), (R42, [2, 3, 4, 0, 1], 14, 8),
      (R51, [1, 2, 3, 4, 0], 4, 9), (R52, [1, 2, 3, 4, 0], 12, 8), (R51, [0, 1, 2, 3, 4], 0, 15), (R52, [0, 1, 2, 3, 4], 15, 5),
      (R51, [4, 0, 1, 2, 3], 5, 5), (R52, [4, 0, 1, 2, 3], 10, 12), (R51, [3, 4, 0, 1, 2], 9, 11), (R52, [3, 4, 0, 1, 2], 4, 9),
      (R51, [2, 3, 4, 0, 1], 7, 6), (R52, [2, 3, 4, 0, 1], 1, 12), (R51, [1, 2, 3, 4, 0], 12, 8), (R52, [1, 2, 3, 4, 0], 5, 5),
      (R51, [0, 1, 2, 3, 4], 2, 13), (R52, [0, 1, 2, 3, 4], 8, 14), (R51, [4, 0, 1, 2, 3], 10, 12), (R52, [4, 0, 1, 2, 3], 7, 6),
      (R51, [3, 4, 0, 1, 2], 14, 5), (R52, [3, 4, 0, 1, 2], 6, 8), (R51, [2, 3, 4, 0, 1], 1, 12), (R52, [2, 3, 4, 0, 1], 2, 13),
      (R51, [1, 2, 3, 4, 0], 3, 13), (R52, [1, 2, 3, 4, 0], 13, 6), (R51, [0, 1, 2, 3, 4], 8, 14), (R52, [0, 1, 2, 3, 4], 14, 5),
      (R51, [4, 0, 1, 2, 3], 11, 11), (R52, [4, 0, 1, 2, 3], 0, 15), (R51, [3, 4, 0, 1, 2], 6, 8), (R52, [3, 4, 0, 1, 2], 3, 13),
      (R51, [2, 3, 4, 0, 1], 15, 5), (R52, [2, 3, 4, 0, 1], 9, 11), (R51, [1, 2, 3, 4, 0], 13, 6), (R52, [1, 2, 3, 4, 0], 11, 11)]"

(* src/src/crypto/ripemd160.cpp:54-62 Transform *)
definition rmd_words :: "bytes \<Rightarrow> u32 list" where
  "rmd_words chunk = map (\<lambda>i. ReadLE32 (drop (4 * i) chunk)) [0..<16]"

(* src/src/crypto/ripemd160.cpp:228-233 Transform *)
definition rmd_combine :: "u32 list \<Rightarrow> u32 list \<Rightarrow> u32 list \<Rightarrow> u32 list" where
  "rmd_combine s r1 r2 =
     [s ! 1 + r1 ! 2 + r2 ! 3, s ! 2 + r1 ! 3 + r2 ! 4, s ! 3 + r1 ! 4 + r2 ! 0, s ! 4 + r1 ! 0 + r2 ! 1, s ! 0 + r1 ! 1 + r2 ! 2]"

(* src/src/crypto/ripemd160.cpp:54-234 Transform *)
definition rmd_Transform :: "u32 list \<Rightarrow> bytes \<Rightarrow> u32 list" where
  "rmd_Transform s chunk = (let (r1, r2) = fold (rmd_step (rmd_words chunk)) rmd_lines (s, s) in rmd_combine s r1 r2)"

(* src/src/crypto/ripemd160.cpp:242-245 CRIPEMD160::CRIPEMD160 *)
definition CRIPEMD160_Init :: "u32 hasher" where
  "CRIPEMD160_Init = hasher_start 64 rmd_Initialize"

(* src/src/crypto/ripemd160.cpp:247-271 CRIPEMD160::Write *)
definition CRIPEMD160_Write :: "bytes \<Rightarrow> u32 hasher \<Rightarrow> u32 hasher" where
  "CRIPEMD160_Write = hasher_Write 64 rmd_Transform"

(* src/src/crypto/ripemd160.cpp:273-285 CRIPEMD160::Finalize *)
definition CRIPEMD160_Finalize :: "u32 hasher \<Rightarrow> bytes" where
  "CRIPEMD160_Finalize h =
     (let sizedesc = WriteLE64 (push_bit 3 (hs_bytes h));
          h1 = CRIPEMD160_Write (take (1 + (119 - unat (hs_bytes h) mod 64) mod 64) (0x80 # replicate 63 0)) h;
          h2 = CRIPEMD160_Write sizedesc h1
      in concat (map WriteLE32 (hs_s h2)))"

(* src/src/crypto/ripemd160.cpp:287-292 CRIPEMD160::Reset *)
definition CRIPEMD160_Reset :: "u32 hasher \<Rightarrow> u32 hasher" where
  "CRIPEMD160_Reset h = h\<lparr>hs_bytes := 0, hs_s := rmd_Initialize\<rparr>"

subsection \<open>The specification\<close>

text \<open>
  Round \<open>k\<close> of the left line reads the words in the order \<open>\<rho>\<^sup>k\<close>, of the right line in the order
  \<open>\<rho>\<^sup>k \<circ> \<pi>\<close>; the rotation in a round depends on the word only.
\<close>

definition rmd_rho :: "nat \<Rightarrow> nat" where
  "rmd_rho i = [7, 4, 13, 1, 10, 6, 15, 3, 12, 0, 9, 5, 2, 14, 11, 8] ! i"

definition rmd_pi :: "nat \<Rightarrow> nat" where
  "rmd_pi i = (9 * i + 5) mod 16"

fun rmd_rho_pow :: "nat \<Rightarrow> nat \<Rightarrow> nat" where
  "rmd_rho_pow 0 i = i"
| "rmd_rho_pow (Suc k) i = rmd_rho_pow k (rmd_rho i)"

definition rmd_r :: "bool \<Rightarrow> nat \<Rightarrow> nat" where
  "rmd_r side j = rmd_rho_pow (j div 16) (if side then j mod 16 else rmd_pi (j mod 16))"

definition rmd_shifts :: "nat list list" where
  "rmd_shifts =
     [[11, 14, 15, 12, 5, 8, 7, 9, 11, 13, 14, 15, 6, 7, 9, 8],
      [12, 13, 11, 15, 6, 9, 9, 7, 12, 15, 11, 13, 7, 8, 7, 7],
      [13, 15, 14, 11, 7, 7, 6, 8, 13, 14, 13, 12, 5, 5, 6, 9],
      [14, 11, 12, 14, 8, 6, 5, 5, 15, 12, 15, 14, 9, 9, 8, 6],
      [15, 12, 13, 13, 9, 5, 8, 6, 14, 11, 12, 11, 8, 6, 5, 5]]"

definition rmd_s :: "bool \<Rightarrow> nat \<Rightarrow> nat" where
  "rmd_s side j = rmd_shifts ! (j div 16) ! rmd_r side j"

definition spec_f :: "nat \<Rightarrow> u32 \<Rightarrow> u32 \<Rightarrow> u32 \<Rightarrow> u32" where
  "spec_f k x y z =
     (if k = 0 then x XOR y XOR z else if k = 1 then (x AND y) OR (NOT x AND z) else if k = 2 then (x OR NOT y) XOR z
      else if k = 3 then (x AND z) OR (y AND NOT z) else x XOR (y OR NOT z))"

definition spec_K :: "bool \<Rightarrow> nat \<Rightarrow> u32" where
  "spec_K side k = (if side then [0, 0x5A827999, 0x6ED9EBA1, 0x8F1BBCDC, 0xA953FD4E] ! k
     else [0x50A28BE6, 0x5C4DD124, 0x6D703EF3, 0x7A6D76E9, 0] ! k)"

definition spec_round :: "bool \<Rightarrow> (nat \<Rightarrow> u32) \<Rightarrow> nat \<Rightarrow> u32 list \<Rightarrow> u32 list" where
  "spec_round side X j v =
     (let k = j div 16;
          T = word_rotl (rmd_s side j) (v ! 0 + spec_f (if side then k else 4 - k) (v ! 1) (v ! 2) (v ! 3) + X (rmd_r side j) + spec_K side k) + v ! 4
      in [v ! 4, T, v ! 1, word_rotl 10 (v ! 2), v ! 3])"

definition spec_rmd_compress :: "u32 list \<Rightarrow> bytes \<Rightarrow> u32 list" where
  "spec_rmd_compress h blk =
     (let X = (\<lambda>i. ReadLE32 (drop (4 * i) blk));
          l = fold (spec_round True X) [0..<80] h; r = fold (spec_round False X) [0..<80] h
      in [h ! 1 + l ! 2 + r ! 3, h ! 2 + l ! 3 + r ! 4, h ! 3 + l ! 4 + r ! 0, h ! 4 + l ! 0 + r ! 1, h ! 0 + l ! 1 + r ! 2])"

definition spec_rmd_pad :: "nat \<Rightarrow> bytes" where
  "spec_rmd_pad n = 0x80 # replicate ((119 - n mod 64) mod 64) 0 @ map (\<lambda>i. of_nat (8 * n div 256 ^ i)) [0..<8]"

definition spec_ripemd160 :: "bytes \<Rightarrow> bytes" where
  "spec_ripemd160 m = concat (map WriteLE32 (fst (absorb 64 spec_rmd_compress rmd_Initialize (m @ spec_rmd_pad (length m)))))"

subsection \<open>The code implements the specification\<close>

definition rmd_macro :: "bool \<Rightarrow> nat \<Rightarrow> rmd_R" where
  "rmd_macro side k = (if side then [R11, R21, R31, R41, R51] ! k else [R12, R22, R32, R42, R52] ! k)"

definition rmd_regular :: "bool \<Rightarrow> nat \<Rightarrow> rmd_line" where
  "rmd_regular side j = (rmd_macro side (j div 16), ix5 j, rmd_r side j, rmd_s side j)"

lemma rmd_lines_regular: "rmd_lines = concat (map (\<lambda>j. [rmd_regular True j, rmd_regular False j]) [0..<80])"
  by code_simp

lemma rmd_tables_all: "list_all (\<lambda>j. list_all (\<lambda>side. rmd_r side j < 16 \<and> 0 < rmd_s side j \<and> rmd_s side j < 32 \<and>
    rmd_side (rmd_macro side (j div 16)) = side) [True, False]) [0..<80]"
  by code_simp

lemma rmd_tables:
  assumes "j < 80"
  shows "rmd_r side j < 16 \<and> 0 < rmd_s side j \<and> rmd_s side j < 32 \<and> rmd_side (rmd_macro side (j div 16)) = side"
  using rmd_tables_all assms unfolding list_all_iff by (cases side) (simp_all del: upt_rec_numeral)

lemma rmd_rol_rotl: "0 < i \<Longrightarrow> i < 32 \<Longrightarrow> rmd_rol x i = word_rotl i x"
  by (simp add: rmd_rol_def rotl_shifts)

lemma rmd_RN_spec:
  assumes "k < 5" "0 < s" "s < 32"
  shows "rmd_RN (rmd_macro side k) a b c d e x s =
    (word_rotl s (a + spec_f (if side then k else 4 - k) b c d + x + spec_K side k) + e, word_rotl 10 c)"
proof -
  have "k \<in> {0, 1, 2, 3, 4}" using assms(1) by auto
  then show ?thesis using assms(2,3)
    by (cases side) (auto simp: rmd_macro_def rmd_Round_def rmd_rol_rotl spec_f_def spec_K_def rmd_f1_def rmd_f2_def
        rmd_f3_def rmd_f4_def rmd_f5_def numeral_3_eq_3 numeral_2_eq_2 eval_nat_numeral)
qed

lemma rmd_exec_spec:
  assumes "length r = 5" "j < 80"
  shows "length (rmd_exec (rmd_words chunk) (rmd_regular side j) r) = 5 \<and>
    view5 (Suc j) (rmd_exec (rmd_words chunk) (rmd_regular side j) r) =
      spec_round side (\<lambda>i. ReadLE32 (drop (4 * i) chunk)) j (view5 j r)"
proof -
  have t: "rmd_r side j < 16" "0 < rmd_s side j" "rmd_s side j < 32" "j div 16 < 5"
    using rmd_tables [OF assms(2), of side] assms(2) by auto
  have x: "rmd_words chunk ! rmd_r side j = ReadLE32 (drop (4 * rmd_r side j) chunk)"
    using t(1) by (simp add: rmd_words_def del: upt_rec_numeral)
  let ?v = "view5 j r"
  let ?T = "word_rotl (rmd_s side j) (?v ! 0 + spec_f (if side then j div 16 else 4 - j div 16) (?v ! 1) (?v ! 2) (?v ! 3) +
      ReadLE32 (drop (4 * rmd_r side j) chunk) + spec_K side (j div 16)) + ?v ! 4"
  have e: "rmd_exec (rmd_words chunk) (rmd_regular side j) r = r[ix5 j ! 0 := ?T, ix5 j ! 2 := word_rotl 10 (?v ! 2)]"
    unfolding rmd_exec_def rmd_regular_def Let_def prod.case x rmd_RN_spec [OF t(4,2,3)]
    by (simp add: view5_nth)
  have "length ?v = 5" by (simp add: view5_def ix5_props)
  then obtain a b c d f where v: "?v = [a, b, c, d, f]" by (rule length5E)
  show ?thesis unfolding e by (simp add: view5_Suc assms(1) spec_round_def Let_def v)
qed

lemma rmd_rounds:
  assumes "length s = 5" "j \<le> 80"
  shows "\<exists>r1 r2. fold (rmd_step (rmd_words chunk)) (concat (map (\<lambda>j. [rmd_regular True j, rmd_regular False j]) [0..<j])) (s, s) = (r1, r2) \<and>
    length r1 = 5 \<and> length r2 = 5 \<and>
    view5 j r1 = fold (spec_round True (\<lambda>i. ReadLE32 (drop (4 * i) chunk))) [0..<j] s \<and>
    view5 j r2 = fold (spec_round False (\<lambda>i. ReadLE32 (drop (4 * i) chunk))) [0..<j] s"
  using assms(2)
proof (induction j)
  case 0
  with assms(1) show ?case by (simp add: view5_0)
next
  case (Suc j)
  then obtain r1 r2 where r: "fold (rmd_step (rmd_words chunk)) (concat (map (\<lambda>j. [rmd_regular True j, rmd_regular False j]) [0..<j])) (s, s) = (r1, r2)"
      "length r1 = 5" "length r2 = 5"
      "view5 j r1 = fold (spec_round True (\<lambda>i. ReadLE32 (drop (4 * i) chunk))) [0..<j] s"
      "view5 j r2 = fold (spec_round False (\<lambda>i. ReadLE32 (drop (4 * i) chunk))) [0..<j] s"
    by auto
  have j: "j < 80" using Suc.prems by simp
  have "rmd_side (fst (rmd_regular side j)) = side" for side using rmd_tables [OF j, of side] by (simp add: rmd_regular_def)
  then have "fold (rmd_step (rmd_words chunk)) [rmd_regular True j, rmd_regular False j] (r1, r2) =
      (rmd_exec (rmd_words chunk) (rmd_regular True j) r1, rmd_exec (rmd_words chunk) (rmd_regular False j) r2)"
    by (simp add: rmd_step_def)
  with r rmd_exec_spec [OF r(2) j, of chunk True] rmd_exec_spec [OF r(3) j, of chunk False] show ?case by simp
qed

lemma rmd_Transform_spec:
  assumes "length s = 5"
  shows "rmd_Transform s chunk = spec_rmd_compress s chunk"
  using rmd_rounds [OF assms order_refl, of chunk]
  by (auto simp: rmd_Transform_def spec_rmd_compress_def rmd_combine_def rmd_lines_regular view5_0 Let_def simp del: upt_rec_numeral)

lemma length_spec_rmd_compress: "length (spec_rmd_compress h blk) = 5"
  by (simp add: spec_rmd_compress_def Let_def)

subsection \<open>Streaming\<close>

interpretation rmds: streaming_hash 64 rmd_Transform "hasher_ok 64" hs_s "hasher_rest 64" hs_bytes CRIPEMD160_Write
  unfolding CRIPEMD160_Write_def by (rule streaming_hasher) simp_all

lemma CRIPEMD160_Init_ok: "hasher_ok 64 CRIPEMD160_Init" "hasher_rest 64 CRIPEMD160_Init = []" "hs_bytes CRIPEMD160_Init = 0"
  "hs_s CRIPEMD160_Init = rmd_Initialize"
  by (simp_all add: CRIPEMD160_Init_def hasher_start_ok)

lemma WriteLE64_length:
  assumes "n < 2 ^ 61"
  shows "WriteLE64 (push_bit 3 (of_nat n)) = map (\<lambda>i. of_nat (8 * n div 256 ^ i)) [0..<8]"
proof -
  have u: "unat (push_bit 3 (of_nat n) :: u64) = 8 * n" using assms by (simp add: push_bit_eq_mult unat_word_ariths unat_of_nat)
  have "ucast (drop_bit (8 * i) (push_bit 3 (of_nat n) :: u64)) = (of_nat (8 * n div 256 ^ i) :: u8)" for i
    by (simp add: word_unat_eq_iff unat_ucast unat_drop_bit u unat_of_nat power_mult)
  then show ?thesis by (simp only: WriteLE64_def le_bytes_def)
qed

lemma rmd_pad:
  assumes "n < 2 ^ 61"
  shows "take (1 + (119 - n mod 64) mod 64) (0x80 # replicate 63 0) @ WriteLE64 (push_bit 3 (of_nat n)) = spec_rmd_pad n"
  by (simp add: spec_rmd_pad_def WriteLE64_length [OF assms] min_def)

lemma CRIPEMD160_digest:
  assumes "length (concat ms) < 2 ^ 61"
  shows "CRIPEMD160_Finalize (fold CRIPEMD160_Write ms CRIPEMD160_Init) = spec_ripemd160 (concat ms)"
proof -
  have u: "unat (of_nat (length (concat ms)) :: u64) = length (concat ms)" using assms by (simp add: unat_of_nat)
  have "CRIPEMD160_Finalize (fold CRIPEMD160_Write ms CRIPEMD160_Init) =
      concat (map WriteLE32 (fst (absorb 64 rmd_Transform rmd_Initialize (concat ms @ spec_rmd_pad (length (concat ms))))))"
    unfolding CRIPEMD160_Finalize_def Let_def rmds.count_from_start [OF CRIPEMD160_Init_ok(1,3)] u
      rmds.padded_digest [OF CRIPEMD160_Init_ok(1-3)] rmd_pad [OF assms] CRIPEMD160_Init_ok(4) ..
  also have "absorb 64 rmd_Transform rmd_Initialize = absorb 64 spec_rmd_compress rmd_Initialize"
    by (intro ext absorb_cong [of "\<lambda>s. length s = 5"])
       (simp_all add: rmd_Transform_spec length_spec_rmd_compress rmd_Initialize_def)
  finally show ?thesis by (simp add: spec_ripemd160_def)
qed

subsection \<open>Properties\<close>

text \<open>
  Feeding a message below \<open>2 ^ 61\<close> bytes to \<^verbatim>\<open>CRIPEMD160\<close> in any pieces and finalizing gives its
  RIPEMD-160 digest: the two interleaved unrolled lines are the two lines of the specification, with
  its word order and rotations.
\<close>

theorem CRIPEMD160_is_ripemd160:
  "length (concat ms) < 2 ^ 61 \<Longrightarrow>
     CRIPEMD160_Finalize (fold CRIPEMD160_Write ms CRIPEMD160_Init) = spec_ripemd160 (concat ms)"
  by (rule CRIPEMD160_digest)

theorem CRIPEMD160_is_ripemd160_witness:
  "CRIPEMD160_Finalize (CRIPEMD160_Write [3] (CRIPEMD160_Write [1, 2] CRIPEMD160_Init)) = spec_ripemd160 [1, 2, 3]"
  using CRIPEMD160_is_ripemd160 [of "[[1, 2], [3]]"] by simp

end
