(* ===== verification/Hmac.thy ===== *)
theory Hmac
  imports Sha2
begin

text \<open>
  HMAC (\<^verbatim>\<open>src/src/crypto/hmac_sha256.cpp\<close>, \<^verbatim>\<open>src/src/crypto/hmac_sha512.cpp\<close>): two hashers, the outer one fed
  with the key masked by \<open>0x5c\<close>, the inner one with the key masked by \<open>0x36\<close> and then the message. The
  result is the construction of RFC 2104 over the digests of FIPS 180-4.
\<close>

(* src/src/crypto/hmac_sha256.h:14-18 CHMAC_SHA256 *)
record 'w hmac =
  outer :: "'w hasher"
  inner :: "'w hasher"

(* src/src/crypto/hmac_sha256.cpp:11-18 CHMAC_SHA256::CHMAC_SHA256 *)
definition hmac256_rkey :: "bytes \<Rightarrow> bytes" where
  "hmac256_rkey key =
     (if length key \<le> 64 then key @ replicate (64 - length key) 0
      else CSHA256_Finalize (CSHA256_Write key CSHA256_Init) @ replicate 32 0)"

(* src/src/crypto/hmac_sha256.cpp:9-27 CHMAC_SHA256::CHMAC_SHA256 *)
definition CHMAC_SHA256 :: "bytes \<Rightarrow> u32 hmac" where
  "CHMAC_SHA256 key =
     (let rkey = map (\<lambda>b. b XOR 0x5c) (hmac256_rkey key);
          out = CSHA256_Write rkey CSHA256_Init;
          rkey = map (\<lambda>b. b XOR (0x5c XOR 0x36)) rkey
      in \<lparr>outer = out, inner = CSHA256_Write rkey CSHA256_Init\<rparr>)"

(* src/src/crypto/hmac_sha256.h:24-28 CHMAC_SHA256::Write *)
definition CHMAC_SHA256_Write :: "bytes \<Rightarrow> u32 hmac \<Rightarrow> u32 hmac" where
  "CHMAC_SHA256_Write data h = h\<lparr>inner := CSHA256_Write data (inner h)\<rparr>"

(* src/src/crypto/hmac_sha256.cpp:29-34 CHMAC_SHA256::Finalize *)
definition CHMAC_SHA256_Finalize :: "u32 hmac \<Rightarrow> bytes" where
  "CHMAC_SHA256_Finalize h = CSHA256_Finalize (CSHA256_Write (CSHA256_Finalize (inner h)) (outer h))"

(* src/src/crypto/hmac_sha512.cpp:11-18 CHMAC_SHA512::CHMAC_SHA512 *)
definition hmac512_rkey :: "bytes \<Rightarrow> bytes" where
  "hmac512_rkey key =
     (if length key \<le> 128 then key @ replicate (128 - length key) 0
      else CSHA512_Finalize (CSHA512_Write key CSHA512_Init) @ replicate 64 0)"

(* src/src/crypto/hmac_sha512.cpp:9-27 CHMAC_SHA512::CHMAC_SHA512 *)
definition CHMAC_SHA512 :: "bytes \<Rightarrow> u64 hmac" where
  "CHMAC_SHA512 key =
     (let rkey = map (\<lambda>b. b XOR 0x5c) (hmac512_rkey key);
          out = CSHA512_Write rkey CSHA512_Init;
          rkey = map (\<lambda>b. b XOR (0x5c XOR 0x36)) rkey
      in \<lparr>outer = out, inner = CSHA512_Write rkey CSHA512_Init\<rparr>)"

(* src/src/crypto/hmac_sha512.h:24-28 CHMAC_SHA512::Write *)
definition CHMAC_SHA512_Write :: "bytes \<Rightarrow> u64 hmac \<Rightarrow> u64 hmac" where
  "CHMAC_SHA512_Write data h = h\<lparr>inner := CSHA512_Write data (inner h)\<rparr>"

(* src/src/crypto/hmac_sha512.cpp:29-34 CHMAC_SHA512::Finalize *)
definition CHMAC_SHA512_Finalize :: "u64 hmac \<Rightarrow> bytes" where
  "CHMAC_SHA512_Finalize h = CSHA512_Finalize (CSHA512_Write (CSHA512_Finalize (inner h)) (outer h))"

subsection \<open>RFC 2104\<close>

definition rfc_key :: "(bytes \<Rightarrow> bytes) \<Rightarrow> nat \<Rightarrow> bytes \<Rightarrow> bytes" where
  "rfc_key H B key = (let k = (if length key \<le> B then key else H key) in k @ replicate (B - length k) 0)"

definition rfc_hmac :: "(bytes \<Rightarrow> bytes) \<Rightarrow> nat \<Rightarrow> bytes \<Rightarrow> bytes \<Rightarrow> bytes" where
  "rfc_hmac H B key m =
     (let k = rfc_key H B key in H (map (\<lambda>b. b XOR 0x5c) k @ H (map (\<lambda>b. b XOR 0x36) k @ m)))"

lemma remask: "map (\<lambda>b. b XOR (0x5c XOR 0x36)) (map (\<lambda>b. b XOR 0x5c) k) = map (\<lambda>b. b XOR 0x36) (k :: bytes)"
proof -
  have "(b XOR c) XOR (c XOR d) = b XOR d" for b c d :: u8 by (rule bit_word_eqI) (auto simp: bit_simps)
  then show ?thesis by (simp only: map_map o_def)
qed

lemma absorb_inv:
  assumes "\<And>s b. P s \<Longrightarrow> P (tr s b)"
  shows "P s \<Longrightarrow> P (fst (absorb B tr s m))"
proof (induction m arbitrary: s rule: length_induct)
  case (1 m)
  show ?case
  proof (cases "B = 0 \<or> length m < B")
    case False
    then have "length (drop B m) < length m" by auto
    with 1 assms [of s "take B m"] False show ?thesis by (simp add: absorb.simps [of B tr s m])
  qed (use 1 in \<open>auto simp: absorb.simps [of B tr s m]\<close>)
qed

lemma digest_lengths: "length (fips_sha256 m) = 32" "length (fips_sha512 m) = 64"
proof -
  show "length (fips_sha256 m) = 32"
    using absorb_inv [of "\<lambda>s. length s = 8" fips256_compress sha256_Initialize]
    by (simp add: fips_sha256_def length_concat o_def sum_list_triv fips256_compress_def length_fips_compress
        length_K sha256_Initialize_def)
  show "length (fips_sha512 m) = 64"
    using absorb_inv [of "\<lambda>s. length s = 8" fips512_compress sha512_Initialize]
    by (simp add: fips_sha512_def length_concat o_def sum_list_triv fips512_compress_def length_fips_compress
        length_K sha512_Initialize_def)
qed

lemma hmac256_rkey_rfc: "length key < 2 ^ 61 \<Longrightarrow> hmac256_rkey key = rfc_key fips_sha256 64 key"
  using CSHA256_digest [of "[key]"] by (simp add: hmac256_rkey_def rfc_key_def digest_lengths)

lemma hmac512_rkey_rfc: "length key < 2 ^ 61 \<Longrightarrow> hmac512_rkey key = rfc_key fips_sha512 128 key"
  using CSHA512_digest [of "[key]"] by (simp add: hmac512_rkey_def rfc_key_def digest_lengths)

lemma length_rfc_key: "length (rfc_key fips_sha256 64 key) = 64" "length (rfc_key fips_sha512 128 key) = 128"
  by (simp_all add: rfc_key_def Let_def digest_lengths)

lemma hmac256_pieces:
  "fold CHMAC_SHA256_Write ms h = h\<lparr>inner := fold CSHA256_Write ms (inner h)\<rparr>"
  by (induction ms arbitrary: h) (simp_all add: CHMAC_SHA256_Write_def)

lemma hmac512_pieces:
  "fold CHMAC_SHA512_Write ms h = h\<lparr>inner := fold CSHA512_Write ms (inner h)\<rparr>"
  by (induction ms arbitrary: h) (simp_all add: CHMAC_SHA512_Write_def)

lemma CHMAC256_digest:
  assumes k: "length key < 2 ^ 61" and m: "length (concat ms) < 2 ^ 60 + 2 ^ 10"
  shows "CHMAC_SHA256_Finalize (fold CHMAC_SHA256_Write ms (CHMAC_SHA256 key)) = rfc_hmac fips_sha256 64 key (concat ms)"
proof -
  let ?k = "rfc_key fips_sha256 64 key"
  have i: "CSHA256_Finalize (fold CSHA256_Write ms (CSHA256_Write (map (\<lambda>b. b XOR 0x36) ?k) CSHA256_Init)) =
      fips_sha256 (map (\<lambda>b. b XOR 0x36) ?k @ concat ms)"
    using CSHA256_digest [of "map (\<lambda>b. b XOR 0x36) ?k # ms"] m by (simp add: length_rfc_key)
  show ?thesis
    using CSHA256_digest [of "[map (\<lambda>b. b XOR 0x5c) ?k, fips_sha256 (map (\<lambda>b. b XOR 0x36) ?k @ concat ms)]"]
    unfolding CHMAC_SHA256_def hmac256_rkey_rfc [OF k] Let_def remask hmac256_pieces CHMAC_SHA256_Finalize_def
    by (simp add: i rfc_hmac_def Let_def length_rfc_key digest_lengths)
qed

lemma CHMAC512_digest:
  assumes k: "length key < 2 ^ 61" and m: "length (concat ms) < 2 ^ 60 + 2 ^ 10"
  shows "CHMAC_SHA512_Finalize (fold CHMAC_SHA512_Write ms (CHMAC_SHA512 key)) = rfc_hmac fips_sha512 128 key (concat ms)"
proof -
  let ?l = "rfc_key fips_sha512 128 key"
  have j: "CSHA512_Finalize (fold CSHA512_Write ms (CSHA512_Write (map (\<lambda>b. b XOR 0x36) ?l) CSHA512_Init)) =
      fips_sha512 (map (\<lambda>b. b XOR 0x36) ?l @ concat ms)"
    using CSHA512_digest [of "map (\<lambda>b. b XOR 0x36) ?l # ms"] m by (simp add: length_rfc_key)
  show ?thesis
    using CSHA512_digest [of "[map (\<lambda>b. b XOR 0x5c) ?l, fips_sha512 (map (\<lambda>b. b XOR 0x36) ?l @ concat ms)]"]
    unfolding CHMAC_SHA512_def hmac512_rkey_rfc [OF k] Let_def remask hmac512_pieces CHMAC_SHA512_Finalize_def
    by (simp add: j rfc_hmac_def Let_def length_rfc_key digest_lengths)
qed

subsection \<open>Properties\<close>

text \<open>
  Both keyed hashers compute the HMAC of RFC 2104 over SHA-256 and SHA-512: short keys are padded,
  long keys are hashed first, and the message may be written in any pieces.
\<close>

theorem CHMAC_is_hmac:
  assumes "length key < 2 ^ 60" "length (concat ms) < 2 ^ 60"
  shows "CHMAC_SHA256_Finalize (fold CHMAC_SHA256_Write ms (CHMAC_SHA256 key)) = rfc_hmac fips_sha256 64 key (concat ms) \<and>
    CHMAC_SHA512_Finalize (fold CHMAC_SHA512_Write ms (CHMAC_SHA512 key)) = rfc_hmac fips_sha512 128 key (concat ms)"
  using assms by (intro conjI CHMAC256_digest CHMAC512_digest) simp_all

theorem CHMAC_is_hmac_witness:
  "CHMAC_SHA256_Finalize (CHMAC_SHA256_Write [7] (CHMAC_SHA256 [1, 2])) = rfc_hmac fips_sha256 64 [1, 2] [7]"
  using CHMAC_is_hmac [of "[1, 2]" "[[7]]"] by simp

end
