(* ===== verification/Serialize.thy ===== *)
theory Serialize
  imports Endian
begin

text \<open>
  The serialization framework of \<^verbatim>\<open>src/src/serialize.h\<close> over a byte stream as in \<^verbatim>\<open>src/src/streams.h\<close>.
  A writer appends bytes, so serializing an object is a byte list; a reader consumes a prefix of the
  stream or throws. A \<open>codec\<close> is a writer and a reader where reading undoes writing; a canonical
  codec also accepts nothing but what the writer produces. Both contracts are proved for integers,
  compact sizes, variable-length integers and byte strings, and lifted to vectors and pairs.
\<close>

datatype ser_error = EndOfData | NonCanonicalSize | SizeTooLarge | VarIntTooLarge | StringLimit | UnknownTxData

type_synonym 'a reader = "bytes \<Rightarrow> ser_error + 'a \<times> bytes"

definition rd_return :: "'a \<Rightarrow> 'a reader" where
  "rd_return x bs = Inr (x, bs)"

definition rd_bind :: "'a reader \<Rightarrow> ('a \<Rightarrow> 'b reader) \<Rightarrow> 'b reader" where
  "rd_bind r f bs = (case r bs of Inl e \<Rightarrow> Inl e | Inr (x, bs') \<Rightarrow> f x bs')"

definition rd_fail :: "ser_error \<Rightarrow> 'a reader" where
  "rd_fail e bs = Inl e"

lemma rd_bind_Inr_iff: "rd_bind r f bs = Inr (y, bs'') \<longleftrightarrow> (\<exists>x bs'. r bs = Inr (x, bs') \<and> f x bs' = Inr (y, bs''))"
  by (auto simp: rd_bind_def split: sum.splits)

lemma rd_bind_step [codec_simps]: "r bs = Inr (x, bs') \<Longrightarrow> rd_bind r f bs = f x bs'"
  by (simp add: rd_bind_def)

subsection \<open>Raw data\<close>

(* src/src/serialize.h:26-26 MAX_SIZE *)
definition MAX_SIZE :: nat where
  "MAX_SIZE = 0x10000000"

(* src/src/streams.h:342-361 CDataStream::read *)
definition stream_read :: "nat \<Rightarrow> bytes reader" where
  "stream_read n bs = (if length bs < n then Inl EndOfData else Inr (take n bs, drop n bs))"

(* src/src/serialize.h:66-69 ser_writedata8 *)
definition ser_writedata8 :: "u8 \<Rightarrow> bytes" where
  "ser_writedata8 obj = [obj]"

(* src/src/serialize.h:70-74 ser_writedata16 *)
definition ser_writedata16 :: "u16 \<Rightarrow> bytes" where
  "ser_writedata16 obj = WriteLE16 obj"

(* src/src/serialize.h:75-79 ser_writedata32 *)
definition ser_writedata32 :: "u32 \<Rightarrow> bytes" where
  "ser_writedata32 obj = WriteLE32 obj"

(* src/src/serialize.h:81-85 ser_writedata32be *)
definition ser_writedata32be :: "u32 \<Rightarrow> bytes" where
  "ser_writedata32be obj = WriteBE32 obj"

(* src/src/serialize.h:87-91 ser_writedata64 *)
definition ser_writedata64 :: "u64 \<Rightarrow> bytes" where
  "ser_writedata64 obj = WriteLE64 obj"

(* src/src/serialize.h:92-97 ser_readdata8 *)
definition ser_readdata8 :: "u8 reader" where
  "ser_readdata8 = rd_bind (stream_read 1) (\<lambda>b. rd_return (hd b))"

(* src/src/serialize.h:98-103 ser_readdata16 *)
definition ser_readdata16 :: "u16 reader" where
  "ser_readdata16 = rd_bind (stream_read 2) (\<lambda>b. rd_return (ReadLE16 b))"

(* src/src/serialize.h:104-109 ser_readdata32 *)
definition ser_readdata32 :: "u32 reader" where
  "ser_readdata32 = rd_bind (stream_read 4) (\<lambda>b. rd_return (ReadLE32 b))"

(* src/src/serialize.h:111-116 ser_readdata32be *)
definition ser_readdata32be :: "u32 reader" where
  "ser_readdata32be = rd_bind (stream_read 4) (\<lambda>b. rd_return (ReadBE32 b))"

(* src/src/serialize.h:118-123 ser_readdata64 *)
definition ser_readdata64 :: "u64 reader" where
  "ser_readdata64 = rd_bind (stream_read 8) (\<lambda>b. rd_return (ReadLE64 b))"

subsection \<open>Compact sizes\<close>

(* src/src/serialize.h:224-230 GetSizeOfCompactSize *)
definition GetSizeOfCompactSize :: "u64 \<Rightarrow> nat" where
  "GetSizeOfCompactSize nSize =
     (if nSize < 253 then 1 else if nSize \<le> 0xffff then 1 + 2 else if nSize \<le> 0xffffffff then 1 + 4 else 1 + 8)"

(* src/src/serialize.h:234-257 WriteCompactSize *)
definition WriteCompactSize :: "u64 \<Rightarrow> bytes" where
  "WriteCompactSize nSize =
     (if nSize < 253 then ser_writedata8 (ucast nSize)
      else if nSize \<le> 0xffff then ser_writedata8 253 @ ser_writedata16 (ucast nSize)
      else if nSize \<le> 0xffffffff then ser_writedata8 254 @ ser_writedata32 (ucast nSize)
      else ser_writedata8 255 @ ser_writedata64 nSize)"

(* src/src/serialize.h:264-285 ReadCompactSize *)
definition compact_size_body :: "u8 \<Rightarrow> u64 reader" where
  "compact_size_body chSize =
     (if chSize < 253 then rd_return (ucast chSize)
      else if chSize = 253 then
        rd_bind ser_readdata16 (\<lambda>n. if ucast n < (253 :: u64) then rd_fail NonCanonicalSize else rd_return (ucast n))
      else if chSize = 254 then
        rd_bind ser_readdata32 (\<lambda>n. if ucast n < (0x10000 :: u64) then rd_fail NonCanonicalSize else rd_return (ucast n))
      else rd_bind ser_readdata64 (\<lambda>n. if n < 0x100000000 then rd_fail NonCanonicalSize else rd_return n))"

(* src/src/serialize.h:259-289 ReadCompactSize *)
definition ReadCompactSize :: "u64 reader" where
  "ReadCompactSize =
     rd_bind ser_readdata8 (\<lambda>chSize.
     rd_bind (compact_size_body chSize) (\<lambda>nSizeRet.
     if unat nSizeRet > MAX_SIZE then rd_fail SizeTooLarge else rd_return nSizeRet))"

subsection \<open>Variable-length integers\<close>

text \<open>
  The template is instantiated at several integer types; \<open>mx\<close> stands for the maximum of the type.
  The reader checks before every shift and increment, so no operation leaves the range \<open>0..mx\<close> and
  natural numbers represent the values exactly.
\<close>

(* src/src/serialize.h:315-326 GetSizeOfVarInt *)
fun GetSizeOfVarInt :: "nat \<Rightarrow> nat" where
  "GetSizeOfVarInt n = (if n \<le> 0x7F then 1 else Suc (GetSizeOfVarInt (n div 128 - 1)))"

declare GetSizeOfVarInt.simps [simp del]

(* src/src/serialize.h:336-342 WriteVarInt *)
fun varint_tmp :: "bool \<Rightarrow> nat \<Rightarrow> bytes" where
  "varint_tmp later n =
     (let b = of_nat (n mod 128) OR (if later then 0x80 else 0)
      in if n \<le> 0x7F then [b] else b # varint_tmp True (n div 128 - 1))"

declare varint_tmp.simps [simp del]

(* src/src/serialize.h:331-346 WriteVarInt *)
definition WriteVarInt :: "nat \<Rightarrow> bytes" where
  "WriteVarInt n = rev (varint_tmp False n)"

(* src/src/serialize.h:352-366 ReadVarInt *)
fun ReadVarInt_loop :: "nat \<Rightarrow> nat \<Rightarrow> nat reader" where
  "ReadVarInt_loop mx n [] = Inl EndOfData"
| "ReadVarInt_loop mx n (chData # bs) =
     (if n > mx div 128 then Inl VarIntTooLarge
      else let n' = n * 128 + unat (chData AND 0x7F)
           in if chData AND 0x80 \<noteq> 0
              then if n' = mx then Inl VarIntTooLarge else ReadVarInt_loop mx (n' + 1) bs
              else Inr (n', bs))"

(* src/src/serialize.h:348-367 ReadVarInt *)
definition ReadVarInt :: "nat \<Rightarrow> nat reader" where
  "ReadVarInt mx = ReadVarInt_loop mx 0"

subsection \<open>Strings, byte vectors, vectors\<close>

(* src/src/serialize.h:569-575 Serialize(std::basic_string) *)
definition Serialize_string :: "bytes \<Rightarrow> bytes" where
  "Serialize_string str = WriteCompactSize (of_nat (length str)) @ str"

(* src/src/serialize.h:577-584 Unserialize(std::basic_string) *)
definition Unserialize_string :: "bytes reader" where
  "Unserialize_string =
     rd_bind ReadCompactSize (\<lambda>nSize. if nSize \<noteq> 0 then stream_read (unat nSize) else rd_return [])"

(* src/src/serialize.h:459-470 LimitedString::Unserialize *)
definition Unserialize_LimitedString :: "nat \<Rightarrow> bytes reader" where
  "Unserialize_LimitedString Limit =
     rd_bind ReadCompactSize (\<lambda>size. if unat size > Limit then rd_fail StringLimit
       else if size \<noteq> 0 then stream_read (unat size) else rd_return [])"

(* src/src/serialize.h:659-665 Serialize_impl(std::vector, unsigned char) *)
definition Serialize_vec_u8 :: "bytes \<Rightarrow> bytes" where
  "Serialize_vec_u8 v = WriteCompactSize (of_nat (length v)) @ v"

text \<open>Byte vectors are read in blocks of at most 5000000 bytes.\<close>

(* src/src/serialize.h:689-695 Unserialize_impl(std::vector, unsigned char) *)
function vec_u8_loop :: "nat \<Rightarrow> nat \<Rightarrow> bytes \<Rightarrow> bytes reader" where
  "vec_u8_loop nSize i v bs =
     (if i < nSize
      then let blk = min (nSize - i) (1 + 4999999)
           in case stream_read blk bs of Inl e \<Rightarrow> Inl e
              | Inr (x, bs') \<Rightarrow> vec_u8_loop nSize (i + blk) (v @ x) bs'
      else Inr (v, bs))"
  by pat_completeness auto
termination
  by (relation "measure (\<lambda>(nSize, i, v, bs). nSize - i)") auto

declare vec_u8_loop.simps [simp del]

(* src/src/serialize.h:682-696 Unserialize_impl(std::vector, unsigned char) *)
definition Unserialize_vec_u8 :: "bytes reader" where
  "Unserialize_vec_u8 = rd_bind ReadCompactSize (\<lambda>nSize. vec_u8_loop (unat nSize) 0 [])"

(* src/src/serialize.h:667-673 Serialize_impl(std::vector) *)
definition Serialize_vec :: "('a \<Rightarrow> bytes) \<Rightarrow> 'a list \<Rightarrow> bytes" where
  "Serialize_vec ser v = WriteCompactSize (of_nat (length v)) @ concat (map ser v)"

(* src/src/serialize.h:711-712 Unserialize_impl(std::vector) *)
fun unser_elems :: "'a reader \<Rightarrow> nat \<Rightarrow> 'a list reader" where
  "unser_elems unser 0 bs = Inr ([], bs)"
| "unser_elems unser (Suc n) bs =
     rd_bind unser (\<lambda>x. rd_bind (unser_elems unser n) (\<lambda>xs. rd_return (x # xs))) bs"

text \<open>
  Other vectors grow in steps of \<^verbatim>\<open>5000000 / sizeof(T)\<close> elements; \<open>step\<close> is that quotient.
\<close>

(* src/src/serialize.h:705-713 Unserialize_impl(std::vector) *)
function vec_loop :: "'a reader \<Rightarrow> nat \<Rightarrow> nat \<Rightarrow> nat \<Rightarrow> 'a list \<Rightarrow> 'a list reader" where
  "vec_loop unser step nSize nMid v bs =
     (if nMid < nSize \<and> 0 < step
      then let nMid' = (if nMid + step > nSize then nSize else nMid + step)
           in case unser_elems unser (nMid' - nMid) bs of Inl e \<Rightarrow> Inl e
              | Inr (xs, bs') \<Rightarrow> vec_loop unser step nSize nMid' (v @ xs) bs'
      else Inr (v, bs))"
  by pat_completeness auto
termination
  by (relation "measure (\<lambda>(unser, step, nSize, nMid, v, bs). nSize - nMid)") auto

declare vec_loop.simps [simp del]

(* src/src/serialize.h:698-714 Unserialize_impl(std::vector) *)
definition Unserialize_vec :: "nat \<Rightarrow> 'a reader \<Rightarrow> 'a list reader" where
  "Unserialize_vec step unser = rd_bind ReadCompactSize (\<lambda>nSize. vec_loop unser step (unat nSize) 0 [])"

(* src/src/serialize.h:727-732 Serialize(std::pair) *)
definition Serialize_pair :: "('a \<Rightarrow> bytes) \<Rightarrow> ('b \<Rightarrow> bytes) \<Rightarrow> 'a \<times> 'b \<Rightarrow> bytes" where
  "Serialize_pair f g item = f (fst item) @ g (snd item)"

(* src/src/serialize.h:734-739 Unserialize(std::pair) *)
definition Unserialize_pair :: "'a reader \<Rightarrow> 'b reader \<Rightarrow> ('a \<times> 'b) reader" where
  "Unserialize_pair f g = rd_bind f (\<lambda>a. rd_bind g (\<lambda>b. rd_return (a, b)))"

subsection \<open>Codecs\<close>

locale codec =
  fixes ok :: "'a \<Rightarrow> bool"
    and ser :: "'a \<Rightarrow> bytes"
    and unser :: "bytes \<Rightarrow> ser_error + 'a \<times> bytes"
  assumes round: "ok x \<Longrightarrow> unser (ser x @ r) = Inr (x, r)"
begin

lemma prefix_free:
  assumes "ok x" "ok y" "ser x @ r = ser y @ r'"
  shows "x = y \<and> r = r'"
proof -
  have "Inr (x, r) = unser (ser y @ r')" unfolding assms(3) [symmetric] by (rule round [OF assms(1), symmetric])
  also have "\<dots> = Inr (y, r')" by (rule round [OF assms(2)])
  finally show ?thesis by simp
qed

lemma elems_round: "list_all ok xs \<Longrightarrow> unser_elems unser (length xs) (concat (map ser xs) @ r) = Inr (xs, r)"
  by (induction xs) (simp_all add: rd_bind_def round rd_return_def)

end

locale canonical_codec = codec +
  assumes canon: "unser bs = Inr (x, r) \<Longrightarrow> ok x \<and> bs = ser x @ r"
begin

lemma accepts_iff: "unser bs = Inr (x, r) \<longleftrightarrow> ok x \<and> bs = ser x @ r"
  using canon round by auto

lemma elems_canon:
  "unser_elems unser n bs = Inr (xs, r) \<Longrightarrow> list_all ok xs \<and> length xs = n \<and> bs = concat (map ser xs) @ r"
proof (induction n arbitrary: bs xs)
  case (Suc n)
  then obtain x bs' ys where "unser bs = Inr (x, bs')" "unser_elems unser n bs' = Inr (ys, r)" "xs = x # ys"
    by (auto simp: rd_bind_Inr_iff rd_return_def)
  with Suc.IH [of bs' ys] canon show ?case by auto
qed simp

end

subsection \<open>Integers\<close>

lemma stream_read_append [codec_simps]: "length p = n \<Longrightarrow> stream_read n (p @ r) = Inr (p, r)"
  by (simp add: stream_read_def)

lemma stream_read_Inr_iff: "stream_read n bs = Inr (p, r) \<longleftrightarrow> length p = n \<and> bs = p @ r"
  by (auto simp: stream_read_def)

lemmas ser_data_defs = ser_writedata8_def ser_writedata16_def ser_writedata32_def ser_writedata64_def
  ser_readdata8_def ser_readdata16_def ser_readdata32_def ser_readdata64_def

lemma ReadLE_WriteLE_exact: "ReadLE16 (WriteLE16 x) = x" "ReadLE32 (WriteLE32 y) = y" "ReadLE64 (WriteLE64 z) = z"
  using ReadLE_WriteLE [of _ "[]"] by simp_all

interpretation u8: canonical_codec "\<lambda>_. True" ser_writedata8 ser_readdata8
proof unfold_locales
  show "ser_readdata8 (ser_writedata8 x @ r) = Inr (x, r)" for x r
    by (simp add: ser_data_defs rd_bind_def rd_return_def stream_read_def)
  show "True \<and> bs = ser_writedata8 x @ r" if "ser_readdata8 bs = Inr (x, r)" for bs x r
    using that by (auto simp: ser_data_defs rd_bind_Inr_iff rd_return_def stream_read_Inr_iff length_Suc_conv)
qed

interpretation u16: canonical_codec "\<lambda>_. True" ser_writedata16 ser_readdata16
proof unfold_locales
  show "ser_readdata16 (ser_writedata16 x @ r) = Inr (x, r)" for x r
    by (simp add: ser_data_defs rd_bind_def rd_return_def stream_read_append ReadLE_WriteLE_exact)
  show "True \<and> bs = ser_writedata16 x @ r" if "ser_readdata16 bs = Inr (x, r)" for bs x r
    using that by (auto simp: ser_data_defs rd_bind_Inr_iff rd_return_def stream_read_Inr_iff WriteLE_ReadLE)
qed

interpretation u32: canonical_codec "\<lambda>_. True" ser_writedata32 ser_readdata32
proof unfold_locales
  show "ser_readdata32 (ser_writedata32 x @ r) = Inr (x, r)" for x r
    by (simp add: ser_data_defs rd_bind_def rd_return_def stream_read_append ReadLE_WriteLE_exact)
  show "True \<and> bs = ser_writedata32 x @ r" if "ser_readdata32 bs = Inr (x, r)" for bs x r
    using that by (auto simp: ser_data_defs rd_bind_Inr_iff rd_return_def stream_read_Inr_iff WriteLE_ReadLE)
qed

interpretation u64: canonical_codec "\<lambda>_. True" ser_writedata64 ser_readdata64
proof unfold_locales
  show "ser_readdata64 (ser_writedata64 x @ r) = Inr (x, r)" for x r
    by (simp add: ser_data_defs rd_bind_def rd_return_def stream_read_append ReadLE_WriteLE_exact)
  show "True \<and> bs = ser_writedata64 x @ r" if "ser_readdata64 bs = Inr (x, r)" for bs x r
    using that by (auto simp: ser_data_defs rd_bind_Inr_iff rd_return_def stream_read_Inr_iff WriteLE_ReadLE)
qed

text \<open>A fixed-size blob such as \<^verbatim>\<open>uint256\<close>.\<close>

interpretation blob32: canonical_codec "\<lambda>b. length b = 32" "\<lambda>b. b" "stream_read 32"
  by unfold_locales (simp_all add: stream_read_append stream_read_Inr_iff)

subsection \<open>Compact sizes\<close>

lemma ucast_lt_iff:
  "ucast (n::u16) < (253::u64) \<longleftrightarrow> unat n < 253" "ucast (m::u32) < (0x10000::u64) \<longleftrightarrow> unat m < 0x10000"
  by (simp_all add: word_less_nat_alt unat_ucast_up)

lemma unat_size_ranges:
  "nSize < (253::u64) \<longleftrightarrow> unat nSize < 253" "nSize \<le> (0xffff::u64) \<longleftrightarrow> unat nSize < 65536"
  "nSize \<le> (0xffffffff::u64) \<longleftrightarrow> unat nSize < 4294967296" "nSize < (0x100000000::u64) \<longleftrightarrow> unat nSize < 4294967296"
  "c < (253::u8) \<longleftrightarrow> unat c < 253"
  by (auto simp: word_less_nat_alt word_le_nat_alt)

lemmas compact_size_defs = WriteCompactSize_def ReadCompactSize_def compact_size_body_def unat_size_ranges rd_bind_step rd_return_def ucast_lt_iff

lemma ReadCompactSize_Write:
  assumes "unat n \<le> MAX_SIZE"
  shows "ReadCompactSize (WriteCompactSize n @ r) = Inr (n, r)"
proof -
  have m: "\<not> MAX_SIZE < unat n" using assms by simp
  consider "unat n < 253" | "253 \<le> unat n" "unat n < 65536" | "65536 \<le> unat n" "unat n < 4294967296"
    using assms unfolding MAX_SIZE_def by linarith
  then show ?thesis
  proof cases
    case 1
    then have "unat (ucast n :: u8) = unat n" "ucast (ucast n :: u8) = n"
      by (simp_all add: unat_ucast ucast_ucast_small)
    with 1 m show ?thesis by (simp add: compact_size_defs u8.round)
  next
    case 2
    then have "unat (ucast n :: u16) = unat n" "ucast (ucast n :: u16) = n" "\<not> unat n < 253"
      by (simp_all add: unat_ucast ucast_ucast_small)
    with 2 m show ?thesis by (simp add: compact_size_defs u8.round u16.round)
  next
    case 3
    then have "unat (ucast n :: u32) = unat n" "ucast (ucast n :: u32) = n" "\<not> unat n < 253" "\<not> unat n < 65536"
      by (simp_all add: unat_ucast ucast_ucast_small)
    with 3 m show ?thesis by (simp add: compact_size_defs u8.round u32.round)
  qed
qed

lemma ReadCompactSize_canon:
  assumes "ReadCompactSize bs = Inr (n, r)"
  shows "unat n \<le> MAX_SIZE \<and> bs = WriteCompactSize n @ r"
proof -
  obtain c bs' where c: "bs = ser_writedata8 c @ bs'" and n: "unat n \<le> MAX_SIZE" and rest: "compact_size_body c bs' = Inr (n, r)"
    using assms unfolding ReadCompactSize_def rd_bind_Inr_iff u8.accepts_iff
    by (auto simp: rd_return_def rd_fail_def split: if_splits)
  have "unat c < 256" using unat_bound [of c] by simp
  then have "unat c < 253 \<or> unat c = 253 \<or> unat c = 254 \<or> unat c = 255" by linarith
  then consider "unat c < 253" | "c = 253" | "c = 254" | "c = 255" by (auto simp: word_unat_eq_iff)
  then have "bs = WriteCompactSize n @ r"
  proof cases
    case 1
    then have "n = ucast c" "bs' = r" using rest by (simp_all add: compact_size_body_def unat_size_ranges rd_return_def)
    with 1 c show ?thesis by (simp add: WriteCompactSize_def unat_size_ranges unat_ucast_up ucast_ucast_small)
  next
    case 2
    then obtain m :: u16 where "\<not> unat m < 253" "n = ucast m" "bs' = ser_writedata16 m @ r"
      using rest by (auto simp: compact_size_body_def rd_bind_Inr_iff u16.accepts_iff rd_return_def rd_fail_def ucast_lt_iff split: if_splits)
    with 2 c unat_bound [of m] show ?thesis
      by (simp add: WriteCompactSize_def unat_size_ranges unat_ucast_up ucast_ucast_small)
  next
    case 3
    then obtain m :: u32 where "\<not> unat m < 65536" "n = ucast m" "bs' = ser_writedata32 m @ r"
      using rest by (auto simp: compact_size_body_def rd_bind_Inr_iff u32.accepts_iff rd_return_def rd_fail_def ucast_lt_iff split: if_splits)
    with 3 c unat_bound [of m] show ?thesis
      by (simp add: WriteCompactSize_def unat_size_ranges unat_ucast_up ucast_ucast_small)
  next
    case 4
    then have "\<not> unat n < 4294967296" "bs' = ser_writedata64 n @ r"
      using rest by (auto simp: compact_size_body_def rd_bind_Inr_iff u64.accepts_iff rd_return_def rd_fail_def unat_size_ranges split: if_splits)
    with 4 c show ?thesis by (simp add: WriteCompactSize_def unat_size_ranges)
  qed
  with n show ?thesis by blast
qed

interpretation compact_size: canonical_codec "\<lambda>n. unat n \<le> MAX_SIZE" WriteCompactSize ReadCompactSize
  by unfold_locales (simp_all add: ReadCompactSize_Write ReadCompactSize_canon)

lemma GetSizeOfCompactSize_length: "GetSizeOfCompactSize n = length (WriteCompactSize n)"
  by (simp add: GetSizeOfCompactSize_def WriteCompactSize_def ser_data_defs)

subsection \<open>Variable-length integers\<close>

lemma varint_byte:
  assumes "k < 128"
  shows "unat ((of_nat k OR (if later then 0x80 else 0)) AND 0x7F :: u8) = k"
    and "((of_nat k OR (if later then 0x80 else 0)) AND 0x80 :: u8) \<noteq> 0 \<longleftrightarrow> later"
proof -
  have lo: "(0x7F::u8) = mask 7" by (simp add: mask_eq_exp_minus_1)
  have nb: "\<not> bit (of_nat k :: u8) i" if "7 \<le> i" for i
  proof -
    have "k < 2 ^ i" using assms power_increasing [OF that, of "2::nat"] by simp
    then have "\<not> bit (unat (of_nat k :: u8)) i" using assms by (simp add: unat_of_nat bit_iff_odd)
    then show ?thesis by (simp add: bit_unsigned_iff)
  qed
  have "take_bit 7 (of_nat k OR (if later then 0x80 else 0) :: u8) = of_nat k"
  proof (rule bit_word_eqI)
    fix i
    show "bit (take_bit 7 (of_nat k OR (if later then 0x80 else 0) :: u8)) i = bit (of_nat k :: u8) i"
      using nb [of i] bit_exp_iff [where 'a = "u8", of 7 i] by (cases "7 \<le> i") (auto simp: bit_take_bit_iff bit_or_iff)
  qed
  then show "unat ((of_nat k OR (if later then 0x80 else 0)) AND 0x7F :: u8) = k"
    using assms unfolding lo by (simp add: take_bit_eq_mask [symmetric] unat_of_nat)
  show "((of_nat k OR (if later then 0x80 else 0)) AND 0x80 :: u8) \<noteq> 0 \<longleftrightarrow> later"
    using and_exp_eq_0_iff_not_bit [of "of_nat k OR (if later then 0x80 else 0) :: u8" 7] nb [of 7]
      bit_exp_iff [where 'a = "u8", of 7 7]
    by (auto simp: bit_or_iff)
qed

lemma ReadVarInt_digits:
  "n < mx \<Longrightarrow> ReadVarInt_loop mx 0 (rev (varint_tmp True n) @ r) = ReadVarInt_loop mx (n + 1) r"
proof (induction n arbitrary: r rule: less_induct)
  case (less n)
  note b = varint_byte [of "n mod 128" True, simplified]
  show ?case
  proof (cases "n \<le> 0x7F")
    case True
    with less.prems b show ?thesis by (simp add: varint_tmp.simps [of _ n] Let_def)
  next
    case False
    let ?m = "n div 128 - 1"
    have m: "?m < n" "?m + 1 = n div 128" using False by simp_all
    have q: "n div 128 \<le> mx div 128" using less.prems by (intro div_le_mono) simp
    have "ReadVarInt_loop mx 0 (rev (varint_tmp True n) @ r) =
        ReadVarInt_loop mx (n div 128) ((of_nat (n mod 128) OR 0x80) # r)"
      using less.IH [OF m(1), of "(of_nat (n mod 128) OR 0x80) # r"] m less.prems False
      by (simp add: varint_tmp.simps [of _ n] Let_def)
    also have "\<dots> = ReadVarInt_loop mx (n + 1) r"
      using b q less.prems by (simp add: Let_def)
    finally show ?thesis .
  qed
qed

lemma ReadVarInt_Write: "n \<le> mx \<Longrightarrow> ReadVarInt mx (WriteVarInt n @ r) = Inr (n, r)"
proof -
  assume n: "n \<le> mx"
  note b = varint_byte [of "n mod 128" False, simplified]
  show ?thesis
  proof (cases "n \<le> 0x7F")
    case True
    with b show ?thesis by (simp add: ReadVarInt_def WriteVarInt_def varint_tmp.simps [of _ n] Let_def)
  next
    case False
    have m: "n div 128 - 1 < mx" "n div 128 - 1 + 1 = n div 128" using False n by simp_all
    have q: "n div 128 \<le> mx div 128" using n by (intro div_le_mono) simp
    show ?thesis
      using ReadVarInt_digits [OF m(1), of "of_nat (n mod 128) # r"] m b q False
      by (simp add: ReadVarInt_def WriteVarInt_def varint_tmp.simps [of _ n] Let_def)
  qed
qed

lemma varint_byte_split: "of_nat (unat (c AND 0x7F)) OR (if c AND 0x80 \<noteq> 0 then 0x80 else 0) = (c :: u8)"
proof -
  have "(c AND 0x7F) OR (if c AND 0x80 \<noteq> 0 then 0x80 else 0) = c"
  proof (rule bit_word_eqI)
    fix i
    assume "i < LENGTH(8)"
    then have "i < 7 \<or> i = 7" by auto
    then consider "i < 7" | "i = 7" by blast
    then show "bit ((c AND 0x7F) OR (if c AND 0x80 \<noteq> 0 then 0x80 else 0)) i = bit c i"
      using and_exp_eq_0_iff_not_bit [of c 7] bit_exp_iff [where 'a = "u8", of 7 i] bit_mask_iff [where 'a = "u8", of 7 i]
      by cases (auto simp: bit_or_iff bit_and_iff mask_eq_exp_minus_1)
  qed
  then show ?thesis by simp
qed

lemma varint_low_less: "unat (c AND 0x7F :: u8) < 128"
  using word_and_le2 [of "0x7F" c] by (simp add: word_le_nat_alt and.commute)

text \<open>Bytes already read, as the encoding of the accumulated number.\<close>

definition varint_prefix :: "nat \<Rightarrow> bytes" where
  "varint_prefix a = (if a = 0 then [] else rev (varint_tmp True (a - 1)))"

lemma varint_tmp_step:
  assumes "k < 128"
  shows "rev (varint_tmp later (a * 128 + k)) = varint_prefix a @ [of_nat k OR (if later then 0x80 else 0)]"
  using assms by (auto simp: varint_tmp.simps [of later] varint_prefix_def Let_def)

lemma ReadVarInt_loop_canon:
  "mx mod 128 = 127 \<Longrightarrow> ReadVarInt_loop mx a bs = Inr (n, r) \<Longrightarrow> n \<le> mx \<and> (\<exists>p. bs = p @ r \<and> varint_prefix a @ p = WriteVarInt n)"
proof (induction mx a bs rule: ReadVarInt_loop.induct)
  case (2 mx a c bs)
  let ?k = "unat (c AND 0x7F)"
  have k: "?k < 128" by (rule varint_low_less)
  note sp = varint_byte_split [of c]
  have a: "a \<le> mx div 128" using "2.prems"(2) by (auto split: if_splits)
  show ?case
  proof (cases "c AND 0x80 = 0")
    case True
    then have n: "n = a * 128 + ?k" "r = bs" using "2.prems"(2) a by (auto simp: Let_def split: if_splits)
    have "WriteVarInt n = varint_prefix a @ [c]"
      using varint_tmp_step [OF k, of False a] sp True unfolding WriteVarInt_def n(1) by simp
    moreover have "n \<le> mx"
      using n(1) k mult_le_mono1 [OF a, of 128] div_mult_mod_eq [of mx 128] "2.prems"(1) by linarith
    ultimately show ?thesis using n by auto
  next
    case False
    then have rec: "ReadVarInt_loop mx (a * 128 + ?k + 1) bs = Inr (n, r)" "a * 128 + ?k \<noteq> mx"
      using "2.prems"(2) a by (auto simp: Let_def split: if_splits)
    have "varint_prefix (a * 128 + ?k + 1) = varint_prefix a @ [c]"
      using varint_tmp_step [OF k, of True a] sp False by (simp add: varint_prefix_def)
    moreover obtain p where "n \<le> mx" "bs = p @ r" "varint_prefix (a * 128 + ?k + 1) @ p = WriteVarInt n"
      using "2.IH" [OF _ refl False rec(2) "2.prems"(1) rec(1)] a by auto
    ultimately show ?thesis by (intro conjI exI [of _ "c # p"]) simp_all
  qed
qed simp

lemma ReadVarInt_canon: "mx mod 128 = 127 \<Longrightarrow> ReadVarInt mx bs = Inr (n, r) \<Longrightarrow> n \<le> mx \<and> bs = WriteVarInt n @ r"
  using ReadVarInt_loop_canon [of mx 0 bs n r] by (auto simp: ReadVarInt_def varint_prefix_def)

lemma varint_tmp_length: "length (varint_tmp later n) = GetSizeOfVarInt n"
  by (induction later n rule: varint_tmp.induct) (simp add: varint_tmp.simps GetSizeOfVarInt.simps Let_def)

lemma canonical_codec_varint: "mx mod 128 = 127 \<Longrightarrow> canonical_codec (\<lambda>n. n \<le> mx) WriteVarInt (ReadVarInt mx)"
  by unfold_locales (simp_all add: ReadVarInt_Write ReadVarInt_canon)

interpretation varint32: canonical_codec "\<lambda>n. n \<le> 2 ^ 32 - 1" WriteVarInt "ReadVarInt (2 ^ 32 - 1)"
  by (rule canonical_codec_varint) simp

interpretation varint64: canonical_codec "\<lambda>n. n \<le> 2 ^ 64 - 1" WriteVarInt "ReadVarInt (2 ^ 64 - 1)"
  by (rule canonical_codec_varint) simp

interpretation varint31: canonical_codec "\<lambda>n. n \<le> 2 ^ 31 - 1" WriteVarInt "ReadVarInt (2 ^ 31 - 1)"
  by (rule canonical_codec_varint) simp

subsection \<open>Byte strings\<close>

lemma size_word: "n \<le> MAX_SIZE \<Longrightarrow> unat (of_nat n :: u64) = n" "n \<le> MAX_SIZE \<Longrightarrow> of_nat n = (0 :: u64) \<longleftrightarrow> n = 0"
proof -
  assume "n \<le> MAX_SIZE"
  then show u: "unat (of_nat n :: u64) = n" by (simp add: unat_of_nat MAX_SIZE_def)
  show "of_nat n = (0 :: u64) \<longleftrightarrow> n = 0" by (simp add: word_unat_eq_iff u)
qed

text \<open>Reading a byte vector block by block is reading it at once.\<close>

lemma vec_u8_loop_read: "i \<le> nSize \<Longrightarrow> vec_u8_loop nSize i v bs = map_sum id (apfst ((@) v)) (stream_read (nSize - i) bs)"
proof (induction nSize i v bs rule: vec_u8_loop.induct)
  case (1 nSize i v bs)
  show ?case
  proof (cases "i < nSize")
    case True
    define blk where "blk = min (nSize - i) (1 + 4999999)"
    have loop: "vec_u8_loop nSize i v bs =
        (case stream_read blk bs of Inl e \<Rightarrow> Inl e | Inr (x, bs') \<Rightarrow> vec_u8_loop nSize (i + blk) (v @ x) bs')"
      unfolding vec_u8_loop.simps [of nSize i v bs] blk_def using True by (simp only: if_True Let_def)
    have blk: "i + blk \<le> nSize" "nSize - (i + blk) = nSize - i - blk" "blk \<le> nSize - i" using True by (auto simp: blk_def)
    show ?thesis
    proof (cases "length bs < blk")
      case short: True
      then show ?thesis unfolding loop using blk(3) by (simp add: stream_read_def)
    next
      case False
      then have "vec_u8_loop nSize i v bs = vec_u8_loop nSize (i + blk) (v @ take blk bs) (drop blk bs)"
        unfolding loop by (simp add: stream_read_def)
      also have "\<dots> = map_sum id (apfst ((@) (v @ take blk bs))) (stream_read (nSize - (i + blk)) (drop blk bs))"
        by (rule "1.IH" [OF True blk_def, of "(take blk bs, drop blk bs)"]) (use False blk in \<open>simp_all add: stream_read_def\<close>)
      also have "\<dots> = map_sum id (apfst ((@) v)) (stream_read (nSize - i) bs)"
        using False blk take_add [of blk "nSize - i - blk" bs] by (auto simp: stream_read_def less_diff_conv2)
      finally show ?thesis .
    qed
  qed (use "1.prems" in \<open>simp add: vec_u8_loop.simps [of nSize] stream_read_def\<close>)
qed

lemma Unserialize_vec_u8_string: "Unserialize_vec_u8 = Unserialize_string"
proof
  fix bs
  have "apfst ((@) []) = (\<lambda>x :: bytes \<times> bytes. x)" by auto
  then show "Unserialize_vec_u8 bs = Unserialize_string bs"
    by (auto simp: Unserialize_vec_u8_def Unserialize_string_def rd_bind_def vec_u8_loop_read rd_return_def
        stream_read_def sum.map_ident fun_eq_iff split: sum.splits)
qed

interpretation str: canonical_codec "\<lambda>b. length b \<le> MAX_SIZE" Serialize_string Unserialize_string
proof unfold_locales
  show "Unserialize_string (Serialize_string x @ r) = Inr (x, r)" if "length x \<le> MAX_SIZE" for x r
    using that size_word [OF that]
    by (auto simp: Serialize_string_def Unserialize_string_def rd_bind_def compact_size.round stream_read_append rd_return_def)
  show "length x \<le> MAX_SIZE \<and> bs = Serialize_string x @ r" if "Unserialize_string bs = Inr (x, r)" for bs x r
    using that
    by (auto simp: Unserialize_string_def rd_bind_Inr_iff compact_size.accepts_iff Serialize_string_def stream_read_Inr_iff
        rd_return_def unat_eq_0 split: if_splits)
qed

interpretation vec_u8: canonical_codec "\<lambda>b. length b \<le> MAX_SIZE" Serialize_vec_u8 Unserialize_vec_u8
  using str.canonical_codec_axioms unfolding Unserialize_vec_u8_string Serialize_vec_u8_def Serialize_string_def .

subsection \<open>Vectors and pairs of codecs\<close>

lemma unser_elems_add:
  "unser_elems u (m + n) bs = rd_bind (unser_elems u m) (\<lambda>xs. rd_bind (unser_elems u n) (\<lambda>ys. rd_return (xs @ ys))) bs"
proof (induction m arbitrary: bs)
  case 0
  show ?case by (auto simp: rd_bind_def rd_return_def split: sum.splits)
next
  case (Suc m)
  show ?case by (auto simp: rd_bind_def rd_return_def Suc.IH split: sum.splits)
qed

lemma vec_loop_elems:
  "0 < step \<Longrightarrow> nMid \<le> nSize \<Longrightarrow>
    vec_loop u step nSize nMid v bs = map_sum id (apfst ((@) v)) (unser_elems u (nSize - nMid) bs)"
proof (induction u step nSize nMid v bs rule: vec_loop.induct)
  case (1 u step nSize nMid v bs)
  show ?case
  proof (cases "nMid < nSize")
    case True
    define m where "m = (if nMid + step > nSize then nSize else nMid + step)"
    have m: "m \<le> nSize" "nSize - nMid = (m - nMid) + (nSize - m)" using True "1.prems" by (auto simp: m_def)
    have loop: "vec_loop u step nSize nMid v bs =
        (case unser_elems u (m - nMid) bs of Inl e \<Rightarrow> Inl e | Inr (xs, bs') \<Rightarrow> vec_loop u step nSize m (v @ xs) bs')"
      unfolding vec_loop.simps [of u step nSize nMid v bs] m_def using True "1.prems"(1) by (simp only: simp_thms if_True Let_def)
    show ?thesis
    proof (cases "unser_elems u (m - nMid) bs")
      case (Inl e)
      then show ?thesis unfolding loop m(2) unser_elems_add by (simp add: rd_bind_def)
    next
      case (Inr x)
      obtain xs bs' where x: "x = (xs, bs')" by (cases x)
      have "vec_loop u step nSize nMid v bs = vec_loop u step nSize m (v @ xs) bs'"
        unfolding loop using Inr x by simp
      also have "\<dots> = map_sum id (apfst ((@) (v @ xs))) (unser_elems u (nSize - m) bs')"
        by (rule "1.IH" [OF _ m_def Inr x [symmetric]]) (use True "1.prems" m in simp_all)
      also have "\<dots> = map_sum id (apfst ((@) v)) (unser_elems u (nSize - nMid) bs)"
        unfolding m(2) unser_elems_add using Inr x by (auto simp: rd_bind_def rd_return_def split: sum.splits)
      finally show ?thesis .
    qed
  qed (use "1.prems" in \<open>simp add: vec_loop.simps [of u step nSize]\<close>)
qed

lemma Unserialize_vec_elems:
  "0 < step \<Longrightarrow> Unserialize_vec step u = rd_bind ReadCompactSize (\<lambda>n. unser_elems u (unat n))"
proof
  fix bs
  assume "0 < step"
  moreover have "map_sum id (apfst ((@) [])) x = x" for x :: "ser_error + 'a list \<times> bytes"
    by (cases x) auto
  ultimately show "Unserialize_vec step u bs = rd_bind ReadCompactSize (\<lambda>n. unser_elems u (unat n)) bs"
    by (simp add: Unserialize_vec_def rd_bind_def vec_loop_elems split: sum.splits)
qed

lemma codec_vec:
  assumes "codec ok ser unser" "0 < step"
  shows "codec (\<lambda>xs. list_all ok xs \<and> length xs \<le> MAX_SIZE) (Serialize_vec ser) (Unserialize_vec step unser)"
proof
  fix xs r
  assume a: "list_all ok xs \<and> length xs \<le> MAX_SIZE"
  then show "Unserialize_vec step unser (Serialize_vec ser xs @ r) = Inr (xs, r)"
    using codec.elems_round [OF assms(1), of xs r] size_word [of "length xs"]
    by (simp add: Unserialize_vec_elems [OF assms(2)] Serialize_vec_def rd_bind_def compact_size.round)
qed

lemma canonical_codec_vec:
  assumes "canonical_codec ok ser unser" "0 < step"
  shows "canonical_codec (\<lambda>xs. list_all ok xs \<and> length xs \<le> MAX_SIZE) (Serialize_vec ser) (Unserialize_vec step unser)"
proof -
  have c: "codec ok ser unser" using assms(1) by (rule canonical_codec.axioms)
  show ?thesis
  proof (intro canonical_codec.intro canonical_codec_axioms.intro codec_vec [OF c assms(2)])
    fix bs xs r
    assume "Unserialize_vec step unser bs = Inr (xs, r)"
    then obtain n bs' where "bs = WriteCompactSize n @ bs'" "unat n \<le> MAX_SIZE" "unser_elems unser (unat n) bs' = Inr (xs, r)"
      by (auto simp: Unserialize_vec_elems [OF assms(2)] rd_bind_Inr_iff compact_size.accepts_iff)
    then show "(list_all ok xs \<and> length xs \<le> MAX_SIZE) \<and> bs = Serialize_vec ser xs @ r"
      using canonical_codec.elems_canon [OF assms(1), of "unat n" bs' xs r] by (auto simp: Serialize_vec_def)
  qed
qed

lemma codec_pair:
  assumes "codec ok1 ser1 unser1" "codec ok2 ser2 unser2"
  shows "codec (\<lambda>p. ok1 (fst p) \<and> ok2 (snd p)) (Serialize_pair ser1 ser2) (Unserialize_pair unser1 unser2)"
  by (rule codec.intro)
     (auto simp: Serialize_pair_def Unserialize_pair_def rd_bind_def rd_return_def codec.round [OF assms(1)] codec.round [OF assms(2)])

subsection \<open>Properties\<close>

text \<open>
  Compact sizes are encoded one-to-one: reading accepts exactly the bytes the writer produces for
  a size up to \<^verbatim>\<open>MAX_SIZE\<close>, so no non-canonical or oversized encoding is accepted, and the size
  computer predicts the encoded length.
\<close>

theorem CompactSize_canonical:
  "(ReadCompactSize bs = Inr (n, r) \<longleftrightarrow> unat n \<le> MAX_SIZE \<and> bs = WriteCompactSize n @ r) \<and>
   GetSizeOfCompactSize n = length (WriteCompactSize n)"
  using compact_size.accepts_iff GetSizeOfCompactSize_length by blast

text \<open>
  Variable-length integers are encoded one-to-one for every unsigned or non-negative type whose
  maximum is \<open>mx\<close>: the reader accepts exactly the encodings of the numbers up to \<open>mx\<close>, as the
  comment in the header claims, and the size computer predicts the encoded length.
\<close>

theorem VarInt_canonical:
  assumes "mx mod 128 = 127"
  shows "(ReadVarInt mx bs = Inr (n, r) \<longleftrightarrow> n \<le> mx \<and> bs = WriteVarInt n @ r) \<and>
    length (WriteVarInt n) = GetSizeOfVarInt n"
  using ReadVarInt_Write ReadVarInt_canon [OF assms] by (auto simp: WriteVarInt_def varint_tmp_length)

theorem VarInt_canonical_witness:
  "ReadVarInt (2 ^ 32 - 1) (WriteVarInt 65535 @ [7]) = Inr (65535, [7])"
  using VarInt_canonical [of "2 ^ 32 - 1" "WriteVarInt 65535 @ [7]" 65535 "[7]"] by simp

text \<open>
  Vectors: if reading an element undoes writing it, then reading a vector (in its growing chunks)
  undoes writing it, and if element encodings are unique then so are vector encodings.
\<close>

theorem vector_codec:
  assumes "0 < step"
  shows "(codec ok ser unser \<longrightarrow>
      codec (\<lambda>xs. list_all ok xs \<and> length xs \<le> MAX_SIZE) (Serialize_vec ser) (Unserialize_vec step unser)) \<and>
    (canonical_codec ok ser unser \<longrightarrow>
      canonical_codec (\<lambda>xs. list_all ok xs \<and> length xs \<le> MAX_SIZE) (Serialize_vec ser) (Unserialize_vec step unser))"
  using codec_vec [OF _ assms] canonical_codec_vec [OF _ assms] by blast

theorem vector_codec_witness:
  "Unserialize_vec 1250000 ser_readdata32 (Serialize_vec ser_writedata32 [1, 2, 3] @ [9]) = Inr ([1, 2, 3], [9])"
proof -
  have "codec (\<lambda>xs. list_all (\<lambda>_. True) xs \<and> length xs \<le> MAX_SIZE) (Serialize_vec ser_writedata32) (Unserialize_vec 1250000 ser_readdata32)"
    using vector_codec [of 1250000 "\<lambda>_. True" ser_writedata32 ser_readdata32] u32.codec_axioms by simp
  from codec.round [OF this, of "[1, 2, 3]" "[9]"] show ?thesis by (simp add: MAX_SIZE_def)
qed

end
