(* ===== verification/Hashing.thy ===== *)
theory Hashing
  imports Keccak Ripemd160 Hmac Serialize
begin

text \<open>
  The hash helpers of \<^verbatim>\<open>src/src/hash.h\<close> and \<^verbatim>\<open>src/src/hash.cpp\<close>: the composed hashers, the hash of a
  serialization (SHA3-256 in this program), \<^verbatim>\<open>MurmurHash3\<close>, the key-derivation hash and SipHash with its two
  unrolled variants. A hash value is the list of its bytes in memory order.
\<close>

subsection \<open>Composed hashers\<close>

(* src/src/hash.h:49-53 CHash256::Finalize *)
definition CHash256_Finalize :: "u32 hasher \<Rightarrow> bytes" where
  "CHash256_Finalize sha =
     (let buf = CSHA256_Finalize sha in CSHA256_Finalize (CSHA256_Write buf (CSHA256_Reset sha)))"

(* src/src/hash.h:73-77 CHash160::Finalize *)
definition CHash160_Finalize :: "u32 hasher \<Rightarrow> bytes" where
  "CHash160_Finalize sha =
     (let buf = CSHA256_Finalize sha in CRIPEMD160_Finalize (CRIPEMD160_Write buf CRIPEMD160_Init))"

(* src/src/hash.h:91-99 Hash *)
definition Hash1 :: "bytes \<Rightarrow> bytes" where
  "Hash1 p = CHash256_Finalize (CSHA256_Write p CSHA256_Init)"

(* src/src/hash.h:102-111 Hash *)
definition Hash2 :: "bytes \<Rightarrow> bytes \<Rightarrow> bytes" where
  "Hash2 p1 p2 = CHash256_Finalize (CSHA256_Write p2 (CSHA256_Write p1 CSHA256_Init))"

(* src/src/hash.h:114-125 Hash *)
definition Hash3 :: "bytes \<Rightarrow> bytes \<Rightarrow> bytes \<Rightarrow> bytes" where
  "Hash3 p1 p2 p3 = CHash256_Finalize (CSHA256_Write p3 (CSHA256_Write p2 (CSHA256_Write p1 CSHA256_Init)))"

(* src/src/hash.h:128-136 Hash160 *)
definition Hash160 :: "bytes \<Rightarrow> bytes" where
  "Hash160 p = CHash160_Finalize (CSHA256_Write p CSHA256_Init)"

subsection \<open>Hashing a serialization\<close>

text \<open>The writer stream: a SHA3 state, with the type and version that serializers ask for.\<close>

(* src/src/hash.h:152-158 CHashWriter *)
record CHashWriter =
  hw_ctx :: keccakState
  hw_nType :: nat
  hw_nVersion :: nat

(* src/src/hash.h:162-162 CHashWriter::CHashWriter *)
definition CHashWriter_start :: "nat \<Rightarrow> nat \<Rightarrow> CHashWriter" where
  "CHashWriter_start nTypeIn nVersionIn = \<lparr>hw_ctx = CSHA3_Init, hw_nType = nTypeIn, hw_nVersion = nVersionIn\<rparr>"

(* src/src/hash.h:167-169 CHashWriter::write *)
definition CHashWriter_write :: "bytes \<Rightarrow> CHashWriter \<Rightarrow> CHashWriter option" where
  "CHashWriter_write pch w = map_option (\<lambda>c. w\<lparr>hw_ctx := c\<rparr>) (CSHA3_Write pch (hw_ctx w))"

(* src/src/hash.h:172-176 CHashWriter::GetHash *)
definition CHashWriter_GetHash :: "CHashWriter \<Rightarrow> bytes" where
  "CHashWriter_GetHash w = CSHA3_Finalize (hw_ctx w)"

text \<open>Serializing an object writes its encoding to the stream field by field. The argument of the model is that encoding, without
  the boundaries of the single writes, and it is written byte by byte: by \<open>write_all_pieces\<close> every division into writes
  shorter than 4 GiB, where \<^verbatim>\<open>CSHA3::Write\<close> returns, leaves the same state.\<close>

fun write_all :: "bytes list \<Rightarrow> CHashWriter \<Rightarrow> CHashWriter option" where
  "write_all [] w = Some w"
| "write_all (p # ps) w = (case CHashWriter_write p w of None \<Rightarrow> None | Some w' \<Rightarrow> write_all ps w')"

(* src/src/hash.h:222-228 SerializeHash *)
definition SerializeHash :: "bytes list \<Rightarrow> nat \<Rightarrow> nat \<Rightarrow> bytes option" where
  "SerializeHash pieces nType nVersion = map_option CHashWriter_GetHash (write_all (map (\<lambda>b. [b]) (concat pieces)) (CHashWriter_start nType nVersion))"

subsection \<open>MurmurHash3\<close>

(* src/src/hash.cpp:11-14 ROTL32 *)
definition ROTL32 :: "u32 \<Rightarrow> nat \<Rightarrow> u32" where
  "ROTL32 x r = push_bit r x OR drop_bit (32 - r) x"

(* src/src/hash.cpp:32-34 MurmurHash3 *)
definition murmur_mix :: "u32 \<Rightarrow> u32" where
  "murmur_mix k1 = ROTL32 (k1 * 0xcc9e2d51) 15 * 0x1b873593"

(* src/src/hash.cpp:29-39 MurmurHash3 *)
definition murmur_body :: "bytes \<Rightarrow> nat \<Rightarrow> u32 \<Rightarrow> u32" where
  "murmur_body blocks i h1 =
     (let k1 = murmur_mix (ReadLE32 (drop (i * 4) blocks))
      in ROTL32 (h1 XOR k1) 13 * 5 + 0xe6546b64)"

(* src/src/hash.cpp:43-58 MurmurHash3 *)
definition murmur_tail :: "bytes \<Rightarrow> u32 \<Rightarrow> u32" where
  "murmur_tail tail h1 =
     (case tail of
        [] \<Rightarrow> h1
      | [t0] \<Rightarrow> h1 XOR murmur_mix (ucast t0)
      | [t0, t1] \<Rightarrow> h1 XOR murmur_mix (push_bit 8 (ucast t1) XOR ucast t0)
      | t0 # t1 # t2 # _ \<Rightarrow> h1 XOR murmur_mix (push_bit 16 (ucast t2) XOR push_bit 8 (ucast t1) XOR ucast t0))"

(* src/src/hash.cpp:62-69 MurmurHash3 *)
definition murmur_final :: "nat \<Rightarrow> u32 \<Rightarrow> u32" where
  "murmur_final len h =
     (let h1 = h XOR of_nat len;
          h2 = (h1 XOR drop_bit 16 h1) * 0x85ebca6b;
          h3 = (h2 XOR drop_bit 13 h2) * 0xc2b2ae35
      in h3 XOR drop_bit 16 h3)"

(* src/src/hash.cpp:16-70 MurmurHash3 *)
definition MurmurHash3 :: "u32 \<Rightarrow> bytes \<Rightarrow> u32" where
  "MurmurHash3 nHashSeed vDataToHash =
     (let nblocks = length vDataToHash div 4;
          h1 = fold (murmur_body vDataToHash) [0..<nblocks] nHashSeed
      in murmur_final (length vDataToHash) (murmur_tail (drop (nblocks * 4) vDataToHash) h1))"

subsection \<open>Key derivation\<close>

(* src/src/hash.cpp:72-80 BIP32Hash *)
definition BIP32Hash :: "bytes \<Rightarrow> u32 \<Rightarrow> u8 \<Rightarrow> bytes \<Rightarrow> bytes" where
  "BIP32Hash chainCode nChild header dat =
     (let num = [ucast (drop_bit 24 nChild), ucast (drop_bit 16 nChild), ucast (drop_bit 8 nChild), ucast nChild]
      in CHMAC_SHA512_Finalize (CHMAC_SHA512_Write num (CHMAC_SHA512_Write dat (CHMAC_SHA512_Write [header] (CHMAC_SHA512 chainCode)))))"

subsection \<open>SipHash-2-4\<close>

(* src/src/hash.cpp:82-82 ROTL *)
definition ROTL64 :: "u64 \<Rightarrow> nat \<Rightarrow> u64" where
  "ROTL64 x b = push_bit b x OR drop_bit (64 - b) x"

type_synonym sip_v = "u64 \<times> u64 \<times> u64 \<times> u64"

(* src/src/hash.cpp:84-91 SIPROUND *)
definition SIPROUND :: "sip_v \<Rightarrow> sip_v" where
  "SIPROUND = (\<lambda>(v0, v1, v2, v3).
     let v0 = v0 + v1; v1 = ROTL64 v1 13; v1 = v1 XOR v0;
         v0 = ROTL64 v0 32;
         v2 = v2 + v3; v3 = ROTL64 v3 16; v3 = v3 XOR v2;
         v0 = v0 + v3; v3 = ROTL64 v3 21; v3 = v3 XOR v0;
         v2 = v2 + v1; v1 = ROTL64 v1 17; v1 = v1 XOR v2;
         v2 = ROTL64 v2 32
     in (v0, v1, v2, v3))"

(* src/src/hash.h:235-240 CSipHasher *)
record CSipHasher =
  sip_vs :: sip_v
  sip_tmp :: u64
  sip_count :: nat

(* src/src/hash.cpp:93-101 CSipHasher::CSipHasher *)
definition CSipHasher_start :: "u64 \<Rightarrow> u64 \<Rightarrow> CSipHasher" where
  "CSipHasher_start k0 k1 =
     \<lparr>sip_vs = (0x736f6d6570736575 XOR k0, 0x646f72616e646f6d XOR k1, 0x6c7967656e657261 XOR k0, 0x7465646279746573 XOR k1),
      sip_tmp = 0, sip_count = 0\<rparr>"

text \<open>The compression step written out in both \<^verbatim>\<open>Write\<close> functions.\<close>

(* src/src/hash.cpp:109-112 CSipHasher::Write *)
definition sip_absorb :: "u64 \<Rightarrow> sip_v \<Rightarrow> sip_v" where
  "sip_absorb d = (\<lambda>(v0, v1, v2, v3).
     case SIPROUND (SIPROUND (v0, v1, v2, v3 XOR d)) of (w0, w1, w2, w3) \<Rightarrow> (w0 XOR d, w1, w2, w3))"

(* src/src/hash.cpp:103-121 CSipHasher::Write *)
definition CSipHasher_Write64 :: "u64 \<Rightarrow> CSipHasher \<Rightarrow> CSipHasher option" where
  "CSipHasher_Write64 d h =
     (if sip_count h mod 8 \<noteq> 0 then None
      else Some (h\<lparr>sip_vs := sip_absorb d (sip_vs h), sip_count := sip_count h + 8\<rparr>))"

(* src/src/hash.cpp:129-139 CSipHasher::Write *)
definition sip_byte :: "u8 \<Rightarrow> CSipHasher \<Rightarrow> CSipHasher" where
  "sip_byte b h =
     (let t = sip_tmp h OR push_bit (8 * (sip_count h mod 8)) (ucast b);
          c = sip_count h + 1
      in if c mod 8 = 0 then \<lparr>sip_vs = sip_absorb t (sip_vs h), sip_tmp = 0, sip_count = c\<rparr>
         else \<lparr>sip_vs = sip_vs h, sip_tmp = t, sip_count = c\<rparr>)"

(* src/src/hash.cpp:123-149 CSipHasher::Write *)
definition CSipHasher_Write :: "bytes \<Rightarrow> CSipHasher \<Rightarrow> CSipHasher" where
  "CSipHasher_Write dat h = fold sip_byte dat h"

(* src/src/hash.cpp:161-166 CSipHasher::Finalize *)
definition sip_finish :: "sip_v \<Rightarrow> u64" where
  "sip_finish = (\<lambda>(v0, v1, v2, v3).
     case SIPROUND (SIPROUND (SIPROUND (SIPROUND (v0, v1, v2 XOR 0xFF, v3)))) of
       (w0, w1, w2, w3) \<Rightarrow> w0 XOR w1 XOR w2 XOR w3)"

(* src/src/hash.cpp:151-167 CSipHasher::Finalize *)
definition CSipHasher_Finalize :: "CSipHasher \<Rightarrow> u64" where
  "CSipHasher_Finalize h =
     (let t = sip_tmp h OR push_bit 56 (of_nat (sip_count h)) in sip_finish (sip_absorb t (sip_vs h)))"

(* src/src/uint256.h:90-101 uint256::GetUint64 *)
definition GetUint64 :: "bytes \<Rightarrow> nat \<Rightarrow> u64" where
  "GetUint64 val pos =
     (let ptr = drop (pos * 8) val
      in ucast (ptr ! 0) OR push_bit 8 (ucast (ptr ! 1)) OR push_bit 16 (ucast (ptr ! 2)) OR push_bit 24 (ucast (ptr ! 3))
        OR push_bit 32 (ucast (ptr ! 4)) OR push_bit 40 (ucast (ptr ! 5)) OR push_bit 48 (ucast (ptr ! 6)) OR push_bit 56 (ucast (ptr ! 7)))"

text \<open>The specialised functions run all rounds on local variables.\<close>

(* src/src/hash.cpp:169-207 SipHashUint256 *)
definition SipHashUint256 :: "u64 \<Rightarrow> u64 \<Rightarrow> bytes \<Rightarrow> u64" where
  "SipHashUint256 k0 k1 val =
     (let d = GetUint64 val 0;
          v0 = 0x736f6d6570736575 XOR k0; v1 = 0x646f72616e646f6d XOR k1;
          v2 = 0x6c7967656e657261 XOR k0; v3 = (0x7465646279746573 XOR k1) XOR d;
          (v0, v1, v2, v3) = SIPROUND (v0, v1, v2, v3); (v0, v1, v2, v3) = SIPROUND (v0, v1, v2, v3);
          v0 = v0 XOR d; d = GetUint64 val 1; v3 = v3 XOR d;
          (v0, v1, v2, v3) = SIPROUND (v0, v1, v2, v3); (v0, v1, v2, v3) = SIPROUND (v0, v1, v2, v3);
          v0 = v0 XOR d; d = GetUint64 val 2; v3 = v3 XOR d;
          (v0, v1, v2, v3) = SIPROUND (v0, v1, v2, v3); (v0, v1, v2, v3) = SIPROUND (v0, v1, v2, v3);
          v0 = v0 XOR d; d = GetUint64 val 3; v3 = v3 XOR d;
          (v0, v1, v2, v3) = SIPROUND (v0, v1, v2, v3); (v0, v1, v2, v3) = SIPROUND (v0, v1, v2, v3);
          v0 = v0 XOR d; v3 = v3 XOR push_bit 59 4;
          (v0, v1, v2, v3) = SIPROUND (v0, v1, v2, v3); (v0, v1, v2, v3) = SIPROUND (v0, v1, v2, v3);
          v0 = v0 XOR push_bit 59 4; v2 = v2 XOR 0xFF;
          (v0, v1, v2, v3) = SIPROUND (v0, v1, v2, v3); (v0, v1, v2, v3) = SIPROUND (v0, v1, v2, v3);
          (v0, v1, v2, v3) = SIPROUND (v0, v1, v2, v3); (v0, v1, v2, v3) = SIPROUND (v0, v1, v2, v3)
      in v0 XOR v1 XOR v2 XOR v3)"

(* src/src/hash.cpp:209-248 SipHashUint256Extra *)
definition SipHashUint256Extra :: "u64 \<Rightarrow> u64 \<Rightarrow> bytes \<Rightarrow> u32 \<Rightarrow> u64" where
  "SipHashUint256Extra k0 k1 val extra =
     (let d = GetUint64 val 0;
          v0 = 0x736f6d6570736575 XOR k0; v1 = 0x646f72616e646f6d XOR k1;
          v2 = 0x6c7967656e657261 XOR k0; v3 = (0x7465646279746573 XOR k1) XOR d;
          (v0, v1, v2, v3) = SIPROUND (v0, v1, v2, v3); (v0, v1, v2, v3) = SIPROUND (v0, v1, v2, v3);
          v0 = v0 XOR d; d = GetUint64 val 1; v3 = v3 XOR d;
          (v0, v1, v2, v3) = SIPROUND (v0, v1, v2, v3); (v0, v1, v2, v3) = SIPROUND (v0, v1, v2, v3);
          v0 = v0 XOR d; d = GetUint64 val 2; v3 = v3 XOR d;
          (v0, v1, v2, v3) = SIPROUND (v0, v1, v2, v3); (v0, v1, v2, v3) = SIPROUND (v0, v1, v2, v3);
          v0 = v0 XOR d; d = GetUint64 val 3; v3 = v3 XOR d;
          (v0, v1, v2, v3) = SIPROUND (v0, v1, v2, v3); (v0, v1, v2, v3) = SIPROUND (v0, v1, v2, v3);
          v0 = v0 XOR d; d = push_bit 56 36 OR ucast extra; v3 = v3 XOR d;
          (v0, v1, v2, v3) = SIPROUND (v0, v1, v2, v3); (v0, v1, v2, v3) = SIPROUND (v0, v1, v2, v3);
          v0 = v0 XOR d; v2 = v2 XOR 0xFF;
          (v0, v1, v2, v3) = SIPROUND (v0, v1, v2, v3); (v0, v1, v2, v3) = SIPROUND (v0, v1, v2, v3);
          (v0, v1, v2, v3) = SIPROUND (v0, v1, v2, v3); (v0, v1, v2, v3) = SIPROUND (v0, v1, v2, v3)
      in v0 XOR v1 XOR v2 XOR v3)"

subsection \<open>The composed hashers against the standards\<close>

lemma CHash256_Finalize_double:
  assumes "length (concat ms) < 2 ^ 61"
  shows "CHash256_Finalize (fold CSHA256_Write ms CSHA256_Init) = fips_sha256 (fips_sha256 (concat ms))"
proof -
  let ?h = "fold CSHA256_Write ms CSHA256_Init"
  have "hasher_ok 64 (CSHA256_Reset ?h)"
    using sha256s.pieces [OF CSHA256_Init_ok(1), of ms] by (simp add: CSHA256_Reset_def hasher_ok_def)
  then have "CSHA256_Finalize (fold CSHA256_Write [fips_sha256 (concat ms)] (CSHA256_Reset ?h)) = fips_sha256 (concat [fips_sha256 (concat ms)])"
    by (intro CSHA256_digest_from) (simp_all add: CSHA256_Reset_def hasher_rest_def digest_lengths)
  then show ?thesis by (simp add: CHash256_Finalize_def CSHA256_digest [OF assms])
qed

lemma CHash160_Finalize_ripemd:
  assumes "length (concat ms) < 2 ^ 61"
  shows "CHash160_Finalize (fold CSHA256_Write ms CSHA256_Init) = spec_ripemd160 (fips_sha256 (concat ms))"
  using CRIPEMD160_digest [of "[fips_sha256 (concat ms)]"]
  by (simp add: CHash160_Finalize_def CSHA256_digest [OF assms] digest_lengths)

lemma digest_lengths_160: "length (fips_sha1 m) = 20" "length (spec_ripemd160 m) = 20"
proof -
  show "length (fips_sha1 m) = 20"
    using absorb_inv [of "\<lambda>s. length s = 5" fips1_compress sha1_Initialize]
    by (simp add: fips_sha1_def length_concat o_def sum_list_triv length_fips1_compress sha1_Initialize_def)
  show "length (spec_ripemd160 m) = 20"
    using absorb_inv [of "\<lambda>s. length s = 5" spec_rmd_compress rmd_Initialize]
    by (simp add: spec_ripemd160_def length_concat o_def sum_list_triv length_spec_rmd_compress rmd_Initialize_def)
qed

lemma write_all_pieces:
  "ks_ok (hw_ctx w) \<Longrightarrow> (\<And>p. p \<in> set ps \<Longrightarrow> length p < 2 ^ 32) \<Longrightarrow>
    write_all ps w = Some (w\<lparr>hw_ctx := fold keccakUpdate1 (concat ps) (hw_ctx w)\<rparr>)"
proof (induction ps arbitrary: w)
  case (Cons p ps)
  have "ks_ok (fold keccakUpdate1 p (hw_ctx w))" using fold_keccakUpdate1_abs [OF Cons.prems(1)] by blast
  then show ?case using Cons by (simp add: CHashWriter_write_def CSHA3_Write_bytewise)
qed simp

lemma SerializeHash_sha3: "SerializeHash ps nType nVersion = Some (fips_sha3_256 (concat ps))"
proof -
  have "concat (map (\<lambda>b. [b]) m) = m" for m :: bytes by (induction m) simp_all
  moreover have "length p < 2 ^ 32" if "p \<in> set (map (\<lambda>b. [b]) (concat ps))" for p :: bytes using that by auto
  ultimately show ?thesis
    using write_all_pieces [of "CHashWriter_start nType nVersion" "map (\<lambda>b. [b]) (concat ps)"]
    by (simp add: SerializeHash_def CHashWriter_start_def CSHA3_Init_ok CHashWriter_GetHash_def CSHA3_Finalize_sha3)
qed

subsection \<open>SipHash\<close>

text \<open>Chains of rounds on local variables as nested applications.\<close>

lemma sip_chain:
  "(case x of (a, b, c, e) \<Rightarrow> case SIPROUND (a, b, c, e) of (v0, v1, v2, v3) \<Rightarrow> F v0 v1 v2 v3) =
   (case SIPROUND x of (v0, v1, v2, v3) \<Rightarrow> F v0 v1 v2 v3)"
  "(case x of (a, b, c, e) \<Rightarrow> case SIPROUND (SIPROUND (a, b, c, e)) of (v0, v1, v2, v3) \<Rightarrow> F v0 v1 v2 v3) =
   (case SIPROUND (SIPROUND x) of (v0, v1, v2, v3) \<Rightarrow> F v0 v1 v2 v3)"
  "(case x of (a, b, c, e) \<Rightarrow> case SIPROUND (SIPROUND (SIPROUND (a, b, c, e))) of (v0, v1, v2, v3) \<Rightarrow> F v0 v1 v2 v3) =
   (case SIPROUND (SIPROUND (SIPROUND x)) of (v0, v1, v2, v3) \<Rightarrow> F v0 v1 v2 v3)"
  "(case sip_absorb d x of (v0, v1, v2, v3) \<Rightarrow> G v0 v1 v2 v3) =
   (case x of (a, b, c, e) \<Rightarrow> case SIPROUND (SIPROUND (a, b, c, e XOR d)) of (v0, v1, v2, v3) \<Rightarrow> G (v0 XOR d) v1 v2 v3)"
  "sip_finish x = (case x of (v0, v1, v2, v3) \<Rightarrow> case SIPROUND (SIPROUND (SIPROUND (SIPROUND (v0, v1, v2 XOR 0xFF, v3)))) of
       (w0, w1, w2, w3) \<Rightarrow> w0 XOR w1 XOR w2 XOR w3)"
  by (simp_all add: sip_absorb_def sip_finish_def split: prod.split)

lemma SipHashUint256_words:
  "SipHashUint256 k0 k1 val =
     sip_finish (sip_absorb (push_bit 56 32) (fold sip_absorb (map (GetUint64 val) [0, 1, 2, 3]) (sip_vs (CSipHasher_start k0 k1))))"
proof -
  have "push_bit 59 4 = (push_bit 56 32 :: u64)" by simp
  then show ?thesis
    by (simp only: SipHashUint256_def Let_def sip_chain CSipHasher_start_def CSipHasher.simps list.map fold_simps prod.case)
qed

lemma SipHashUint256Extra_words:
  "SipHashUint256Extra k0 k1 val extra =
     sip_finish (sip_absorb (push_bit 56 36 OR ucast extra)
       (fold sip_absorb (map (GetUint64 val) [0, 1, 2, 3]) (sip_vs (CSipHasher_start k0 k1))))"
  by (simp only: SipHashUint256Extra_def Let_def sip_chain CSipHasher_start_def CSipHasher.simps list.map fold_simps prod.case)

text \<open>Bytes are collected into little-endian words.\<close>

lemma le_word_snoc:
  "length xs < 8 \<Longrightarrow> (le_word (xs @ [b]) :: u64) = le_word xs OR push_bit (8 * length xs) (ucast b)"
proof (rule bit_word_eqI)
  fix n assume "length xs < 8" "n < LENGTH(64)"
  moreover have "n - 8 * length xs = n mod 8" if "n div 8 = length xs"
    using that minus_mult_div_eq_mod [of n 8] by simp
  moreover have "n div 8 = length xs" if "8 * length xs \<le> n" "bit b (n - 8 * length xs)"
    using that(1) bit_imp_le_length [OF that(2)] by simp
  ultimately show "bit (le_word (xs @ [b]) :: u64) n = bit (le_word xs OR push_bit (8 * length xs) (ucast b) :: u64) n"
    by (auto simp: le_word_def bit_of_nat_iff bit_le_val bit_simps nth_append less_Suc_eq dest: bit_imp_le_length)
qed

lemma sip_partial:
  "length bs < 8 \<Longrightarrow> sip_count h mod 8 = 0 \<Longrightarrow> sip_tmp h = 0 \<Longrightarrow>
     fold sip_byte bs h = h\<lparr>sip_tmp := le_word bs, sip_count := sip_count h + length bs\<rparr>"
proof (induction bs rule: rev_induct)
  case Nil
  then show ?case by (simp add: le_word_def)
next
  case (snoc b bs)
  then have "(sip_count h + length bs) mod 8 = length bs" "Suc (sip_count h + length bs) mod 8 = Suc (length bs)"
    by (simp_all add: mod_add_eq [symmetric] mod_Suc)
  with snoc show ?case by (simp add: sip_byte_def Let_def le_word_snoc)
qed

lemma sip_block:
  assumes "length bs = 8" "sip_count h mod 8 = 0" "sip_tmp h = 0"
  shows "fold sip_byte bs h = h\<lparr>sip_vs := sip_absorb (le_word bs) (sip_vs h), sip_count := sip_count h + 8\<rparr>"
proof -
  obtain ds d where d: "bs = ds @ [d]" using assms(1) by (cases bs rule: rev_cases) auto
  have "(sip_count h + 7) mod 8 = 7" using assms(2) by presburger
  with d assms show ?thesis by (simp add: sip_partial sip_byte_def Let_def le_word_snoc)
qed

lemma le_word_8:
  "(le_word [a, b, c, d, e, f, g, h] :: u64) = ucast a OR push_bit 8 (ucast b) OR push_bit 16 (ucast c) OR push_bit 24 (ucast d)
     OR push_bit 32 (ucast e) OR push_bit 40 (ucast f) OR push_bit 48 (ucast g) OR push_bit 56 (ucast h)"
  using le_word_snoc [of "[a, b, c, d, e, f, g]" h] le_word_snoc [of "[a, b, c, d, e, f]" g] le_word_snoc [of "[a, b, c, d, e]" f]
    le_word_snoc [of "[a, b, c, d]" e] le_word_snoc [of "[a, b, c]" d] le_word_snoc [of "[a, b]" c] le_word_snoc [of "[a]" b]
    le_word_snoc [of "[]" a]
  by (simp add: or.assoc le_word_def)

lemma GetUint64_le:
  "8 * pos + 8 \<le> length val \<Longrightarrow> GetUint64 val pos = le_word (take 8 (drop (8 * pos) val))"
proof -
  assume "8 * pos + 8 \<le> length val"
  then have "take 8 (drop (8 * pos) val) = map (\<lambda>i. drop (pos * 8) val ! i) [0..<8]"
    by (intro nth_equalityI) (auto simp: mult.commute)
  also have "[0..<8] = [0, 1, 2, 3, 4, 5, 6, 7 :: nat]" by code_simp
  finally have "take 8 (drop (8 * pos) val) = map (\<lambda>i. drop (pos * 8) val ! i) [0, 1, 2, 3, 4, 5, 6, 7]" .
  then show ?thesis by (simp only: list.map le_word_8 GetUint64_def Let_def)
qed

lemma sip_32:
  assumes "length val = 32"
  shows "fold sip_byte val (CSipHasher_start k0 k1) =
    \<lparr>sip_vs = fold sip_absorb (map (GetUint64 val) [0, 1, 2, 3]) (sip_vs (CSipHasher_start k0 k1)), sip_tmp = 0, sip_count = 32\<rparr>"
proof -
  define w where "w k = take 8 (drop (8 * k) val)" for k
  have l: "length (w k) = 8" if "k \<le> 3" for k using that assms by (simp add: w_def)
  have "drop (8 * k) val = w k @ drop (8 * (k + 1)) val" for k
    using append_take_drop_id [of 8 "drop (8 * k) val"] unfolding w_def drop_drop by (simp add: add.commute)
  from this [of 0] this [of 1] this [of 2] this [of 3] have v: "val = w 0 @ w 1 @ w 2 @ w 3" using assms by simp
  have g: "GetUint64 val k = le_word (w k)" if "k \<le> 3" for k
    using that assms GetUint64_le [of k val] by (simp add: w_def)
  show ?thesis
    by (subst (1) v) (simp add: sip_block l g CSipHasher_start_def)
qed

subsection \<open>Properties\<close>

text \<open>The unrolled SipHash functions are SipHash-2-4 as the incremental class computes it: for a 256-bit value
  they agree with writing its four words, as the header says, and with writing its 32 bytes; the variant with an extra
  integer agrees with writing the bytes of the value and of the integer.\<close>
theorem SipHashUint256_incremental:
  assumes "length val = 32"
  shows "SipHashUint256 k0 k1 val = CSipHasher_Finalize (CSipHasher_Write val (CSipHasher_start k0 k1)) \<and>
    (\<exists>h1 h2 h3 h4. CSipHasher_Write64 (GetUint64 val 0) (CSipHasher_start k0 k1) = Some h1 \<and>
       CSipHasher_Write64 (GetUint64 val 1) h1 = Some h2 \<and> CSipHasher_Write64 (GetUint64 val 2) h2 = Some h3 \<and>
       CSipHasher_Write64 (GetUint64 val 3) h3 = Some h4 \<and> CSipHasher_Finalize h4 = SipHashUint256 k0 k1 val) \<and>
    SipHashUint256Extra k0 k1 val extra = CSipHasher_Finalize (CSipHasher_Write (val @ WriteLE32 extra) (CSipHasher_start k0 k1))"
proof (intro conjI)
  let ?s = "CSipHasher_start k0 k1"
  show "SipHashUint256 k0 k1 val = CSipHasher_Finalize (CSipHasher_Write val ?s)"
    by (simp add: SipHashUint256_words CSipHasher_Finalize_def CSipHasher_Write_def sip_32 [OF assms])
  show "\<exists>h1 h2 h3 h4. CSipHasher_Write64 (GetUint64 val 0) ?s = Some h1 \<and>
       CSipHasher_Write64 (GetUint64 val 1) h1 = Some h2 \<and> CSipHasher_Write64 (GetUint64 val 2) h2 = Some h3 \<and>
       CSipHasher_Write64 (GetUint64 val 3) h3 = Some h4 \<and> CSipHasher_Finalize h4 = SipHashUint256 k0 k1 val"
    by (simp add: SipHashUint256_words CSipHasher_Write64_def CSipHasher_Finalize_def) (simp add: CSipHasher_start_def)
  have "le_word (WriteLE32 extra) = (ucast extra :: u64)"
    by (simp add: le_word_def WriteLE32_def le_val_le_bytes word_unat_eq_iff unat_of_nat unat_ucast del: unsigned_less) (use unat_bound [of extra] in simp)
  moreover have "fold sip_byte (val @ WriteLE32 extra) ?s =
      (fold sip_byte val ?s)\<lparr>sip_tmp := le_word (WriteLE32 extra), sip_count := 36\<rparr>"
    using sip_partial [of "WriteLE32 extra" "fold sip_byte val ?s"] by (simp add: sip_32 [OF assms])
  ultimately show "SipHashUint256Extra k0 k1 val extra = CSipHasher_Finalize (CSipHasher_Write (val @ WriteLE32 extra) ?s)"
    by (simp only: SipHashUint256Extra_words CSipHasher_Finalize_def CSipHasher_Write_def sip_32 [OF assms] Let_def
        CSipHasher.simps or.commute) simp
qed

theorem SipHashUint256_incremental_witness:
  "SipHashUint256 1 2 (replicate 32 3) = CSipHasher_Finalize (CSipHasher_Write (replicate 32 3) (CSipHasher_start 1 2))"
  using SipHashUint256_incremental [of "replicate 32 3" 1 2] by simp

text \<open>What the hash helpers compute: \<^verbatim>\<open>Hash\<close> is double SHA-256 of the concatenated arguments, \<^verbatim>\<open>Hash160\<close> is
  RIPEMD-160 of SHA-256, the hash of a serialization is SHA3-256 of the bytes written, in whatever pieces and whatever type
  and version, and \<^verbatim>\<open>BIP32Hash\<close> is HMAC-SHA512 of header, data and big-endian child number.\<close>
theorem hash_helpers_standard:
  assumes "length (a @ b @ c) < 2 ^ 60"
  shows "Hash1 a = fips_sha256 (fips_sha256 a) \<and> Hash2 a b = fips_sha256 (fips_sha256 (a @ b)) \<and>
    Hash3 a b c = fips_sha256 (fips_sha256 (a @ b @ c)) \<and> Hash160 a = spec_ripemd160 (fips_sha256 a) \<and>
    SerializeHash [a, b, c] nType nVersion = Some (fips_sha3_256 (a @ b @ c)) \<and>
    BIP32Hash a nChild header b = rfc_hmac fips_sha512 128 a (header # b @ WriteBE32 nChild)"
proof (intro conjI)
  show "Hash1 a = fips_sha256 (fips_sha256 a)" "Hash2 a b = fips_sha256 (fips_sha256 (a @ b))"
    "Hash3 a b c = fips_sha256 (fips_sha256 (a @ b @ c))"
    using CHash256_Finalize_double [of "[a]"] CHash256_Finalize_double [of "[a, b]"] CHash256_Finalize_double [of "[a, b, c]"] assms
    by (simp_all add: Hash1_def Hash2_def Hash3_def)
  show "Hash160 a = spec_ripemd160 (fips_sha256 a)"
    using CHash160_Finalize_ripemd [of "[a]"] assms by (simp add: Hash160_def)
  show "SerializeHash [a, b, c] nType nVersion = Some (fips_sha3_256 (a @ b @ c))" by (simp add: SerializeHash_sha3)
  have num: "[ucast (drop_bit 24 nChild), ucast (drop_bit 16 nChild), ucast (drop_bit 8 nChild), ucast nChild] = WriteBE32 nChild"
    by (simp add: WriteBE32_def le_bytes_def upt_rec)
  have "length a < 2 ^ 60" "length (concat [[header], b, WriteBE32 nChild]) < 2 ^ 60 + 5" using assms by (simp_all add: WriteBE32_def)
  then show "BIP32Hash a nChild header b = rfc_hmac fips_sha512 128 a (header # b @ WriteBE32 nChild)"
    using CHMAC512_digest [of a "[[header], b, WriteBE32 nChild]"] unfolding BIP32Hash_def num by simp
qed

theorem hash_helpers_standard_witness:
  "Hash1 [1] = fips_sha256 (fips_sha256 [1]) \<and> Hash160 [1] = spec_ripemd160 (fips_sha256 [1]) \<and>
   SerializeHash [[1], [2], []] 0 0 = Some (fips_sha3_256 [1, 2])"
  using hash_helpers_standard [of "[1]" "[2]" "[]"] by simp

end
