(* ===== verification/Script.thy ===== *)
theory Script
  imports Serialize
begin

text \<open>
  Scripts (\<^verbatim>\<open>src/src/script/script.h\<close>, \<^verbatim>\<open>src/src/script/script.cpp\<close>). A script is its byte string; an
  iterator into it is the suffix that is left to read, so advancing an iterator drops bytes. Opcodes
  are the bytes themselves, as the code compares and orders them numerically. Script numbers are
  integers within the range of \<^verbatim>\<open>int64_t\<close>; exceptions are the value \<open>None\<close>.
\<close>

subsection \<open>Limits and opcodes\<close>

(* src/src/script/script.h:23-23 MAX_SCRIPT_ELEMENT_SIZE *)
definition MAX_SCRIPT_ELEMENT_SIZE :: nat where
  "MAX_SCRIPT_ELEMENT_SIZE = 128000"

(* src/src/script/script.h:26-26 MAX_OPS_PER_SCRIPT *)
definition MAX_OPS_PER_SCRIPT :: nat where
  "MAX_OPS_PER_SCRIPT = 201"

(* src/src/script/script.h:29-29 MAX_PUBKEYS_PER_MULTISIG *)
definition MAX_PUBKEYS_PER_MULTISIG :: nat where
  "MAX_PUBKEYS_PER_MULTISIG = 20"

(* src/src/script/script.h:32-32 MAX_SCRIPT_SIZE *)
definition MAX_SCRIPT_SIZE :: nat where
  "MAX_SCRIPT_SIZE = 129000"

(* src/src/script/script.h:35-35 MAX_STACK_SIZE *)
definition MAX_STACK_SIZE :: nat where
  "MAX_STACK_SIZE = 1000"

(* src/src/script/script.h:39-39 LOCKTIME_THRESHOLD *)
definition LOCKTIME_THRESHOLD :: u32 where
  "LOCKTIME_THRESHOLD = 500000000"

text \<open>The enumerators of \<^verbatim>\<open>opcodetype\<close> (lines 48 to 203 of the header).\<close>

abbreviation (input) OP_0 :: u8 where "OP_0 \<equiv> 0"
abbreviation (input) OP_FALSE :: u8 where "OP_FALSE \<equiv> OP_0"
abbreviation (input) OP_PUSHDATA1 :: u8 where "OP_PUSHDATA1 \<equiv> 0x4c"
abbreviation (input) OP_PUSHDATA2 :: u8 where "OP_PUSHDATA2 \<equiv> 0x4d"
abbreviation (input) OP_PUSHDATA4 :: u8 where "OP_PUSHDATA4 \<equiv> 0x4e"
abbreviation (input) OP_1NEGATE :: u8 where "OP_1NEGATE \<equiv> 0x4f"
abbreviation (input) OP_RESERVED :: u8 where "OP_RESERVED \<equiv> 0x50"
abbreviation (input) OP_1 :: u8 where "OP_1 \<equiv> 0x51"
abbreviation (input) OP_TRUE :: u8 where "OP_TRUE \<equiv> OP_1"
abbreviation (input) OP_2 :: u8 where "OP_2 \<equiv> 0x52"
abbreviation (input) OP_3 :: u8 where "OP_3 \<equiv> 0x53"
abbreviation (input) OP_4 :: u8 where "OP_4 \<equiv> 0x54"
abbreviation (input) OP_5 :: u8 where "OP_5 \<equiv> 0x55"
abbreviation (input) OP_6 :: u8 where "OP_6 \<equiv> 0x56"
abbreviation (input) OP_7 :: u8 where "OP_7 \<equiv> 0x57"
abbreviation (input) OP_8 :: u8 where "OP_8 \<equiv> 0x58"
abbreviation (input) OP_9 :: u8 where "OP_9 \<equiv> 0x59"
abbreviation (input) OP_10 :: u8 where "OP_10 \<equiv> 0x5a"
abbreviation (input) OP_11 :: u8 where "OP_11 \<equiv> 0x5b"
abbreviation (input) OP_12 :: u8 where "OP_12 \<equiv> 0x5c"
abbreviation (input) OP_13 :: u8 where "OP_13 \<equiv> 0x5d"
abbreviation (input) OP_14 :: u8 where "OP_14 \<equiv> 0x5e"
abbreviation (input) OP_15 :: u8 where "OP_15 \<equiv> 0x5f"
abbreviation (input) OP_16 :: u8 where "OP_16 \<equiv> 0x60"
abbreviation (input) OP_NOP :: u8 where "OP_NOP \<equiv> 0x61"
abbreviation (input) OP_VER :: u8 where "OP_VER \<equiv> 0x62"
abbreviation (input) OP_IF :: u8 where "OP_IF \<equiv> 0x63"
abbreviation (input) OP_NOTIF :: u8 where "OP_NOTIF \<equiv> 0x64"
abbreviation (input) OP_VERIF :: u8 where "OP_VERIF \<equiv> 0x65"
abbreviation (input) OP_VERNOTIF :: u8 where "OP_VERNOTIF \<equiv> 0x66"
abbreviation (input) OP_ELSE :: u8 where "OP_ELSE \<equiv> 0x67"
abbreviation (input) OP_ENDIF :: u8 where "OP_ENDIF \<equiv> 0x68"
abbreviation (input) OP_VERIFY :: u8 where "OP_VERIFY \<equiv> 0x69"
abbreviation (input) OP_RETURN :: u8 where "OP_RETURN \<equiv> 0x6a"
abbreviation (input) OP_TOALTSTACK :: u8 where "OP_TOALTSTACK \<equiv> 0x6b"
abbreviation (input) OP_FROMALTSTACK :: u8 where "OP_FROMALTSTACK \<equiv> 0x6c"
abbreviation (input) OP_2DROP :: u8 where "OP_2DROP \<equiv> 0x6d"
abbreviation (input) OP_2DUP :: u8 where "OP_2DUP \<equiv> 0x6e"
abbreviation (input) OP_3DUP :: u8 where "OP_3DUP \<equiv> 0x6f"
abbreviation (input) OP_2OVER :: u8 where "OP_2OVER \<equiv> 0x70"
abbreviation (input) OP_2ROT :: u8 where "OP_2ROT \<equiv> 0x71"
abbreviation (input) OP_2SWAP :: u8 where "OP_2SWAP \<equiv> 0x72"
abbreviation (input) OP_IFDUP :: u8 where "OP_IFDUP \<equiv> 0x73"
abbreviation (input) OP_DEPTH :: u8 where "OP_DEPTH \<equiv> 0x74"
abbreviation (input) OP_DROP :: u8 where "OP_DROP \<equiv> 0x75"
abbreviation (input) OP_DUP :: u8 where "OP_DUP \<equiv> 0x76"
abbreviation (input) OP_NIP :: u8 where "OP_NIP \<equiv> 0x77"
abbreviation (input) OP_OVER :: u8 where "OP_OVER \<equiv> 0x78"
abbreviation (input) OP_PICK :: u8 where "OP_PICK \<equiv> 0x79"
abbreviation (input) OP_ROLL :: u8 where "OP_ROLL \<equiv> 0x7a"
abbreviation (input) OP_ROT :: u8 where "OP_ROT \<equiv> 0x7b"
abbreviation (input) OP_SWAP :: u8 where "OP_SWAP \<equiv> 0x7c"
abbreviation (input) OP_TUCK :: u8 where "OP_TUCK \<equiv> 0x7d"
abbreviation (input) OP_CAT :: u8 where "OP_CAT \<equiv> 0x7e"
abbreviation (input) OP_SUBSTR :: u8 where "OP_SUBSTR \<equiv> 0x7f"
abbreviation (input) OP_LEFT :: u8 where "OP_LEFT \<equiv> 0x80"
abbreviation (input) OP_RIGHT :: u8 where "OP_RIGHT \<equiv> 0x81"
abbreviation (input) OP_SIZE :: u8 where "OP_SIZE \<equiv> 0x82"
abbreviation (input) OP_INVERT :: u8 where "OP_INVERT \<equiv> 0x83"
abbreviation (input) OP_AND :: u8 where "OP_AND \<equiv> 0x84"
abbreviation (input) OP_OR :: u8 where "OP_OR \<equiv> 0x85"
abbreviation (input) OP_XOR :: u8 where "OP_XOR \<equiv> 0x86"
abbreviation (input) OP_EQUAL :: u8 where "OP_EQUAL \<equiv> 0x87"
abbreviation (input) OP_EQUALVERIFY :: u8 where "OP_EQUALVERIFY \<equiv> 0x88"
abbreviation (input) OP_RESERVED1 :: u8 where "OP_RESERVED1 \<equiv> 0x89"
abbreviation (input) OP_RESERVED2 :: u8 where "OP_RESERVED2 \<equiv> 0x8a"
abbreviation (input) OP_1ADD :: u8 where "OP_1ADD \<equiv> 0x8b"
abbreviation (input) OP_1SUB :: u8 where "OP_1SUB \<equiv> 0x8c"
abbreviation (input) OP_2MUL :: u8 where "OP_2MUL \<equiv> 0x8d"
abbreviation (input) OP_2DIV :: u8 where "OP_2DIV \<equiv> 0x8e"
abbreviation (input) OP_NEGATE :: u8 where "OP_NEGATE \<equiv> 0x8f"
abbreviation (input) OP_ABS :: u8 where "OP_ABS \<equiv> 0x90"
abbreviation (input) OP_NOT :: u8 where "OP_NOT \<equiv> 0x91"
abbreviation (input) OP_0NOTEQUAL :: u8 where "OP_0NOTEQUAL \<equiv> 0x92"
abbreviation (input) OP_ADD :: u8 where "OP_ADD \<equiv> 0x93"
abbreviation (input) OP_SUB :: u8 where "OP_SUB \<equiv> 0x94"
abbreviation (input) OP_MUL :: u8 where "OP_MUL \<equiv> 0x95"
abbreviation (input) OP_DIV :: u8 where "OP_DIV \<equiv> 0x96"
abbreviation (input) OP_MOD :: u8 where "OP_MOD \<equiv> 0x97"
abbreviation (input) OP_LSHIFT :: u8 where "OP_LSHIFT \<equiv> 0x98"
abbreviation (input) OP_RSHIFT :: u8 where "OP_RSHIFT \<equiv> 0x99"
abbreviation (input) OP_BOOLAND :: u8 where "OP_BOOLAND \<equiv> 0x9a"
abbreviation (input) OP_BOOLOR :: u8 where "OP_BOOLOR \<equiv> 0x9b"
abbreviation (input) OP_NUMEQUAL :: u8 where "OP_NUMEQUAL \<equiv> 0x9c"
abbreviation (input) OP_NUMEQUALVERIFY :: u8 where "OP_NUMEQUALVERIFY \<equiv> 0x9d"
abbreviation (input) OP_NUMNOTEQUAL :: u8 where "OP_NUMNOTEQUAL \<equiv> 0x9e"
abbreviation (input) OP_LESSTHAN :: u8 where "OP_LESSTHAN \<equiv> 0x9f"
abbreviation (input) OP_GREATERTHAN :: u8 where "OP_GREATERTHAN \<equiv> 0xa0"
abbreviation (input) OP_LESSTHANOREQUAL :: u8 where "OP_LESSTHANOREQUAL \<equiv> 0xa1"
abbreviation (input) OP_GREATERTHANOREQUAL :: u8 where "OP_GREATERTHANOREQUAL \<equiv> 0xa2"
abbreviation (input) OP_MIN :: u8 where "OP_MIN \<equiv> 0xa3"
abbreviation (input) OP_MAX :: u8 where "OP_MAX \<equiv> 0xa4"
abbreviation (input) OP_WITHIN :: u8 where "OP_WITHIN \<equiv> 0xa5"
abbreviation (input) OP_RIPEMD160 :: u8 where "OP_RIPEMD160 \<equiv> 0xa6"
abbreviation (input) OP_SHA1 :: u8 where "OP_SHA1 \<equiv> 0xa7"
abbreviation (input) OP_SHA256 :: u8 where "OP_SHA256 \<equiv> 0xa8"
abbreviation (input) OP_HASH160 :: u8 where "OP_HASH160 \<equiv> 0xa9"
abbreviation (input) OP_HASH256 :: u8 where "OP_HASH256 \<equiv> 0xaa"
abbreviation (input) OP_CODESEPARATOR :: u8 where "OP_CODESEPARATOR \<equiv> 0xab"
abbreviation (input) OP_CHECKSIG :: u8 where "OP_CHECKSIG \<equiv> 0xac"
abbreviation (input) OP_CHECKSIGVERIFY :: u8 where "OP_CHECKSIGVERIFY \<equiv> 0xad"
abbreviation (input) OP_CHECKMULTISIG :: u8 where "OP_CHECKMULTISIG \<equiv> 0xae"
abbreviation (input) OP_CHECKMULTISIGVERIFY :: u8 where "OP_CHECKMULTISIGVERIFY \<equiv> 0xaf"
abbreviation (input) OP_NOP1 :: u8 where "OP_NOP1 \<equiv> 0xb0"
abbreviation (input) OP_CHECKLOCKTIMEVERIFY :: u8 where "OP_CHECKLOCKTIMEVERIFY \<equiv> 0xb1"
abbreviation (input) OP_NOP2 :: u8 where "OP_NOP2 \<equiv> OP_CHECKLOCKTIMEVERIFY"
abbreviation (input) OP_CHECKSEQUENCEVERIFY :: u8 where "OP_CHECKSEQUENCEVERIFY \<equiv> 0xb2"
abbreviation (input) OP_NOP3 :: u8 where "OP_NOP3 \<equiv> OP_CHECKSEQUENCEVERIFY"
abbreviation (input) OP_NOP4 :: u8 where "OP_NOP4 \<equiv> 0xb3"
abbreviation (input) OP_NOP5 :: u8 where "OP_NOP5 \<equiv> 0xb4"
abbreviation (input) OP_NOP6 :: u8 where "OP_NOP6 \<equiv> 0xb5"
abbreviation (input) OP_NOP7 :: u8 where "OP_NOP7 \<equiv> 0xb6"
abbreviation (input) OP_NOP8 :: u8 where "OP_NOP8 \<equiv> 0xb7"
abbreviation (input) OP_NOP9 :: u8 where "OP_NOP9 \<equiv> 0xb8"
abbreviation (input) OP_NOP10 :: u8 where "OP_NOP10 \<equiv> 0xb9"
abbreviation (input) OP_BUYTICKET :: u8 where "OP_BUYTICKET \<equiv> 0xba"
abbreviation (input) OP_CREATE :: u8 where "OP_CREATE \<equiv> 0xc1"
abbreviation (input) OP_CALL :: u8 where "OP_CALL \<equiv> 0xc2"
abbreviation (input) OP_SPEND :: u8 where "OP_SPEND \<equiv> 0xc3"
abbreviation (input) OP_GAS_PRICE :: u8 where "OP_GAS_PRICE \<equiv> 0xf5"
abbreviation (input) OP_VERSION :: u8 where "OP_VERSION \<equiv> 0xf6"
abbreviation (input) OP_GAS_LIMIT :: u8 where "OP_GAS_LIMIT \<equiv> 0xf7"
abbreviation (input) OP_DATA :: u8 where "OP_DATA \<equiv> 0xf8"
abbreviation (input) OP_SMALLINTEGER :: u8 where "OP_SMALLINTEGER \<equiv> 0xfa"
abbreviation (input) OP_PUBKEYS :: u8 where "OP_PUBKEYS \<equiv> 0xfb"
abbreviation (input) OP_PUBKEYHASH :: u8 where "OP_PUBKEYHASH \<equiv> 0xfd"
abbreviation (input) OP_PUBKEY :: u8 where "OP_PUBKEY \<equiv> 0xfe"
abbreviation (input) OP_INVALIDOPCODE :: u8 where "OP_INVALIDOPCODE \<equiv> 0xff"

(* src/src/script/script.h:206-206 MAX_OPCODE *)
definition MAX_OPCODE :: u8 where
  "MAX_OPCODE = OP_NOP10"

(* src/src/script/script.cpp:16-148 GetOpName *)
definition op_names :: "(u8 \<times> string) list" where
  "op_names =
     [(OP_0, ''0''), (OP_PUSHDATA1, ''OP_PUSHDATA1''), (OP_PUSHDATA2, ''OP_PUSHDATA2''), (OP_PUSHDATA4, ''OP_PUSHDATA4''),
      (OP_1NEGATE, ''-1''), (OP_RESERVED, ''OP_RESERVED''), (OP_1, ''1''), (OP_2, ''2''),
      (OP_3, ''3''), (OP_4, ''4''), (OP_5, ''5''), (OP_6, ''6''),
      (OP_7, ''7''), (OP_8, ''8''), (OP_9, ''9''), (OP_10, ''10''),
      (OP_11, ''11''), (OP_12, ''12''), (OP_13, ''13''), (OP_14, ''14''),
      (OP_15, ''15''), (OP_16, ''16''), (OP_NOP, ''OP_NOP''), (OP_VER, ''OP_VER''),
      (OP_IF, ''OP_IF''), (OP_NOTIF, ''OP_NOTIF''), (OP_VERIF, ''OP_VERIF''), (OP_VERNOTIF, ''OP_VERNOTIF''),
      (OP_ELSE, ''OP_ELSE''), (OP_ENDIF, ''OP_ENDIF''), (OP_VERIFY, ''OP_VERIFY''), (OP_RETURN, ''OP_RETURN''),
      (OP_TOALTSTACK, ''OP_TOALTSTACK''), (OP_FROMALTSTACK, ''OP_FROMALTSTACK''), (OP_2DROP, ''OP_2DROP''), (OP_2DUP, ''OP_2DUP''),
      (OP_3DUP, ''OP_3DUP''), (OP_2OVER, ''OP_2OVER''), (OP_2ROT, ''OP_2ROT''), (OP_2SWAP, ''OP_2SWAP''),
      (OP_IFDUP, ''OP_IFDUP''), (OP_DEPTH, ''OP_DEPTH''), (OP_DROP, ''OP_DROP''), (OP_DUP, ''OP_DUP''),
      (OP_NIP, ''OP_NIP''), (OP_OVER, ''OP_OVER''), (OP_PICK, ''OP_PICK''), (OP_ROLL, ''OP_ROLL''),
      (OP_ROT, ''OP_ROT''), (OP_SWAP, ''OP_SWAP''), (OP_TUCK, ''OP_TUCK''), (OP_CAT, ''OP_CAT''),
      (OP_SUBSTR, ''OP_SUBSTR''), (OP_LEFT, ''OP_LEFT''), (OP_RIGHT, ''OP_RIGHT''), (OP_SIZE, ''OP_SIZE''),
      (OP_INVERT, ''OP_INVERT''), (OP_AND, ''OP_AND''), (OP_OR, ''OP_OR''), (OP_XOR, ''OP_XOR''),
      (OP_EQUAL, ''OP_EQUAL''), (OP_EQUALVERIFY, ''OP_EQUALVERIFY''), (OP_RESERVED1, ''OP_RESERVED1''), (OP_RESERVED2, ''OP_RESERVED2''),
      (OP_1ADD, ''OP_1ADD''), (OP_1SUB, ''OP_1SUB''), (OP_2MUL, ''OP_2MUL''), (OP_2DIV, ''OP_2DIV''),
      (OP_NEGATE, ''OP_NEGATE''), (OP_ABS, ''OP_ABS''), (OP_NOT, ''OP_NOT''), (OP_0NOTEQUAL, ''OP_0NOTEQUAL''),
      (OP_ADD, ''OP_ADD''), (OP_SUB, ''OP_SUB''), (OP_MUL, ''OP_MUL''), (OP_DIV, ''OP_DIV''),
      (OP_MOD, ''OP_MOD''), (OP_LSHIFT, ''OP_LSHIFT''), (OP_RSHIFT, ''OP_RSHIFT''), (OP_BOOLAND, ''OP_BOOLAND''),
      (OP_BOOLOR, ''OP_BOOLOR''), (OP_NUMEQUAL, ''OP_NUMEQUAL''), (OP_NUMEQUALVERIFY, ''OP_NUMEQUALVERIFY''), (OP_NUMNOTEQUAL, ''OP_NUMNOTEQUAL''),
      (OP_LESSTHAN, ''OP_LESSTHAN''), (OP_GREATERTHAN, ''OP_GREATERTHAN''), (OP_LESSTHANOREQUAL, ''OP_LESSTHANOREQUAL''), (OP_GREATERTHANOREQUAL, ''OP_GREATERTHANOREQUAL''),
      (OP_MIN, ''OP_MIN''), (OP_MAX, ''OP_MAX''), (OP_WITHIN, ''OP_WITHIN''), (OP_RIPEMD160, ''OP_RIPEMD160''),
      (OP_SHA1, ''OP_SHA1''), (OP_SHA256, ''OP_SHA256''), (OP_HASH160, ''OP_HASH160''), (OP_HASH256, ''OP_HASH256''),
      (OP_CODESEPARATOR, ''OP_CODESEPARATOR''), (OP_CHECKSIG, ''OP_CHECKSIG''), (OP_CHECKSIGVERIFY, ''OP_CHECKSIGVERIFY''), (OP_CHECKMULTISIG, ''OP_CHECKMULTISIG''),
      (OP_CHECKMULTISIGVERIFY, ''OP_CHECKMULTISIGVERIFY''), (OP_NOP1, ''OP_NOP1''), (OP_CHECKLOCKTIMEVERIFY, ''OP_CHECKLOCKTIMEVERIFY''), (OP_CHECKSEQUENCEVERIFY, ''OP_CHECKSEQUENCEVERIFY''),
      (OP_NOP4, ''OP_NOP4''), (OP_NOP5, ''OP_NOP5''), (OP_NOP6, ''OP_NOP6''), (OP_NOP7, ''OP_NOP7''),
      (OP_NOP8, ''OP_NOP8''), (OP_NOP9, ''OP_NOP9''), (OP_NOP10, ''OP_NOP10''), (OP_CREATE, ''OP_CREATE''),
      (OP_CALL, ''OP_CALL''), (OP_SPEND, ''OP_SPEND''), (OP_INVALIDOPCODE, ''OP_INVALIDOPCODE''), (OP_BUYTICKET, ''OP_BUYTICKET'')]"

(* src/src/script/script.cpp:11-159 GetOpName *)
definition GetOpName :: "u8 \<Rightarrow> string" where
  "GetOpName opcode = (case map_of op_names opcode of Some s \<Rightarrow> s | None \<Rightarrow> ''OP_UNKNOWN'')"

subsection \<open>Script numbers\<close>

text \<open>
  The bits of all bytes, least significant byte first. The result has 64 bits; the callers pass at
  most eight bytes (a larger shift would be undefined in the source).
\<close>

(* src/src/script/script.h:400-402 CScriptNum::set_vch *)
fun vch_bits :: "nat \<Rightarrow> bytes \<Rightarrow> u64" where
  "vch_bits i [] = 0"
| "vch_bits i (b # vch) = push_bit (8 * i) (ucast b) OR vch_bits (Suc i) vch"

(* src/src/script/script.h:395-410 CScriptNum::set_vch *)
definition set_vch :: "bytes \<Rightarrow> int" where
  "set_vch vch =
     (if vch = [] then 0
      else let result = vch_bits 0 vch
           in if last vch AND 0x80 \<noteq> 0
              then - sint (result AND NOT (push_bit (8 * (length vch - 1)) 0x80))
              else sint result)"

(* src/src/script/script.h:233-233 CScriptNum::nDefaultMaxNumSize *)
definition nDefaultMaxNumSize :: nat where
  "nDefaultMaxNumSize = 4"

(* src/src/script/script.h:235-260 CScriptNum::CScriptNum *)
definition CScriptNum :: "bytes \<Rightarrow> bool \<Rightarrow> nat \<Rightarrow> int option" where
  "CScriptNum vch fRequireMinimal nMaxNumSize =
     (if length vch > nMaxNumSize then None
      else if fRequireMinimal \<and> length vch > 0 \<and> last vch AND 0x7f = 0 \<and>
              (length vch \<le> 1 \<or> vch ! (length vch - 2) AND 0x80 = 0) then None
      else Some (set_vch vch))"

(* src/src/script/script.h:323-330 CScriptNum::getint *)
definition getint :: "int \<Rightarrow> int" where
  "getint m_value = (if m_value > 2 ^ 31 - 1 then 2 ^ 31 - 1 else if m_value < - (2 ^ 31) then - (2 ^ 31) else m_value)"

(* src/src/script/script.h:338-358 CScriptNum::vch_to_uint64 *)
definition vch_to_uint64 :: "bytes \<Rightarrow> u64 option" where
  "vch_to_uint64 vch =
     (if length vch > 8 then None
      else if vch = [] then Some 0
      else if last vch AND 0x80 \<noteq> 0 then None
      else Some (vch_bits 0 vch))"

(* src/src/script/script.h:370-374 CScriptNum::serialize *)
function serialize_abs :: "u64 \<Rightarrow> bytes" where
  "serialize_abs absvalue = (if absvalue = 0 then [] else ucast (absvalue AND 0xff) # serialize_abs (drop_bit 8 absvalue))"
  by pat_completeness auto
termination
proof (relation "measure unat")
  show "(drop_bit 8 x, x) \<in> measure unat" if "x \<noteq> 0" for x :: u64
    using that by (simp add: unat_drop_bit unat_gt_0)
qed simp

declare serialize_abs.simps [simp del]

(* src/src/script/script.h:361-392 CScriptNum::serialize *)
definition serialize_num :: "int \<Rightarrow> bytes" where
  "serialize_num value =
     (if value = 0 then []
      else let neg = value < 0;
               result = serialize_abs (word_of_int (if neg then - value else value))
           in if last result AND 0x80 \<noteq> 0 then result @ [if neg then 0x80 else 0]
              else if neg then butlast result @ [last result OR 0x80]
              else result)"

subsection \<open>Building scripts\<close>

text \<open>What \<^verbatim>\<open>operator<<\<close> appends to a script.\<close>

(* src/src/script/script.h:486-513 CScript::operator<< *)
definition push_data :: "bytes \<Rightarrow> bytes" where
  "push_data b =
     (if length b < unat OP_PUSHDATA1 then [of_nat (length b)]
      else if length b \<le> 0xff then [OP_PUSHDATA1, of_nat (length b)]
      else if length b \<le> 0xffff then OP_PUSHDATA2 # WriteLE16 (of_nat (length b))
      else OP_PUSHDATA4 # WriteLE32 (of_nat (length b))) @ b"

(* src/src/script/script.h:421-436 CScript::push_int64 *)
definition push_int64 :: "int \<Rightarrow> bytes" where
  "push_int64 n =
     (if n = - 1 \<or> (1 \<le> n \<and> n \<le> 16) then [word_of_int (n + (uint OP_1 - 1))]
      else if n = 0 then [OP_0]
      else push_data (serialize_num n))"

(* src/src/script/script.h:480-484 CScript::operator<< *)
definition push_CScriptNum :: "int \<Rightarrow> bytes" where
  "push_CScriptNum b = push_data (serialize_num b)"

subsection \<open>Reading scripts\<close>

(* src/src/script/script.h:567-591 CScript::GetOp2 *)
definition push_size :: "u8 \<Rightarrow> bytes \<Rightarrow> (nat \<times> bytes) option" where
  "push_size opcode pc =
     (if opcode < OP_PUSHDATA1 then Some (unat opcode, pc)
      else if opcode = OP_PUSHDATA1 then if length pc < 1 then None else Some (unat (hd pc), tl pc)
      else if opcode = OP_PUSHDATA2 then if length pc < 2 then None else Some (unat (ReadLE16 pc), drop 2 pc)
      else if length pc < 4 then None else Some (unat (ReadLE32 pc), drop 4 pc))"

text \<open>The return value, the advanced iterator, the opcode and the pushed data; also a failing call advances.\<close>

(* src/src/script/script.h:551-601 CScript::GetOp2 *)
definition GetOp2 :: "bytes \<Rightarrow> bool \<times> bytes \<times> u8 \<times> bytes" where
  "GetOp2 pc =
     (case pc of [] \<Rightarrow> (False, [], OP_INVALIDOPCODE, [])
      | opcode # pc \<Rightarrow>
          if opcode \<le> OP_PUSHDATA4
          then case push_size opcode pc of None \<Rightarrow> (False, pc, OP_INVALIDOPCODE, [])
               | Some (nSize, pc) \<Rightarrow>
                   if length pc < nSize then (False, pc, OP_INVALIDOPCODE, [])
                   else (True, drop nSize pc, opcode, take nSize pc)
          else (True, pc, opcode, []))"

lemma push_size_shorter: "push_size opcode pc = Some (n, pc') \<Longrightarrow> length pc' \<le> length pc"
  by (auto simp: push_size_def split: if_splits)

lemma GetOp2_shorter: "GetOp2 pc = (True, pc', opcode, vch) \<Longrightarrow> length pc' < length pc"
  by (auto simp: GetOp2_def dest!: push_size_shorter split: list.splits if_splits option.splits)

(* src/src/script/script.h:604-610 CScript::DecodeOP_N *)
definition DecodeOP_N :: "u8 \<Rightarrow> nat option" where
  "DecodeOP_N opcode =
     (if opcode = OP_0 then Some 0
      else if OP_1 \<le> opcode \<and> opcode \<le> OP_16 then Some (unat opcode - (unat OP_1 - 1)) else None)"

(* src/src/script/script.h:611-617 CScript::EncodeOP_N *)
definition EncodeOP_N :: "nat \<Rightarrow> u8 option" where
  "EncodeOP_N n = (if n > 16 then None else if n = 0 then Some OP_0 else Some (OP_1 + of_nat n - 1))"

(* src/src/script/script.h:630-634 CScript::FindAndDelete *)
function skip_matches :: "bytes \<Rightarrow> bytes \<Rightarrow> nat \<Rightarrow> bytes \<times> nat" where
  "skip_matches b pc nFound =
     (if b \<noteq> [] \<and> length pc \<ge> length b \<and> take (length b) pc = b
      then skip_matches b (drop (length b) pc) (nFound + 1) else (pc, nFound))"
  by pat_completeness auto
termination
proof (relation "measure (\<lambda>(b, pc, nFound). length pc)")
  show "((b, drop (length b) pc, n + 1), b, pc, n) \<in> measure (\<lambda>(b, pc, nFound). length pc)"
    if "b \<noteq> [] \<and> length pc \<ge> length b \<and> take (length b) pc = b" for b pc and n :: nat
    using that by (cases b; cases pc) auto
qed simp

declare skip_matches.simps [simp del]

lemma skip_matches_shorter: "skip_matches b pc n = (pc', n') \<Longrightarrow> length pc' \<le> length pc"
proof (induction b pc n rule: skip_matches.induct)
  case (1 b pc n)
  show ?case
  proof (cases "b \<noteq> [] \<and> length pc \<ge> length b \<and> take (length b) pc = b")
    case True
    then have "skip_matches b (drop (length b) pc) (n + 1) = (pc', n')"
      using "1.prems" by (simp add: skip_matches.simps [of b pc n])
    from "1.IH" [OF True this] show ?thesis by simp
  qed (use "1.prems" in \<open>auto simp: skip_matches.simps [of b pc n] split: if_splits\<close>)
qed

lemma find_step_shorter:
  assumes "(pc1, n1) = skip_matches b pc n" "(True, pc4, oc, v) = GetOp2 pc1"
  shows "length pc4 < length pc"
  using less_le_trans [OF GetOp2_shorter [OF assms(2) [symmetric]] skip_matches_shorter [OF assms(1) [symmetric]]] .

(* src/src/script/script.h:627-637 CScript::FindAndDelete *)
function FindAndDelete_loop :: "bytes \<Rightarrow> bytes \<Rightarrow> bytes \<Rightarrow> bytes \<Rightarrow> nat \<Rightarrow> bytes \<times> bytes \<times> nat" where
  "FindAndDelete_loop b result pc2 pc nFound =
     (let result = result @ take (length pc2 - length pc) pc2;
          (pc, nFound) = skip_matches b pc nFound;
          pc2 = pc;
          (fRet, pc, opcode, vch) = GetOp2 pc
      in if fRet then FindAndDelete_loop b result pc2 pc nFound else (result, pc2, nFound))"
  by pat_completeness auto
termination
  by (relation "measure (\<lambda>(b, result, pc2, pc, nFound). length pc)")
     (auto elim: find_step_shorter)

declare FindAndDelete_loop.simps [simp del]

text \<open>The script afterwards and the number of deletions.\<close>

(* src/src/script/script.h:619-645 CScript::FindAndDelete *)
definition FindAndDelete :: "bytes \<Rightarrow> bytes \<Rightarrow> bytes \<times> nat" where
  "FindAndDelete script b =
     (if b = [] then (script, 0)
      else let (result, pc2, nFound) = FindAndDelete_loop b [] script script 0
           in if nFound > 0 then (result @ pc2, nFound) else (script, nFound))"

(* src/src/script/script.h:646-654 CScript::Find *)
function Find_op :: "u8 \<Rightarrow> bytes \<Rightarrow> nat" where
  "Find_op op pc =
     (case GetOp2 pc of (fRet, pc', opcode, vch) \<Rightarrow>
        if pc \<noteq> [] \<and> fRet then (if opcode = op then 1 else 0) + Find_op op pc' else 0)"
  by pat_completeness auto
termination
  by (relation "measure (\<lambda>(op, pc). length pc)") (auto dest!: sym [of "(True, _)"] GetOp2_shorter)

declare Find_op.simps [simp del]

(* src/src/script/script.cpp:161-183 CScript::GetSigOpCount *)
function GetSigOpCount_loop :: "bool \<Rightarrow> u8 \<Rightarrow> u32 \<Rightarrow> bytes \<Rightarrow> u32" where
  "GetSigOpCount_loop fAccurate lastOpcode n pc =
     (case GetOp2 pc of (fRet, pc', opcode, vch) \<Rightarrow>
        if pc = [] \<or> \<not> fRet then n
        else let n' = (if opcode = OP_CHECKSIG \<or> opcode = OP_CHECKSIGVERIFY then n + 1
                       else if opcode = OP_CHECKMULTISIG \<or> opcode = OP_CHECKMULTISIGVERIFY
                       then if fAccurate \<and> OP_1 \<le> lastOpcode \<and> lastOpcode \<le> OP_16
                            then n + of_nat (the (DecodeOP_N lastOpcode)) else n + of_nat MAX_PUBKEYS_PER_MULTISIG
                       else n)
             in GetSigOpCount_loop fAccurate opcode n' pc')"
  by pat_completeness auto
termination
  by (relation "measure (\<lambda>(fAccurate, lastOpcode, n, pc). length pc)") (auto dest!: sym [of "(True, _)"] GetOp2_shorter)

declare GetSigOpCount_loop.simps [simp del]

(* src/src/script/script.cpp:161-183 CScript::GetSigOpCount *)
definition GetSigOpCount :: "bool \<Rightarrow> bytes \<Rightarrow> u32" where
  "GetSigOpCount fAccurate script = GetSigOpCount_loop fAccurate OP_INVALIDOPCODE 0 script"

(* src/src/script/script.cpp:209-216 CScript::IsPayToScriptHash *)
definition IsPayToScriptHash :: "bytes \<Rightarrow> bool" where
  "IsPayToScriptHash s \<longleftrightarrow> length s = 23 \<and> s ! 0 = OP_HASH160 \<and> s ! 1 = 0x14 \<and> s ! 22 = OP_EQUAL"

text \<open>The data of the last push of a script of pushes, none when the script is malformed or has another opcode.\<close>

(* src/src/script/script.cpp:193-202 CScript::GetSigOpCount *)
function last_push :: "bytes \<Rightarrow> bytes \<Rightarrow> bytes option" where
  "last_push vData pc =
     (case GetOp2 pc of (fRet, pc', opcode, vch) \<Rightarrow>
        if pc = [] then Some vData
        else if \<not> fRet \<or> opcode > OP_16 then None
        else last_push vch pc')"
  by pat_completeness auto
termination
  by (relation "measure (\<lambda>(vData, pc). length pc)") (auto dest!: sym [of "(True, _)"] GetOp2_shorter)

declare last_push.simps [simp del]

(* src/src/script/script.cpp:185-207 CScript::GetSigOpCount *)
definition GetSigOpCount_P2SH :: "bytes \<Rightarrow> bytes \<Rightarrow> u32" where
  "GetSigOpCount_P2SH script scriptSig =
     (if \<not> IsPayToScriptHash script then GetSigOpCount True script
      else case last_push [] scriptSig of None \<Rightarrow> 0 | Some vData \<Rightarrow> GetSigOpCount True vData)"

(* src/src/script/script.cpp:219-230 CScript::IsPayToPubkey *)
definition IsPayToPubkey :: "bytes \<Rightarrow> bool" where
  "IsPayToPubkey s \<longleftrightarrow>
     length s = 35 \<and> s ! 0 = 33 \<and> s ! 34 = OP_CHECKSIG \<and> (s ! 1 = 0x02 \<or> s ! 1 = 0x03) \<or>
     length s = 67 \<and> s ! 0 = 65 \<and> s ! 66 = OP_CHECKSIG \<and> s ! 1 = 0x04"

(* src/src/script/script.cpp:232-241 CScript::IsPayToPubkeyHash *)
definition IsPayToPubkeyHash :: "bytes \<Rightarrow> bool" where
  "IsPayToPubkeyHash s \<longleftrightarrow>
     length s = 25 \<and> s ! 0 = OP_DUP \<and> s ! 1 = OP_HASH160 \<and> s ! 2 = 0x14 \<and> s ! 23 = OP_EQUALVERIFY \<and> s ! 24 = OP_CHECKSIG"

(* src/src/script/script.cpp:244-250 CScript::IsPayToWitnessScriptHash *)
definition IsPayToWitnessScriptHash :: "bytes \<Rightarrow> bool" where
  "IsPayToWitnessScriptHash s \<longleftrightarrow> length s = 34 \<and> s ! 0 = OP_0 \<and> s ! 1 = 0x20"

(* src/src/script/script.cpp:254-268 CScript::IsWitnessProgram *)
definition IsWitnessProgram :: "bytes \<Rightarrow> (nat \<times> bytes) option" where
  "IsWitnessProgram s =
     (if length s < 4 \<or> length s > 42 then None
      else if s ! 0 \<noteq> OP_0 \<and> (s ! 0 < OP_1 \<or> s ! 0 > OP_16) then None
      else if unat (s ! 1) + 2 = length s then Some (the (DecodeOP_N (s ! 0)), drop 2 s)
      else None)"

(* src/src/script/script.cpp:270-290 CScript::IsPushOnly *)
function IsPushOnly :: "bytes \<Rightarrow> bool" where
  "IsPushOnly pc =
     (case GetOp2 pc of (fRet, pc', opcode, vch) \<Rightarrow>
        if pc = [] then True
        else if \<not> fRet \<or> opcode > OP_16 then False
        else IsPushOnly pc')"
  by pat_completeness auto
termination
  by (relation "measure length") (auto dest!: sym [of "(True, _)"] GetOp2_shorter)

declare IsPushOnly.simps [simp del]

(* src/src/script/script.cpp:304-315 CScript::HasValidOps *)
function HasValidOps :: "bytes \<Rightarrow> bool" where
  "HasValidOps it =
     (case GetOp2 it of (fRet, it', opcode, item) \<Rightarrow>
        if it = [] then True
        else if \<not> fRet \<or> opcode > MAX_OPCODE \<or> length item > MAX_SCRIPT_ELEMENT_SIZE then False
        else HasValidOps it')"
  by pat_completeness auto
termination
  by (relation "measure length") (auto dest!: sym [of "(True, _)"] GetOp2_shorter)

declare HasValidOps.simps [simp del]

(* src/src/script/script.h:691-694 CScript::IsUnspendable *)
definition IsUnspendable :: "bytes \<Rightarrow> bool" where
  "IsUnspendable s \<longleftrightarrow> (length s > 0 \<and> hd s = OP_RETURN) \<or> length s > MAX_SCRIPT_SIZE"

(* src/src/script/script.h:697-700 CScript::HasOpCreate *)
definition HasOpCreate :: "bytes \<Rightarrow> bool" where
  "HasOpCreate s \<longleftrightarrow> Find_op OP_CREATE s = 1"

(* src/src/script/script.h:702-705 CScript::HasOpCall *)
definition HasOpCall :: "bytes \<Rightarrow> bool" where
  "HasOpCall s \<longleftrightarrow> Find_op OP_CALL s = 1"

(* src/src/script/script.h:706-709 CScript::HasOpSpend *)
definition HasOpSpend :: "bytes \<Rightarrow> bool" where
  "HasOpSpend s \<longleftrightarrow> length s = 1 \<and> hd s = OP_SPEND"

text \<open>\<^verbatim>\<open>HasOpSStx\<close> reads the first byte without checking that there is one: \<open>None\<close> for the empty script.\<close>

(* src/src/script/script.h:711-714 CScript::HasOpSStx *)
definition HasOpSStx :: "bytes \<Rightarrow> bool option" where
  "HasOpSStx s = (case s of [] \<Rightarrow> None | b # _ \<Rightarrow> Some (b = OP_BUYTICKET))"

subsection \<open>Script numbers are minimal sign-magnitude numbers\<close>

lemma u8_sign: "(l :: u8) AND 0x80 \<noteq> 0 \<longleftrightarrow> 128 \<le> unat l"
proof -
  have "(l AND 2 ^ 7 = 0) = (\<not> bit l 7)" by (rule and_exp_eq_0_iff_not_bit)
  moreover have "bit l 7 \<longleftrightarrow> bit (unat l) 7" by (simp add: bit_unsigned_iff)
  moreover have "bit (unat l) 7 \<longleftrightarrow> odd (unat l div 128)" by (simp add: bit_iff_odd)
  moreover have "odd (unat l div 128) \<longleftrightarrow> 128 \<le> unat l"
    using unat_bound [of l] less_mult_imp_div_less [of "unat l" 2 128] by (cases "unat l < 128") (auto simp: le_div_geq)
  ultimately show ?thesis by simp
qed

lemma u8_low7: "unat ((l :: u8) AND 0x7f) = unat l mod 128"
proof -
  have "l AND mask 7 = take_bit 7 l" by (simp add: take_bit_eq_mask)
  then have "l AND 0x7f = take_bit 7 l" by (simp add: mask_eq_exp_minus_1)
  then have "unat (l AND 0x7f) = take_bit 7 (unat l)" by (simp only: unsigned_take_bit_eq)
  then show ?thesis by (simp add: take_bit_eq_mod)
qed

lemma u8_or80: "unat (l :: u8) < 128 \<Longrightarrow> unat (l OR 0x80) = unat l + 128"
proof -
  assume a: "unat l < 128"
  have "l AND 0x80 = 0" using a u8_sign [of l] by auto
  then have "l OR 0x80 = l + 0x80" by (rule disjunctive_add_eq_or [symmetric])
  with a show ?thesis by (simp add: unat_word_ariths)
qed

lemma le_val_snoc: "le_val (xs @ [l]) = le_val xs + 256 ^ length xs * unat (l :: u8)"
  by (simp add: le_val_append power_mult)

lemma vch_bits_val: "vch_bits i vch = of_nat (2 ^ (8 * i) * le_val vch)"
proof (induction i vch rule: vch_bits.induct)
  case (2 i b vch)
  have "(push_bit (8 * i) (ucast b) :: u64) AND push_bit (8 * Suc i) (of_nat (le_val vch)) = 0"
  proof (rule bit_word_eqI)
    fix n
    assume "n < LENGTH(64)"
    have "\<not> bit b (n - 8 * i)" if "8 * Suc i \<le> n" using that by (auto dest: bit_imp_le_length)
    then show "bit ((push_bit (8 * i) (ucast b) :: u64) AND push_bit (8 * Suc i) (of_nat (le_val vch))) n = bit (0 :: u64) n"
      by (auto simp: bit_simps)
  qed
  then have "vch_bits i (b # vch) = push_bit (8 * i) (ucast b) + push_bit (8 * Suc i) (of_nat (le_val vch))"
    using 2 by (simp add: disjunctive_add_eq_or push_bit_eq_mult mult.commute)
  also have "(ucast b :: u64) = of_nat (unat b)" by (simp add: unsigned_ucast_eq)
  also have "push_bit (8 * i) (of_nat (unat b)) + push_bit (8 * Suc i) (of_nat (le_val vch)) = (of_nat (2 ^ (8 * i) * le_val (b # vch)) :: u64)"
    by (simp add: push_bit_eq_mult power_add distrib_left)
  finally show ?case .
qed simp

text \<open>The value of a byte string as a little-endian number whose top bit is the sign.\<close>

definition sm_value :: "bytes \<Rightarrow> int" where
  "sm_value vch =
     (if vch = [] then 0
      else let m = le_val (butlast vch) + 256 ^ (length vch - 1) * (unat (last vch) mod 128)
           in if 128 \<le> unat (last vch) then - int m else int m)"

definition minimal_num :: "bytes \<Rightarrow> bool" where
  "minimal_num vch \<longleftrightarrow> vch = [] \<or> unat (last vch) mod 128 \<noteq> 0 \<or> (1 < length vch \<and> 128 \<le> unat (vch ! (length vch - 2)))"

lemma sm_magnitude:
  fixes xs :: bytes and l :: u8
  shows "le_val xs + 256 ^ length xs * (unat l mod 128) < 2 ^ (8 * length xs + 7)"
    and "length xs < 8 \<Longrightarrow> le_val xs + 256 ^ length xs * (unat l mod 128) < 2 ^ 63"
proof -
  have "le_val xs < 256 ^ length xs" using le_val_bound [of xs] by (simp add: power_mult)
  then have "le_val xs + 256 ^ length xs * (unat l mod 128) < 256 ^ length xs * (unat l mod 128 + 1)" by simp
  also have "\<dots> \<le> 256 ^ length xs * 128" by (intro mult_le_mono2) simp
  finally show b: "le_val xs + 256 ^ length xs * (unat l mod 128) < 2 ^ (8 * length xs + 7)" by (simp add: power_add power_mult)
  assume "length xs < 8"
  then have "(2::nat) ^ (8 * length xs + 7) \<le> 2 ^ 63" by (intro power_increasing) simp_all
  with b show "le_val xs + 256 ^ length xs * (unat l mod 128) < 2 ^ 63" by linarith
qed

lemma clear_disjoint_bit: "a AND c = 0 \<Longrightarrow> (a + c) AND NOT c = (a :: 'a::len word)"
  by (subst disjunctive_add_eq_or) (auto intro!: bit_word_eqI simp: bit_simps bit_eq_iff)

lemma set_vch_value:
  assumes "length vch \<le> 8"
  shows "set_vch vch = sm_value vch"
proof (cases vch rule: rev_cases)
  case Nil
  then show ?thesis by (simp add: set_vch_def sm_value_def)
next
  case (snoc xs l)
  let ?m = "le_val xs + 256 ^ length xs * (unat l mod 128)"
  have m: "?m < 2 ^ 63" using assms snoc by (intro sm_magnitude(2)) simp
  have sint: "sint (of_nat ?m :: u64) = int ?m"
    using m signed_take_bit_int_eq_self [of 63 "int ?m"] by (simp add: signed_of_nat del: of_nat_add of_nat_mult)
  show ?thesis
  proof (cases "128 \<le> unat l")
    case False
    then have "vch_bits 0 vch = of_nat ?m" using snoc by (simp add: vch_bits_val le_val_snoc)
    with False snoc sint show ?thesis using u8_sign [of l] by (simp add: set_vch_def sm_value_def)
  next
    case True
    then obtain d where d: "unat l = 128 + d" using le_Suc_ex by blast
    then have "unat l mod 128 = d" using unat_bound [of l] by simp
    then have "le_val vch = ?m + 128 * 256 ^ length xs" using snoc d by (simp add: le_val_snoc distrib_left)
    then have b: "vch_bits 0 vch = of_nat ?m + push_bit (8 * length xs) 0x80"
      by (simp add: vch_bits_val push_bit_eq_mult power_mult)
    have "push_bit (8 * length xs) (0x80 :: u64) = 2 ^ (8 * length xs + 7)" by (simp add: push_bit_eq_mult power_add)
    moreover have "\<not> bit (of_nat ?m :: u64) (8 * length xs + 7)"
      using sm_magnitude(1) [of xs l] bit_take_bit_iff [of "8 * length xs + 7" ?m "8 * length xs + 7"]
      by (simp add: bit_of_nat_iff take_bit_nat_eq_self del: of_nat_add of_nat_mult)
    ultimately have "(of_nat ?m :: u64) AND push_bit (8 * length xs) 0x80 = 0"
      by (simp add: and_exp_eq_0_iff_not_bit)
    from clear_disjoint_bit [OF this] b sint snoc True show ?thesis
      using u8_sign [of l] by (simp add: set_vch_def sm_value_def)
  qed
qed

lemma serialize_abs_props:
  "le_val (serialize_abs w) = unat w" "w \<noteq> 0 \<Longrightarrow> serialize_abs w \<noteq> [] \<and> last (serialize_abs w) \<noteq> 0"
proof (induction w rule: serialize_abs.induct)
  case (1 w)
  have u: "unat (ucast (w AND 0xff) :: u8) = unat w mod 256"
  proof -
    have "w AND mask 8 = take_bit 8 w" by (simp add: take_bit_eq_mask)
    then have "unat (w AND 0xff) = take_bit 8 (unat w)" by (simp add: mask_eq_exp_minus_1 unsigned_take_bit_eq)
    then show ?thesis by (simp add: unat_ucast take_bit_eq_mod)
  qed
  { case 1
    show ?case
    proof (cases "w = 0")
      case False
      with "1.IH"(1) u show ?thesis by (simp add: serialize_abs.simps [of w] unat_drop_bit)
    qed (simp add: serialize_abs.simps [of 0])
  next
    case 2
    show ?case
    proof (cases "drop_bit 8 w = 0")
      case True
      then have "unat w < 256" using unat_drop_bit [of 8 w] by simp
      then have "unat (ucast (w AND 0xff) :: u8) \<noteq> 0" using u 2 by (simp add: unat_eq_0)
      then show ?thesis using 2 True by (auto simp: serialize_abs.simps [of w] serialize_abs.simps [of 0])
    next
      case False
      with "1.IH"(2) 2 show ?thesis by (simp add: serialize_abs.simps [of w])
    qed
  }
qed

lemma last_le_val: "last bs \<noteq> (0 :: u8) \<Longrightarrow> bs \<noteq> [] \<Longrightarrow> 256 ^ (length bs - 1) \<le> le_val bs"
  by (cases bs rule: rev_cases) (auto simp: le_val_snoc Suc_le_eq unat_gt_0 intro!: trans_le_add2)

text \<open>Little-endian strings without a leading zero byte are determined by their value.\<close>

lemma le_val_canonical:
  fixes xs ys :: bytes
  assumes "xs = [] \<or> last xs \<noteq> 0" "ys = [] \<or> last ys \<noteq> 0" "le_val xs = le_val ys"
  shows "xs = ys"
proof -
  have len: "length bs \<le> length cs"
    if b: "bs = [] \<or> last bs \<noteq> 0" and e: "le_val bs = le_val cs" for bs cs :: bytes
  proof (rule ccontr)
    assume "\<not> length bs \<le> length cs"
    then have l: "length cs \<le> length bs - 1" "bs \<noteq> []" by auto
    have "le_val cs < 256 ^ length cs" using le_val_bound [of cs] by (simp add: power_mult)
    also have "\<dots> \<le> 256 ^ (length bs - 1)" using l by (intro power_increasing) simp_all
    also have "\<dots> \<le> le_val bs" using b l by (intro last_le_val) auto
    finally show False using e by simp
  qed
  show ?thesis using len [OF assms(1,3)] len [OF assms(2) assms(3) [symmetric]] assms(3) by (intro le_val_inj) simp_all
qed

lemma serialize_abs_eq:
  assumes "bs \<noteq> []" "last bs \<noteq> 0" "length bs \<le> 8"
  shows "serialize_abs (of_nat (le_val bs)) = bs"
proof -
  have "le_val bs < 256 ^ length bs" using le_val_bound [of bs] by (simp add: power_mult)
  also have "\<dots> \<le> 256 ^ 8" using assms(3) by (intro power_increasing) simp_all
  finally have u: "unat (of_nat (le_val bs) :: u64) = le_val bs" by (simp add: unat_of_nat)
  have "0 < le_val bs" using last_le_val [OF assms(2,1)] zero_less_power [of "256 :: nat" "length bs - 1"] by linarith
  then have "(of_nat (le_val bs) :: u64) \<noteq> 0" using u by (metis less_irrefl unat_0)
  then show ?thesis using serialize_abs_props [of "of_nat (le_val bs)"] u assms by (intro le_val_canonical) auto
qed

lemma num_minimal: "CScriptNum vch True k = (if length vch \<le> k \<and> minimal_num vch then Some (set_vch vch) else None)"
  using u8_low7 [of "last vch"] u8_sign [of "vch ! (length vch - 2)"]
  by (auto simp: CScriptNum_def minimal_num_def unat_eq_0 [symmetric] not_le)

lemma serialize_num_nonzero:
  assumes "n \<noteq> 0" "\<bar>n\<bar> < 2 ^ 63"
  defines "r \<equiv> serialize_abs (word_of_int \<bar>n\<bar>)"
  shows "r \<noteq> []" "last r \<noteq> 0" "int (le_val r) = \<bar>n\<bar>" "length r \<le> 8"
    "serialize_num n = (if 128 \<le> unat (last r) then r @ [if n < 0 then 0x80 else 0]
       else butlast r @ [if n < 0 then last r OR 0x80 else last r])"
proof -
  have u: "int (unat (word_of_int \<bar>n\<bar> :: u64)) = \<bar>n\<bar>" using assms(2) by (simp add: uint_word_of_int flip: uint_nat)
  then have "(word_of_int \<bar>n\<bar> :: u64) \<noteq> 0" using assms(1) by auto
  from serialize_abs_props(2) [OF this] show r: "r \<noteq> []" "last r \<noteq> 0" by (simp_all add: r_def)
  show v: "int (le_val r) = \<bar>n\<bar>" using u by (simp add: r_def serialize_abs_props(1))
  show "length r \<le> 8"
  proof (rule ccontr)
    assume "\<not> length r \<le> 8"
    then have "(256::nat) ^ 8 \<le> 256 ^ (length r - 1)" by (intro power_increasing) simp_all
    with last_le_val [OF r(2,1)] v assms(2) show False by simp
  qed
  show "serialize_num n = (if 128 \<le> unat (last r) then r @ [if n < 0 then 0x80 else 0]
       else butlast r @ [if n < 0 then last r OR 0x80 else last r])"
    using assms(1) r(1) u8_sign [of "last r"] append_butlast_last_id [OF r(1)] unfolding r_def abs_if
    by (auto simp: serialize_num_def Let_def)
qed

lemma serialize_num_round:
  assumes "\<bar>n\<bar> < 2 ^ 63"
  shows "sm_value (serialize_num n) = n" "minimal_num (serialize_num n)"
proof -
  have "sm_value (serialize_num n) = n \<and> minimal_num (serialize_num n)"
  proof (cases "n = 0")
    case False
    define r where "r = serialize_abs (word_of_int \<bar>n\<bar>)"
    note s = serialize_num_nonzero [OF False assms, folded r_def]
    obtain ys t where r: "r = ys @ [t]" using s(1) by (cases r rule: rev_cases) auto
    show ?thesis
    proof (cases "128 \<le> unat t")
      case True
      then have e: "serialize_num n = r @ [if n < 0 then 0x80 else 0]" using s(5) r by simp
      have "sm_value (serialize_num n) = n" unfolding e using s(3) by (auto simp: sm_value_def)
      moreover have "minimal_num (serialize_num n)" unfolding e minimal_num_def using True r by (simp add: nth_append)
      ultimately show ?thesis by blast
    next
      case low: False
      then have e: "serialize_num n = ys @ [if n < 0 then t OR 0x80 else t]" using s(5) r by simp
      have "unat t \<noteq> 0" using s(2) r by (simp add: unat_eq_0)
      moreover have "unat (t OR 0x80) = unat t + 128" using low by (simp add: u8_or80)
      moreover have "\<bar>n\<bar> = int (le_val ys + 256 ^ length ys * unat t)" using s(3) r by (simp add: le_val_snoc)
      ultimately show ?thesis unfolding e using low by (auto simp: sm_value_def minimal_num_def)
    qed
  qed (simp add: serialize_num_def sm_value_def minimal_num_def)
  then show "sm_value (serialize_num n) = n" "minimal_num (serialize_num n)" by blast+
qed

lemma serialize_num_from_magnitude:
  assumes "bs \<noteq> []" "last bs \<noteq> 0" "length bs \<le> 8" "\<bar>n\<bar> = int (le_val bs)" "\<bar>n\<bar> < 2 ^ 63"
  shows "serialize_num n = (if 128 \<le> unat (last bs) then bs @ [if n < 0 then 0x80 else 0]
       else butlast bs @ [if n < 0 then last bs OR 0x80 else last bs])"
proof -
  have "0 < le_val bs" using last_le_val [OF assms(2,1)] zero_less_power [of "256 :: nat" "length bs - 1"] by linarith
  then have "n \<noteq> 0" using assms(4) by auto
  moreover have "serialize_abs (word_of_int \<bar>n\<bar>) = bs" using serialize_abs_eq [OF assms(1-3)] assms(4) by simp
  ultimately show ?thesis using serialize_num_nonzero(5) [of n] assms(5) by metis
qed

lemma minimal_unique:
  assumes "minimal_num vch" "length vch \<le> 8"
  shows "serialize_num (sm_value vch) = vch \<and> \<bar>sm_value vch\<bar> < 2 ^ 63"
proof (cases vch rule: rev_cases)
  case Nil
  then show ?thesis by (simp add: sm_value_def serialize_num_def)
next
  case (snoc xs l)
  define m where "m = le_val xs + 256 ^ length xs * (unat l mod 128)"
  have m63: "m < 2 ^ 63" unfolding m_def using assms(2) snoc by (intro sm_magnitude(2)) simp
  have v: "sm_value vch = (if 128 \<le> unat l then - int m else int m)" using snoc by (simp add: sm_value_def m_def)
  have lt: "\<bar>sm_value vch\<bar> = int m" "\<bar>sm_value vch\<bar> < 2 ^ 63" using v m63 by auto
  show ?thesis
  proof (cases "unat l mod 128 = 0")
    case False
    let ?bs = "xs @ [l AND 0x7f]"
    have b: "le_val ?bs = m" "last ?bs \<noteq> 0" "\<not> 128 \<le> unat (last ?bs)"
      using False u8_low7 [of l] by (auto simp: le_val_snoc m_def not_le)
    have "serialize_num (sm_value vch) = xs @ [if sm_value vch < 0 then (l AND 0x7f) OR 0x80 else l AND 0x7f]"
      using serialize_num_from_magnitude [of ?bs "sm_value vch"] b lt assms(2) snoc by simp
    moreover have "0 < le_val ?bs" by (rule less_le_trans [OF _ last_le_val [OF b(2)]]) simp_all
    then have "sm_value vch < 0 \<longleftrightarrow> 128 \<le> unat l" using v b(1) by auto
    moreover have "128 \<le> unat l \<Longrightarrow> (l AND 0x7f) OR 0x80 = l" "unat l < 128 \<Longrightarrow> l AND 0x7f = l"
      using unat_bound [of l] by (auto simp: word_unat_eq_iff u8_or80 u8_low7 le_mod_geq)
    ultimately show ?thesis using lt snoc by auto
  next
    case True
    have x: "xs \<noteq> []" "128 \<le> unat (last xs)"
      using assms(1) snoc True by (auto simp: minimal_num_def nth_append last_conv_nth)
    then have "last xs \<noteq> 0" by auto
    then have "serialize_num (sm_value vch) = xs @ [if sm_value vch < 0 then 0x80 else 0]"
      using serialize_num_from_magnitude [of xs "sm_value vch"] x lt assms(2) snoc True by (simp add: m_def)
    moreover have "0 < le_val xs" by (rule less_le_trans [OF _ last_le_val [OF \<open>last xs \<noteq> 0\<close> x(1)]]) simp
    then have "sm_value vch < 0 \<longleftrightarrow> 128 \<le> unat l" using v True by (auto simp: m_def)
    moreover have "unat l = 0 \<or> unat l = 128" using True unat_bound [of l] by auto
    then have "l = (if 128 \<le> unat l then 0x80 else 0)" by (auto simp: word_unat_eq_iff)
    ultimately show ?thesis using lt snoc by simp
  qed
qed

subsection \<open>Pushes are read back\<close>

lemma le_u8: "(a :: u8) \<le> b \<longleftrightarrow> unat a \<le> unat b" "(a :: u8) < b \<longleftrightarrow> unat a < unat b"
  by (simp_all add: word_le_nat_alt word_less_nat_alt)

lemma GetOp2_push_data:
  assumes "length b < 2 ^ 32"
  shows "\<exists>opcode. GetOp2 (push_data b @ r) = (True, r, opcode, b) \<and> opcode \<le> OP_PUSHDATA4"
proof -
  consider "length b < 76" | "76 \<le> length b" "length b < 256" | "256 \<le> length b" "length b < 65536" | "65536 \<le> length b"
    by linarith
  then show ?thesis
  proof cases
    case 1
    then have "unat (of_nat (length b) :: u8) = length b" by (simp add: unat_of_nat)
    with 1 show ?thesis by (simp add: push_data_def GetOp2_def push_size_def le_u8)
  next
    case 2
    then have "unat (of_nat (length b) :: u8) = length b" by (simp add: unat_of_nat)
    with 2 show ?thesis by (simp add: push_data_def GetOp2_def push_size_def le_u8)
  next
    case 3
    then have "unat (of_nat (length b) :: u16) = length b" by (simp add: unat_of_nat)
    with 3 show ?thesis by (simp add: push_data_def GetOp2_def push_size_def le_u8 ReadLE_WriteLE)
  next
    case 4
    then have "unat (of_nat (length b) :: u32) = length b" using assms by (simp add: unat_of_nat)
    with 4 show ?thesis by (simp add: push_data_def GetOp2_def push_size_def le_u8 ReadLE_WriteLE)
  qed
qed

lemma push_data_nonempty: "push_data b \<noteq> []"
  by (simp add: push_data_def)

lemma last_push_step: "GetOp2 pc = (True, pc', opcode, vch) \<Longrightarrow> opcode \<le> OP_16 \<Longrightarrow> last_push v pc = last_push vch pc'"
  by (auto simp: last_push.simps [of v pc] GetOp2_def split: list.splits)

lemma pushes_read_back:
  "list_all (\<lambda>b. length b < 2 ^ 32) ds \<Longrightarrow>
     IsPushOnly (concat (map push_data ds)) \<and> last_push v (concat (map push_data ds)) = Some (last (v # ds))"
proof (induction ds arbitrary: v)
  case Nil
  show ?case by (simp add: IsPushOnly.simps last_push.simps)
next
  case (Cons d ds)
  obtain opcode where g: "GetOp2 (push_data d @ concat (map push_data ds)) = (True, concat (map push_data ds), opcode, d)" "opcode \<le> OP_PUSHDATA4"
    using GetOp2_push_data [of d "concat (map push_data ds)"] Cons.prems by auto
  have "opcode \<le> OP_16" using g(2) by (simp add: le_u8)
  with Cons g show ?case using push_data_nonempty [of d]
    by (auto simp: IsPushOnly.simps [of "push_data d @ _"] last_push.simps [of v "push_data d @ _"])
qed

subsection \<open>Signature operations\<close>

lemma DecodeOP_N_range: "OP_1 \<le> x \<Longrightarrow> x \<le> OP_16 \<Longrightarrow> \<exists>k. DecodeOP_N x = Some k \<and> k \<le> 16"
  by (auto simp: DecodeOP_N_def le_u8 unat_eq_0)

lemma GetSigOpCount_loop_bounds:
  "unat m + 20 * length pc < 2 ^ 32 \<Longrightarrow> n \<le> m \<Longrightarrow>
     unat (GetSigOpCount_loop acc l n pc) \<le> unat (GetSigOpCount_loop False l' m pc) \<and>
     unat (GetSigOpCount_loop False l' m pc) \<le> unat m + 20 * length pc"
proof (induction pc arbitrary: n m l l' rule: length_induct)
  case (1 pc)
  obtain fRet pc' opcode vch where g: "GetOp2 pc = (fRet, pc', opcode, vch)" by (cases "GetOp2 pc")
  show ?case
  proof (cases "pc = [] \<or> \<not> fRet")
    case True
    then show ?thesis using "1.prems" g
      by (auto simp: GetSigOpCount_loop.simps [of _ _ _ pc] word_le_nat_alt)
  next
    case False
    then have sh: "length pc' < length pc" using g GetOp2_shorter [of pc pc' opcode vch] by simp
    define inc where "inc a p = (if opcode = OP_CHECKSIG \<or> opcode = OP_CHECKSIGVERIFY then 1
        else if opcode = OP_CHECKMULTISIG \<or> opcode = OP_CHECKMULTISIGVERIFY
        then if a \<and> OP_1 \<le> p \<and> p \<le> OP_16 then of_nat (the (DecodeOP_N p)) else of_nat MAX_PUBKEYS_PER_MULTISIG
        else (0 :: u32))" for a p
    have step: "GetSigOpCount_loop a p k pc = GetSigOpCount_loop a opcode (k + inc a p) pc'" for a p k
      using False g by (simp add: GetSigOpCount_loop.simps [of a p k pc] inc_def Let_def)
    have i: "unat (inc a p) \<le> unat (inc False l')" "unat (inc False l') \<le> 20" for a p
      using DecodeOP_N_range [of p] by (auto simp: inc_def MAX_PUBKEYS_PER_MULTISIG_def unat_of_nat)
    have nm: "unat n \<le> unat m" using "1.prems"(2) by (simp add: word_le_nat_alt)
    have um: "unat (m + inc False l') = unat m + unat (inc False l')"
      using "1.prems"(1) sh i(2) by (simp add: unat_word_ariths)
    have un: "unat (n + inc acc l) = unat n + unat (inc acc l)"
      using "1.prems"(1) sh i(1) [of acc l] i(2) nm by (simp add: unat_word_ariths)
    have le: "n + inc acc l \<le> m + inc False l'" using um un nm i(1) [of acc l] by (simp add: word_le_nat_alt)
    have b: "unat (m + inc False l') + 20 * length pc' < 2 ^ 32" using um i(2) sh "1.prems"(1) by simp
    from "1.IH" [rule_format, OF sh b le, of opcode opcode] show ?thesis
      unfolding step using um i(2) sh by auto
  qed
qed

subsection \<open>Deleting a subscript\<close>

text \<open>Pieces joined by occurrences of \<open>b\<close>.\<close>

fun joined :: "bytes \<Rightarrow> bytes list \<Rightarrow> bytes" where
  "joined b [] = []"
| "joined b [p] = p"
| "joined b (p # q # ps) = p @ b @ joined b (q # ps)"

lemma joined_snoc: "ps \<noteq> [] \<Longrightarrow> joined b (ps @ [q]) = joined b ps @ b @ q"
  by (induction b ps rule: joined.induct) auto

lemma joined_extend: "joined b (ps @ [p @ x]) = joined b (ps @ [p]) @ x"
  by (cases "ps = []") (simp_all add: joined_snoc)

lemma skip_matches_split:
  "skip_matches b pc n = (pc', n') \<Longrightarrow> n \<le> n' \<and> pc = concat (replicate (n' - n) b) @ pc'"
proof (induction b pc n rule: skip_matches.induct)
  case (1 b pc n)
  show ?case
  proof (cases "b \<noteq> [] \<and> length pc \<ge> length b \<and> take (length b) pc = b")
    case True
    then have "skip_matches b (drop (length b) pc) (n + 1) = (pc', n')"
      using "1.prems" by (simp add: skip_matches.simps [of b pc n])
    from "1.IH" [OF True this] have ih: "n < n'" "drop (length b) pc = concat (replicate (n' - Suc n) b) @ pc'" by auto
    then have "concat (replicate (n' - n) b) @ pc' = b @ drop (length b) pc" by (simp add: Suc_diff_Suc [symmetric])
    also have "\<dots> = pc" using True by (metis append_take_drop_id)
    finally show ?thesis using ih(1) by simp
  next
    case False
    then have "skip_matches b pc n = (pc, n)" unfolding skip_matches.simps [of b pc n] by (simp only: if_False)
    with "1.prems" show ?thesis by simp
  qed
qed

lemma GetOp2_suffix: "GetOp2 pc = (r, pc', opcode, vch) \<Longrightarrow> \<exists>x. pc = x @ pc'"
proof -
  have p: "push_size oc q = Some (k, q') \<Longrightarrow> \<exists>x. q = x @ q'" for oc q k q'
    by (auto simp: push_size_def split: if_splits intro: exI [of _ "[]"] exI [of _ "take _ q"] exI [of _ "[hd q]"])
      (metis append_take_drop_id length_greater_0_conv list.collapse append_Cons append_Nil)+
  assume "GetOp2 pc = (r, pc', opcode, vch)"
  then show ?thesis
    by (auto simp: GetOp2_def split: list.splits if_splits option.splits dest!: p)
      (metis append_Cons append_assoc append_take_drop_id)+
qed

lemma joined_replicate:
  "ps \<noteq> [] \<Longrightarrow> joined b (ps @ replicate k []) = joined b ps @ concat (replicate k b)"
proof (induction k arbitrary: ps)
  case (Suc k)
  have "joined b (ps @ replicate (Suc k) []) = joined b ((ps @ [[]]) @ replicate k [])" by simp
  also have "\<dots> = joined b (ps @ [[]]) @ concat (replicate k b)" by (rule Suc.IH) simp
  finally show ?case using Suc.prems by (simp add: joined_snoc)
qed simp

lemma FindAndDelete_loop_pieces:
  "FindAndDelete_loop b result pc2 pc n = (result', pc2', n') \<Longrightarrow> pc2 = x @ pc \<Longrightarrow> length ps = n \<Longrightarrow>
     concat ps @ p = result \<Longrightarrow> joined b (ps @ [p]) @ pc2 = script \<Longrightarrow>
     \<exists>qs. length qs = Suc n' \<and> concat qs = result' \<and> joined b qs @ pc2' = script"
proof (induction b result pc2 pc n arbitrary: x ps p rule: FindAndDelete_loop.induct)
  case (1 b result pc2 pc n)
  obtain pc1 n1 where s: "skip_matches b pc n = (pc1, n1)" by (cases "skip_matches b pc n")
  obtain r pc3 opcode vch where g: "GetOp2 pc1 = (r, pc3, opcode, vch)" by (cases "GetOp2 pc1")
  let ?res = "result @ take (length pc2 - length pc) pc2"
  have t: "take (length pc2 - length pc) pc2 = x" using "1.prems"(2) by simp
  define qs where "qs = (ps @ [p @ x]) @ replicate (n1 - n) []"
  have pc: "n \<le> n1" "pc = concat (replicate (n1 - n) b) @ pc1" using skip_matches_split [OF s] by auto
  have j: "joined b qs @ pc1 = script"
    using "1.prems"(2,5) pc(2) joined_replicate [of "ps @ [p @ x]" b "n1 - n"] by (simp add: joined_extend qs_def)
  have c: "concat qs = ?res" using "1.prems"(4) t by (simp add: qs_def)
  have l: "length qs = Suc n1" using "1.prems"(3) pc(1) by (simp add: qs_def)
  show ?case
  proof (cases r)
    case False
    then have "result' = ?res" "pc2' = pc1" "n' = n1"
      using "1.prems"(1) by (auto simp: FindAndDelete_loop.simps [of b result] s g)
    with j c l show ?thesis by blast
  next
    case True
    then have rec: "FindAndDelete_loop b ?res pc1 pc3 n1 = (result', pc2', n')"
      using "1.prems"(1) by (simp add: FindAndDelete_loop.simps [of b result] s g)
    obtain y where y: "pc1 = y @ pc3" using GetOp2_suffix [OF g] by blast
    have "qs \<noteq> []" using l by auto
    then have q: "qs = butlast qs @ [last qs]" "length (butlast qs) = n1" using l by simp_all
    have "concat (butlast qs) @ last qs = ?res" unfolding c [symmetric] by (metis q(1) concat.simps concat_append append_Nil2)
    moreover have "joined b (butlast qs @ [last qs]) @ pc1 = script" unfolding q(1) [symmetric] by (rule j)
    ultimately show ?thesis
      using "1.IH" [OF refl refl s [symmetric] refl refl g [symmetric] refl refl True rec y q(2)] by blast
  qed
qed

lemma FindAndDelete_pieces:
  "\<exists>ps. length ps = Suc (snd (FindAndDelete script b)) \<and> joined b ps = script \<and> concat ps = fst (FindAndDelete script b)"
proof (cases "b = []")
  case True
  then show ?thesis by (intro exI [of _ "[script]"]) (simp add: FindAndDelete_def)
next
  case False
  obtain result pc2 n where f: "FindAndDelete_loop b [] script script 0 = (result, pc2, n)"
    by (cases "FindAndDelete_loop b [] script script 0")
  obtain qs where q: "length qs = Suc n" "concat qs = result" "joined b qs @ pc2 = script"
    using FindAndDelete_loop_pieces [OF f, of "[]" "[]" "[]" script] by auto
  show ?thesis
  proof (cases "0 < n")
    case True
    then obtain rs r where r: "qs = rs @ [r]" using q(1) by (cases qs rule: rev_cases) auto
    have "joined b (rs @ [r @ pc2]) = script" "concat (rs @ [r @ pc2]) = result @ pc2"
      using q r by (simp_all add: joined_extend)
    then show ?thesis using f False True q(1) r
      by (intro exI [of _ "rs @ [r @ pc2]"]) (simp add: FindAndDelete_def)
  next
    case zero: False
    then show ?thesis using f False by (intro exI [of _ "[script]"]) (simp add: FindAndDelete_def)
  qed
qed

subsection \<open>Witness programs\<close>

lemma length_ge2: "2 \<le> length s \<Longrightarrow> s = s ! 0 # s ! 1 # drop 2 s"
  by (cases s; cases "tl s") auto

lemma DecodeOP_N_Some: "DecodeOP_N x = Some v \<longleftrightarrow> EncodeOP_N v = Some x"
proof -
  have "unat (OP_1 + of_nat v - 1 :: u8) = 80 + v" if "0 < v" "v \<le> 16" for v
  proof -
    have "OP_1 + of_nat v - 1 = (of_nat (80 + v) :: u8)" by simp
    then show ?thesis using that by (simp add: unat_of_nat del: of_nat_add)
  qed
  then show ?thesis using unat_bound [of x]
    by (auto simp: DecodeOP_N_def EncodeOP_N_def le_u8 word_unat_eq_iff not_le split: if_splits)
qed

lemma IsWitnessProgram_iff:
  "IsWitnessProgram s = Some (v, p) \<longleftrightarrow>
     (\<exists>opcode. EncodeOP_N v = Some opcode \<and> 2 \<le> length p \<and> length p \<le> 40 \<and> s = opcode # of_nat (length p) # p)"
  (is "?l \<longleftrightarrow> (\<exists>opcode. ?r opcode)")
proof
  assume ?l
  then have n: "4 \<le> length s" "length s \<le> 42" "unat (s ! 1) + 2 = length s" "p = drop 2 s"
    and d: "v = the (DecodeOP_N (s ! 0))" "s ! 0 = OP_0 \<or> \<not> s ! 0 < OP_1 \<and> \<not> s ! 0 > OP_16"
    by (auto simp: IsWitnessProgram_def split: if_splits)
  have "DecodeOP_N (s ! 0) = Some v" using d by (auto simp: DecodeOP_N_def not_less)
  then have "EncodeOP_N v = Some (s ! 0)" by (simp only: DecodeOP_N_Some)
  moreover have "length p = unat (s ! 1)" using n by simp
  ultimately show "\<exists>opcode. ?r opcode" using n length_ge2 [of s] by (intro exI [of _ "s ! 0"]) auto
next
  assume "\<exists>opcode. ?r opcode"
  then obtain opcode where e: "EncodeOP_N v = Some opcode"
    and r: "2 \<le> length p" "length p \<le> 40" "s = opcode # of_nat (length p) # p" by blast
  have d: "DecodeOP_N opcode = Some v" using e by (simp only: DecodeOP_N_Some)
  then have "opcode = OP_0 \<or> \<not> opcode < OP_1 \<and> \<not> opcode > OP_16"
    by (auto simp: DecodeOP_N_def not_less split: if_splits)
  moreover have "unat (of_nat (length p) :: u8) = length p" using r(2) by (simp add: unat_of_nat)
  ultimately show ?l using r d by (auto simp: IsWitnessProgram_def)
qed

subsection \<open>Properties\<close>

text \<open>Script numbers have one encoding: with the minimality check and a size limit of at most eight bytes,
  \<^verbatim>\<open>CScriptNum\<close> accepts exactly the bytes that \<^verbatim>\<open>serialize\<close> writes for a number of magnitude
  below \<open>2\<^sup>6\<^sup>3\<close> within the limit, and reads that number from them.\<close>
theorem CScriptNum_canonical:
  "k \<le> 8 \<Longrightarrow> CScriptNum vch True k = Some n \<longleftrightarrow> vch = serialize_num n \<and> length vch \<le> k \<and> \<bar>n\<bar> < 2 ^ 63"
proof
  assume k: "k \<le> 8" and "CScriptNum vch True k = Some n"
  then have m: "length vch \<le> k" "minimal_num vch" "n = set_vch vch" by (auto simp: num_minimal split: if_splits)
  then have "n = sm_value vch" using k by (simp add: set_vch_value)
  then show "vch = serialize_num n \<and> length vch \<le> k \<and> \<bar>n\<bar> < 2 ^ 63" using minimal_unique [OF m(2)] m(1) k by auto
next
  assume "k \<le> 8" "vch = serialize_num n \<and> length vch \<le> k \<and> \<bar>n\<bar> < 2 ^ 63"
  then show "CScriptNum vch True k = Some n"
    using serialize_num_round [of n] by (auto simp: num_minimal set_vch_value)
qed

theorem CScriptNum_canonical_witness: "CScriptNum (serialize_num (- 129)) True 4 = Some (- 129) \<and> CScriptNum [1, 0] True 4 = None"
proof -
  have "serialize_num (- 129) = [0x81, 0x80]" by code_simp
  then have "CScriptNum (serialize_num (- 129)) True 4 = Some (- 129)"
    by (subst CScriptNum_canonical) simp_all
  moreover have "CScriptNum [1, 0] True 4 = None" by code_simp
  ultimately show ?thesis by blast
qed

text \<open>\<^verbatim>\<open>FindAndDelete\<close> only deletes whole copies of the pattern and counts them: the script is the
  pieces it keeps with one copy of the pattern between each two of them, as many as it reports, and its result is the
  pieces put together.\<close>
theorem FindAndDelete_removes:
  "FindAndDelete script b = (result, nFound) \<Longrightarrow>
     \<exists>ps. length ps = Suc nFound \<and> joined b ps = script \<and> concat ps = result"
  using FindAndDelete_pieces [of script b] by simp

theorem FindAndDelete_removes_witness:
  "FindAndDelete [OP_1, 1, OP_DUP, OP_DUP, OP_2] [OP_DUP] = ([OP_1, 1, OP_DUP, OP_2], 1) \<and>
   (\<exists>ps. length ps = Suc 1 \<and> joined [OP_DUP] ps = [OP_1, 1, OP_DUP, OP_DUP, OP_2] \<and> concat ps = [OP_1, 1, OP_DUP, OP_2])"
proof -
  have "FindAndDelete [OP_1, 1, OP_DUP, OP_DUP, OP_2] [OP_DUP] = ([OP_1, 1, OP_DUP, OP_2], 1)" by code_simp
  then show ?thesis using FindAndDelete_removes by blast
qed

text \<open>The 32-bit signature operation counter does not wrap on scripts below \<open>2\<^sup>3\<^sup>2 / 20\<close> bytes: the accurate
  count is at most the inaccurate one, and that is at most twenty per byte of the script.\<close>
theorem GetSigOpCount_bounds:
  "20 * length script < 2 ^ 32 \<Longrightarrow>
     GetSigOpCount True script \<le> GetSigOpCount False script \<and> unat (GetSigOpCount False script) \<le> 20 * length script"
  using GetSigOpCount_loop_bounds [of 0 script 0 True OP_INVALIDOPCODE OP_INVALIDOPCODE]
  by (simp add: GetSigOpCount_def word_le_nat_alt)

theorem GetSigOpCount_bounds_witness:
  "GetSigOpCount True [OP_2, OP_CHECKMULTISIG] = 2 \<and> GetSigOpCount False [OP_2, OP_CHECKMULTISIG] = 20 \<and>
   unat (GetSigOpCount False [OP_2, OP_CHECKMULTISIG]) \<le> 20 * 2"
proof -
  have "GetSigOpCount True [OP_2, OP_CHECKMULTISIG] = 2" "GetSigOpCount False [OP_2, OP_CHECKMULTISIG] = 20"
    by code_simp+
  then show ?thesis using GetSigOpCount_bounds [of "[OP_2, OP_CHECKMULTISIG]"] by simp
qed

text \<open>Witness programs are recognised exactly by their shape: a version number opcode, the length byte, and a
  program of 2 to 40 bytes; version and program are recovered.\<close>
theorem IsWitnessProgram_shape:
  "IsWitnessProgram s = Some (v, p) \<longleftrightarrow>
     (\<exists>opcode. EncodeOP_N v = Some opcode \<and> 2 \<le> length p \<and> length p \<le> 40 \<and> s = opcode # of_nat (length p) # p)"
  by (rule IsWitnessProgram_iff)

end
