(* ===== verification/Transaction.thy ===== *)
theory Transaction
  imports Hashing Script
begin

text \<open>
  Transactions, from \<^verbatim>\<open>src/src/primitives/transaction.h\<close>, \<^verbatim>\<open>transaction.cpp\<close> and \<^verbatim>\<open>src/src/amount.h\<close>: outpoints,
  inputs, outputs, the basic and the extended (witness) serialization, transaction hashes, output sums and the
  predicates on special transactions. \<^verbatim>\<open>int64_t\<close> amounts are 64-bit words read with \<open>sint\<close>; signed overflow of a sum is an
  error value.
\<close>

subsection \<open>Amounts\<close>

type_synonym CAmount = "64 word"

(* src/src/amount.h:14-14 COIN *)
definition COIN :: int where
  "COIN = 100000000"

(* src/src/amount.h:15-15 CENT *)
definition CENT :: int where
  "CENT = 1000000"

(* src/src/amount.h:18-18 MAX_MONEY *)
definition MAX_MONEY :: int where
  "MAX_MONEY = 1609562500 * COIN + 25 * 20 * CENT"

(* src/src/amount.h:20-20 MoneyRange *)
definition MoneyRange :: "int \<Rightarrow> bool" where
  "MoneyRange nVal \<longleftrightarrow> 0 \<le> nVal \<and> nVal \<le> MAX_MONEY"

datatype amount_error = ValueOutOfRange | SignedOverflow

definition int64_range :: "int \<Rightarrow> bool" where
  "int64_range x \<longleftrightarrow> - (2 ^ 63) \<le> x \<and> x < 2 ^ 63"

subsection \<open>Outpoints, inputs, outputs\<close>

(* src/src/primitives/transaction.h:18-25 COutPoint *)
record COutPoint =
  op_hash :: bytes
  op_n :: u32

(* src/src/primitives/transaction.h:35-35 COutPoint::SetNull *)
definition COutPoint_null :: COutPoint where
  "COutPoint_null = \<lparr>op_hash = replicate 32 0, op_n = - 1\<rparr>"

(* src/src/primitives/transaction.h:36-36 COutPoint::IsNull *)
definition COutPoint_IsNull :: "COutPoint \<Rightarrow> bool" where
  "COutPoint_IsNull p \<longleftrightarrow> list_all (\<lambda>b. b = 0) (op_hash p) \<and> op_n p = - 1"

(* src/src/primitives/transaction.h:61-67 CTxIn *)
record CTxIn =
  prevout :: COutPoint
  scriptSig :: bytes
  nSequence :: u32
  scriptWitness :: "bytes list"

(* src/src/primitives/transaction.h:71-71 SEQUENCE_FINAL *)
definition SEQUENCE_FINAL :: u32 where
  "SEQUENCE_FINAL = 0xffffffff"

(* src/src/primitives/transaction.h:76-76 SEQUENCE_LOCKTIME_DISABLE_FLAG *)
definition SEQUENCE_LOCKTIME_DISABLE_FLAG :: u32 where
  "SEQUENCE_LOCKTIME_DISABLE_FLAG = push_bit 31 1"

(* src/src/primitives/transaction.h:81-81 SEQUENCE_LOCKTIME_TYPE_FLAG *)
definition SEQUENCE_LOCKTIME_TYPE_FLAG :: u32 where
  "SEQUENCE_LOCKTIME_TYPE_FLAG = push_bit 22 1"

(* src/src/primitives/transaction.h:85-85 SEQUENCE_LOCKTIME_MASK *)
definition SEQUENCE_LOCKTIME_MASK :: u32 where
  "SEQUENCE_LOCKTIME_MASK = 0x0000ffff"

(* src/src/primitives/transaction.h:94-94 SEQUENCE_LOCKTIME_GRANULARITY *)
definition SEQUENCE_LOCKTIME_GRANULARITY :: nat where
  "SEQUENCE_LOCKTIME_GRANULARITY = 9"

(* src/src/primitives/transaction.h:131-135 CTxOut *)
record CTxOut =
  nValue :: CAmount
  scriptPubKey :: bytes

(* src/src/primitives/transaction.h:152-156 CTxOut::SetNull *)
definition CTxOut_null :: CTxOut where
  "CTxOut_null = \<lparr>nValue = - 1, scriptPubKey = []\<rparr>"

(* src/src/primitives/transaction.h:158-161 CTxOut::IsNull *)
definition CTxOut_IsNull :: "CTxOut \<Rightarrow> bool" where
  "CTxOut_IsNull out \<longleftrightarrow> nValue out = - 1"

(* src/src/primitives/transaction.h:169-172 CTxOut::IsEmpty *)
definition CTxOut_IsEmpty :: "CTxOut \<Rightarrow> bool" where
  "CTxOut_IsEmpty out \<longleftrightarrow> nValue out = 0 \<and> scriptPubKey out = []"

(* src/src/primitives/transaction.h:391-396 CMutableTransaction *)
record CTransaction =
  tx_nVersion :: u32
  vin :: "CTxIn list"
  vout :: "CTxOut list"
  tx_nLockTime :: u32

(* src/src/primitives/transaction.h:379-387 CTransaction::HasWitness *)
definition HasWitness :: "CTransaction \<Rightarrow> bool" where
  "HasWitness tx \<longleftrightarrow> list_ex (\<lambda>i. scriptWitness i \<noteq> []) (vin tx)"

subsection \<open>Serialization\<close>

(* src/src/serialize.h:591-597 Serialize_impl(prevector) *)
definition Serialize_prevector :: "bytes \<Rightarrow> bytes" where
  "Serialize_prevector v = WriteCompactSize (of_nat (length v)) @ v"

(* src/src/serialize.h:614-628 Unserialize_impl(prevector) *)
definition Unserialize_prevector :: "bytes reader" where
  "Unserialize_prevector = rd_bind ReadCompactSize (\<lambda>nSize. vec_u8_loop (unat nSize) 0 [])"

(* src/src/primitives/transaction.h:29-33 COutPoint::SerializationOp *)
definition Serialize_COutPoint :: "COutPoint \<Rightarrow> bytes" where
  "Serialize_COutPoint p = op_hash p @ ser_writedata32 (op_n p)"

(* src/src/primitives/transaction.h:29-33 COutPoint::SerializationOp *)
definition Unserialize_COutPoint :: "COutPoint reader" where
  "Unserialize_COutPoint =
     rd_bind (stream_read 32) (\<lambda>h. rd_bind ser_readdata32 (\<lambda>n. rd_return \<lparr>op_hash = h, op_n = n\<rparr>))"

(* src/src/primitives/transaction.h:106-111 CTxIn::SerializationOp *)
definition Serialize_CTxIn :: "CTxIn \<Rightarrow> bytes" where
  "Serialize_CTxIn i = Serialize_COutPoint (prevout i) @ Serialize_prevector (scriptSig i) @ ser_writedata32 (nSequence i)"

(* src/src/primitives/transaction.h:106-111 CTxIn::SerializationOp *)
definition Unserialize_CTxIn :: "CTxIn reader" where
  "Unserialize_CTxIn =
     rd_bind Unserialize_COutPoint (\<lambda>p. rd_bind Unserialize_prevector (\<lambda>s. rd_bind ser_readdata32 (\<lambda>q.
       rd_return \<lparr>prevout = p, scriptSig = s, nSequence = q, scriptWitness = []\<rparr>)))"

(* src/src/primitives/transaction.h:146-150 CTxOut::SerializationOp *)
definition Serialize_CTxOut :: "CTxOut \<Rightarrow> bytes" where
  "Serialize_CTxOut out = ser_writedata64 (nValue out) @ Serialize_prevector (scriptPubKey out)"

(* src/src/primitives/transaction.h:146-150 CTxOut::SerializationOp *)
definition Unserialize_CTxOut :: "CTxOut reader" where
  "Unserialize_CTxOut =
     rd_bind ser_readdata64 (\<lambda>v. rd_bind Unserialize_prevector (\<lambda>s. rd_return \<lparr>nValue = v, scriptPubKey = s\<rparr>))"

(* src/src/primitives/transaction.h:15-15 SERIALIZE_TRANSACTION_NO_WITNESS *)
definition SERIALIZE_TRANSACTION_NO_WITNESS :: nat where
  "SERIALIZE_TRANSACTION_NO_WITNESS = 0x40000000"

definition fAllowWitness :: "nat \<Rightarrow> bool" where
  "fAllowWitness nVersion \<longleftrightarrow> nVersion AND SERIALIZE_TRANSACTION_NO_WITNESS = 0"

text \<open>The serializations of \<^verbatim>\<open>vin\<close>, \<^verbatim>\<open>vout\<close> and of one witness stack. Vectors are read in portions that depend on the size
  of an element in memory; the portions are the parameters of the readers.\<close>

record portions =
  por_in :: nat
  por_out :: nat
  por_stack :: nat

(* src/src/primitives/transaction.h:231-233 UnserializeTransaction *)
fun unser_witnesses :: "portions \<Rightarrow> CTxIn list \<Rightarrow> CTxIn list reader" where
  "unser_witnesses k [] = rd_return []"
| "unser_witnesses k (i # is) =
     rd_bind (Unserialize_vec (por_stack k) Unserialize_vec_u8) (\<lambda>st.
     rd_bind (unser_witnesses k is) (\<lambda>ys. rd_return (i\<lparr>scriptWitness := st\<rparr> # ys)))"

(* src/src/primitives/transaction.h:217-227 UnserializeTransaction *)
definition unser_in_out :: "portions \<Rightarrow> nat \<Rightarrow> CTxIn list \<Rightarrow> (u8 \<times> CTxIn list \<times> CTxOut list) reader" where
  "unser_in_out k version vin0 =
     (if vin0 = [] \<and> fAllowWitness version
      then rd_bind ser_readdata8 (\<lambda>flags.
        if flags \<noteq> 0
        then rd_bind (Unserialize_vec (por_in k) Unserialize_CTxIn) (\<lambda>vin1.
             rd_bind (Unserialize_vec (por_out k) Unserialize_CTxOut) (\<lambda>vout1. rd_return (flags, vin1, vout1)))
        else rd_return (flags, [], []))
      else rd_bind (Unserialize_vec (por_out k) Unserialize_CTxOut) (\<lambda>vout1. rd_return (0, vin0, vout1)))"

(* src/src/primitives/transaction.h:228-238 UnserializeTransaction *)
definition unser_extra :: "portions \<Rightarrow> nat \<Rightarrow> u8 \<Rightarrow> CTxIn list \<Rightarrow> CTxIn list reader" where
  "unser_extra k version flags0 vin1 =
     rd_bind (if flags0 AND 1 \<noteq> 0 \<and> fAllowWitness version
              then rd_bind (unser_witnesses k vin1) (\<lambda>vin2. rd_return (flags0 XOR 1, vin2))
              else rd_return (flags0, vin1))
       (\<lambda>(flags, vin2). if flags \<noteq> 0 then rd_fail UnknownTxData else rd_return vin2)"

(* src/src/primitives/transaction.h:207-240 UnserializeTransaction *)
definition UnserializeTransaction :: "portions \<Rightarrow> nat \<Rightarrow> CTransaction reader" where
  "UnserializeTransaction k version =
     rd_bind ser_readdata32 (\<lambda>nVersion.
     rd_bind (Unserialize_vec (por_in k) Unserialize_CTxIn) (\<lambda>vin0.
     rd_bind (unser_in_out k version vin0) (\<lambda>(flags, vin1, vout1).
     rd_bind (unser_extra k version flags vin1) (\<lambda>vin2.
     rd_bind ser_readdata32 (\<lambda>nLockTime.
       rd_return \<lparr>tx_nVersion = nVersion, vin = vin2, vout = vout1, tx_nLockTime = nLockTime\<rparr>)))))"

(* src/src/primitives/transaction.h:242-269 SerializeTransaction *)
definition SerializeTransaction :: "nat \<Rightarrow> CTransaction \<Rightarrow> bytes" where
  "SerializeTransaction version tx =
     (let flags = (if fAllowWitness version \<and> HasWitness tx then 1 else 0 :: u8)
      in ser_writedata32 (tx_nVersion tx)
         @ (if flags \<noteq> 0 then Serialize_vec Serialize_CTxIn [] @ ser_writedata8 flags else [])
         @ Serialize_vec Serialize_CTxIn (vin tx)
         @ Serialize_vec Serialize_CTxOut (vout tx)
         @ (if flags AND 1 \<noteq> 0 then concat (map (\<lambda>i. Serialize_vec Serialize_vec_u8 (scriptWitness i)) (vin tx)) else [])
         @ ser_writedata32 (tx_nLockTime tx))"

subsection \<open>Hashes\<close>

(* src/src/serialize.h:163-163 SER_GETHASH *)
definition SER_GETHASH :: nat where
  "SER_GETHASH = push_bit 2 1"

(* src/src/primitives/transaction.cpp:65-68 CTransaction::ComputeHash *)
definition tx_GetHash :: "CTransaction \<Rightarrow> bytes option" where
  "tx_GetHash tx =
     SerializeHash [SerializeTransaction SERIALIZE_TRANSACTION_NO_WITNESS tx] SER_GETHASH SERIALIZE_TRANSACTION_NO_WITNESS"

(* src/src/primitives/transaction.cpp:70-76 CTransaction::GetWitnessHash *)
definition tx_GetWitnessHash :: "CTransaction \<Rightarrow> bytes option" where
  "tx_GetWitnessHash tx =
     (if \<not> HasWitness tx then tx_GetHash tx else SerializeHash [SerializeTransaction 0 tx] SER_GETHASH 0)"

subsection \<open>Output sums and kinds of transactions\<close>

(* src/src/primitives/transaction.cpp:86-90 CTransaction::GetValueOut *)
fun GetValueOut_loop :: "CTxOut list \<Rightarrow> int \<Rightarrow> amount_error + int" where
  "GetValueOut_loop [] nValueOut = Inr nValueOut"
| "GetValueOut_loop (tx_out # outs) nValueOut =
     (let s = nValueOut + sint (nValue tx_out)
      in if \<not> int64_range s then Inl SignedOverflow
         else if \<not> MoneyRange (sint (nValue tx_out)) \<or> \<not> MoneyRange s then Inl ValueOutOfRange
         else GetValueOut_loop outs s)"

(* src/src/primitives/transaction.cpp:83-92 CTransaction::GetValueOut *)
definition GetValueOut :: "CTransaction \<Rightarrow> amount_error + int" where
  "GetValueOut tx = GetValueOut_loop (vout tx) 0"

(* src/src/primitives/transaction.cpp:97-104 CTransaction::GetCoinBaseRealOut *)
fun GetCoinBaseRealOut_loop :: "CTxOut list \<Rightarrow> int \<Rightarrow> nat \<Rightarrow> amount_error + int" where
  "GetCoinBaseRealOut_loop [] nValueOut i = Inr nValueOut"
| "GetCoinBaseRealOut_loop (tx_out # outs) nValueOut i =
     (let s = nValueOut + sint (nValue tx_out); i = i + 1
      in if \<not> int64_range s then Inl SignedOverflow
         else if \<not> MoneyRange (sint (nValue tx_out)) \<or> \<not> MoneyRange s then Inl ValueOutOfRange
         else if i = 6 then Inr s
         else GetCoinBaseRealOut_loop outs s i)"

(* src/src/primitives/transaction.cpp:93-106 CTransaction::GetCoinBaseRealOut *)
definition GetCoinBaseRealOut :: "CTransaction \<Rightarrow> amount_error + int" where
  "GetCoinBaseRealOut tx = GetCoinBaseRealOut_loop (vout tx) 0 0"

(* src/src/primitives/transaction.cpp:138-145 CTransaction::HasCreateOrCall *)
definition HasCreateOrCall :: "CTransaction \<Rightarrow> bool" where
  "HasCreateOrCall tx \<longleftrightarrow> list_ex (\<lambda>v. HasOpCreate (scriptPubKey v) \<or> HasOpCall (scriptPubKey v)) (vout tx)"

(* src/src/primitives/transaction.cpp:149-156 CTransaction::HasOpSpend *)
definition tx_HasOpSpend :: "CTransaction \<Rightarrow> bool" where
  "tx_HasOpSpend tx \<longleftrightarrow> list_ex (\<lambda>i. HasOpSpend (scriptSig i)) (vin tx)"

(* src/src/primitives/transaction.h:350-353 CTransaction::IsCoinBase *)
definition IsCoinBase :: "CTransaction \<Rightarrow> bool" where
  "IsCoinBase tx \<longleftrightarrow> length (vin tx) = 1 \<and> COutPoint_IsNull (prevout (vin tx ! 0)) \<and> length (vout tx) \<ge> 1"

(* src/src/primitives/transaction.h:355-359 CTransaction::IsCoinStake *)
definition IsCoinStake :: "CTransaction \<Rightarrow> bool" where
  "IsCoinStake tx \<longleftrightarrow>
     length (vin tx) > 0 \<and> \<not> COutPoint_IsNull (prevout (vin tx ! 0)) \<and> length (vout tx) \<ge> 2 \<and> CTxOut_IsEmpty (vout tx ! 0)"

(* src/src/primitives/transaction.h:361-365 CTransaction::IsNormalTx *)
definition IsNormalTx :: "CTransaction \<Rightarrow> bool" where
  "IsNormalTx tx \<longleftrightarrow> \<not> IsCoinBase tx \<and> \<not> IsCoinStake tx"

subsection \<open>Codecs of the parts\<close>

interpretation prevec: canonical_codec "\<lambda>b. length b \<le> MAX_SIZE" Serialize_prevector Unserialize_prevector
  using vec_u8.canonical_codec_axioms
  unfolding Serialize_prevector_def Unserialize_prevector_def Serialize_vec_u8_def Unserialize_vec_u8_def .

lemmas rd_round = rd_bind_step rd_return_def u8.round u32.round u64.round blob32.round prevec.round
lemmas rd_canon = rd_bind_Inr_iff rd_return_def u8.accepts_iff u32.accepts_iff u64.accepts_iff blob32.accepts_iff prevec.accepts_iff

interpretation outpoint: canonical_codec "\<lambda>p. length (op_hash p) = 32" Serialize_COutPoint Unserialize_COutPoint
  by unfold_locales (auto simp: Serialize_COutPoint_def Unserialize_COutPoint_def rd_round rd_canon)

definition txin_ok :: "CTxIn \<Rightarrow> bool" where
  "txin_ok i \<longleftrightarrow> length (op_hash (prevout i)) = 32 \<and> length (scriptSig i) \<le> MAX_SIZE"

definition strip_in :: "CTxIn \<Rightarrow> CTxIn" where
  "strip_in i = i\<lparr>scriptWitness := []\<rparr>"

interpretation txin: canonical_codec "\<lambda>i. txin_ok i \<and> scriptWitness i = []" Serialize_CTxIn Unserialize_CTxIn
  by unfold_locales (auto simp: Serialize_CTxIn_def Unserialize_CTxIn_def txin_ok_def rd_round outpoint.round rd_canon outpoint.accepts_iff)

interpretation txout: canonical_codec "\<lambda>out. length (scriptPubKey out) \<le> MAX_SIZE" Serialize_CTxOut Unserialize_CTxOut
  by unfold_locales (auto simp: Serialize_CTxOut_def Unserialize_CTxOut_def rd_round rd_canon)

definition stack_ok :: "bytes list \<Rightarrow> bool" where
  "stack_ok st \<longleftrightarrow> list_all (\<lambda>b. length b \<le> MAX_SIZE) st \<and> length st \<le> MAX_SIZE"

definition tx_ok :: "CTransaction \<Rightarrow> bool" where
  "tx_ok tx \<longleftrightarrow> list_all (\<lambda>i. txin_ok i \<and> stack_ok (scriptWitness i)) (vin tx) \<and> length (vin tx) \<le> MAX_SIZE \<and>
     list_all (\<lambda>out. length (scriptPubKey out) \<le> MAX_SIZE) (vout tx) \<and> length (vout tx) \<le> MAX_SIZE"

definition portions_ok :: "portions \<Rightarrow> bool" where
  "portions_ok k \<longleftrightarrow> 0 < por_in k \<and> 0 < por_out k \<and> 0 < por_stack k"

lemma vins_codec:
  assumes "portions_ok k"
  shows "canonical_codec (\<lambda>xs. list_all (\<lambda>i. txin_ok i \<and> scriptWitness i = []) xs \<and> length xs \<le> MAX_SIZE)
      (Serialize_vec Serialize_CTxIn) (Unserialize_vec (por_in k) Unserialize_CTxIn)"
    and "canonical_codec (\<lambda>xs. list_all (\<lambda>out. length (scriptPubKey out) \<le> MAX_SIZE) xs \<and> length xs \<le> MAX_SIZE)
      (Serialize_vec Serialize_CTxOut) (Unserialize_vec (por_out k) Unserialize_CTxOut)"
    and "canonical_codec stack_ok (Serialize_vec Serialize_vec_u8) (Unserialize_vec (por_stack k) Unserialize_vec_u8)"
  using assms canonical_codec_vec [OF txin.canonical_codec_axioms, of "por_in k"]
    canonical_codec_vec [OF txout.canonical_codec_axioms, of "por_out k"] canonical_codec_vec [OF vec_u8.canonical_codec_axioms, of "por_stack k"]
  by (simp_all add: portions_ok_def stack_ok_def [abs_def])

lemma Serialize_strip:
  "Serialize_CTxIn (strip_in i) = Serialize_CTxIn i"
  "Serialize_vec Serialize_CTxIn (map strip_in is) = Serialize_vec Serialize_CTxIn is"
  by (simp_all add: Serialize_vec_def Serialize_CTxIn_def [abs_def] strip_in_def o_def)

lemma strip_ok [simp]: "txin_ok (strip_in i) = txin_ok i" "scriptWitness (strip_in i) = []" "strip_in (i\<lparr>scriptWitness := w\<rparr>) = strip_in i"
  "(strip_in i)\<lparr>scriptWitness := scriptWitness i\<rparr> = i"
  by (simp_all add: txin_ok_def strip_in_def)

lemma strip_id: "scriptWitness i = [] \<Longrightarrow> strip_in i = i"
  by (simp add: strip_in_def)

definition witness_bytes :: "CTxIn list \<Rightarrow> bytes" where
  "witness_bytes is = concat (map (\<lambda>i. Serialize_vec Serialize_vec_u8 (scriptWitness i)) is)"

lemma unser_witnesses_round:
  assumes "portions_ok k"
  shows "list_all (\<lambda>i. stack_ok (scriptWitness i)) is \<Longrightarrow> unser_witnesses k (map strip_in is) (witness_bytes is @ r) = Inr (is, r)"
  by (induction "is")
     (simp_all add: rd_round witness_bytes_def codec.round [OF canonical_codec.axioms(1) [OF vins_codec(3) [OF assms]]])

lemma unser_witnesses_canon:
  assumes "portions_ok k"
  shows "unser_witnesses k is0 bs = Inr (is, r) \<Longrightarrow> map strip_in is = map strip_in is0 \<and>
    list_all (\<lambda>i. stack_ok (scriptWitness i)) is \<and> bs = witness_bytes is @ r"
proof (induction is0 arbitrary: bs "is")
  case Nil
  then show ?case by (simp add: rd_return_def witness_bytes_def)
next
  case (Cons i is0)
  then obtain st bs' ys where st: "Unserialize_vec (por_stack k) Unserialize_vec_u8 bs = Inr (st, bs')"
    and ys: "unser_witnesses k is0 bs' = Inr (ys, r)" and i: "is = i\<lparr>scriptWitness := st\<rparr> # ys"
    by (auto simp: rd_bind_Inr_iff rd_return_def)
  from canonical_codec.canon [OF vins_codec(3) [OF assms] st] Cons.IH [OF ys] i
  show ?case by (simp add: witness_bytes_def)
qed

subsection \<open>Reading and writing whole transactions\<close>

definition strip :: "CTransaction \<Rightarrow> CTransaction" where
  "strip tx = tx\<lparr>vin := map strip_in (vin tx)\<rparr>"

definition plain_bytes :: "CTransaction \<Rightarrow> bytes" where
  "plain_bytes tx = ser_writedata32 (tx_nVersion tx) @ Serialize_vec Serialize_CTxIn (vin tx)
     @ Serialize_vec Serialize_CTxOut (vout tx) @ ser_writedata32 (tx_nLockTime tx)"

definition extended_bytes :: "CTransaction \<Rightarrow> bytes" where
  "extended_bytes tx = ser_writedata32 (tx_nVersion tx) @ [0, 1] @ Serialize_vec Serialize_CTxIn (vin tx)
     @ Serialize_vec Serialize_CTxOut (vout tx) @ witness_bytes (vin tx) @ ser_writedata32 (tx_nLockTime tx)"

lemma Serialize_vec_Nil: "Serialize_vec f [] = [0]"
  by (simp add: Serialize_vec_def WriteCompactSize_def ser_data_defs)

lemma SerializeTransaction_forms:
  "SerializeTransaction v tx = (if fAllowWitness v \<and> HasWitness tx then extended_bytes tx else plain_bytes tx)"
  by (simp add: SerializeTransaction_def plain_bytes_def extended_bytes_def witness_bytes_def Serialize_vec_Nil ser_writedata8_def)

lemma fAllowWitness_versions: "fAllowWitness 0" "\<not> fAllowWitness SERIALIZE_TRANSACTION_NO_WITNESS"
  by (simp_all add: fAllowWitness_def SERIALIZE_TRANSACTION_NO_WITNESS_def)

lemma HasWitness_strip: "\<not> HasWitness tx \<longleftrightarrow> strip tx = tx"
proof
  assume "\<not> HasWitness tx"
  then have "map strip_in (vin tx) = vin tx"
    by (intro map_idI) (auto simp: HasWitness_def list_ex_iff intro: strip_id)
  then show "strip tx = tx" by (simp add: strip_def)
next
  assume "strip tx = tx"
  from arg_cong [OF this, of vin] have m: "map strip_in (vin tx) = vin tx" by (simp add: strip_def)
  have "scriptWitness i = []" if "i \<in> set (vin tx)" for i
  proof -
    have "i \<in> strip_in ` set (vin tx)" using that arg_cong [OF m, of set] by simp
    then show ?thesis by auto
  qed
  then show "\<not> HasWitness tx" by (simp add: HasWitness_def list_ex_iff)
qed

lemma plain_strip: "plain_bytes (strip tx) = plain_bytes tx"
  by (simp add: plain_bytes_def strip_def Serialize_strip)

lemma strip_tx_ok: "tx_ok tx \<Longrightarrow> list_all (\<lambda>i. txin_ok i \<and> scriptWitness i = []) (map strip_in (vin tx))"
  by (auto simp: tx_ok_def list_all_iff)

lemma vins_round:
  assumes "portions_ok k" "tx_ok tx"
  shows "Unserialize_vec (por_in k) Unserialize_CTxIn (Serialize_vec Serialize_CTxIn (vin tx) @ r) = Inr (map strip_in (vin tx), r)"
    and "Unserialize_vec (por_out k) Unserialize_CTxOut (Serialize_vec Serialize_CTxOut (vout tx) @ r) = Inr (vout tx, r)"
  using codec.round [OF canonical_codec.axioms(1) [OF vins_codec(1) [OF assms(1)]], of "map strip_in (vin tx)" r]
    codec.round [OF canonical_codec.axioms(1) [OF vins_codec(2) [OF assms(1)]], of "vout tx" r] assms(2) strip_tx_ok [OF assms(2)]
  by (simp_all add: Serialize_strip tx_ok_def)

lemma plain_round:
  assumes "portions_ok k" "tx_ok tx" "\<not> fAllowWitness v \<or> vin tx \<noteq> [] \<or> vout tx = []"
  shows "UnserializeTransaction k v (plain_bytes tx @ r) = Inr (strip tx, r)"
proof (cases "vin tx = [] \<and> fAllowWitness v")
  case True
  then have "vout tx = []" using assms(3) by simp
  moreover have "ser_readdata8 ([0] @ q) = Inr (0, q)" for q using u8.round [of 0 q] by (simp add: ser_writedata8_def)
  ultimately show ?thesis using True vins_round(1) [OF assms(1,2)]
    by (simp add: UnserializeTransaction_def unser_in_out_def unser_extra_def plain_bytes_def rd_round Serialize_vec_Nil strip_def)
next
  case False
  then show ?thesis
    by (auto simp: UnserializeTransaction_def unser_in_out_def unser_extra_def plain_bytes_def rd_round vins_round [OF assms(1,2)] strip_def)
qed

lemma extended_round:
  assumes "portions_ok k" "tx_ok tx" "fAllowWitness v"
  shows "UnserializeTransaction k v (extended_bytes tx @ r) = Inr (tx, r)"
proof -
  have e: "Unserialize_vec (por_in k) Unserialize_CTxIn (0 # q) = Inr ([], q)" for q
    using codec.round [OF canonical_codec.axioms(1) [OF vins_codec(1) [OF assms(1)]], of "[]" q] by (simp add: Serialize_vec_Nil)
  have f: "ser_readdata8 (1 # q) = Inr (1, q)" for q using u8.round [of 1 q] by (simp add: ser_writedata8_def)
  have "list_all (\<lambda>i. stack_ok (scriptWitness i)) (vin tx)" using assms(2) by (auto simp: tx_ok_def list_all_iff)
  note w = unser_witnesses_round [OF assms(1) this]
  show ?thesis using assms(3)
    by (simp add: UnserializeTransaction_def unser_in_out_def unser_extra_def extended_bytes_def rd_round e f w vins_round [OF assms(1,2)])
qed

lemma flag_word: "(f :: u8) XOR 1 = 0 \<longleftrightarrow> f = 1"
proof
  assume "f XOR 1 = 0"
  then have "(f XOR 1) XOR 1 = 0 XOR 1" by simp
  then show "f = 1" by (simp only: xor.assoc xor_self_eq xor.right_neutral xor.left_neutral)
qed simp

lemma tx_ok_intro:
  assumes "list_all (\<lambda>i. txin_ok i \<and> scriptWitness i = []) vs \<and> length vs \<le> MAX_SIZE"
    "list_all (\<lambda>out. length (scriptPubKey out) \<le> MAX_SIZE) os \<and> length os \<le> MAX_SIZE"
    "map strip_in is = map strip_in vs" "list_all (\<lambda>i. stack_ok (scriptWitness i)) is"
  shows "tx_ok \<lparr>tx_nVersion = a, vin = is, vout = os, tx_nLockTime = c\<rparr>"
proof -
  have "length is = length vs" using arg_cong [OF assms(3), of length] by simp
  moreover have "txin_ok i" if "i \<in> set is" for i
  proof -
    have "strip_in i \<in> set (map strip_in vs)" using that arg_cong [OF assms(3), of set] by auto
    then obtain j where "j \<in> set vs" "strip_in i = strip_in j" by auto
    then show ?thesis using assms(1) strip_ok(1) by (metis list_all_iff)
  qed
  ultimately show ?thesis using assms(1,2,4) by (auto simp: tx_ok_def list_all_iff)
qed

lemma unser_in_out_canon:
  assumes k: "portions_ok k" and u: "unser_in_out k v vin0 bs = Inr ((flags, vs, os), r)"
  shows "(if vin0 = [] \<and> fAllowWitness v
      then if flags = 0 then vs = [] \<and> os = [] \<and> bs = 0 # r
           else list_all (\<lambda>i. txin_ok i \<and> scriptWitness i = []) vs \<and> length vs \<le> MAX_SIZE \<and>
             bs = flags # Serialize_vec Serialize_CTxIn vs @ Serialize_vec Serialize_CTxOut os @ r
      else flags = 0 \<and> vs = vin0 \<and> bs = Serialize_vec Serialize_CTxOut os @ r) \<and>
    list_all (\<lambda>out. length (scriptPubKey out) \<le> MAX_SIZE) os \<and> length os \<le> MAX_SIZE"
  using u unfolding unser_in_out_def
  by (auto simp: rd_bind_Inr_iff rd_return_def u8.accepts_iff ser_writedata8_def
      canonical_codec.accepts_iff [OF vins_codec(1) [OF k]] canonical_codec.accepts_iff [OF vins_codec(2) [OF k]] split: if_splits)

lemma unser_extra_canon:
  assumes k: "portions_ok k" and u: "unser_extra k v flags vs bs = Inr (is, r)"
  shows "flags = 0 \<and> is = vs \<and> bs = r \<or>
    fAllowWitness v \<and> flags = 1 \<and> map strip_in is = map strip_in vs \<and> list_all (\<lambda>i. stack_ok (scriptWitness i)) is \<and> bs = witness_bytes is @ r"
  using u unfolding unser_extra_def
  by (auto simp: rd_bind_Inr_iff rd_return_def rd_fail_def flag_word split: if_splits dest: unser_witnesses_canon [OF k])

lemma read_forms:
  assumes k: "portions_ok k" and u: "UnserializeTransaction k v bs = Inr (tx, r)"
  shows "tx_ok tx \<and> (bs = plain_bytes tx @ r \<and> strip tx = tx \<and> (fAllowWitness v \<longrightarrow> vin tx \<noteq> [] \<or> vout tx = []) \<or>
      fAllowWitness v \<and> bs = extended_bytes tx @ r)"
proof -
  from u obtain ver vin0 flags vs os "is" lt b1 b2 b3 where
    r1: "bs = ser_writedata32 ver @ Serialize_vec Serialize_CTxIn vin0 @ b1"
    and ok0: "list_all (\<lambda>i. txin_ok i \<and> scriptWitness i = []) vin0 \<and> length vin0 \<le> MAX_SIZE"
    and io: "unser_in_out k v vin0 b1 = Inr ((flags, vs, os), b2)" and ex: "unser_extra k v flags vs b2 = Inr (is, b3)"
    and r3: "b3 = ser_writedata32 lt @ r" "tx = \<lparr>tx_nVersion = ver, vin = is, vout = os, tx_nLockTime = lt\<rparr>"
    by (auto simp: UnserializeTransaction_def rd_bind_Inr_iff rd_return_def u32.accepts_iff
        canonical_codec.accepts_iff [OF vins_codec(1) [OF k]])
  note io' = unser_in_out_canon [OF k io] and ex' = unser_extra_canon [OF k ex]
  have no_stack: "list_all (\<lambda>i. stack_ok (scriptWitness i)) vin0" using ok0 by (auto simp: list_all_iff stack_ok_def)
  have id0: "map strip_in vin0 = vin0" using ok0 by (auto simp: list_all_iff intro!: map_idI strip_id)
  have oso: "list_all (\<lambda>out. length (scriptPubKey out) \<le> MAX_SIZE) os \<and> length os \<le> MAX_SIZE" using io' by blast
  consider "flags = 0" "is = vs" "b2 = b3" |
    "fAllowWitness v" "flags = 1" "map strip_in is = map strip_in vs" "list_all (\<lambda>i. stack_ok (scriptWitness i)) is" "b2 = witness_bytes is @ b3"
    using ex' by blast
  then show ?thesis
  proof cases
    case 1
    have "tx_ok tx" using 1 io' oso tx_ok_intro [OF ok0 oso refl no_stack, of ver lt] r3(2) by (auto simp: tx_ok_def split: if_splits)
    moreover have "strip tx = tx" using 1 io' id0 r3(2) by (auto simp: strip_def split: if_splits)
    ultimately show ?thesis using 1 io' r1 r3 by (auto simp: plain_bytes_def Serialize_vec_Nil split: if_splits)
  next
    case 2
    then have e: "vin0 = []" "list_all (\<lambda>i. txin_ok i \<and> scriptWitness i = []) vs \<and> length vs \<le> MAX_SIZE"
      "b1 = 1 # Serialize_vec Serialize_CTxIn vs @ Serialize_vec Serialize_CTxOut os @ b2" using io' by (auto split: if_splits)
    have "tx_ok tx" using tx_ok_intro [OF e(2) oso 2(3,4)] r3(2) by simp
    moreover have "Serialize_vec Serialize_CTxIn vs = Serialize_vec Serialize_CTxIn is"
      using Serialize_strip(2) [of vs] Serialize_strip(2) [of "is"] 2(3) by simp
    ultimately show ?thesis using 2 e r1 r3 by (simp add: extended_bytes_def Serialize_vec_Nil)
  qed
qed

lemma plain_inj:
  assumes "tx_ok tx" "tx_ok tx'" "plain_bytes tx = plain_bytes tx'"
  shows "strip tx = strip tx'"
proof -
  define k where "k = \<lparr>por_in = 1, por_out = 1, por_stack = 1\<rparr>"
  have "portions_ok k" by (simp add: portions_ok_def k_def)
  then have "Inr (strip tx, []) = UnserializeTransaction k SERIALIZE_TRANSACTION_NO_WITNESS (plain_bytes tx @ [])"
    "UnserializeTransaction k SERIALIZE_TRANSACTION_NO_WITNESS (plain_bytes tx' @ []) = Inr (strip tx', [])"
    using plain_round assms(1,2) fAllowWitness_versions(2) by metis+
  with assms(3) show ?thesis by simp
qed

lemma Serialize_full_inj:
  assumes "tx_ok tx" "tx_ok tx'" "vin tx \<noteq> []" "vin tx' \<noteq> []" "SerializeTransaction 0 tx = SerializeTransaction 0 tx'"
  shows "tx = tx'"
proof -
  define k where "k = \<lparr>por_in = 1, por_out = 1, por_stack = 1\<rparr>"
  have k: "portions_ok k" by (simp add: portions_ok_def k_def)
  have "UnserializeTransaction k 0 (SerializeTransaction 0 t @ []) = Inr (t, [])" if "tx_ok t" "vin t \<noteq> []" for t
    unfolding SerializeTransaction_forms
    using that plain_round [OF k that(1), of 0 "[]"] extended_round [OF k that(1) fAllowWitness_versions(1), of "[]"] HasWitness_strip [of t]
    by (auto simp: fAllowWitness_versions)
  from this [OF assms(1,3)] this [OF assms(2,4)] assms(5) show ?thesis by simp
qed

subsection \<open>Output sums\<close>

abbreviation amounts :: "CTxOut list \<Rightarrow> int list" where
  "amounts outs \<equiv> map (\<lambda>out. sint (nValue out)) outs"

lemma MAX_MONEY_fits: "0 < MAX_MONEY" "2 * MAX_MONEY < 2 ^ 63"
  by (simp_all add: MAX_MONEY_def COIN_def CENT_def)

lemma GetValueOut_loop_sum:
  "MoneyRange a \<Longrightarrow> GetValueOut_loop outs a = Inr s \<longleftrightarrow>
     list_all MoneyRange (amounts outs) \<and> s = a + sum_list (amounts outs) \<and> s \<le> MAX_MONEY"
proof (induction outs arbitrary: a)
  case (Cons out outs)
  let ?v = "sint (nValue out)"
  have nn: "0 \<le> sum_list (amounts outs)" if "list_all MoneyRange (amounts outs)"
    using that by (intro sum_list_nonneg) (auto simp: list_all_iff MoneyRange_def)
  show ?case
  proof (cases "MoneyRange ?v \<and> MoneyRange (a + ?v)")
    case True
    then have "int64_range (a + ?v)" using MAX_MONEY_fits by (simp add: MoneyRange_def int64_range_def)
    with True Cons.IH [of "a + ?v"] show ?thesis by (auto simp: add.assoc)
  next
    case False
    then have "GetValueOut_loop (out # outs) a \<noteq> Inr s" by (auto simp: Let_def)
    moreover have "\<not> (MoneyRange ?v \<and> list_all MoneyRange (amounts outs) \<and> a + (?v + sum_list (amounts outs)) \<le> MAX_MONEY)"
      using False nn Cons.prems by (auto simp: MoneyRange_def)
    ultimately show ?thesis by auto
  qed
qed (auto simp: MoneyRange_def)

lemma GetCoinBaseRealOut_loop_take:
  "i < 6 \<Longrightarrow> GetCoinBaseRealOut_loop outs a i = GetValueOut_loop (take (6 - i) outs) a"
proof (induction outs a i rule: GetCoinBaseRealOut_loop.induct)
  case (2 out outs a i)
  then obtain d where d: "6 - i = Suc d" "d = 6 - Suc i" by (cases "6 - i") auto
  show ?case
  proof (cases "Suc i = 6")
    case True
    then show ?thesis by (simp add: d Let_def)
  next
    case False
    then have "Suc i < 6" using 2 by simp
    then show ?thesis using "2.IH" [OF refl refl] False by (simp add: d Let_def)
  qed
qed simp

lemma codec_transaction:
  assumes "portions_ok k"
  shows "codec (\<lambda>tx. tx_ok tx \<and> (if fAllowWitness v then vin tx \<noteq> [] \<or> vout tx = [] else \<not> HasWitness tx))
    (SerializeTransaction v) (UnserializeTransaction k v)"
proof
  fix tx r
  assume a: "tx_ok tx \<and> (if fAllowWitness v then vin tx \<noteq> [] \<or> vout tx = [] else \<not> HasWitness tx)"
  then show "UnserializeTransaction k v (SerializeTransaction v tx @ r) = Inr (tx, r)"
    unfolding SerializeTransaction_forms
    using plain_round [OF assms conjunct1 [OF a], of v r] extended_round [OF assms conjunct1 [OF a], of v r] HasWitness_strip [of tx]
    by (auto split: if_splits)
qed

subsection \<open>Properties\<close>

text \<open>C15. A transaction is read back as it was written, whatever follows it in the stream: always with witnesses allowed
  and an input (or nothing at all), and without witnesses when it carries none. The extended format is chosen exactly
  when a witness must be kept, so the empty-vector marker is never mistaken for an empty list of inputs.\<close>
theorem transaction_roundtrip:
  assumes "portions_ok k" "tx_ok tx" "if fAllowWitness v then vin tx \<noteq> [] \<or> vout tx = [] else \<not> HasWitness tx"
  shows "UnserializeTransaction k v (SerializeTransaction v tx @ r) = Inr (tx, r)"
  by (rule codec.round [OF codec_transaction [OF assms(1)]]) (use assms in simp)

definition sample_tx :: CTransaction where
  "sample_tx = \<lparr>tx_nVersion = 2, vin = [\<lparr>prevout = \<lparr>op_hash = replicate 32 7, op_n = 1\<rparr>, scriptSig = [], nSequence = SEQUENCE_FINAL,
     scriptWitness = [[1, 2], [3]]\<rparr>], vout = [\<lparr>nValue = 5000, scriptPubKey = [OP_1]\<rparr>], tx_nLockTime = 0\<rparr>"

lemma sample_tx_ok: "tx_ok sample_tx" "vin sample_tx \<noteq> []" "HasWitness sample_tx"
  by (simp_all add: tx_ok_def txin_ok_def stack_ok_def sample_tx_def MAX_SIZE_def HasWitness_def)

theorem transaction_roundtrip_witness:
  "UnserializeTransaction \<lparr>por_in = 40000, por_out = 100000, por_stack = 200000\<rparr> 0 (SerializeTransaction 0 sample_tx @ [9]) = Inr (sample_tx, [9])"
  by (rule transaction_roundtrip) (simp_all add: portions_ok_def sample_tx_ok fAllowWitness_versions)

text \<open>C16. Whatever bytes the reader accepts, the transaction is well formed (32-byte hashes, sizes within the limit) and the
  consumed bytes are one of its two encodings: the basic one, then without witnesses, or the extended one, which is only
  read when witnesses are allowed.\<close>
theorem transaction_read_wellformed:
  assumes "portions_ok k" "UnserializeTransaction k v bs = Inr (tx, r)"
  shows "tx_ok tx \<and> (bs = plain_bytes tx @ r \<and> \<not> HasWitness tx \<or> fAllowWitness v \<and> bs = extended_bytes tx @ r)"
  using read_forms [OF assms] HasWitness_strip [of tx] by blast

theorem transaction_read_wellformed_witness:
  "UnserializeTransaction \<lparr>por_in = 1, por_out = 1, por_stack = 1\<rparr> 0 (extended_bytes sample_tx @ [9]) = Inr (sample_tx, [9]) \<and>
   tx_ok sample_tx \<and> HasWitness sample_tx \<and> fAllowWitness 0"
proof -
  have k: "portions_ok \<lparr>por_in = 1, por_out = 1, por_stack = 1\<rparr>" by (simp add: portions_ok_def)
  note r = extended_round [OF k sample_tx_ok(1) fAllowWitness_versions(1), of "[9]"]
  have "HasWitness sample_tx" by (simp add: HasWitness_def sample_tx_def)
  then show ?thesis using r transaction_read_wellformed [OF k r] by blast
qed

text \<open>C17. What transaction hashes commit to. The transaction id is the SHA3-256 hash of an encoding that determines the
  transaction up to its witnesses and does not depend on them; the witness hash is the SHA3-256 hash of the full encoding,
  which determines the whole transaction, and it equals the id when there is no witness.\<close>
theorem transaction_hash_commits:
  assumes "tx_ok tx" "tx_ok tx'" "vin tx \<noteq> []" "vin tx' \<noteq> []"
  shows "tx_GetHash tx = Some (fips_sha3_256 (plain_bytes tx)) \<and> tx_GetHash (strip tx) = tx_GetHash tx \<and>
    (plain_bytes tx = plain_bytes tx' \<longleftrightarrow> strip tx = strip tx') \<and>
    tx_GetWitnessHash tx = Some (fips_sha3_256 (SerializeTransaction 0 tx)) \<and>
    (SerializeTransaction 0 tx = SerializeTransaction 0 tx' \<longleftrightarrow> tx = tx') \<and>
    (\<not> HasWitness tx \<longrightarrow> tx_GetWitnessHash tx = tx_GetHash tx)"
proof -
  have h: "tx_GetHash t = Some (fips_sha3_256 (plain_bytes t))" for t
    by (simp add: tx_GetHash_def SerializeHash_sha3 SerializeTransaction_forms fAllowWitness_versions)
  have "plain_bytes tx = plain_bytes tx' \<longleftrightarrow> strip tx = strip tx'"
    using plain_inj [OF assms(1,2)] plain_strip by metis
  moreover have "SerializeTransaction 0 tx = SerializeTransaction 0 tx' \<longleftrightarrow> tx = tx'"
    using Serialize_full_inj [OF assms] by blast
  moreover have "tx_GetWitnessHash tx = Some (fips_sha3_256 (SerializeTransaction 0 tx))"
    by (simp add: tx_GetWitnessHash_def h SerializeHash_sha3) (simp add: SerializeTransaction_forms)
  ultimately show ?thesis by (simp add: h plain_strip tx_GetWitnessHash_def)
qed

theorem transaction_hash_commits_witness:
  "tx_GetHash (strip sample_tx) = tx_GetHash sample_tx \<and> SerializeTransaction 0 (strip sample_tx) \<noteq> SerializeTransaction 0 sample_tx"
proof -
  have "tx_ok (strip sample_tx)" "vin (strip sample_tx) \<noteq> []" "strip sample_tx \<noteq> sample_tx"
    by (simp_all add: tx_ok_def txin_ok_def stack_ok_def sample_tx_def MAX_SIZE_def strip_def strip_in_def)
  then show ?thesis
    using transaction_hash_commits [OF sample_tx_ok(1) _ sample_tx_ok(2), of "strip sample_tx"] by metis
qed

text \<open>The sum of outputs: \<^verbatim>\<open>GetValueOut\<close> returns the exact sum precisely when every output and the sum are within the
  money range, and an error otherwise; \<^verbatim>\<open>GetCoinBaseRealOut\<close> does the same for the first six outputs.\<close>
theorem GetValueOut_sum:
  "(GetValueOut tx = Inr s \<longleftrightarrow> list_all MoneyRange (amounts (vout tx)) \<and> s = sum_list (amounts (vout tx)) \<and> s \<le> MAX_MONEY) \<and>
   (GetCoinBaseRealOut tx = Inr s \<longleftrightarrow>
      list_all MoneyRange (amounts (take 6 (vout tx))) \<and> s = sum_list (amounts (take 6 (vout tx))) \<and> s \<le> MAX_MONEY)"
  using GetValueOut_loop_sum [of 0 _ s] MAX_MONEY_fits(1)
  by (simp add: GetValueOut_def GetCoinBaseRealOut_def GetCoinBaseRealOut_loop_take MoneyRange_def)

end
