(* ===== verification/Coins.thy ===== *)
theory Coins
  imports Transaction
begin

text \<open>
  The set of unspent outputs: coins and the cache over a backing view (\<^verbatim>\<open>src/src/coins.h\<close>, \<^verbatim>\<open>coins.cpp\<close>), and the view
  backed by the database (\<^verbatim>\<open>src/src/txdb.cpp\<close>). A backing view is a record of its virtual functions; what a cache relies
  on is the locale \<open>coins_view\<close>, which the database satisfies and every cache over a view that satisfies it. A cache is
  proved to behave like a plain map of unspent coins, whatever its flags and contents are.

  The memory accounting of the cache depends on the allocation history of the scripts and is left out; so are cursors.
\<close>

subsection \<open>Coins\<close>

(* src/src/coins.h:30-44 Coin *)
record Coin =
  coin_out :: CTxOut
  fCoinBase :: bool
  fCoinStake :: bool
  coin_nHeight :: "30 word"

(* src/src/coins.h:54-54 Coin::Coin *)
definition Coin_null :: Coin where
  "Coin_null = \<lparr>coin_out = CTxOut_null, fCoinBase = False, fCoinStake = False, coin_nHeight = 0\<rparr>"

(* src/src/coins.h:44-44 Coin::Coin *)
definition Coin_of :: "CTxOut \<Rightarrow> int \<Rightarrow> bool \<Rightarrow> bool \<Rightarrow> Coin" where
  "Coin_of out nHeightIn fCoinBaseIn fCoinStakeIn =
     \<lparr>coin_out = out, fCoinBase = fCoinBaseIn, fCoinStake = fCoinStakeIn, coin_nHeight = of_int nHeightIn\<rparr>"

(* src/src/coins.h:46-51 Coin::Clear *)
definition Coin_Clear :: "Coin \<Rightarrow> Coin" where
  "Coin_Clear c = c\<lparr>coin_out := CTxOut_null, fCoinBase := False, fCoinStake := False, coin_nHeight := 0\<rparr>"

(* src/src/primitives/transaction.h:25-25 COutPoint::COutPoint *)
definition COutPoint_of :: "bytes \<Rightarrow> u32 \<Rightarrow> COutPoint" where
  "COutPoint_of hashIn nIn = \<lparr>op_hash = hashIn, op_n = nIn\<rparr>"

(* src/src/coins.h:81-83 Coin::IsSpent *)
definition Coin_IsSpent :: "Coin \<Rightarrow> bool" where
  "Coin_IsSpent c \<longleftrightarrow> CTxOut_IsNull (coin_out c)"

(* src/src/coins.h:109-126 CCoinsCacheEntry *)
record CCoinsCacheEntry =
  ce_coin :: Coin
  ce_flags :: u8

(* src/src/coins.h:115-115 CCoinsCacheEntry::DIRTY *)
definition DIRTY :: u8 where
  "DIRTY = push_bit 0 1"

(* src/src/coins.h:116-116 CCoinsCacheEntry::FRESH *)
definition FRESH :: u8 where
  "FRESH = push_bit 1 1"

definition dirty :: "CCoinsCacheEntry \<Rightarrow> bool" where
  "dirty e \<longleftrightarrow> ce_flags e AND DIRTY \<noteq> 0"

definition fresh :: "CCoinsCacheEntry \<Rightarrow> bool" where
  "fresh e \<longleftrightarrow> ce_flags e AND FRESH \<noteq> 0"

definition spent :: "CCoinsCacheEntry \<Rightarrow> bool" where
  "spent e \<longleftrightarrow> Coin_IsSpent (ce_coin e)"

subsection \<open>Views\<close>

datatype coins_error = CoinsAssert | CoinsLogicError | CoinsNoHash

text \<open>The entries of a cache in the order in which a traversal of the hash table meets them.\<close>

type_synonym coins_entries = "(COutPoint \<times> CCoinsCacheEntry) list"

(* src/src/coins.h:151-184 CCoinsView *)
record 'b CCoinsView =
  vw_GetCoin :: "'b \<Rightarrow> COutPoint \<Rightarrow> 'b \<times> bool \<times> Coin"
  vw_HaveCoin :: "'b \<Rightarrow> COutPoint \<Rightarrow> 'b \<times> bool"
  vw_GetBestBlock :: "'b \<Rightarrow> 'b \<times> bytes"
  vw_BatchWrite :: "'b \<Rightarrow> coins_entries \<Rightarrow> bytes \<Rightarrow> coins_error + 'b \<times> bool"

(* src/src/coins.h:207-215 CCoinsViewCache *)
record 'b CCoinsViewCache =
  cv_base :: 'b
  cv_hashBlock :: bytes
  cacheCoins :: "COutPoint \<rightharpoonup> CCoinsCacheEntry"

(* src/src/coins.cpp:38-38 CCoinsViewCache::CCoinsViewCache *)
definition CCoinsViewCache_of :: "'b \<Rightarrow> 'b CCoinsViewCache" where
  "CCoinsViewCache_of baseIn = \<lparr>cv_base = baseIn, cv_hashBlock = replicate 32 0, cacheCoins = Map.empty\<rparr>"

(* src/src/uint256.h:38-44 base_blob::IsNull *)
definition hash_IsNull :: "bytes \<Rightarrow> bool" where
  "hash_IsNull h \<longleftrightarrow> list_all (\<lambda>b. b = 0) h"

(* src/src/coins.cpp:44-59 CCoinsViewCache::FetchCoin *)
definition FetchCoin :: "'b CCoinsView \<Rightarrow> 'b CCoinsViewCache \<Rightarrow> COutPoint \<Rightarrow> 'b CCoinsViewCache \<times> CCoinsCacheEntry option" where
  "FetchCoin vw c outpoint =
     (case cacheCoins c outpoint of Some e \<Rightarrow> (c, Some e)
      | None \<Rightarrow>
          (case vw_GetCoin vw (cv_base c) outpoint of (b, ok, tmp) \<Rightarrow>
             if \<not> ok then (c\<lparr>cv_base := b\<rparr>, None)
             else let e = \<lparr>ce_coin = tmp, ce_flags = (if Coin_IsSpent tmp then FRESH else 0)\<rparr>
                  in (c\<lparr>cv_base := b, cacheCoins := (cacheCoins c)(outpoint \<mapsto> e)\<rparr>, Some e)))"

(* src/src/coins.cpp:61-68 CCoinsViewCache::GetCoin *)
definition GetCoin :: "'b CCoinsView \<Rightarrow> 'b CCoinsViewCache \<Rightarrow> COutPoint \<Rightarrow> 'b CCoinsViewCache \<times> bool \<times> Coin" where
  "GetCoin vw c outpoint =
     (case FetchCoin vw c outpoint of (c', it) \<Rightarrow>
        (case it of Some e \<Rightarrow> (c', \<not> spent e, ce_coin e) | None \<Rightarrow> (c', False, Coin_null)))"

(* src/src/coins.cpp:70-89 CCoinsViewCache::AddCoin *)
definition AddCoin :: "'b CCoinsViewCache \<Rightarrow> COutPoint \<Rightarrow> Coin \<Rightarrow> bool \<Rightarrow> coins_error + 'b CCoinsViewCache" where
  "AddCoin c outpoint coin possible_overwrite =
     (if Coin_IsSpent coin then Inl CoinsAssert
      else if IsUnspendable (scriptPubKey (coin_out coin)) then Inr c
      else
        let it = (case cacheCoins c outpoint of Some e \<Rightarrow> e | None \<Rightarrow> \<lparr>ce_coin = Coin_null, ce_flags = 0\<rparr>)
        in if \<not> possible_overwrite \<and> \<not> spent it then Inl CoinsLogicError
           else
             let isfresh = (\<not> possible_overwrite \<and> \<not> dirty it);
                 e = \<lparr>ce_coin = coin, ce_flags = ce_flags it OR DIRTY OR (if isfresh then FRESH else 0)\<rparr>
             in Inr (c\<lparr>cacheCoins := (cacheCoins c)(outpoint \<mapsto> e)\<rparr>))"

(* src/src/coins.cpp:130-133 CCoinsViewCache::HaveCoin *)
definition HaveCoin :: "'b CCoinsView \<Rightarrow> 'b CCoinsViewCache \<Rightarrow> COutPoint \<Rightarrow> 'b CCoinsViewCache \<times> bool" where
  "HaveCoin vw c outpoint =
     (case FetchCoin vw c outpoint of (c', it) \<Rightarrow> (c', case it of Some e \<Rightarrow> \<not> spent e | None \<Rightarrow> False))"

(* src/src/coins.cpp:95-100 AddCoins *)
fun AddCoins_loop :: "'b CCoinsView \<Rightarrow> bytes \<Rightarrow> int \<Rightarrow> bool \<Rightarrow> bool \<Rightarrow> bool \<Rightarrow> nat \<Rightarrow> CTxOut list \<Rightarrow> 'b CCoinsViewCache \<Rightarrow>
    coins_error + 'b CCoinsViewCache" where
  "AddCoins_loop vw txid nHeight check fCoinbase fCoinstake i [] c = Inr c"
| "AddCoins_loop vw txid nHeight check fCoinbase fCoinstake i (out # outs) c =
     (let outpoint = COutPoint_of txid (of_nat i);
          (c', overwrite) = (if check then HaveCoin vw c outpoint else (c, fCoinbase))
      in case AddCoin c' outpoint (Coin_of out nHeight fCoinbase fCoinstake) overwrite of Inl e \<Rightarrow> Inl e
         | Inr c'' \<Rightarrow> AddCoins_loop vw txid nHeight check fCoinbase fCoinstake (Suc i) outs c'')"

(* src/src/coins.cpp:91-101 AddCoins *)
definition AddCoins :: "'b CCoinsView \<Rightarrow> 'b CCoinsViewCache \<Rightarrow> CTransaction \<Rightarrow> int \<Rightarrow> bool \<Rightarrow> coins_error + 'b CCoinsViewCache" where
  "AddCoins vw c tx nHeight check =
     (case tx_GetHash tx of None \<Rightarrow> Inl CoinsNoHash
      | Some txid \<Rightarrow> AddCoins_loop vw txid nHeight check (IsCoinBase tx) (IsCoinStake tx) 0 (vout tx) c)"

text \<open>The value returned and the coin moved out, if there is an entry.\<close>

(* src/src/coins.cpp:103-117 CCoinsViewCache::SpendCoin *)
definition SpendCoin :: "'b CCoinsView \<Rightarrow> 'b CCoinsViewCache \<Rightarrow> COutPoint \<Rightarrow> 'b CCoinsViewCache \<times> Coin option" where
  "SpendCoin vw c outpoint =
     (case FetchCoin vw c outpoint of (c', None) \<Rightarrow> (c', None)
      | (c', Some e) \<Rightarrow>
          (c'\<lparr>cacheCoins :=
             (if fresh e then (cacheCoins c')(outpoint := None)
              else (cacheCoins c')(outpoint \<mapsto> e\<lparr>ce_flags := ce_flags e OR DIRTY, ce_coin := Coin_Clear (ce_coin e)\<rparr>))\<rparr>,
           Some (ce_coin e)))"

(* src/src/coins.cpp:119-128 CCoinsViewCache::AccessCoin *)
definition AccessCoin :: "'b CCoinsView \<Rightarrow> 'b CCoinsViewCache \<Rightarrow> COutPoint \<Rightarrow> 'b CCoinsViewCache \<times> Coin" where
  "AccessCoin vw c outpoint =
     (case FetchCoin vw c outpoint of (c', it) \<Rightarrow> (c', case it of None \<Rightarrow> Coin_null | Some e \<Rightarrow> ce_coin e))"

(* src/src/coins.cpp:135-138 CCoinsViewCache::HaveCoinInCache *)
definition HaveCoinInCache :: "'b CCoinsViewCache \<Rightarrow> COutPoint \<Rightarrow> bool" where
  "HaveCoinInCache c outpoint \<longleftrightarrow> (case cacheCoins c outpoint of None \<Rightarrow> False | Some e \<Rightarrow> \<not> spent e)"

(* src/src/coins.cpp:140-144 CCoinsViewCache::GetBestBlock *)
definition GetBestBlock :: "'b CCoinsView \<Rightarrow> 'b CCoinsViewCache \<Rightarrow> 'b CCoinsViewCache \<times> bytes" where
  "GetBestBlock vw c =
     (if hash_IsNull (cv_hashBlock c)
      then case vw_GetBestBlock vw (cv_base c) of (b, h) \<Rightarrow> (c\<lparr>cv_base := b, cv_hashBlock := h\<rparr>, h)
      else (c, cv_hashBlock c))"

(* src/src/coins.cpp:146-148 CCoinsViewCache::SetBestBlock *)
definition SetBestBlock :: "'b CCoinsViewCache \<Rightarrow> bytes \<Rightarrow> 'b CCoinsViewCache" where
  "SetBestBlock c hashBlockIn = c\<lparr>cv_hashBlock := hashBlockIn\<rparr>"

(* src/src/coins.cpp:152-198 CCoinsViewCache::BatchWrite *)
definition write_entry :: "COutPoint \<times> CCoinsCacheEntry \<Rightarrow> (COutPoint \<rightharpoonup> CCoinsCacheEntry) \<Rightarrow> coins_error + (COutPoint \<rightharpoonup> CCoinsCacheEntry)" where
  "write_entry it m =
     (case it of (outpoint, e) \<Rightarrow>
        if \<not> dirty e then Inr m
        else case m outpoint of
          None \<Rightarrow>
            if fresh e \<and> spent e then Inr m
            else Inr (m(outpoint \<mapsto> \<lparr>ce_coin = ce_coin e, ce_flags = DIRTY OR (if fresh e then FRESH else 0)\<rparr>))
        | Some us \<Rightarrow>
            if fresh e \<and> \<not> spent us then Inl CoinsLogicError
            else if fresh us \<and> spent e then Inr (m(outpoint := None))
            else Inr (m(outpoint \<mapsto> us\<lparr>ce_coin := ce_coin e, ce_flags := ce_flags us OR DIRTY\<rparr>)))"

(* src/src/coins.cpp:151-201 CCoinsViewCache::BatchWrite *)
fun write_entries :: "coins_entries \<Rightarrow> (COutPoint \<rightharpoonup> CCoinsCacheEntry) \<Rightarrow> coins_error + (COutPoint \<rightharpoonup> CCoinsCacheEntry)" where
  "write_entries [] m = Inr m"
| "write_entries (it # its) m = (case write_entry it m of Inl e \<Rightarrow> Inl e | Inr m' \<Rightarrow> write_entries its m')"

(* src/src/coins.cpp:150-204 CCoinsViewCache::BatchWrite *)
definition BatchWrite :: "'b CCoinsViewCache \<Rightarrow> coins_entries \<Rightarrow> bytes \<Rightarrow> coins_error + 'b CCoinsViewCache \<times> bool" where
  "BatchWrite c mapCoins hashBlockIn =
     map_sum id (\<lambda>m. (c\<lparr>cacheCoins := m, cv_hashBlock := hashBlockIn\<rparr>, True)) (write_entries mapCoins (cacheCoins c))"

text \<open>The hash table is traversed in an order the standard library leaves open: \<open>ord\<close> lists outpoints in such an order.\<close>

definition traverse :: "COutPoint list \<Rightarrow> (COutPoint \<rightharpoonup> CCoinsCacheEntry) \<Rightarrow> coins_entries" where
  "traverse ord m = List.map_filter (\<lambda>p. map_option (Pair p) (m p)) ord"

(* src/src/coins.cpp:206-211 CCoinsViewCache::Flush *)
definition Flush :: "'b CCoinsView \<Rightarrow> COutPoint list \<Rightarrow> 'b CCoinsViewCache \<Rightarrow> coins_error + 'b CCoinsViewCache \<times> bool" where
  "Flush vw ord c =
     map_sum id (\<lambda>(b, fOk). (c\<lparr>cv_base := b, cacheCoins := Map.empty\<rparr>, fOk))
       (vw_BatchWrite vw (cv_base c) (traverse ord (cacheCoins c)) (cv_hashBlock c))"

(* src/src/coins.cpp:213-220 CCoinsViewCache::Uncache *)
definition Uncache :: "'b CCoinsViewCache \<Rightarrow> COutPoint \<Rightarrow> 'b CCoinsViewCache" where
  "Uncache c hash =
     (case cacheCoins c hash of None \<Rightarrow> c
      | Some e \<Rightarrow> if ce_flags e = 0 then c\<lparr>cacheCoins := (cacheCoins c)(hash := None)\<rparr> else c)"

(* src/src/coins.cpp:231-235 CCoinsViewCache::GetValueIn *)
fun GetValueIn_loop :: "'b CCoinsView \<Rightarrow> CTxIn list \<Rightarrow> int \<Rightarrow> 'b CCoinsViewCache \<Rightarrow> amount_error + 'b CCoinsViewCache \<times> int" where
  "GetValueIn_loop vw [] nResult c = Inr (c, nResult)"
| "GetValueIn_loop vw (i # is) nResult c =
     (let (c', coin) = AccessCoin vw c (prevout i); s = nResult + sint (nValue (coin_out coin))
      in if \<not> int64_range s then Inl SignedOverflow else GetValueIn_loop vw is s c')"

(* src/src/coins.cpp:226-236 CCoinsViewCache::GetValueIn *)
definition GetValueIn :: "'b CCoinsView \<Rightarrow> 'b CCoinsViewCache \<Rightarrow> CTransaction \<Rightarrow> amount_error + 'b CCoinsViewCache \<times> int" where
  "GetValueIn vw c tx = (if IsCoinBase tx then Inr (c, 0) else GetValueIn_loop vw (vin tx) 0 c)"

(* src/src/coins.cpp:241-245 CCoinsViewCache::HaveInputs *)
fun HaveInputs_loop :: "'b CCoinsView \<Rightarrow> CTxIn list \<Rightarrow> 'b CCoinsViewCache \<Rightarrow> 'b CCoinsViewCache \<times> bool" where
  "HaveInputs_loop vw [] c = (c, True)"
| "HaveInputs_loop vw (i # is) c =
     (case HaveCoin vw c (prevout i) of (c', ok) \<Rightarrow> if ok then HaveInputs_loop vw is c' else (c', False))"

(* src/src/coins.cpp:238-248 CCoinsViewCache::HaveInputs *)
definition HaveInputs :: "'b CCoinsView \<Rightarrow> 'b CCoinsViewCache \<Rightarrow> CTransaction \<Rightarrow> 'b CCoinsViewCache \<times> bool" where
  "HaveInputs vw c tx = (if IsCoinBase tx then (c, True) else HaveInputs_loop vw (vin tx) c)"

(* src/src/coins.cpp:250-251 MAX_OUTPUTS_PER_BLOCK *)
definition MAX_OUTPUTS_PER_BLOCK :: nat where
  "MAX_OUTPUTS_PER_BLOCK = 8000000 div (4 * length (Serialize_CTxOut CTxOut_null))"

(* src/src/coins.cpp:256-264 AccessByTxid *)
fun AccessByTxid_loop :: "'b CCoinsView \<Rightarrow> bytes \<Rightarrow> nat \<Rightarrow> nat \<Rightarrow> 'b CCoinsViewCache \<Rightarrow> 'b CCoinsViewCache \<times> Coin" where
  "AccessByTxid_loop vw txid n 0 c = (c, Coin_null)"
| "AccessByTxid_loop vw txid n (Suc left) c =
     (case AccessCoin vw c (COutPoint_of txid (of_nat n)) of (c', alternate) \<Rightarrow>
        if \<not> Coin_IsSpent alternate then (c', alternate) else AccessByTxid_loop vw txid (Suc n) left c')"

(* src/src/coins.cpp:253-266 AccessByTxid *)
definition AccessByTxid :: "'b CCoinsView \<Rightarrow> 'b CCoinsViewCache \<Rightarrow> bytes \<Rightarrow> 'b CCoinsViewCache \<times> Coin" where
  "AccessByTxid vw view txid = AccessByTxid_loop vw txid 0 MAX_OUTPUTS_PER_BLOCK view"

text \<open>The loop returns in its first round.\<close>

(* src/src/coins.cpp:267-279 AccessByticketTxid *)
definition AccessByticketTxid :: "'b CCoinsView \<Rightarrow> 'b CCoinsViewCache \<Rightarrow> bytes \<Rightarrow> 'b CCoinsViewCache \<times> Coin" where
  "AccessByticketTxid vw view txid =
     (if 0 < MAX_OUTPUTS_PER_BLOCK then AccessCoin vw view (COutPoint_of txid 0) else (view, Coin_null))"

text \<open>A cache is itself a view.\<close>

definition cache_view :: "'b CCoinsView \<Rightarrow> 'b CCoinsViewCache CCoinsView" where
  "cache_view vw = \<lparr>vw_GetCoin = GetCoin vw, vw_HaveCoin = HaveCoin vw, vw_GetBestBlock = GetBestBlock vw, vw_BatchWrite = BatchWrite\<rparr>"

subsection \<open>The database view\<close>

text \<open>The database at the level of decoded keys and values: coins by outpoint, the best block and the head blocks. A batch is
  a list of writes and deletions, applied in order and atomically.\<close>

datatype db_op = Erase_coin COutPoint | Write_coin COutPoint Coin | Erase_best | Write_best bytes | Erase_heads | Write_heads "bytes list"

(* src/src/txdb.h:71-88 CCoinsViewDB *)
record CCoinsViewDB =
  db_coins :: "COutPoint \<rightharpoonup> Coin"
  db_best :: "bytes option"
  db_heads :: "bytes list option"

fun apply_op :: "db_op \<Rightarrow> CCoinsViewDB \<Rightarrow> CCoinsViewDB" where
  "apply_op (Erase_coin p) db = db\<lparr>db_coins := (db_coins db)(p := None)\<rparr>"
| "apply_op (Write_coin p c) db = db\<lparr>db_coins := (db_coins db)(p \<mapsto> c)\<rparr>"
| "apply_op Erase_best db = db\<lparr>db_best := None\<rparr>"
| "apply_op (Write_best h) db = db\<lparr>db_best := Some h\<rparr>"
| "apply_op Erase_heads db = db\<lparr>db_heads := None\<rparr>"
| "apply_op (Write_heads hs) db = db\<lparr>db_heads := Some hs\<rparr>"

(* src/src/dbwrapper.cpp:158-163 CDBWrapper::WriteBatch *)
definition WriteBatch :: "db_op list \<Rightarrow> CCoinsViewDB \<Rightarrow> CCoinsViewDB" where
  "WriteBatch batch db = fold apply_op batch db"

(* src/src/txdb.cpp:66-68 CCoinsViewDB::GetCoin *)
definition db_GetCoin :: "CCoinsViewDB \<Rightarrow> COutPoint \<Rightarrow> CCoinsViewDB \<times> bool \<times> Coin" where
  "db_GetCoin db outpoint = (db, case db_coins db outpoint of None \<Rightarrow> (False, Coin_null) | Some c \<Rightarrow> (True, c))"

(* src/src/txdb.cpp:70-72 CCoinsViewDB::HaveCoin *)
definition db_HaveCoin :: "CCoinsViewDB \<Rightarrow> COutPoint \<Rightarrow> CCoinsViewDB \<times> bool" where
  "db_HaveCoin db outpoint = (db, db_coins db outpoint \<noteq> None)"

(* src/src/txdb.cpp:74-79 CCoinsViewDB::GetBestBlock *)
definition db_GetBestBlock :: "CCoinsViewDB \<Rightarrow> bytes" where
  "db_GetBestBlock db = (case db_best db of None \<Rightarrow> replicate 32 0 | Some h \<Rightarrow> h)"

(* src/src/txdb.cpp:81-87 CCoinsViewDB::GetHeadBlocks *)
definition db_GetHeadBlocks :: "CCoinsViewDB \<Rightarrow> bytes list" where
  "db_GetHeadBlocks db = (case db_heads db of None \<Rightarrow> [] | Some hs \<Rightarrow> hs)"

text \<open>The loop returns the states of the database after each partial batch, and the batch still to be written. How large a batch
  is estimated to be is a parameter.\<close>

(* src/src/txdb.cpp:114-138 CCoinsViewDB::BatchWrite *)
fun batch_loop :: "(db_op list \<Rightarrow> nat) \<Rightarrow> nat \<Rightarrow> coins_entries \<Rightarrow> db_op list \<Rightarrow> CCoinsViewDB \<Rightarrow> CCoinsViewDB list \<times> CCoinsViewDB \<times> db_op list" where
  "batch_loop SizeEstimate batch_size [] batch db = ([], db, batch)"
| "batch_loop SizeEstimate batch_size ((p, e) # its) batch db =
     (let batch' = batch @ (if dirty e then [if spent e then Erase_coin p else Write_coin p (ce_coin e)] else [])
      in if SizeEstimate batch' > batch_size
         then let db' = WriteBatch batch' db; (dbs, r) = batch_loop SizeEstimate batch_size its [] db' in (db' # dbs, r)
         else batch_loop SizeEstimate batch_size its batch' db)"

text \<open>All the states the database goes through, the last one being the result.\<close>

(* src/src/txdb.cpp:89-148 CCoinsViewDB::BatchWrite *)
definition db_states :: "(db_op list \<Rightarrow> nat) \<Rightarrow> nat \<Rightarrow> CCoinsViewDB \<Rightarrow> coins_entries \<Rightarrow> bytes \<Rightarrow> coins_error + CCoinsViewDB list" where
  "db_states SizeEstimate batch_size db mapCoins hashBlock =
     (if hash_IsNull hashBlock then Inl CoinsAssert
      else
        let tip = db_GetBestBlock db; heads = db_GetHeadBlocks db; replay = (hash_IsNull tip \<and> length heads = 2)
        in if replay \<and> heads ! 0 \<noteq> hashBlock then Inl CoinsAssert
           else
             let old_tip = (if replay then heads ! 1 else tip);
                 (dbs, db', batch) = batch_loop SizeEstimate batch_size mapCoins [Erase_best, Write_heads [hashBlock, old_tip]] db
             in Inr (dbs @ [WriteBatch (batch @ [Erase_heads, Write_best hashBlock]) db']))"

(* src/src/txdb.cpp:89-148 CCoinsViewDB::BatchWrite *)
definition db_BatchWrite :: "(db_op list \<Rightarrow> nat) \<Rightarrow> nat \<Rightarrow> CCoinsViewDB \<Rightarrow> coins_entries \<Rightarrow> bytes \<Rightarrow> coins_error + CCoinsViewDB \<times> bool" where
  "db_BatchWrite SizeEstimate batch_size db mapCoins hashBlock =
     map_sum id (\<lambda>dbs. (last dbs, True)) (db_states SizeEstimate batch_size db mapCoins hashBlock)"

definition db_view :: "(db_op list \<Rightarrow> nat) \<Rightarrow> nat \<Rightarrow> CCoinsViewDB CCoinsView" where
  "db_view SizeEstimate batch_size =
     \<lparr>vw_GetCoin = db_GetCoin, vw_HaveCoin = db_HaveCoin, vw_GetBestBlock = \<lambda>db. (db, db_GetBestBlock db),
      vw_BatchWrite = db_BatchWrite SizeEstimate batch_size\<rparr>"

subsection \<open>The contract of a view\<close>

definition entry_coin :: "CCoinsCacheEntry \<Rightarrow> Coin option" where
  "entry_coin e = (if spent e then None else Some (ce_coin e))"

text \<open>The entries handed to a view: every outpoint once, and an entry marked fresh has no unspent coin in the view.\<close>

definition batch_ok :: "(COutPoint \<rightharpoonup> Coin) \<Rightarrow> coins_entries \<Rightarrow> bool" where
  "batch_ok u its \<longleftrightarrow> distinct (map fst its) \<and> (\<forall>(p, e) \<in> set its. dirty e \<and> fresh e \<longrightarrow> u p = None)"

definition write_through :: "coins_entries \<Rightarrow> (COutPoint \<rightharpoonup> Coin) \<Rightarrow> (COutPoint \<rightharpoonup> Coin)" where
  "write_through its u = fold (\<lambda>(p, e) u. if dirty e then u(p := entry_coin e) else u) its u"

locale coins_view =
  fixes vw :: "'b CCoinsView" and I :: "'b \<Rightarrow> bool" and utxo :: "'b \<Rightarrow> COutPoint \<Rightarrow> Coin option" and best :: "'b \<Rightarrow> bytes"
  assumes unspent: "I b \<Longrightarrow> utxo b p = Some c \<Longrightarrow> \<not> Coin_IsSpent c"
    and get: "I b \<Longrightarrow> vw_GetCoin vw b p = (b', ok, c) \<Longrightarrow>
      I b' \<and> utxo b' = utxo b \<and> best b' = best b \<and> utxo b p = (if ok then Some c else None)"
    and have_coin: "I b \<Longrightarrow> vw_HaveCoin vw b p = (b', ok) \<Longrightarrow>
      I b' \<and> utxo b' = utxo b \<and> best b' = best b \<and> (ok \<longleftrightarrow> utxo b p \<noteq> None)"
    and get_best: "I b \<Longrightarrow> vw_GetBestBlock vw b = (b', h) \<Longrightarrow> I b' \<and> utxo b' = utxo b \<and> best b' = best b \<and> h = best b"
    and batch: "I b \<Longrightarrow> batch_ok (utxo b) its \<Longrightarrow> \<not> hash_IsNull h \<Longrightarrow>
      \<exists>b'. vw_BatchWrite vw b its h = Inr (b', True) \<and> I b' \<and> utxo b' = write_through its (utxo b) \<and> best b' = h"

lemma flag_bits: "dirty e \<longleftrightarrow> bit (ce_flags e) 0" "fresh e \<longleftrightarrow> bit (ce_flags e) 1"
proof -
  have b: "(w :: u8) AND push_bit n 1 \<noteq> 0 \<longleftrightarrow> bit w n" if "n < 8" for w n
  proof
    assume "w AND push_bit n 1 \<noteq> 0"
    then obtain k where "bit (w AND push_bit n 1) k" using bit_eq_iff [of "w AND push_bit n 1" 0] by auto
    then show "bit w n" by (auto simp: bit_simps)
  next
    assume "bit w n"
    then have "bit (w AND push_bit n 1) n" using that by (simp add: bit_simps)
    then show "w AND push_bit n 1 \<noteq> 0" by auto
  qed
  show "dirty e \<longleftrightarrow> bit (ce_flags e) 0" unfolding dirty_def DIRTY_def by (rule b) simp
  show "fresh e \<longleftrightarrow> bit (ce_flags e) 1" unfolding fresh_def FRESH_def by (rule b) simp
qed

lemma flag_values [simp]: "bit DIRTY 0" "\<not> bit DIRTY (Suc 0)" "bit FRESH (Suc 0)" "\<not> bit FRESH 0"
  by (simp_all add: DIRTY_def FRESH_def)

lemma spent_null [simp]: "Coin_IsSpent Coin_null" "Coin_IsSpent (Coin_Clear c)"
  by (simp_all add: Coin_IsSpent_def Coin_null_def Coin_Clear_def CTxOut_IsNull_def CTxOut_null_def)

subsection \<open>A cache over a view\<close>

definition cache_utxo :: "('b \<Rightarrow> COutPoint \<Rightarrow> Coin option) \<Rightarrow> 'b CCoinsViewCache \<Rightarrow> COutPoint \<Rightarrow> Coin option" where
  "cache_utxo u c p = (case cacheCoins c p of None \<Rightarrow> u (cv_base c) p | Some e \<Rightarrow> entry_coin e)"

definition cache_best :: "('b \<Rightarrow> bytes) \<Rightarrow> 'b CCoinsViewCache \<Rightarrow> bytes" where
  "cache_best bst c = (if hash_IsNull (cv_hashBlock c) then bst (cv_base c) else cv_hashBlock c)"

text \<open>An entry that is not dirty agrees with the view below, and an entry is fresh only if the view below has no unspent coin.\<close>

definition entry_ok :: "Coin option \<Rightarrow> CCoinsCacheEntry \<Rightarrow> bool" where
  "entry_ok v e \<longleftrightarrow> (\<not> dirty e \<longrightarrow> entry_coin e = v) \<and> (fresh e \<longrightarrow> v = None)"

definition cache_inv :: "('b \<Rightarrow> bool) \<Rightarrow> ('b \<Rightarrow> COutPoint \<Rightarrow> Coin option) \<Rightarrow> 'b CCoinsViewCache \<Rightarrow> bool" where
  "cache_inv I u c \<longleftrightarrow> I (cv_base c) \<and> (\<forall>p e. cacheCoins c p = Some e \<longrightarrow> entry_ok (u (cv_base c) p) e)"

lemma cache_inv_base: "cache_inv I u c \<Longrightarrow> I b \<Longrightarrow> u b = u (cv_base c) \<Longrightarrow> cache_inv I u (c\<lparr>cv_base := b\<rparr>)"
  by (simp add: cache_inv_def)

lemma cache_inv_upd:
  assumes "cache_inv I u c" "entry_ok (u (cv_base c) p) e"
  shows "cache_inv I u (c\<lparr>cacheCoins := (cacheCoins c)(p \<mapsto> e)\<rparr>)"
    and "cache_utxo u (c\<lparr>cacheCoins := (cacheCoins c)(p \<mapsto> e)\<rparr>) = (cache_utxo u c)(p := entry_coin e)"
  using assms by (auto simp: cache_inv_def cache_utxo_def fun_eq_iff split: option.split)

lemma cache_inv_del:
  assumes "cache_inv I u c"
  shows "cache_inv I u (c\<lparr>cacheCoins := (cacheCoins c)(p := None)\<rparr>)"
    and "cache_utxo u (c\<lparr>cacheCoins := (cacheCoins c)(p := None)\<rparr>) = (cache_utxo u c)(p := u (cv_base c) p)"
  using assms by (auto simp: cache_inv_def cache_utxo_def fun_eq_iff split: option.split)

lemma cache_invD: "cache_inv I u c \<Longrightarrow> cacheCoins c p = Some e \<Longrightarrow> entry_ok (u (cv_base c) p) e"
  by (simp add: cache_inv_def)

lemma AddCoin_spec:
  assumes "cache_inv I u c" "\<not> Coin_IsSpent coin" "\<not> IsUnspendable (scriptPubKey (coin_out coin))" "\<not> ovw \<longrightarrow> cache_utxo u c p = None"
  shows "\<exists>c'. AddCoin c p coin ovw = Inr c' \<and> cache_inv I u c' \<and> cache_utxo u c' = (cache_utxo u c)(p \<mapsto> coin) \<and>
    cv_hashBlock c' = cv_hashBlock c \<and> cv_base c' = cv_base c \<and> dom (cacheCoins c') = insert p (dom (cacheCoins c))"
proof -
  define it where "it = (case cacheCoins c p of Some e \<Rightarrow> e | None \<Rightarrow> \<lparr>ce_coin = Coin_null, ce_flags = 0\<rparr>)"
  let ?e = "\<lparr>ce_coin = coin, ce_flags = ce_flags it OR DIRTY OR (if \<not> ovw \<and> \<not> dirty it then FRESH else 0)\<rparr>"
  have sp: "\<not> ovw \<Longrightarrow> spent it"
    using assms(4) by (auto simp: it_def cache_utxo_def entry_coin_def spent_def split: option.splits if_splits)
  have "entry_ok (u (cv_base c) p) it \<or> cacheCoins c p = None"
    using cache_invD [OF assms(1)] by (auto simp: it_def split: option.splits)
  then have ok: "entry_ok (u (cv_base c) p) ?e"
    using assms(4) sp by (auto simp: entry_ok_def flag_bits bit_simps it_def cache_utxo_def entry_coin_def split: option.splits if_splits)
  have "AddCoin c p coin ovw = Inr (c\<lparr>cacheCoins := (cacheCoins c)(p \<mapsto> ?e)\<rparr>)"
    using assms(2,3) sp by (auto simp: AddCoin_def Let_def it_def)
  then show ?thesis using cache_inv_upd [OF assms(1) ok] assms(2) by (auto simp: entry_coin_def spent_def)
qed

lemma Uncache_spec:
  assumes "cache_inv I u c"
  shows "cache_inv I u (Uncache c p) \<and> cache_utxo u (Uncache c p) = cache_utxo u c \<and> cv_hashBlock (Uncache c p) = cv_hashBlock c \<and>
    cv_base (Uncache c p) = cv_base c \<and> dom (cacheCoins (Uncache c p)) \<subseteq> dom (cacheCoins c)"
proof (cases "\<exists>e. cacheCoins c p = Some e \<and> ce_flags e = 0")
  case True
  then obtain e where e: "cacheCoins c p = Some e" "ce_flags e = 0" by blast
  then have "cache_utxo u c p = u (cv_base c) p" using cache_invD [OF assms e(1)] by (simp add: entry_ok_def flag_bits cache_utxo_def)
  then have "(cache_utxo u c)(p := u (cv_base c) p) = cache_utxo u c" by (simp only: fun_upd_idem)
  moreover have "Uncache c p = c\<lparr>cacheCoins := (cacheCoins c)(p := None)\<rparr>" using e by (simp add: Uncache_def)
  ultimately show ?thesis using cache_inv_del [OF assms, of p] by auto
next
  case False
  then show ?thesis using assms by (auto simp: Uncache_def split: option.splits)
qed

lemma write_entry_spec:
  assumes "cache_inv I u c" "dirty e \<and> fresh e \<longrightarrow> cache_utxo u c p = None"
  shows "\<exists>m. write_entry (p, e) (cacheCoins c) = Inr m \<and> cache_inv I u (c\<lparr>cacheCoins := m\<rparr>) \<and>
    cache_utxo u (c\<lparr>cacheCoins := m\<rparr>) = (if dirty e then (cache_utxo u c)(p := entry_coin e) else cache_utxo u c)"
proof (cases "dirty e")
  case False
  then show ?thesis using assms by (simp add: write_entry_def)
next
  case True
  note w = write_entry_def
  show ?thesis
  proof (cases "cacheCoins c p")
    case None
    then have f: "fresh e \<Longrightarrow> u (cv_base c) p = None" using assms(2) True by (simp add: cache_utxo_def)
    show ?thesis
    proof (cases "fresh e \<and> spent e")
      case True
      then have "(cache_utxo u c)(p := entry_coin e) = cache_utxo u c"
        using None f by (intro fun_upd_idem) (simp add: cache_utxo_def entry_coin_def)
      then show ?thesis using True \<open>dirty e\<close> None assms(1) by (auto simp: w)
    next
      case False
      let ?n = "\<lparr>ce_coin = ce_coin e, ce_flags = DIRTY OR (if fresh e then FRESH else 0)\<rparr>"
      have ok: "entry_ok (u (cv_base c) p) ?n" using f by (auto simp: entry_ok_def flag_bits bit_simps)
      show ?thesis using False True None cache_inv_upd [OF assms(1) ok] by (auto simp: w entry_coin_def spent_def)
    qed
  next
    case (Some us)
    note eok = cache_invD [OF assms(1) Some]
    have "\<not> (fresh e \<and> \<not> spent us)" using assms(2) True Some by (auto simp: cache_utxo_def entry_coin_def split: if_splits)
    then show ?thesis
    proof (cases "fresh us \<and> spent e")
      case True
      then show ?thesis using \<open>\<not> (fresh e \<and> \<not> spent us)\<close> \<open>dirty e\<close> Some eok cache_inv_del [OF assms(1), of p]
        by (auto simp: w entry_coin_def entry_ok_def)
    next
      case False
      let ?n = "us\<lparr>ce_coin := ce_coin e, ce_flags := ce_flags us OR DIRTY\<rparr>"
      have ok: "entry_ok (u (cv_base c) p) ?n" using eok by (auto simp: entry_ok_def flag_bits bit_simps)
      show ?thesis using False True Some \<open>\<not> (fresh e \<and> \<not> spent us)\<close> cache_inv_upd [OF assms(1) ok] by (auto simp: w entry_coin_def spent_def)
    qed
  qed
qed

lemma batch_ok_Cons:
  assumes "batch_ok v ((p, e) # its)"
  shows "dirty e \<and> fresh e \<longrightarrow> v p = None" and "batch_ok (if dirty e then v(p := entry_coin e) else v) its"
proof -
  have d: "p \<notin> fst ` set its" "distinct (map fst its)" "dirty e \<and> fresh e \<longrightarrow> v p = None"
    "\<forall>(q, f) \<in> set its. dirty f \<and> fresh f \<longrightarrow> v q = None" using assms by (auto simp: batch_ok_def)
  then show "dirty e \<and> fresh e \<longrightarrow> v p = None" by blast
  have "q \<noteq> p" if "(q, f) \<in> set its" for q f using d(1) that by force
  then show "batch_ok (if dirty e then v(p := entry_coin e) else v) its" using d(2,4) by (auto simp: batch_ok_def)
qed

lemma write_entries_spec:
  assumes "cache_inv I u c" "batch_ok (cache_utxo u c) its"
  shows "\<exists>m. write_entries its (cacheCoins c) = Inr m \<and> cache_inv I u (c\<lparr>cacheCoins := m\<rparr>) \<and>
    cache_utxo u (c\<lparr>cacheCoins := m\<rparr>) = write_through its (cache_utxo u c)"
  using assms
proof (induction its arbitrary: c)
  case Nil
  then show ?case by (simp add: write_through_def)
next
  case (Cons it its)
  obtain p e where it: "it = (p, e)" by force
  obtain m where m: "write_entry (p, e) (cacheCoins c) = Inr m" "cache_inv I u (c\<lparr>cacheCoins := m\<rparr>)"
    "cache_utxo u (c\<lparr>cacheCoins := m\<rparr>) = (if dirty e then (cache_utxo u c)(p := entry_coin e) else cache_utxo u c)"
    using write_entry_spec [OF Cons.prems(1) batch_ok_Cons(1) [OF Cons.prems(2) [unfolded it]]] by blast
  have "batch_ok (cache_utxo u (c\<lparr>cacheCoins := m\<rparr>)) its"
    unfolding m(3) by (rule batch_ok_Cons(2) [OF Cons.prems(2) [unfolded it]])
  from Cons.IH [OF m(2) this] m show ?case by (auto simp: it write_through_def)
qed

lemma write_through_lookup:
  assumes "distinct (map fst its)"
  shows "write_through its v p = (case map_of its p of None \<Rightarrow> v p | Some e \<Rightarrow> if dirty e then entry_coin e else v p)"
  using assms
proof (induction its arbitrary: v)
  case Nil
  then show ?case by (simp add: write_through_def)
next
  case (Cons it its)
  obtain q e where it: "it = (q, e)" by force
  have "map_of its q = None" using Cons.prems it by (simp add: map_of_eq_None_iff)
  then show ?case using Cons.IH [of "if dirty e then v(q := entry_coin e) else v"] Cons.prems it
    by (auto simp: write_through_def split: option.split)
qed

lemma traverse_props:
  assumes "distinct ord" "dom m \<subseteq> set ord"
  shows "distinct (map fst (traverse ord m))" and "map_of (traverse ord m) = m" and "(p, e) \<in> set (traverse ord m) \<Longrightarrow> m p = Some e"
proof -
  have keys: "map fst (traverse ord m) = filter (\<lambda>p. m p \<noteq> None) ord"
    unfolding traverse_def by (induction ord) (auto simp: List.map_filter_simps split: option.split)
  then show d: "distinct (map fst (traverse ord m))" using assms(1) by simp
  show s: "m p = Some e" if "(p, e) \<in> set (traverse ord m)" for p e
    using that unfolding traverse_def by (auto simp: List.map_filter_def)
  show "map_of (traverse ord m) = m"
  proof
    fix p
    show "map_of (traverse ord m) p = m p"
    proof (cases "m p")
      case None
      then show ?thesis using s by (metis map_of_SomeD not_Some_eq option.distinct(1))
    next
      case (Some e)
      then have "p \<in> set (map fst (traverse ord m))" unfolding keys using assms(2) by auto
      then obtain f where "(p, f) \<in> set (traverse ord m)" by auto
      then show ?thesis using Some s [of p f] map_of_is_SomeI [OF d] by simp
    qed
  qed
qed

context coins_view
begin

lemma fetch:
  assumes "cache_inv I utxo c" "FetchCoin vw c p = (c', it)"
  shows "cache_inv I utxo c' \<and> cache_utxo utxo c' = cache_utxo utxo c \<and> cache_best best c' = cache_best best c \<and>
    cv_hashBlock c' = cv_hashBlock c \<and> dom (cacheCoins c') \<subseteq> insert p (dom (cacheCoins c)) \<and>
    (case it of None \<Rightarrow> cache_utxo utxo c p = None
     | Some e \<Rightarrow> cacheCoins c' p = Some e \<and> cache_utxo utxo c p = entry_coin e)"
proof (cases "cacheCoins c p")
  case (Some e)
  then have "c' = c" "it = Some e" using assms(2) by (simp_all add: FetchCoin_def)
  then show ?thesis using assms(1) Some by (simp add: cache_utxo_def subset_insertI)
next
  case None
  obtain b ok tmp where g: "vw_GetCoin vw (cv_base c) p = (b, ok, tmp)" by (rule prod_cases3)
  have b: "I b" "utxo b = utxo (cv_base c)" "best b = best (cv_base c)" "utxo (cv_base c) p = (if ok then Some tmp else None)"
    using get [OF _ g] assms(1) by (auto simp: cache_inv_def)
  let ?c = "c\<lparr>cv_base := b\<rparr>"
  have inv: "cache_inv I utxo ?c" by (rule cache_inv_base [OF assms(1) b(1,2)])
  have same: "cache_utxo utxo ?c = cache_utxo utxo c" using b(2) by (simp add: cache_utxo_def fun_eq_iff split: option.split)
  show ?thesis
  proof (cases ok)
    case False
    then show ?thesis using assms(2) None g b inv same by (auto simp: FetchCoin_def cache_utxo_def cache_best_def)
  next
    case True
    then have tmp: "\<not> Coin_IsSpent tmp" using unspent [of "cv_base c" p tmp] b(4) assms(1) by (simp add: cache_inv_def)
    let ?e = "\<lparr>ce_coin = tmp, ce_flags = 0\<rparr>"
    have e: "entry_coin ?e = Some tmp" using tmp by (simp add: entry_coin_def spent_def)
    have ok: "entry_ok (utxo (cv_base ?c) p) ?e" using b(2,4) True e by (simp add: entry_ok_def flag_bits)
    have v: "cache_utxo utxo c p = Some tmp" using None b(4) True by (simp add: cache_utxo_def)
    have c': "c' = ?c\<lparr>cacheCoins := (cacheCoins ?c)(p \<mapsto> ?e)\<rparr>" "it = Some ?e"
      using assms(2) None g True tmp by (auto simp: FetchCoin_def Let_def)
    have "(cache_utxo utxo c)(p := entry_coin ?e) = cache_utxo utxo c" unfolding e using v by (intro fun_upd_idem)
    then show ?thesis using cache_inv_upd [OF inv ok] same v e b(3) unfolding c' by (auto simp: cache_best_def)
  qed
qed

lemma GetCoin_spec:
  assumes "cache_inv I utxo c" "GetCoin vw c p = (c', ok, coin)"
  shows "cache_inv I utxo c' \<and> cache_utxo utxo c' = cache_utxo utxo c \<and> cache_best best c' = cache_best best c \<and>
    cv_hashBlock c' = cv_hashBlock c \<and> dom (cacheCoins c') \<subseteq> insert p (dom (cacheCoins c)) \<and>
    cache_utxo utxo c p = (if ok then Some coin else None)"
proof -
  obtain c1 it where f: "FetchCoin vw c p = (c1, it)" by force
  show ?thesis using fetch [OF assms(1) f] assms(2) f by (auto simp: GetCoin_def entry_coin_def split: option.splits)
qed

lemma HaveCoin_spec:
  assumes "cache_inv I utxo c" "HaveCoin vw c p = (c', ok)"
  shows "cache_inv I utxo c' \<and> cache_utxo utxo c' = cache_utxo utxo c \<and> cache_best best c' = cache_best best c \<and>
    cv_hashBlock c' = cv_hashBlock c \<and> dom (cacheCoins c') \<subseteq> insert p (dom (cacheCoins c)) \<and> (ok \<longleftrightarrow> cache_utxo utxo c p \<noteq> None)"
proof -
  obtain c1 it where f: "FetchCoin vw c p = (c1, it)" by force
  show ?thesis using fetch [OF assms(1) f] assms(2) f by (auto simp: HaveCoin_def entry_coin_def split: option.splits)
qed

lemma AccessCoin_spec:
  assumes "cache_inv I utxo c" "AccessCoin vw c p = (c', coin)"
  shows "cache_inv I utxo c' \<and> cache_utxo utxo c' = cache_utxo utxo c \<and> cache_best best c' = cache_best best c \<and>
    cv_hashBlock c' = cv_hashBlock c \<and> dom (cacheCoins c') \<subseteq> insert p (dom (cacheCoins c)) \<and>
    cache_utxo utxo c p = (if Coin_IsSpent coin then None else Some coin)"
proof -
  obtain c1 it where f: "FetchCoin vw c p = (c1, it)" by force
  show ?thesis using fetch [OF assms(1) f] assms(2) f by (auto simp: AccessCoin_def entry_coin_def spent_def split: option.splits)
qed

lemma SpendCoin_spec:
  assumes "cache_inv I utxo c" "SpendCoin vw c p = (c', r)"
  shows "cache_inv I utxo c' \<and> cache_utxo utxo c' = (cache_utxo utxo c)(p := None) \<and> cache_best best c' = cache_best best c \<and>
    cv_hashBlock c' = cv_hashBlock c \<and> dom (cacheCoins c') \<subseteq> insert p (dom (cacheCoins c)) \<and>
    cache_utxo utxo c p = (case r of None \<Rightarrow> None | Some coin \<Rightarrow> if Coin_IsSpent coin then None else Some coin)"
proof -
  obtain c1 it where f: "FetchCoin vw c p = (c1, it)" by force
  note s = fetch [OF assms(1) f]
  show ?thesis
  proof (cases it)
    case None
    then have "cache_utxo utxo c p = None" using s by simp
    then have "(cache_utxo utxo c)(p := None) = cache_utxo utxo c" by (simp only: fun_upd_idem)
    then show ?thesis using s None assms(2) f by (auto simp: SpendCoin_def)
  next
    case (Some e)
    then have e: "cacheCoins c1 p = Some e" "cache_utxo utxo c p = entry_coin e" and i: "cache_inv I utxo c1" using s by simp_all
    let ?e = "e\<lparr>ce_flags := ce_flags e OR DIRTY, ce_coin := Coin_Clear (ce_coin e)\<rparr>"
    have ok: "\<not> fresh e \<Longrightarrow> entry_ok (utxo (cv_base c1) p) ?e" by (auto simp: entry_ok_def flag_bits bit_simps)
    have none: "entry_coin ?e = None" by (simp add: entry_coin_def spent_def)
    have fr: "fresh e \<Longrightarrow> utxo (cv_base c1) p = None" using cache_invD [OF i e(1)] by (simp add: entry_ok_def)
    have c': "c' = c1\<lparr>cacheCoins := (if fresh e then (cacheCoins c1)(p := None) else (cacheCoins c1)(p \<mapsto> ?e))\<rparr>" "r = Some (ce_coin e)"
      using assms(2) f Some by (simp_all add: SpendCoin_def)
    have "cache_inv I utxo c' \<and> cache_utxo utxo c' = (cache_utxo utxo c1)(p := None)"
      using cache_inv_del [OF i, of p] cache_inv_upd [OF i ok] fr none unfolding c' by (cases "fresh e") auto
    then show ?thesis using s e(2) unfolding c' by (auto simp: entry_coin_def spent_def cache_best_def)
  qed
qed

lemma GetBestBlock_spec:
  assumes "cache_inv I utxo c" "GetBestBlock vw c = (c', h)"
  shows "cache_inv I utxo c' \<and> cache_utxo utxo c' = cache_utxo utxo c \<and> cache_best best c' = cache_best best c \<and>
    cacheCoins c' = cacheCoins c \<and> h = cache_best best c \<and> cv_hashBlock c' = h"
proof (cases "hash_IsNull (cv_hashBlock c)")
  case False
  then show ?thesis using assms by (auto simp: GetBestBlock_def cache_best_def)
next
  case True
  obtain b k where g: "vw_GetBestBlock vw (cv_base c) = (b, k)" by force
  have b: "I b" "utxo b = utxo (cv_base c)" "best b = best (cv_base c)" "k = best (cv_base c)"
    using get_best [OF _ g] assms(1) by (auto simp: cache_inv_def)
  have c': "c' = c\<lparr>cv_base := b, cv_hashBlock := k\<rparr>" "h = k" using assms(2) True g by (auto simp: GetBestBlock_def)
  show ?thesis using assms(1) b True unfolding c' by (auto simp: cache_inv_def cache_utxo_def cache_best_def fun_eq_iff split: option.split)
qed

lemma BatchWrite_spec:
  assumes "cache_inv I utxo c" "batch_ok (cache_utxo utxo c) its" "\<not> hash_IsNull h"
  shows "\<exists>c'. BatchWrite c its h = Inr (c', True) \<and> cache_inv I utxo c' \<and> cache_utxo utxo c' = write_through its (cache_utxo utxo c) \<and>
    cache_best best c' = h"
proof -
  obtain m where "write_entries its (cacheCoins c) = Inr m" "cache_inv I utxo (c\<lparr>cacheCoins := m\<rparr>)"
    "cache_utxo utxo (c\<lparr>cacheCoins := m\<rparr>) = write_through its (cache_utxo utxo c)" using write_entries_spec [OF assms(1,2)] by blast
  moreover have "cache_inv I utxo (c\<lparr>cacheCoins := m, cv_hashBlock := h\<rparr>) = cache_inv I utxo (c\<lparr>cacheCoins := m\<rparr>)"
    "cache_utxo utxo (c\<lparr>cacheCoins := m, cv_hashBlock := h\<rparr>) = cache_utxo utxo (c\<lparr>cacheCoins := m\<rparr>)" for m
    by (simp_all add: cache_inv_def cache_utxo_def fun_eq_iff split: option.split)
  ultimately show ?thesis using assms(3) by (simp add: BatchWrite_def cache_best_def)
qed

lemma cache_unspent: "cache_inv I utxo c \<Longrightarrow> cache_utxo utxo c p = Some coin \<Longrightarrow> \<not> Coin_IsSpent coin"
  using unspent by (auto simp: cache_utxo_def cache_inv_def entry_coin_def spent_def split: option.splits if_splits)

lemma cache_is_view: "coins_view (cache_view vw) (cache_inv I utxo) (cache_utxo utxo) (cache_best best)"
proof
  show "\<exists>b'. vw_BatchWrite (cache_view vw) b its h = Inr (b', True) \<and> cache_inv I utxo b' \<and>
      cache_utxo utxo b' = write_through its (cache_utxo utxo b) \<and> cache_best best b' = h"
    if "cache_inv I utxo b" "batch_ok (cache_utxo utxo b) its" "\<not> hash_IsNull h" for b its h
    using BatchWrite_spec [OF that] by (simp add: cache_view_def)
qed (auto simp: cache_view_def dest: cache_unspent GetCoin_spec HaveCoin_spec GetBestBlock_spec)

lemma Flush_spec:
  assumes "cache_inv I utxo c" "\<not> hash_IsNull (cv_hashBlock c)" "distinct ord" "dom (cacheCoins c) \<subseteq> set ord"
  shows "\<exists>c'. Flush vw ord c = Inr (c', True) \<and> cache_inv I utxo c' \<and> cache_utxo utxo c' = cache_utxo utxo c \<and>
    cv_hashBlock c' = cv_hashBlock c \<and> cacheCoins c' = Map.empty \<and> utxo (cv_base c') = cache_utxo utxo c \<and> best (cv_base c') = cv_hashBlock c"
proof -
  let ?its = "traverse ord (cacheCoins c)"
  note tr = traverse_props [OF assms(3,4)]
  have "batch_ok (utxo (cv_base c)) ?its"
    using tr(1) cache_invD [OF assms(1) tr(3)] by (auto simp: batch_ok_def entry_ok_def)
  then obtain b where b: "vw_BatchWrite vw (cv_base c) ?its (cv_hashBlock c) = Inr (b, True)" "I b"
    "utxo b = write_through ?its (utxo (cv_base c))" "best b = cv_hashBlock c"
    using batch [of "cv_base c" ?its "cv_hashBlock c"] assms(1,2) by (auto simp: cache_inv_def)
  have "utxo b p = cache_utxo utxo c p" for p
    using cache_invD [OF assms(1), of p] unfolding b(3) write_through_lookup [OF tr(1)] tr(2)
    by (auto simp: cache_utxo_def entry_ok_def split: option.split)
  then have u: "utxo b = cache_utxo utxo c" by (rule ext)
  let ?c = "c\<lparr>cv_base := b, cacheCoins := Map.empty\<rparr>"
  have "Flush vw ord c = Inr (?c, True)" using b(1) by (simp add: Flush_def)
  moreover have "cache_inv I utxo ?c" "cache_utxo utxo ?c = utxo b" using b(2) by (simp_all add: cache_inv_def cache_utxo_def fun_eq_iff)
  ultimately show ?thesis using u b(4) by (intro exI [of _ ?c]) simp
qed

end

subsection \<open>The database satisfies the contract\<close>

definition ops_of :: "coins_entries \<Rightarrow> db_op list" where
  "ops_of its = concat (map (\<lambda>(p, e). if dirty e then [if spent e then Erase_coin p else Write_coin p (ce_coin e)] else []) its)"

lemma WriteBatch_append: "WriteBatch (a @ b) db = WriteBatch b (WriteBatch a db)"
  by (simp add: WriteBatch_def)

lemma WriteBatch_ops_of: "WriteBatch (ops_of its) db = db\<lparr>db_coins := write_through its (db_coins db)\<rparr>"
proof (induction its arbitrary: db)
  case Nil
  then show ?case by (simp add: ops_of_def WriteBatch_def write_through_def)
next
  case (Cons it its)
  obtain p e where it: "it = (p, e)" by force
  have "WriteBatch (ops_of (it # its)) db = WriteBatch (ops_of its) (if dirty e then db\<lparr>db_coins := (db_coins db)(p := entry_coin e)\<rparr> else db)"
    by (auto simp: it ops_of_def WriteBatch_def entry_coin_def)
  then show ?case by (simp add: Cons.IH it write_through_def)
qed

lemma batch_loop_step:
  "batch_loop sz bs (it # its) batch db =
     (if sz (batch @ ops_of [it]) > bs
      then map_prod (Cons (WriteBatch (batch @ ops_of [it]) db)) id (batch_loop sz bs its [] (WriteBatch (batch @ ops_of [it]) db))
      else batch_loop sz bs its (batch @ ops_of [it]) db)"
  by (cases it) (simp add: ops_of_def Let_def split: prod.split)

lemma batch_loop_states:
  assumes "batch_loop sz bs its batch db = (dbs, db', batch')"
  shows "WriteBatch batch' db' = WriteBatch (batch @ ops_of its) db \<and>
    (\<forall>s \<in> set dbs. \<exists>k \<le> length its. s = WriteBatch (batch @ ops_of (take k its)) db)"
  using assms
proof (induction its arbitrary: batch db dbs)
  case Nil
  then show ?case by (simp add: ops_of_def)
next
  case (Cons it its)
  let ?b = "batch @ ops_of [it]"
  have ops: "batch @ ops_of (it # x) = ?b @ ops_of x" for x by (simp add: ops_of_def)
  show ?case
  proof (cases "sz ?b > bs")
    case False
    then have "batch_loop sz bs its ?b db = (dbs, db', batch')" using Cons.prems unfolding batch_loop_step by simp
    note h = Cons.IH [OF this]
    have "\<exists>k \<le> length (it # its). s = WriteBatch (batch @ ops_of (take k (it # its))) db" if sin: "s \<in> set dbs" for s
    proof -
      obtain k where "k \<le> length its" "s = WriteBatch (?b @ ops_of (take k its)) db"
        using bspec [OF h [THEN conjunct2] sin] by blast
      then show ?thesis using ops [of "take k its"] by (intro exI [of _ "Suc k"]) simp
    qed
    then show ?thesis using h [THEN conjunct1] ops [of its] by simp
  next
    case True
    let ?db = "WriteBatch ?b db"
    obtain dbs' where l: "batch_loop sz bs its [] ?db = (dbs', db', batch')" "dbs = ?db # dbs'"
      using Cons.prems True unfolding batch_loop_step by (cases "batch_loop sz bs its [] ?db") auto
    note h = Cons.IH [OF l(1)]
    have "\<exists>k \<le> length (it # its). s = WriteBatch (batch @ ops_of (take k (it # its))) db" if sin: "s \<in> set dbs" for s
    proof (cases "s = ?db")
      case True
      then show ?thesis by (intro exI [of _ 1]) (simp add: ops_of_def)
    next
      case False
      then have "s \<in> set dbs'" using sin l(2) by simp
      from bspec [OF h [THEN conjunct2] this] obtain k where "k \<le> length its" "s = WriteBatch (ops_of (take k its)) ?db"
        by auto
      then show ?thesis using ops [of "take k its"] by (intro exI [of _ "Suc k"]) (simp add: WriteBatch_append)
    qed
    then show ?thesis using h [THEN conjunct1] ops [of its] by (simp add: WriteBatch_append)
  qed
qed

lemma db_states_spec:
  assumes "\<not> hash_IsNull h" "hash_IsNull (db_GetBestBlock db) \<and> length (db_GetHeadBlocks db) = 2 \<longrightarrow> db_GetHeadBlocks db ! 0 = h"
  shows "\<exists>dbs. db_states sz bs db its h = Inr (dbs @ [\<lparr>db_coins = write_through its (db_coins db), db_best = Some h, db_heads = None\<rparr>]) \<and>
    (\<forall>s \<in> set dbs. \<exists>k \<le> length its. \<exists>old. s = \<lparr>db_coins = write_through (take k its) (db_coins db), db_best = None, db_heads = Some [h, old]\<rparr> \<and>
      (db_heads db = None \<longrightarrow> old = db_GetBestBlock db))"
proof -
  define old where "old = (if hash_IsNull (db_GetBestBlock db) \<and> length (db_GetHeadBlocks db) = 2 then db_GetHeadBlocks db ! 1 else db_GetBestBlock db)"
  let ?b = "[Erase_best, Write_heads [h, old]]"
  obtain dbs db' batch where l: "batch_loop sz bs its ?b db = (dbs, db', batch)" by (rule prod_cases3)
  have w: "WriteBatch (?b @ ops_of x) db = \<lparr>db_coins = write_through x (db_coins db), db_best = None, db_heads = Some [h, old]\<rparr>" for x
  proof -
    have "WriteBatch ?b db = \<lparr>db_coins = db_coins db, db_best = None, db_heads = Some [h, old]\<rparr>" by (simp add: WriteBatch_def)
    then show ?thesis unfolding WriteBatch_append WriteBatch_ops_of by simp
  qed
  note h = batch_loop_states [OF l]
  have st: "db_states sz bs db its h = Inr (dbs @ [WriteBatch (batch @ [Erase_heads, Write_best h]) db'])"
    using assms l by (auto simp: db_states_def Let_def old_def)
  have fin: "WriteBatch (batch @ [Erase_heads, Write_best h]) db' = \<lparr>db_coins = write_through its (db_coins db), db_best = Some h, db_heads = None\<rparr>"
    unfolding WriteBatch_append [of batch] h [THEN conjunct1] w by (simp add: WriteBatch_def)
  have all: "\<forall>s \<in> set dbs. \<exists>k \<le> length its.
      s = \<lparr>db_coins = write_through (take k its) (db_coins db), db_best = None, db_heads = Some [h, old]\<rparr>"
    using h [THEN conjunct2] unfolding w .
  have old: "db_heads db = None \<longrightarrow> old = db_GetBestBlock db" by (simp add: old_def db_GetHeadBlocks_def)
  show ?thesis
  proof (intro exI [of _ dbs] conjI ballI)
    show "db_states sz bs db its h = Inr (dbs @ [\<lparr>db_coins = write_through its (db_coins db), db_best = Some h, db_heads = None\<rparr>])"
      using st unfolding fin .
    fix s
    assume "s \<in> set dbs"
    then obtain k where "k \<le> length its" "s = \<lparr>db_coins = write_through (take k its) (db_coins db), db_best = None, db_heads = Some [h, old]\<rparr>"
      using all by blast
    then show "\<exists>k \<le> length its. \<exists>old. s = \<lparr>db_coins = write_through (take k its) (db_coins db), db_best = None, db_heads = Some [h, old]\<rparr> \<and>
        (db_heads db = None \<longrightarrow> old = db_GetBestBlock db)"
      using old by (intro exI [of _ k] exI [of _ old] conjI)
  qed
qed

definition db_inv :: "CCoinsViewDB \<Rightarrow> bool" where
  "db_inv db \<longleftrightarrow> (\<forall>p c. db_coins db p = Some c \<longrightarrow> \<not> Coin_IsSpent c) \<and> db_heads db = None"

lemma write_through_unspent:
  assumes "\<forall>p c. v p = Some c \<longrightarrow> \<not> Coin_IsSpent c" "distinct (map fst its)" "write_through its v p = Some c"
  shows "\<not> Coin_IsSpent c"
  using assms unfolding write_through_lookup [OF assms(2)] by (auto simp: entry_coin_def spent_def split: option.splits if_splits)

lemma db_BatchWrite_spec:
  assumes "db_inv db" "batch_ok (db_coins db) its" "\<not> hash_IsNull h"
  shows "\<exists>db'. db_BatchWrite sz bs db its h = Inr (db', True) \<and> db_inv db' \<and> db_coins db' = write_through its (db_coins db) \<and>
    db_GetBestBlock db' = h"
proof -
  have "db_GetHeadBlocks db = []" using assms(1) by (simp add: db_inv_def db_GetHeadBlocks_def)
  then obtain dbs where "db_states sz bs db its h = Inr (dbs @ [\<lparr>db_coins = write_through its (db_coins db), db_best = Some h, db_heads = None\<rparr>])"
    using db_states_spec [OF assms(3), of db sz bs its] by auto
  moreover have "distinct (map fst its)" using assms(2) by (simp add: batch_ok_def)
  then have "\<not> Coin_IsSpent c" if "write_through its (db_coins db) p = Some c" for p c
    using write_through_unspent [of "db_coins db" its p c] assms(1) that by (simp add: db_inv_def)
  ultimately show ?thesis by (auto simp: db_BatchWrite_def db_inv_def db_GetBestBlock_def)
qed

interpretation db: coins_view "db_view sz bs" db_inv db_coins db_GetBestBlock for sz bs
proof
  show "\<exists>b'. vw_BatchWrite (db_view sz bs) b its h = Inr (b', True) \<and> db_inv b' \<and> db_coins b' = write_through its (db_coins b) \<and> db_GetBestBlock b' = h"
    if "db_inv b" "batch_ok (db_coins b) its" "\<not> hash_IsNull h" for b its h
    using db_BatchWrite_spec [OF that] by (simp add: db_view_def)
qed (auto simp: db_view_def db_inv_def db_GetCoin_def db_HaveCoin_def split: option.splits)

text \<open>The cache over the database, and a cache over that cache, as validation uses them.\<close>

interpretation tip: coins_view "cache_view (db_view sz bs)" "cache_inv db_inv db_coins" "cache_utxo db_coins" "cache_best db_GetBestBlock" for sz bs
  by (rule db.cache_is_view)

subsection \<open>A cache behaves like a map\<close>

text \<open>Calls on a cache, and what a caller observes of them: an unspent coin, a truth value or a hash. A spent coin handed out
  counts as no coin.\<close>

datatype coins_cmd = Cmd_GetCoin COutPoint | Cmd_HaveCoin COutPoint | Cmd_AccessCoin COutPoint | Cmd_AddCoin COutPoint Coin bool
  | Cmd_SpendCoin COutPoint | Cmd_GetBestBlock | Cmd_SetBestBlock bytes | Cmd_Uncache COutPoint | Cmd_Flush "COutPoint list"

datatype coins_out = Out_coin "Coin option" | Out_bool bool | Out_hash bytes

definition unspent_coin :: "Coin \<Rightarrow> Coin option" where
  "unspent_coin c = (if Coin_IsSpent c then None else Some c)"

fun run_cmd :: "'b CCoinsView \<Rightarrow> coins_cmd \<Rightarrow> 'b CCoinsViewCache \<Rightarrow> coins_error + 'b CCoinsViewCache \<times> coins_out" where
  "run_cmd vw (Cmd_GetCoin p) c = (case GetCoin vw c p of (c', ok, coin) \<Rightarrow> Inr (c', Out_coin (if ok then Some coin else None)))"
| "run_cmd vw (Cmd_HaveCoin p) c = (case HaveCoin vw c p of (c', ok) \<Rightarrow> Inr (c', Out_bool ok))"
| "run_cmd vw (Cmd_AccessCoin p) c = (case AccessCoin vw c p of (c', coin) \<Rightarrow> Inr (c', Out_coin (unspent_coin coin)))"
| "run_cmd vw (Cmd_AddCoin p coin ovw) c = map_sum id (\<lambda>c'. (c', Out_bool True)) (AddCoin c p coin ovw)"
| "run_cmd vw (Cmd_SpendCoin p) c = (case SpendCoin vw c p of (c', r) \<Rightarrow> Inr (c', Out_coin (Option.bind r unspent_coin)))"
| "run_cmd vw Cmd_GetBestBlock c = (case GetBestBlock vw c of (c', h) \<Rightarrow> Inr (c', Out_hash h))"
| "run_cmd vw (Cmd_SetBestBlock h) c = Inr (SetBestBlock c h, Out_bool True)"
| "run_cmd vw (Cmd_Uncache p) c = Inr (Uncache c p, Out_bool True)"
| "run_cmd vw (Cmd_Flush ord) c = map_sum id (\<lambda>(c', fOk). (c', Out_bool fOk)) (Flush vw ord c)"

fun run_cmds :: "'b CCoinsView \<Rightarrow> coins_cmd list \<Rightarrow> 'b CCoinsViewCache \<Rightarrow> coins_error + 'b CCoinsViewCache \<times> coins_out list" where
  "run_cmds vw [] c = Inr (c, [])"
| "run_cmds vw (x # xs) c =
     (case run_cmd vw x c of Inl e \<Rightarrow> Inl e | Inr (c', out) \<Rightarrow> map_sum id (\<lambda>(c'', outs). (c'', out # outs)) (run_cmds vw xs c'))"

text \<open>The same calls on a map of unspent coins with the best block, and whether the best block has been set or read.\<close>

type_synonym coins_map = "(COutPoint \<rightharpoonup> Coin) \<times> bytes \<times> bool"

fun map_cmd :: "coins_cmd \<Rightarrow> coins_map \<Rightarrow> coins_map \<times> coins_out" where
  "map_cmd (Cmd_GetCoin p) (m, h, k) = ((m, h, k), Out_coin (m p))"
| "map_cmd (Cmd_HaveCoin p) (m, h, k) = ((m, h, k), Out_bool (m p \<noteq> None))"
| "map_cmd (Cmd_AccessCoin p) (m, h, k) = ((m, h, k), Out_coin (m p))"
| "map_cmd (Cmd_AddCoin p coin ovw) (m, h, k) = ((if IsUnspendable (scriptPubKey (coin_out coin)) then m else m(p \<mapsto> coin), h, k), Out_bool True)"
| "map_cmd (Cmd_SpendCoin p) (m, h, k) = ((m(p := None), h, k), Out_coin (m p))"
| "map_cmd Cmd_GetBestBlock (m, h, k) = ((m, h, \<not> hash_IsNull h), Out_hash h)"
| "map_cmd (Cmd_SetBestBlock h') (m, h, k) = ((m, h', True), Out_bool True)"
| "map_cmd (Cmd_Uncache p) s = (s, Out_bool True)"
| "map_cmd (Cmd_Flush ord) s = (s, Out_bool True)"

fun map_cmds :: "coins_cmd list \<Rightarrow> coins_map \<Rightarrow> coins_map \<times> coins_out list" where
  "map_cmds [] s = (s, [])"
| "map_cmds (x # xs) s = (case map_cmd x s of (s', out) \<Rightarrow> case map_cmds xs s' of (s'', outs) \<Rightarrow> (s'', out # outs))"

text \<open>What callers must obey: a coin is added only if it is unspent, without overwriting only where there is none; best blocks
  are proper hashes; the cache is flushed only once its best block is known.\<close>

fun cmd_ok :: "COutPoint set \<Rightarrow> coins_cmd \<Rightarrow> coins_map \<Rightarrow> bool" where
  "cmd_ok K (Cmd_GetCoin p) s \<longleftrightarrow> p \<in> K"
| "cmd_ok K (Cmd_HaveCoin p) s \<longleftrightarrow> p \<in> K"
| "cmd_ok K (Cmd_AccessCoin p) s \<longleftrightarrow> p \<in> K"
| "cmd_ok K (Cmd_AddCoin p coin ovw) (m, _) \<longleftrightarrow> p \<in> K \<and> \<not> Coin_IsSpent coin \<and> (\<not> ovw \<longrightarrow> m p = None)"
| "cmd_ok K (Cmd_SpendCoin p) s \<longleftrightarrow> p \<in> K"
| "cmd_ok K Cmd_GetBestBlock s \<longleftrightarrow> True"
| "cmd_ok K (Cmd_SetBestBlock h) s \<longleftrightarrow> \<not> hash_IsNull h"
| "cmd_ok K (Cmd_Uncache p) s \<longleftrightarrow> True"
| "cmd_ok K (Cmd_Flush ord) (_, _, k) \<longleftrightarrow> k \<and> distinct ord \<and> K \<subseteq> set ord"

fun cmds_ok :: "COutPoint set \<Rightarrow> coins_cmd list \<Rightarrow> coins_map \<Rightarrow> bool" where
  "cmds_ok K [] s \<longleftrightarrow> True"
| "cmds_ok K (x # xs) s \<longleftrightarrow> cmd_ok K x s \<and> cmds_ok K xs (fst (map_cmd x s))"

definition cache_abs :: "('b \<Rightarrow> COutPoint \<Rightarrow> Coin option) \<Rightarrow> ('b \<Rightarrow> bytes) \<Rightarrow> 'b CCoinsViewCache \<Rightarrow> coins_map" where
  "cache_abs u bst c = (cache_utxo u c, cache_best bst c, \<not> hash_IsNull (cv_hashBlock c))"

definition cache_ok :: "('b \<Rightarrow> bool) \<Rightarrow> ('b \<Rightarrow> COutPoint \<Rightarrow> Coin option) \<Rightarrow> COutPoint set \<Rightarrow> 'b CCoinsViewCache \<Rightarrow> bool" where
  "cache_ok I u K c \<longleftrightarrow> cache_inv I u c \<and> dom (cacheCoins c) \<subseteq> K"

lemma AddCoin_unspendable: "\<not> Coin_IsSpent coin \<Longrightarrow> IsUnspendable (scriptPubKey (coin_out coin)) \<Longrightarrow> AddCoin c p coin ovw = Inr c"
  by (simp add: AddCoin_def)

context coins_view
begin

lemma run_cmd_add:
  assumes "cache_ok I utxo K c" "cmd_ok K (Cmd_AddCoin p coin ovw) (cache_abs utxo best c)"
  shows "\<exists>c' out. run_cmd vw (Cmd_AddCoin p coin ovw) c = Inr (c', out) \<and>
    map_cmd (Cmd_AddCoin p coin ovw) (cache_abs utxo best c) = (cache_abs utxo best c', out) \<and> cache_ok I utxo K c'"
proof (cases "IsUnspendable (scriptPubKey (coin_out coin))")
  case True
  then show ?thesis using assms by (simp add: AddCoin_unspendable cache_abs_def)
next
  case False
  have "cache_inv I utxo c" "\<not> Coin_IsSpent coin" "\<not> ovw \<longrightarrow> cache_utxo utxo c p = None" using assms by (simp_all add: cache_ok_def cache_abs_def)
  from AddCoin_spec [OF this(1,2) False this(3)] obtain c' where "AddCoin c p coin ovw = Inr c'" "cache_inv I utxo c'"
    "cache_utxo utxo c' = (cache_utxo utxo c)(p \<mapsto> coin)" "cv_hashBlock c' = cv_hashBlock c" "cv_base c' = cv_base c"
    "dom (cacheCoins c') = insert p (dom (cacheCoins c))" by blast
  then show ?thesis using assms False by (simp add: cache_abs_def cache_ok_def cache_best_def)
qed

lemma run_cmd_simulates:
  assumes "cache_ok I utxo K c" "cmd_ok K x (cache_abs utxo best c)"
  shows "\<exists>c' out. run_cmd vw x c = Inr (c', out) \<and> map_cmd x (cache_abs utxo best c) = (cache_abs utxo best c', out) \<and> cache_ok I utxo K c'"
proof -
  have i: "cache_inv I utxo c" and d: "dom (cacheCoins c) \<subseteq> K" using assms(1) by (simp_all add: cache_ok_def)
  have dk: "dom (cacheCoins c') \<subseteq> insert p (dom (cacheCoins c)) \<Longrightarrow> p \<in> K \<Longrightarrow> dom (cacheCoins c') \<subseteq> K" for c' p using d by blast
  note defs = cache_abs_def cache_ok_def
  show ?thesis
  proof (cases x)
    case (Cmd_GetCoin p)
    obtain c' ok coin where g: "GetCoin vw c p = (c', ok, coin)" by (rule prod_cases3)
    show ?thesis using GetCoin_spec [OF i g] g dk [of c' p] assms(2) by (simp add: Cmd_GetCoin defs)
  next
    case (Cmd_HaveCoin p)
    obtain c' ok where g: "HaveCoin vw c p = (c', ok)" by force
    show ?thesis using HaveCoin_spec [OF i g] g dk [of c' p] assms(2) by (simp add: Cmd_HaveCoin defs)
  next
    case (Cmd_AccessCoin p)
    obtain c' coin where g: "AccessCoin vw c p = (c', coin)" by force
    show ?thesis using AccessCoin_spec [OF i g] g dk [of c' p] assms(2) by (simp add: Cmd_AccessCoin defs unspent_coin_def)
  next
    case (Cmd_AddCoin p coin ovw)
    then show ?thesis using run_cmd_add assms by blast
  next
    case (Cmd_SpendCoin p)
    obtain c' r where g: "SpendCoin vw c p = (c', r)" by force
    show ?thesis using SpendCoin_spec [OF i g] g dk [of c' p] assms(2) by (simp add: Cmd_SpendCoin defs unspent_coin_def split: option.split)
  next
    case Cmd_GetBestBlock
    obtain c' h where g: "GetBestBlock vw c = (c', h)" by force
    show ?thesis using GetBestBlock_spec [OF i g] g d by (auto simp: Cmd_GetBestBlock defs)
  next
    case (Cmd_SetBestBlock h)
    have "cache_inv I utxo (SetBestBlock c h)" "cache_utxo utxo (SetBestBlock c h) = cache_utxo utxo c"
      using i by (simp_all add: SetBestBlock_def cache_inv_def cache_utxo_def fun_eq_iff split: option.split)
    then show ?thesis using d assms(2) by (simp add: Cmd_SetBestBlock defs cache_best_def SetBestBlock_def)
  next
    case (Cmd_Uncache p)
    then show ?thesis using Uncache_spec [OF i, of p] subset_trans [OF _ d] by (simp add: defs cache_best_def)
  next
    case (Cmd_Flush ord)
    then have "\<not> hash_IsNull (cv_hashBlock c)" "distinct ord" "dom (cacheCoins c) \<subseteq> set ord" using assms(2) d by (auto simp: cache_abs_def)
    from Flush_spec [OF i this] obtain c' where "Flush vw ord c = Inr (c', True)" "cache_inv I utxo c'" "cache_utxo utxo c' = cache_utxo utxo c"
      "cv_hashBlock c' = cv_hashBlock c" "cacheCoins c' = Map.empty" by blast
    then show ?thesis using assms(2) by (simp add: Cmd_Flush defs cache_best_def)
  qed
qed

lemma run_cmds_simulates:
  assumes "cache_ok I utxo K c" "cmds_ok K xs (cache_abs utxo best c)"
  shows "\<exists>c' outs. run_cmds vw xs c = Inr (c', outs) \<and> map_cmds xs (cache_abs utxo best c) = (cache_abs utxo best c', outs) \<and> cache_ok I utxo K c'"
  using assms
proof (induction xs arbitrary: c)
  case Nil
  then show ?case by simp
next
  case (Cons x xs)
  obtain c1 out where 1: "run_cmd vw x c = Inr (c1, out)" "map_cmd x (cache_abs utxo best c) = (cache_abs utxo best c1, out)" "cache_ok I utxo K c1"
    using run_cmd_simulates [OF Cons.prems(1), of x] Cons.prems(2) by auto
  then obtain c2 outs where "run_cmds vw xs c1 = Inr (c2, outs)" "map_cmds xs (cache_abs utxo best c1) = (cache_abs utxo best c2, outs)" "cache_ok I utxo K c2"
    using Cons.IH [OF 1(3)] Cons.prems(2) by auto
  with 1 show ?case by simp
qed

end

lemma run_cmds_snoc: "run_cmds vw (xs @ [x]) c = Inr (c', outs) \<Longrightarrow> \<exists>c1 out. run_cmd vw x c1 = Inr (c', out)"
proof (induction xs arbitrary: c outs)
  case Nil
  then show ?case by (auto split: sum.splits)
next
  case (Cons y ys)
  obtain c1 out where y: "run_cmd vw y c = Inr (c1, out)" using Cons.prems by (auto split: sum.splits)
  then obtain outs' where "run_cmds vw (ys @ [x]) c1 = Inr (c', outs')" using Cons.prems by (cases "run_cmds vw (ys @ [x]) c1") auto
  then show ?case by (rule Cons.IH)
qed

lemma Flush_empties: "run_cmd vw (Cmd_Flush ord) c = Inr (c', out) \<Longrightarrow> cacheCoins c' = Map.empty"
  by (cases "vw_BatchWrite vw (cv_base c) (traverse ord (cacheCoins c)) (cv_hashBlock c)") (auto simp: Flush_def)

text \<open>C1. Whatever calls are made on a cache over a view that keeps its contract, be it the database or another cache, the caller
  observes exactly what a plain map of unspent coins would answer, no exception is thrown, and the flags stay consistent with
  the view below. After a flush the view below holds all the coins.\<close>
theorem cache_simulates_map:
  assumes "coins_view vw I utxo best" "cache_ok I utxo K c" "cmds_ok K xs (cache_abs utxo best c)"
  shows "\<exists>c' outs. run_cmds vw xs c = Inr (c', outs) \<and> map_cmds xs (cache_abs utxo best c) = (cache_abs utxo best c', outs) \<and>
    cache_ok I utxo K c' \<and> (\<forall>ys ord. xs = ys @ [Cmd_Flush ord] \<longrightarrow> utxo (cv_base c') = cache_utxo utxo c')"
proof -
  obtain c' outs where r: "run_cmds vw xs c = Inr (c', outs)" "map_cmds xs (cache_abs utxo best c) = (cache_abs utxo best c', outs)"
    "cache_ok I utxo K c'" using coins_view.run_cmds_simulates [OF assms] by blast
  have "utxo (cv_base c') = cache_utxo utxo c'" if xs: "xs = ys @ [Cmd_Flush ord]" for ys ord
  proof -
    obtain c1 out where "run_cmd vw (Cmd_Flush ord) c1 = Inr (c', out)" using run_cmds_snoc r(1) unfolding xs by blast
    then have "cacheCoins c' = Map.empty" by (rule Flush_empties)
    then show ?thesis by (simp add: cache_utxo_def fun_eq_iff)
  qed
  with r show ?thesis by blast
qed

definition sample_coin :: Coin where
  "sample_coin = Coin_of \<lparr>nValue = 50, scriptPubKey = [OP_1]\<rparr> 7 True False"

definition sample_db :: CCoinsViewDB where
  "sample_db = \<lparr>db_coins = Map.empty, db_best = None, db_heads = None\<rparr>"

lemma sample_coin_unspent: "\<not> Coin_IsSpent sample_coin" "\<not> IsUnspendable (scriptPubKey (coin_out sample_coin))"
  by (simp_all add: sample_coin_def Coin_of_def Coin_IsSpent_def CTxOut_IsNull_def IsUnspendable_def MAX_SCRIPT_SIZE_def)

theorem cache_simulates_map_witness:
  "\<exists>c'. run_cmds (db_view length 0)
      [Cmd_SetBestBlock [1], Cmd_AddCoin COutPoint_null sample_coin False, Cmd_Flush [COutPoint_null], Cmd_SpendCoin COutPoint_null,
       Cmd_GetCoin COutPoint_null, Cmd_GetBestBlock] (CCoinsViewCache_of sample_db) =
    Inr (c', [Out_bool True, Out_bool True, Out_bool True, Out_coin (Some sample_coin), Out_coin None, Out_hash [1]])"
proof -
  let ?c = "CCoinsViewCache_of sample_db" and ?K = "{COutPoint_null}"
  have c: "cache_ok db_inv db_coins ?K ?c"
    by (simp add: cache_ok_def cache_inv_def CCoinsViewCache_of_def db_inv_def sample_db_def)
  have a: "cache_abs db_coins db_GetBestBlock ?c = (Map.empty, replicate 32 0, False)"
    by (simp add: cache_abs_def cache_utxo_def cache_best_def CCoinsViewCache_of_def sample_db_def db_GetBestBlock_def hash_IsNull_def fun_eq_iff list_all_iff)
  show ?thesis using cache_simulates_map [OF db.coins_view_axioms [of length 0] c, unfolded a, of
      "[Cmd_SetBestBlock [1], Cmd_AddCoin COutPoint_null sample_coin False, Cmd_Flush [COutPoint_null], Cmd_SpendCoin COutPoint_null,
        Cmd_GetCoin COutPoint_null, Cmd_GetBestBlock]"]
    by (auto simp: sample_coin_unspent hash_IsNull_def)
qed

text \<open>C32. Writing a cache to the database survives a crash between any two batches, however the batches are cut: every intermediate
  state has no best block and names the new and the old tip, and writing the same entries once more from there, in any order and
  in any batches, gives exactly the state that the undisturbed write gives.\<close>
theorem database_write_restartable:
  assumes "\<not> hash_IsNull h" "db_heads db = None" "distinct (map fst its)" "distinct (map fst its')" "set its' = set its"
  shows "\<exists>dbs final. db_states sz bs db its h = Inr (dbs @ [final]) \<and>
    final = \<lparr>db_coins = write_through its (db_coins db), db_best = Some h, db_heads = None\<rparr> \<and>
    (\<forall>s \<in> set dbs. db_GetHeadBlocks s = [h, db_GetBestBlock db] \<and> db_best s = None \<and>
       db_BatchWrite sz' bs' s its' h = Inr (final, True))"
proof -
  let ?f = "\<lparr>db_coins = write_through its (db_coins db), db_best = Some h, db_heads = None\<rparr>"
  obtain dbs where st: "db_states sz bs db its h = Inr (dbs @ [?f])" and
    all: "\<forall>s \<in> set dbs. \<exists>k \<le> length its. \<exists>old. s = \<lparr>db_coins = write_through (take k its) (db_coins db), db_best = None, db_heads = Some [h, old]\<rparr> \<and>
      (db_heads db = None \<longrightarrow> old = db_GetBestBlock db)"
    using db_states_spec [OF assms(1), of db sz bs its] assms(2) by (auto simp: db_GetHeadBlocks_def)
  have same: "map_of its' = map_of its" using assms(3-5) by (simp add: map_of_inject_set)
  have again: "write_through its' (write_through (take k its) v) = write_through its v" for k v
  proof
    fix p
    have sub: "map_of (take k its) p = Some e \<Longrightarrow> map_of its p = Some e" for e
      using assms(3) by (auto dest!: map_of_SomeD in_set_takeD intro: map_of_is_SomeI)
    have "distinct (map fst (take k its))" using assms(3) by (simp add: take_map [symmetric])
    then show "write_through its' (write_through (take k its) v) p = write_through its v p"
      using sub unfolding write_through_lookup [OF assms(4)] write_through_lookup [OF assms(3)] same
      by (auto simp: write_through_lookup split: option.split)
  qed
  have "db_GetHeadBlocks s = [h, db_GetBestBlock db] \<and> db_best s = None \<and> db_BatchWrite sz' bs' s its' h = Inr (?f, True)" if sin: "s \<in> set dbs" for s
  proof -
    obtain k where s: "s = \<lparr>db_coins = write_through (take k its) (db_coins db), db_best = None, db_heads = Some [h, db_GetBestBlock db]\<rparr>"
      using bspec [OF all sin] assms(2) by blast
    obtain dbs' where "db_states sz' bs' s its' h = Inr (dbs' @ [\<lparr>db_coins = write_through its' (db_coins s), db_best = Some h, db_heads = None\<rparr>])"
      using db_states_spec [OF assms(1), of s sz' bs' its'] by (auto simp: s db_GetHeadBlocks_def)
    then show ?thesis by (simp add: db_BatchWrite_def s again db_GetHeadBlocks_def)
  qed
  with st show ?thesis by blast
qed

theorem database_write_restartable_witness:
  "let e = \<lparr>ce_coin = sample_coin, ce_flags = DIRTY\<rparr>; p = COutPoint_null; q = p\<lparr>op_n := 0\<rparr>
   in \<exists>dbs final. db_states length 0 sample_db [(p, e), (q, e)] [1] = Inr (dbs @ [final]) \<and> dbs \<noteq> [] \<and>
      (\<forall>s \<in> set dbs. db_BatchWrite length 5 s [(q, e), (p, e)] [1] = Inr (final, True))"
proof -
  let ?e = "\<lparr>ce_coin = sample_coin, ce_flags = DIRTY\<rparr>" and ?p = COutPoint_null
  let ?q = "?p\<lparr>op_n := 0\<rparr>"
  have d: "distinct (map fst [(?p, ?e), (?q, ?e)])" "distinct (map fst [(?q, ?e), (?p, ?e)])" by (auto simp: COutPoint_null_def)
  have s: "set [(?q, ?e), (?p, ?e)] = set [(?p, ?e), (?q, ?e)]" by auto
  have h: "\<not> hash_IsNull [1]" "db_heads sample_db = None" by (simp_all add: hash_IsNull_def sample_db_def)
  obtain dbs final where r: "db_states length 0 sample_db [(?p, ?e), (?q, ?e)] [1] = Inr (dbs @ [final])"
    "\<forall>s \<in> set dbs. db_BatchWrite length 5 s [(?q, ?e), (?p, ?e)] [1] = Inr (final, True)"
    using database_write_restartable [OF h d s, of length 0 length 5] by blast
  moreover have "dbs \<noteq> []" using r(1) h(1) by (auto simp: db_states_def db_GetHeadBlocks_def sample_db_def Let_def split: prod.splits)
  ultimately show ?thesis by (simp only: Let_def) blast
qed

end
