(* ===== verification/Script_Eval.thy ===== *)
theory Script_Eval
  imports Transaction
begin

text \<open>
  The stack machine of \<^verbatim>\<open>src/src/script/interpreter.cpp\<close>: encoding checks and \<^verbatim>\<open>EvalScript\<close>. A stack is a list with
  its top first, so \<^verbatim>\<open>stacktop(-i)\<close> is element \<open>i - 1\<close>; an iterator into the script is the suffix it points to. Each
  group of cases of the big \<^verbatim>\<open>switch\<close> is a definition; one round of the loop is \<open>eval_step\<close>, which continues, returns
  success or fails. Exceptions (a number that is too long or not minimal) end in the error of the \<^verbatim>\<open>catch\<close> clause.
  Signature verification is the virtual interface of the checker, a record of functions; the low-S test of
  \<^verbatim>\<open>CPubKey\<close>, which calls the elliptic-curve library, is a parameter of the environment.
\<close>

subsection \<open>Errors and flags\<close>

(* src/src/script/script_error.h:9-68 ScriptError *)
datatype ScriptError =
    SCRIPT_ERR_OK | SCRIPT_ERR_UNKNOWN_ERROR | SCRIPT_ERR_EVAL_FALSE | SCRIPT_ERR_OP_RETURN | SCRIPT_ERR_SCRIPT_SIZE 
  | SCRIPT_ERR_PUSH_SIZE | SCRIPT_ERR_OP_COUNT | SCRIPT_ERR_STACK_SIZE | SCRIPT_ERR_SIG_COUNT 
  | SCRIPT_ERR_PUBKEY_COUNT | SCRIPT_ERR_VERIFY | SCRIPT_ERR_EQUALVERIFY | SCRIPT_ERR_CHECKMULTISIGVERIFY 
  | SCRIPT_ERR_CHECKSIGVERIFY | SCRIPT_ERR_NUMEQUALVERIFY | SCRIPT_ERR_BAD_OPCODE | SCRIPT_ERR_DISABLED_OPCODE 
  | SCRIPT_ERR_INVALID_STACK_OPERATION | SCRIPT_ERR_INVALID_ALTSTACK_OPERATION | SCRIPT_ERR_UNBALANCED_CONDITIONAL 
  | SCRIPT_ERR_NEGATIVE_LOCKTIME | SCRIPT_ERR_UNSATISFIED_LOCKTIME | SCRIPT_ERR_SIG_HASHTYPE | SCRIPT_ERR_SIG_DER 
  | SCRIPT_ERR_MINIMALDATA | SCRIPT_ERR_SIG_PUSHONLY | SCRIPT_ERR_SIG_HIGH_S | SCRIPT_ERR_SIG_NULLDUMMY 
  | SCRIPT_ERR_PUBKEYTYPE | SCRIPT_ERR_CLEANSTACK | SCRIPT_ERR_MINIMALIF | SCRIPT_ERR_SIG_NULLFAIL 
  | SCRIPT_ERR_DISCOURAGE_UPGRADABLE_NOPS | SCRIPT_ERR_DISCOURAGE_UPGRADABLE_WITNESS_PROGRAM 
  | SCRIPT_ERR_WITNESS_PROGRAM_WRONG_LENGTH | SCRIPT_ERR_WITNESS_PROGRAM_WITNESS_EMPTY 
  | SCRIPT_ERR_WITNESS_PROGRAM_MISMATCH | SCRIPT_ERR_WITNESS_MALLEATED | SCRIPT_ERR_WITNESS_MALLEATED_P2SH 
  | SCRIPT_ERR_WITNESS_UNEXPECTED | SCRIPT_ERR_WITNESS_PUBKEYTYPE | SCRIPT_ERR_ERROR_COUNT

(* src/src/script/script_error.cpp:8-95 ScriptErrorString *)
definition ScriptErrorString :: "ScriptError \<Rightarrow> string" where
  "ScriptErrorString serror =
     (case serror of
        SCRIPT_ERR_OK \<Rightarrow> ''No error''
      | SCRIPT_ERR_EVAL_FALSE \<Rightarrow> ''Script evaluated without error but finished with a false/empty top stack element''
      | SCRIPT_ERR_VERIFY \<Rightarrow> ''Script failed an OP_VERIFY operation''
      | SCRIPT_ERR_EQUALVERIFY \<Rightarrow> ''Script failed an OP_EQUALVERIFY operation''
      | SCRIPT_ERR_CHECKMULTISIGVERIFY \<Rightarrow> ''Script failed an OP_CHECKMULTISIGVERIFY operation''
      | SCRIPT_ERR_CHECKSIGVERIFY \<Rightarrow> ''Script failed an OP_CHECKSIGVERIFY operation''
      | SCRIPT_ERR_NUMEQUALVERIFY \<Rightarrow> ''Script failed an OP_NUMEQUALVERIFY operation''
      | SCRIPT_ERR_SCRIPT_SIZE \<Rightarrow> ''Script is too big''
      | SCRIPT_ERR_PUSH_SIZE \<Rightarrow> ''Push value size limit exceeded''
      | SCRIPT_ERR_OP_COUNT \<Rightarrow> ''Operation limit exceeded''
      | SCRIPT_ERR_STACK_SIZE \<Rightarrow> ''Stack size limit exceeded''
      | SCRIPT_ERR_SIG_COUNT \<Rightarrow> ''Signature count negative or greater than pubkey count''
      | SCRIPT_ERR_PUBKEY_COUNT \<Rightarrow> ''Pubkey count negative or limit exceeded''
      | SCRIPT_ERR_BAD_OPCODE \<Rightarrow> ''Opcode missing or not understood''
      | SCRIPT_ERR_DISABLED_OPCODE \<Rightarrow> ''Attempted to use a disabled opcode''
      | SCRIPT_ERR_INVALID_STACK_OPERATION \<Rightarrow> ''Operation not valid with the current stack size''
      | SCRIPT_ERR_INVALID_ALTSTACK_OPERATION \<Rightarrow> ''Operation not valid with the current altstack size''
      | SCRIPT_ERR_OP_RETURN \<Rightarrow> ''OP_RETURN was encountered''
      | SCRIPT_ERR_UNBALANCED_CONDITIONAL \<Rightarrow> ''Invalid OP_IF construction''
      | SCRIPT_ERR_NEGATIVE_LOCKTIME \<Rightarrow> ''Negative locktime''
      | SCRIPT_ERR_UNSATISFIED_LOCKTIME \<Rightarrow> ''Locktime requirement not satisfied''
      | SCRIPT_ERR_SIG_HASHTYPE \<Rightarrow> ''Signature hash type missing or not understood''
      | SCRIPT_ERR_SIG_DER \<Rightarrow> ''Non-canonical DER signature''
      | SCRIPT_ERR_MINIMALDATA \<Rightarrow> ''Data push larger than necessary''
      | SCRIPT_ERR_SIG_PUSHONLY \<Rightarrow> ''Only non-push operators allowed in signatures''
      | SCRIPT_ERR_SIG_HIGH_S \<Rightarrow> ''Non-canonical signature: S value is unnecessarily high''
      | SCRIPT_ERR_SIG_NULLDUMMY \<Rightarrow> ''Dummy CHECKMULTISIG argument must be zero''
      | SCRIPT_ERR_MINIMALIF \<Rightarrow> ''OP_IF/NOTIF argument must be minimal''
      | SCRIPT_ERR_SIG_NULLFAIL \<Rightarrow> ''Signature must be zero for failed CHECK(MULTI)SIG operation''
      | SCRIPT_ERR_DISCOURAGE_UPGRADABLE_NOPS \<Rightarrow> ''NOPx reserved for soft-fork upgrades''
      | SCRIPT_ERR_DISCOURAGE_UPGRADABLE_WITNESS_PROGRAM \<Rightarrow> ''Witness version reserved for soft-fork upgrades''
      | SCRIPT_ERR_PUBKEYTYPE \<Rightarrow> ''Public key is neither compressed or uncompressed''
      | SCRIPT_ERR_WITNESS_PROGRAM_WRONG_LENGTH \<Rightarrow> ''Witness program has incorrect length''
      | SCRIPT_ERR_WITNESS_PROGRAM_WITNESS_EMPTY \<Rightarrow> ''Witness program was passed an empty witness''
      | SCRIPT_ERR_WITNESS_PROGRAM_MISMATCH \<Rightarrow> ''Witness program hash mismatch''
      | SCRIPT_ERR_WITNESS_MALLEATED \<Rightarrow> ''Witness requires empty scriptSig''
      | SCRIPT_ERR_WITNESS_MALLEATED_P2SH \<Rightarrow> ''Witness requires only-redeemscript scriptSig''
      | SCRIPT_ERR_WITNESS_UNEXPECTED \<Rightarrow> ''Witness provided for non-witness script''
      | SCRIPT_ERR_WITNESS_PUBKEYTYPE \<Rightarrow> ''Using non-compressed keys in segwit''
      | SCRIPT_ERR_UNKNOWN_ERROR \<Rightarrow> ''unknown error''
      | SCRIPT_ERR_ERROR_COUNT \<Rightarrow> ''unknown error''
      | _ \<Rightarrow> ''unknown error'')"

(* src/src/script/interpreter.h:26-26 SIGHASH_ALL *)
definition SIGHASH_ALL :: u32 where
  "SIGHASH_ALL = 1"

(* src/src/script/interpreter.h:27-27 SIGHASH_NONE *)
definition SIGHASH_NONE :: u32 where
  "SIGHASH_NONE = 2"

(* src/src/script/interpreter.h:28-28 SIGHASH_SINGLE *)
definition SIGHASH_SINGLE :: u32 where
  "SIGHASH_SINGLE = 3"

(* src/src/script/interpreter.h:29-29 SIGHASH_ANYONECANPAY *)
definition SIGHASH_ANYONECANPAY :: u32 where
  "SIGHASH_ANYONECANPAY = 0x80"

(* src/src/script/interpreter.h:38-38 SCRIPT_VERIFY_P2SH *)
definition SCRIPT_VERIFY_P2SH :: u32 where
  "SCRIPT_VERIFY_P2SH = push_bit 0 1"

(* src/src/script/interpreter.h:43-43 SCRIPT_VERIFY_STRICTENC *)
definition SCRIPT_VERIFY_STRICTENC :: u32 where
  "SCRIPT_VERIFY_STRICTENC = push_bit 1 1"

(* src/src/script/interpreter.h:46-46 SCRIPT_VERIFY_DERSIG *)
definition SCRIPT_VERIFY_DERSIG :: u32 where
  "SCRIPT_VERIFY_DERSIG = push_bit 2 1"

(* src/src/script/interpreter.h:50-50 SCRIPT_VERIFY_LOW_S *)
definition SCRIPT_VERIFY_LOW_S :: u32 where
  "SCRIPT_VERIFY_LOW_S = push_bit 3 1"

(* src/src/script/interpreter.h:53-53 SCRIPT_VERIFY_NULLDUMMY *)
definition SCRIPT_VERIFY_NULLDUMMY :: u32 where
  "SCRIPT_VERIFY_NULLDUMMY = push_bit 4 1"

(* src/src/script/interpreter.h:56-56 SCRIPT_VERIFY_SIGPUSHONLY *)
definition SCRIPT_VERIFY_SIGPUSHONLY :: u32 where
  "SCRIPT_VERIFY_SIGPUSHONLY = push_bit 5 1"

(* src/src/script/interpreter.h:63-63 SCRIPT_VERIFY_MINIMALDATA *)
definition SCRIPT_VERIFY_MINIMALDATA :: u32 where
  "SCRIPT_VERIFY_MINIMALDATA = push_bit 6 1"

(* src/src/script/interpreter.h:73-73 SCRIPT_VERIFY_DISCOURAGE_UPGRADABLE_NOPS *)
definition SCRIPT_VERIFY_DISCOURAGE_UPGRADABLE_NOPS :: u32 where
  "SCRIPT_VERIFY_DISCOURAGE_UPGRADABLE_NOPS = push_bit 7 1"

(* src/src/script/interpreter.h:80-80 SCRIPT_VERIFY_CLEANSTACK *)
definition SCRIPT_VERIFY_CLEANSTACK :: u32 where
  "SCRIPT_VERIFY_CLEANSTACK = push_bit 8 1"

(* src/src/script/interpreter.h:85-85 SCRIPT_VERIFY_CHECKLOCKTIMEVERIFY *)
definition SCRIPT_VERIFY_CHECKLOCKTIMEVERIFY :: u32 where
  "SCRIPT_VERIFY_CHECKLOCKTIMEVERIFY = push_bit 9 1"

(* src/src/script/interpreter.h:90-90 SCRIPT_VERIFY_CHECKSEQUENCEVERIFY *)
definition SCRIPT_VERIFY_CHECKSEQUENCEVERIFY :: u32 where
  "SCRIPT_VERIFY_CHECKSEQUENCEVERIFY = push_bit 10 1"

(* src/src/script/interpreter.h:94-94 SCRIPT_VERIFY_WITNESS *)
definition SCRIPT_VERIFY_WITNESS :: u32 where
  "SCRIPT_VERIFY_WITNESS = push_bit 11 1"

(* src/src/script/interpreter.h:98-98 SCRIPT_VERIFY_DISCOURAGE_UPGRADABLE_WITNESS_PROGRAM *)
definition SCRIPT_VERIFY_DISCOURAGE_UPGRADABLE_WITNESS_PROGRAM :: u32 where
  "SCRIPT_VERIFY_DISCOURAGE_UPGRADABLE_WITNESS_PROGRAM = push_bit 12 1"

(* src/src/script/interpreter.h:102-102 SCRIPT_VERIFY_MINIMALIF *)
definition SCRIPT_VERIFY_MINIMALIF :: u32 where
  "SCRIPT_VERIFY_MINIMALIF = push_bit 13 1"

(* src/src/script/interpreter.h:106-106 SCRIPT_VERIFY_NULLFAIL *)
definition SCRIPT_VERIFY_NULLFAIL :: u32 where
  "SCRIPT_VERIFY_NULLFAIL = push_bit 14 1"

(* src/src/script/interpreter.h:110-110 SCRIPT_VERIFY_WITNESS_PUBKEYTYPE *)
definition SCRIPT_VERIFY_WITNESS_PUBKEYTYPE :: u32 where
  "SCRIPT_VERIFY_WITNESS_PUBKEYTYPE = push_bit 15 1"

(* src/src/script/interpreter.h:114-114 SCRIPT_EXEC_BYTE_CODE *)
definition SCRIPT_EXEC_BYTE_CODE :: u32 where
  "SCRIPT_EXEC_BYTE_CODE = push_bit 30 1"


(* src/src/script/interpreter.h:126-130 SigVersion *)
datatype SigVersion = SIGVERSION_BASE | SIGVERSION_WITNESS_V0

definition has_flag :: "u32 \<Rightarrow> u32 \<Rightarrow> bool" where
  "has_flag flags f \<longleftrightarrow> flags AND f \<noteq> 0"

(* src/src/script/interpreter.h:134-153 BaseSignatureChecker *)
record checker =
  CheckSig :: "bytes \<Rightarrow> bytes \<Rightarrow> bytes \<Rightarrow> SigVersion \<Rightarrow> bool"
  CheckLockTime :: "int \<Rightarrow> bool"
  CheckSequence :: "int \<Rightarrow> bool"

(* src/src/script/interpreter.h:134-153 BaseSignatureChecker *)
definition BaseSignatureChecker :: checker where
  "BaseSignatureChecker = \<lparr>CheckSig = \<lambda>_ _ _ _. False, CheckLockTime = \<lambda>_. False, CheckSequence = \<lambda>_. False\<rparr>"

text \<open>What a run of the machine is given besides stack and script.\<close>

record eval_env =
  ee_flags :: u32
  ee_checker :: checker
  ee_sigversion :: SigVersion
  ee_CheckLowS :: "bytes \<Rightarrow> bool"

abbreviation flag :: "eval_env \<Rightarrow> u32 \<Rightarrow> bool" where
  "flag e f \<equiv> has_flag (ee_flags e) f"

subsection \<open>Encodings\<close>

(* src/src/script/interpreter.cpp:35-48 CastToBool *)
fun CastToBool :: "bytes \<Rightarrow> bool" where
  "CastToBool [] = False"
| "CastToBool (b # bs) = (if b \<noteq> 0 then \<not> (bs = [] \<and> b = 0x80) else CastToBool bs)"

(* src/src/script/interpreter.cpp:63-83 IsCompressedOrUncompressedPubKey *)
definition IsCompressedOrUncompressedPubKey :: "bytes \<Rightarrow> bool" where
  "IsCompressedOrUncompressedPubKey vchPubKey =
     (if length vchPubKey < 33 then False
      else if vchPubKey ! 0 = 0x04 then length vchPubKey = 65
      else if vchPubKey ! 0 = 0x02 \<or> vchPubKey ! 0 = 0x03 then length vchPubKey = 33
      else False)"

(* src/src/script/interpreter.cpp:85-95 IsCompressedPubKey *)
definition IsCompressedPubKey :: "bytes \<Rightarrow> bool" where
  "IsCompressedPubKey vchPubKey =
     (if length vchPubKey \<noteq> 33 then False else vchPubKey ! 0 = 0x02 \<or> vchPubKey ! 0 = 0x03)"

(* src/src/script/interpreter.cpp:107-170 IsValidSignatureEncoding *)
definition IsValidSignatureEncoding :: "bytes \<Rightarrow> bool \<Rightarrow> bool" where
  "IsValidSignatureEncoding sig haveHashType =
     (if length sig < 9 then False
      else if length sig > 73 then False
      else if sig ! 0 \<noteq> 0x30 then False
      else if unat (sig ! 1) \<noteq> length sig - (if haveHashType then 3 else 2) then False
      else let lenR = unat (sig ! 3) in
        if 5 + lenR \<ge> length sig then False
        else let lenS = unat (sig ! (5 + lenR)) in
          if lenR + lenS + (if haveHashType then 7 else 6) \<noteq> length sig then False
          else if sig ! 2 \<noteq> 0x02 then False
          else if lenR = 0 then False
          else if sig ! 4 AND 0x80 \<noteq> 0 then False
          else if lenR > 1 \<and> sig ! 4 = 0x00 \<and> sig ! 5 AND 0x80 = 0 then False
          else if sig ! (lenR + 4) \<noteq> 0x02 then False
          else if lenS = 0 then False
          else if sig ! (lenR + 6) AND 0x80 \<noteq> 0 then False
          else \<not> (lenS > 1 \<and> sig ! (lenR + 6) = 0x00 \<and> sig ! (lenR + 7) AND 0x80 = 0))"

text \<open>Checks that report through the error pointer return the error they set, or nothing.\<close>

(* src/src/script/interpreter.cpp:172-181 IsLowDERSignature *)
definition IsLowDERSignature :: "(bytes \<Rightarrow> bool) \<Rightarrow> bytes \<Rightarrow> bool \<Rightarrow> ScriptError option" where
  "IsLowDERSignature low_s vchSig haveHashType =
     (if \<not> IsValidSignatureEncoding vchSig haveHashType then Some SCRIPT_ERR_SIG_DER
      else if \<not> low_s (take (length vchSig - (if haveHashType then 1 else 0)) vchSig) then Some SCRIPT_ERR_SIG_HIGH_S
      else None)"

(* src/src/script/interpreter.cpp:183-188 IsDERSignature *)
definition IsDERSignature :: "bytes \<Rightarrow> bool \<Rightarrow> ScriptError option" where
  "IsDERSignature vchSig haveHashType =
     (if \<not> IsValidSignatureEncoding vchSig haveHashType then Some SCRIPT_ERR_SIG_DER else None)"

(* src/src/script/interpreter.cpp:190-199 IsDefinedHashtypeSignature *)
definition IsDefinedHashtypeSignature :: "bytes \<Rightarrow> bool" where
  "IsDefinedHashtypeSignature vchSig =
     (if vchSig = [] then False
      else let nHashType = ucast (last vchSig AND NOT 0x80) :: u32
           in \<not> (nHashType < SIGHASH_ALL \<or> nHashType > SIGHASH_SINGLE))"

(* src/src/script/interpreter.cpp:201-216 CheckSignatureEncoding *)
definition CheckSignatureEncoding :: "eval_env \<Rightarrow> bytes \<Rightarrow> ScriptError option" where
  "CheckSignatureEncoding e vchSig =
     (if vchSig = [] then None
      else if flag e (SCRIPT_VERIFY_DERSIG OR SCRIPT_VERIFY_LOW_S OR SCRIPT_VERIFY_STRICTENC) \<and> \<not> IsValidSignatureEncoding vchSig True
      then Some SCRIPT_ERR_SIG_DER
      else if flag e SCRIPT_VERIFY_LOW_S \<and> IsLowDERSignature (ee_CheckLowS e) vchSig True \<noteq> None
      then IsLowDERSignature (ee_CheckLowS e) vchSig True
      else if flag e SCRIPT_VERIFY_STRICTENC \<and> \<not> IsDefinedHashtypeSignature vchSig then Some SCRIPT_ERR_SIG_HASHTYPE
      else None)"

(* src/src/script/interpreter.cpp:218-227 CheckPubKeyEncoding *)
definition CheckPubKeyEncoding :: "eval_env \<Rightarrow> bytes \<Rightarrow> ScriptError option" where
  "CheckPubKeyEncoding e vchPubKey =
     (if flag e SCRIPT_VERIFY_STRICTENC \<and> \<not> IsCompressedOrUncompressedPubKey vchPubKey then Some SCRIPT_ERR_PUBKEYTYPE
      else if flag e SCRIPT_VERIFY_WITNESS_PUBKEYTYPE \<and> ee_sigversion e = SIGVERSION_WITNESS_V0 \<and> \<not> IsCompressedPubKey vchPubKey
      then Some SCRIPT_ERR_WITNESS_PUBKEYTYPE
      else None)"

(* src/src/script/interpreter.cpp:229-250 CheckMinimalPush *)
definition CheckMinimalPush :: "bytes \<Rightarrow> u8 \<Rightarrow> bool" where
  "CheckMinimalPush dat opcode =
     (if dat = [] then opcode = OP_0
      else if length dat = 1 \<and> dat ! 0 \<ge> 1 \<and> dat ! 0 \<le> 16 then unat opcode = unat OP_1 + (unat (dat ! 0) - 1)
      else if length dat = 1 \<and> dat ! 0 = 0x81 then opcode = OP_1NEGATE
      else if length dat \<le> 75 then unat opcode = length dat
      else if length dat \<le> 255 then opcode = OP_PUSHDATA1
      else if length dat \<le> 65535 then opcode = OP_PUSHDATA2
      else True)"

subsection \<open>Machine state\<close>

(* src/src/script/interpreter.cpp:262-272 EvalScript *)
record eval_state =
  es_stack :: "bytes list"
  es_altstack :: "bytes list"
  es_vfExec :: "bool list"
  es_pc :: bytes
  es_codehash :: bytes
  es_nOpCount :: int

text \<open>The result of one operation: stop with an error, stop with success and the stack, or go on.\<close>

datatype outcome = Fail ScriptError | Done "bytes list" | Go eval_state

(* src/src/script/interpreter.cpp:258-260 EvalScript *)
definition vchBool :: "bool \<Rightarrow> bytes" where
  "vchBool b = (if b then [1] else [])"

(* src/src/script/interpreter.cpp:273-273 EvalScript *)
definition fRequireMinimal :: "eval_env \<Rightarrow> bool" where
  "fRequireMinimal e = flag e SCRIPT_VERIFY_MINIMALDATA"

(* src/src/script/interpreter.cpp:1055-1058 EvalScript *)
definition with_num :: "eval_env \<Rightarrow> nat \<Rightarrow> bytes \<Rightarrow> (int \<Rightarrow> outcome) \<Rightarrow> outcome" where
  "with_num e nMaxNumSize vch f =
     (case CScriptNum vch (fRequireMinimal e) nMaxNumSize of None \<Rightarrow> Fail SCRIPT_ERR_UNKNOWN_ERROR | Some n \<Rightarrow> f n)"

definition set_stack :: "eval_state \<Rightarrow> bytes list \<Rightarrow> outcome" where
  "set_stack s st = Go (s\<lparr>es_stack := st\<rparr>)"

abbreviation (input) bad_stack :: outcome where
  "bad_stack \<equiv> Fail SCRIPT_ERR_INVALID_STACK_OPERATION"

subsection \<open>Operations\<close>

(* src/src/script/interpreter.cpp:321-345 EvalScript *)
definition op_push_value :: "u8 \<Rightarrow> eval_state \<Rightarrow> outcome" where
  "op_push_value opcode s = set_stack s (serialize_num (int (unat opcode) - (int (unat OP_1) - 1)) # es_stack s)"

(* src/src/script/interpreter.cpp:354-394 EvalScript *)
definition op_checklocktimeverify :: "eval_env \<Rightarrow> eval_state \<Rightarrow> outcome" where
  "op_checklocktimeverify e s =
     (if \<not> flag e SCRIPT_VERIFY_CHECKLOCKTIMEVERIFY
      then if flag e SCRIPT_VERIFY_DISCOURAGE_UPGRADABLE_NOPS then Fail SCRIPT_ERR_DISCOURAGE_UPGRADABLE_NOPS else Go s
      else case es_stack s of
             [] \<Rightarrow> bad_stack
           | vch # _ \<Rightarrow> with_num e 5 vch (\<lambda>nLockTime.
               if nLockTime < 0 then Fail SCRIPT_ERR_NEGATIVE_LOCKTIME
               else if \<not> CheckLockTime (ee_checker e) nLockTime then Fail SCRIPT_ERR_UNSATISFIED_LOCKTIME
               else Go s))"

(* src/src/script/interpreter.cpp:396-431 EvalScript *)
definition op_checksequenceverify :: "eval_env \<Rightarrow> eval_state \<Rightarrow> outcome" where
  "op_checksequenceverify e s =
     (if \<not> flag e SCRIPT_VERIFY_CHECKSEQUENCEVERIFY
      then if flag e SCRIPT_VERIFY_DISCOURAGE_UPGRADABLE_NOPS then Fail SCRIPT_ERR_DISCOURAGE_UPGRADABLE_NOPS else Go s
      else case es_stack s of
             [] \<Rightarrow> bad_stack
           | vch # _ \<Rightarrow> with_num e 5 vch (\<lambda>nSeq.
               if nSeq < 0 then Fail SCRIPT_ERR_NEGATIVE_LOCKTIME
               else if nSeq AND uint SEQUENCE_LOCKTIME_DISABLE_FLAG \<noteq> 0 then Go s
               else if \<not> CheckSequence (ee_checker e) nSeq then Fail SCRIPT_ERR_UNSATISFIED_LOCKTIME
               else Go s))"

(* src/src/script/interpreter.cpp:433-439 EvalScript *)
definition op_upgradable_nop :: "eval_env \<Rightarrow> eval_state \<Rightarrow> outcome" where
  "op_upgradable_nop e s =
     (if flag e SCRIPT_VERIFY_DISCOURAGE_UPGRADABLE_NOPS then Fail SCRIPT_ERR_DISCOURAGE_UPGRADABLE_NOPS else Go s)"

(* src/src/script/interpreter.cpp:441-464 EvalScript *)
definition op_if :: "eval_env \<Rightarrow> bool \<Rightarrow> u8 \<Rightarrow> eval_state \<Rightarrow> outcome" where
  "op_if e fExec opcode s =
     (if fExec
      then case es_stack s of
             [] \<Rightarrow> Fail SCRIPT_ERR_UNBALANCED_CONDITIONAL
           | vch # st \<Rightarrow>
               if ee_sigversion e = SIGVERSION_WITNESS_V0 \<and> flag e SCRIPT_VERIFY_MINIMALIF \<and>
                  (length vch > 1 \<or> length vch = 1 \<and> vch ! 0 \<noteq> 1)
               then Fail SCRIPT_ERR_MINIMALIF
               else let fValue = (if opcode = OP_NOTIF then \<not> CastToBool vch else CastToBool vch)
                    in Go (s\<lparr>es_stack := st, es_vfExec := fValue # es_vfExec s\<rparr>)
      else Go (s\<lparr>es_vfExec := False # es_vfExec s\<rparr>))"

(* src/src/script/interpreter.cpp:466-472 EvalScript *)
definition op_else :: "eval_state \<Rightarrow> outcome" where
  "op_else s = (case es_vfExec s of [] \<Rightarrow> Fail SCRIPT_ERR_UNBALANCED_CONDITIONAL | b # bs \<Rightarrow> Go (s\<lparr>es_vfExec := (\<not> b) # bs\<rparr>))"

(* src/src/script/interpreter.cpp:474-480 EvalScript *)
definition op_endif :: "eval_state \<Rightarrow> outcome" where
  "op_endif s = (case es_vfExec s of [] \<Rightarrow> Fail SCRIPT_ERR_UNBALANCED_CONDITIONAL | b # bs \<Rightarrow> Go (s\<lparr>es_vfExec := bs\<rparr>))"

(* src/src/script/interpreter.cpp:482-494 EvalScript *)
definition op_verify :: "eval_state \<Rightarrow> outcome" where
  "op_verify s = (case es_stack s of [] \<Rightarrow> bad_stack | vch # st \<Rightarrow> if CastToBool vch then set_stack s st else Fail SCRIPT_ERR_VERIFY)"

(* src/src/script/interpreter.cpp:506-604 EvalScript *)
definition op_stack :: "u8 \<Rightarrow> eval_state \<Rightarrow> outcome" where
  "op_stack opcode s =
     (if opcode = OP_TOALTSTACK then
        (case es_stack s of x # r \<Rightarrow> Go (s\<lparr>es_stack := r, es_altstack := x # es_altstack s\<rparr>) | _ \<Rightarrow> bad_stack)
      else if opcode = OP_FROMALTSTACK then
        (case es_altstack s of x # r \<Rightarrow> Go (s\<lparr>es_stack := x # es_stack s, es_altstack := r\<rparr>)
         | _ \<Rightarrow> Fail SCRIPT_ERR_INVALID_ALTSTACK_OPERATION)
      else if opcode = OP_2DROP then
        (case es_stack s of x2 # x1 # r \<Rightarrow> set_stack s r | _ \<Rightarrow> bad_stack)
      else if opcode = OP_2DUP then
        (case es_stack s of x2 # x1 # r \<Rightarrow> set_stack s (x2 # x1 # x2 # x1 # r) | _ \<Rightarrow> bad_stack)
      else if opcode = OP_3DUP then
        (case es_stack s of x3 # x2 # x1 # r \<Rightarrow> set_stack s (x3 # x2 # x1 # x3 # x2 # x1 # r) | _ \<Rightarrow> bad_stack)
      else if opcode = OP_2OVER then
        (case es_stack s of x4 # x3 # x2 # x1 # r \<Rightarrow> set_stack s (x2 # x1 # x4 # x3 # x2 # x1 # r) | _ \<Rightarrow> bad_stack)
      else if opcode = OP_2ROT then
        (case es_stack s of x6 # x5 # x4 # x3 # x2 # x1 # r \<Rightarrow> set_stack s (x2 # x1 # x6 # x5 # x4 # x3 # r) | _ \<Rightarrow> bad_stack)
      else if opcode = OP_2SWAP then
        (case es_stack s of x4 # x3 # x2 # x1 # r \<Rightarrow> set_stack s (x2 # x1 # x4 # x3 # r) | _ \<Rightarrow> bad_stack)
      else
        (case es_stack s of x # r \<Rightarrow> if CastToBool x then set_stack s (x # x # r) else Go s | _ \<Rightarrow> bad_stack))"

(* src/src/script/interpreter.cpp:652-668 EvalScript *)
definition op_pick_roll :: "eval_env \<Rightarrow> u8 \<Rightarrow> eval_state \<Rightarrow> outcome" where
  "op_pick_roll e opcode s =
     (case es_stack s of
        vch # x # r \<Rightarrow> with_num e nDefaultMaxNumSize vch (\<lambda>bn.
          let n = getint bn; st = x # r
          in if n < 0 \<or> n \<ge> int (length st) then bad_stack
             else let v = st ! nat n
                  in if opcode = OP_ROLL then set_stack s (v # take (nat n) st @ drop (nat n + 1) st) else set_stack s (v # st))
      | _ \<Rightarrow> bad_stack)"

(* src/src/script/interpreter.cpp:606-710 EvalScript *)
definition op_stack2 :: "eval_env \<Rightarrow> u8 \<Rightarrow> eval_state \<Rightarrow> outcome" where
  "op_stack2 e opcode s =
     (if opcode = OP_DEPTH then set_stack s (serialize_num (int (length (es_stack s))) # es_stack s)
      else if opcode = OP_DROP then
        (case es_stack s of x # r \<Rightarrow> set_stack s r | _ \<Rightarrow> bad_stack)
      else if opcode = OP_DUP then
        (case es_stack s of x # r \<Rightarrow> set_stack s (x # x # r) | _ \<Rightarrow> bad_stack)
      else if opcode = OP_NIP then
        (case es_stack s of x2 # x1 # r \<Rightarrow> set_stack s (x2 # r) | _ \<Rightarrow> bad_stack)
      else if opcode = OP_OVER then
        (case es_stack s of x2 # x1 # r \<Rightarrow> set_stack s (x1 # x2 # x1 # r) | _ \<Rightarrow> bad_stack)
      else if opcode = OP_PICK \<or> opcode = OP_ROLL then op_pick_roll e opcode s
      else if opcode = OP_ROT then
        (case es_stack s of x3 # x2 # x1 # r \<Rightarrow> set_stack s (x1 # x3 # x2 # r) | _ \<Rightarrow> bad_stack)
      else if opcode = OP_SWAP then
        (case es_stack s of x2 # x1 # r \<Rightarrow> set_stack s (x1 # x2 # r) | _ \<Rightarrow> bad_stack)
      else if opcode = OP_TUCK then
        (case es_stack s of x2 # x1 # r \<Rightarrow> set_stack s (x2 # x1 # x2 # r) | _ \<Rightarrow> bad_stack)
      else
        (case es_stack s of x # r \<Rightarrow> set_stack s (serialize_num (int (length x)) # x # r) | _ \<Rightarrow> bad_stack))"

(* src/src/script/interpreter.cpp:716-742 EvalScript *)
definition op_equal :: "u8 \<Rightarrow> eval_state \<Rightarrow> outcome" where
  "op_equal opcode s =
     (case es_stack s of
        x2 # x1 # r \<Rightarrow>
          (let fEqual = (x1 = x2)
           in if opcode = OP_EQUALVERIFY then if fEqual then set_stack s r else Fail SCRIPT_ERR_EQUALVERIFY
              else set_stack s (vchBool fEqual # r))
      | _ \<Rightarrow> bad_stack)"

definition num_bool :: "bool \<Rightarrow> int" where
  "num_bool b = (if b then 1 else 0)"

(* src/src/script/interpreter.cpp:759-768 EvalScript *)
definition unary_num :: "u8 \<Rightarrow> int \<Rightarrow> int" where
  "unary_num opcode bn =
     (if opcode = OP_1ADD then bn + 1
      else if opcode = OP_1SUB then bn - 1
      else if opcode = OP_NEGATE then - bn
      else if opcode = OP_ABS then if bn < 0 then - bn else bn
      else if opcode = OP_NOT then num_bool (bn = 0)
      else num_bool (bn \<noteq> 0))"

(* src/src/script/interpreter.cpp:748-772 EvalScript *)
definition op_unary :: "eval_env \<Rightarrow> u8 \<Rightarrow> eval_state \<Rightarrow> outcome" where
  "op_unary e opcode s =
     (case es_stack s of
        x # r \<Rightarrow> with_num e nDefaultMaxNumSize x (\<lambda>bn. set_stack s (serialize_num (unary_num opcode bn) # r))
      | _ \<Rightarrow> bad_stack)"

(* src/src/script/interpreter.cpp:794-816 EvalScript *)
definition binary_num :: "u8 \<Rightarrow> int \<Rightarrow> int \<Rightarrow> int" where
  "binary_num opcode bn1 bn2 =
     (if opcode = OP_ADD then bn1 + bn2
      else if opcode = OP_SUB then bn1 - bn2
      else if opcode = OP_BOOLAND then num_bool (bn1 \<noteq> 0 \<and> bn2 \<noteq> 0)
      else if opcode = OP_BOOLOR then num_bool (bn1 \<noteq> 0 \<or> bn2 \<noteq> 0)
      else if opcode = OP_NUMEQUAL then num_bool (bn1 = bn2)
      else if opcode = OP_NUMEQUALVERIFY then num_bool (bn1 = bn2)
      else if opcode = OP_NUMNOTEQUAL then num_bool (bn1 \<noteq> bn2)
      else if opcode = OP_LESSTHAN then num_bool (bn1 < bn2)
      else if opcode = OP_GREATERTHAN then num_bool (bn1 > bn2)
      else if opcode = OP_LESSTHANOREQUAL then num_bool (bn1 \<le> bn2)
      else if opcode = OP_GREATERTHANOREQUAL then num_bool (bn1 \<ge> bn2)
      else if opcode = OP_MIN then if bn1 < bn2 then bn1 else bn2
      else if bn1 > bn2 then bn1 else bn2)"

(* src/src/script/interpreter.cpp:774-829 EvalScript *)
definition op_binary :: "eval_env \<Rightarrow> u8 \<Rightarrow> eval_state \<Rightarrow> outcome" where
  "op_binary e opcode s =
     (case es_stack s of
        x2 # x1 # r \<Rightarrow> with_num e nDefaultMaxNumSize x1 (\<lambda>bn1. with_num e nDefaultMaxNumSize x2 (\<lambda>bn2.
          let v = serialize_num (binary_num opcode bn1 bn2)
          in if opcode = OP_NUMEQUALVERIFY then if CastToBool v then set_stack s r else Fail SCRIPT_ERR_NUMEQUALVERIFY
             else set_stack s (v # r)))
      | _ \<Rightarrow> bad_stack)"

(* src/src/script/interpreter.cpp:831-845 EvalScript *)
definition op_within :: "eval_env \<Rightarrow> eval_state \<Rightarrow> outcome" where
  "op_within e s =
     (case es_stack s of
        x3 # x2 # x1 # r \<Rightarrow>
          with_num e nDefaultMaxNumSize x1 (\<lambda>bn1. with_num e nDefaultMaxNumSize x2 (\<lambda>bn2. with_num e nDefaultMaxNumSize x3 (\<lambda>bn3.
            set_stack s (vchBool (bn2 \<le> bn1 \<and> bn1 < bn3) # r))))
      | _ \<Rightarrow> bad_stack)"

(* src/src/script/interpreter.cpp:851-875 EvalScript *)
definition op_hash :: "u8 \<Rightarrow> eval_state \<Rightarrow> outcome" where
  "op_hash opcode s =
     (case es_stack s of
        vch # r \<Rightarrow>
          set_stack s ((if opcode = OP_RIPEMD160 then CRIPEMD160_Finalize (CRIPEMD160_Write vch CRIPEMD160_Init)
             else if opcode = OP_SHA1 then CSHA1_Finalize (CSHA1_Write vch CSHA1_Init)
             else if opcode = OP_SHA256 then CSHA256_Finalize (CSHA256_Write vch CSHA256_Init)
             else if opcode = OP_HASH160 then CHash160_Finalize (CSHA256_Write vch CSHA256_Init)
             else CHash256_Finalize (CSHA256_Write vch CSHA256_Init)) # r)
      | _ \<Rightarrow> bad_stack)"

(* src/src/script/interpreter.cpp:884-922 EvalScript *)
definition op_checksig :: "eval_env \<Rightarrow> u8 \<Rightarrow> eval_state \<Rightarrow> outcome" where
  "op_checksig e opcode s =
     (case es_stack s of
        vchPubKey # vchSig # r \<Rightarrow>
          (let scriptCode = (if ee_sigversion e = SIGVERSION_BASE then fst (FindAndDelete (es_codehash s) (push_data vchSig))
                             else es_codehash s)
           in case CheckSignatureEncoding e vchSig of Some err \<Rightarrow> Fail err
              | None \<Rightarrow> (case CheckPubKeyEncoding e vchPubKey of Some err \<Rightarrow> Fail err
              | None \<Rightarrow>
                  let fSuccess = CheckSig (ee_checker e) vchSig vchPubKey scriptCode (ee_sigversion e)
                  in if \<not> fSuccess \<and> flag e SCRIPT_VERIFY_NULLFAIL \<and> vchSig \<noteq> [] then Fail SCRIPT_ERR_SIG_NULLFAIL
                     else if opcode = OP_CHECKSIGVERIFY
                     then if fSuccess then set_stack s r else Fail SCRIPT_ERR_CHECKSIGVERIFY
                     else set_stack s (vchBool fSuccess # r)))
      | _ \<Rightarrow> bad_stack)"

(* src/src/script/interpreter.cpp:968-996 EvalScript *)
function multisig_loop :: "eval_env \<Rightarrow> bytes list \<Rightarrow> bytes \<Rightarrow> nat \<Rightarrow> nat \<Rightarrow> int \<Rightarrow> int \<Rightarrow> ScriptError + bool" where
  "multisig_loop e st scriptCode isig ikey nSigsCount nKeysCount =
     (if nSigsCount \<le> 0 then Inr True
      else let vchSig = st ! (isig - 1); vchPubKey = st ! (ikey - 1)
           in case CheckSignatureEncoding e vchSig of Some err \<Rightarrow> Inl err
              | None \<Rightarrow> (case CheckPubKeyEncoding e vchPubKey of Some err \<Rightarrow> Inl err
              | None \<Rightarrow>
                  let fOk = CheckSig (ee_checker e) vchSig vchPubKey scriptCode (ee_sigversion e);
                      isig' = (if fOk then isig + 1 else isig);
                      nSigsCount' = (if fOk then nSigsCount - 1 else nSigsCount)
                  in if nSigsCount' > nKeysCount - 1 then Inr False
                     else multisig_loop e st scriptCode isig' (ikey + 1) nSigsCount' (nKeysCount - 1)))"
  by pat_completeness auto
termination
  by (relation "measure (\<lambda>(e, st, scriptCode, isig, ikey, nSigsCount, nKeysCount). nat nKeysCount)") (auto split: if_splits)

declare multisig_loop.simps [simp del]

(* src/src/script/interpreter.cpp:999-1006 EvalScript *)
fun multisig_cleanup :: "eval_env \<Rightarrow> bool \<Rightarrow> nat \<Rightarrow> nat \<Rightarrow> bytes list \<Rightarrow> ScriptError + bytes list" where
  "multisig_cleanup e fSuccess 0 ikey2 st = Inr st"
| "multisig_cleanup e fSuccess (Suc i) ikey2 [] = Inl SCRIPT_ERR_UNKNOWN_ERROR"
| "multisig_cleanup e fSuccess (Suc i) ikey2 (x # st) =
     (if \<not> fSuccess \<and> flag e SCRIPT_VERIFY_NULLFAIL \<and> ikey2 = 0 \<and> x \<noteq> [] then Inl SCRIPT_ERR_SIG_NULLFAIL
      else multisig_cleanup e fSuccess i (ikey2 - 1) st)"

(* src/src/script/interpreter.cpp:998-1029 EvalScript *)
definition multisig_finish :: "eval_env \<Rightarrow> u8 \<Rightarrow> eval_state \<Rightarrow> bool \<Rightarrow> nat \<Rightarrow> nat \<Rightarrow> outcome" where
  "multisig_finish e opcode s fSuccess i ikey2 =
     (case multisig_cleanup e fSuccess (i - 1) ikey2 (es_stack s) of
        Inl err \<Rightarrow> Fail err
      | Inr st \<Rightarrow>
          (case st of
             [] \<Rightarrow> bad_stack
           | dummy # r \<Rightarrow>
               if flag e SCRIPT_VERIFY_NULLDUMMY \<and> dummy \<noteq> [] then Fail SCRIPT_ERR_SIG_NULLDUMMY
               else if opcode = OP_CHECKMULTISIGVERIFY
               then if fSuccess then set_stack s r else Fail SCRIPT_ERR_CHECKMULTISIGVERIFY
               else set_stack s (vchBool fSuccess # r)))"

(* src/src/script/interpreter.cpp:924-1030 EvalScript *)
definition op_checkmultisig :: "eval_env \<Rightarrow> u8 \<Rightarrow> eval_state \<Rightarrow> outcome" where
  "op_checkmultisig e opcode s =
     (let st = es_stack s
      in if length st < 1 then bad_stack
         else with_num e nDefaultMaxNumSize (st ! 0) (\<lambda>bnKeys.
           let nKeysCount = getint bnKeys
           in if nKeysCount < 0 \<or> nKeysCount > int MAX_PUBKEYS_PER_MULTISIG then Fail SCRIPT_ERR_PUBKEY_COUNT
              else let s' = s\<lparr>es_nOpCount := es_nOpCount s + nKeysCount\<rparr>
              in if es_nOpCount s' > int MAX_OPS_PER_SCRIPT then Fail SCRIPT_ERR_OP_COUNT
              else let ikey = 2; ikey2 = nat nKeysCount + 2; i = 2 + nat nKeysCount
              in if length st < i then bad_stack
              else with_num e nDefaultMaxNumSize (st ! (i - 1)) (\<lambda>bnSigs.
                let nSigsCount = getint bnSigs
                in if nSigsCount < 0 \<or> nSigsCount > nKeysCount then Fail SCRIPT_ERR_SIG_COUNT
                   else let isig = i + 1; i' = i + 1 + nat nSigsCount
                   in if length st < i' then bad_stack
                   else let scriptCode = (if ee_sigversion e = SIGVERSION_BASE
                          then fold (\<lambda>k code. fst (FindAndDelete code (push_data (st ! (isig + k - 1))))) [0..<nat nSigsCount] (es_codehash s)
                          else es_codehash s)
                   in case multisig_loop e st scriptCode isig ikey nSigsCount nKeysCount of
                        Inl err \<Rightarrow> Fail err
                      | Inr fSuccess \<Rightarrow> multisig_finish e opcode s' fSuccess i' ikey2)))"

(* src/src/script/interpreter.cpp:1032-1044 EvalScript *)
definition op_contract :: "u8 \<Rightarrow> eval_state \<Rightarrow> outcome" where
  "op_contract opcode s = (if opcode = OP_SPEND then Done (es_stack s) else Done ((opcode # es_pc s) # es_stack s))"

(* src/src/script/interpreter.cpp:316-1048 EvalScript *)
definition exec_op :: "eval_env \<Rightarrow> bool \<Rightarrow> u8 \<Rightarrow> eval_state \<Rightarrow> outcome" where
  "exec_op e fExec opcode s =
     (if opcode = OP_1NEGATE \<or> OP_1 \<le> opcode \<and> opcode \<le> OP_16 then op_push_value opcode s
      else if opcode = OP_NOP then Go s
      else if opcode = OP_CHECKLOCKTIMEVERIFY then op_checklocktimeverify e s
      else if opcode = OP_CHECKSEQUENCEVERIFY then op_checksequenceverify e s
      else if opcode \<in> {OP_NOP1, OP_NOP4, OP_NOP5, OP_NOP6, OP_NOP7, OP_NOP8, OP_NOP9, OP_NOP10} then op_upgradable_nop e s
      else if opcode \<in> {OP_IF, OP_NOTIF} then op_if e fExec opcode s
      else if opcode = OP_ELSE then op_else s
      else if opcode = OP_ENDIF then op_endif s
      else if opcode = OP_VERIFY then op_verify s
      else if opcode = OP_RETURN then Fail SCRIPT_ERR_OP_RETURN
      else if opcode \<in> {OP_TOALTSTACK, OP_FROMALTSTACK, OP_2DROP, OP_2DUP, OP_3DUP, OP_2OVER, OP_2ROT, OP_2SWAP, OP_IFDUP}
      then op_stack opcode s
      else if opcode \<in> {OP_DEPTH, OP_DROP, OP_DUP, OP_NIP, OP_OVER, OP_PICK, OP_ROLL, OP_ROT, OP_SWAP, OP_TUCK, OP_SIZE}
      then op_stack2 e opcode s
      else if opcode \<in> {OP_EQUAL, OP_EQUALVERIFY} then op_equal opcode s
      else if opcode \<in> {OP_1ADD, OP_1SUB, OP_NEGATE, OP_ABS, OP_NOT, OP_0NOTEQUAL} then op_unary e opcode s
      else if opcode \<in> {OP_ADD, OP_SUB, OP_BOOLAND, OP_BOOLOR, OP_NUMEQUAL, OP_NUMEQUALVERIFY, OP_NUMNOTEQUAL, OP_LESSTHAN,
                         OP_GREATERTHAN, OP_LESSTHANOREQUAL, OP_GREATERTHANOREQUAL, OP_MIN, OP_MAX}
      then op_binary e opcode s
      else if opcode = OP_WITHIN then op_within e s
      else if opcode \<in> {OP_RIPEMD160, OP_SHA1, OP_SHA256, OP_HASH160, OP_HASH256} then op_hash opcode s
      else if opcode = OP_CODESEPARATOR then Go (s\<lparr>es_codehash := es_pc s\<rparr>)
      else if opcode \<in> {OP_CHECKSIG, OP_CHECKSIGVERIFY} then op_checksig e opcode s
      else if opcode \<in> {OP_CHECKMULTISIG, OP_CHECKMULTISIGVERIFY} then op_checkmultisig e opcode s
      else if opcode \<in> {OP_SPEND, OP_CREATE, OP_CALL} then op_contract opcode s
      else Fail SCRIPT_ERR_BAD_OPCODE)"

(* src/src/script/interpreter.cpp:293-308 EvalScript *)
definition disabled_opcode :: "u8 \<Rightarrow> bool" where
  "disabled_opcode opcode \<longleftrightarrow>
     opcode \<in> {OP_CAT, OP_SUBSTR, OP_LEFT, OP_RIGHT, OP_INVERT, OP_AND, OP_OR, OP_XOR, OP_2MUL, OP_2DIV, OP_MUL, OP_DIV, OP_MOD,
       OP_LSHIFT, OP_RSHIFT}"

(* src/src/script/interpreter.cpp:1050-1052 EvalScript *)
fun size_limit :: "outcome \<Rightarrow> outcome" where
  "size_limit (Go s) = (if length (es_stack s) + length (es_altstack s) > MAX_STACK_SIZE then Fail SCRIPT_ERR_STACK_SIZE else Go s)"
| "size_limit out = out"

(* src/src/script/interpreter.cpp:279-315 EvalScript *)
definition eval_step :: "eval_env \<Rightarrow> eval_state \<Rightarrow> outcome" where
  "eval_step e s =
     (let fExec = list_all (\<lambda>b. b) (es_vfExec s)
      in case GetOp2 (es_pc s) of (fRet, pc', opcode, vchPushValue) \<Rightarrow>
         if \<not> fRet then Fail SCRIPT_ERR_BAD_OPCODE
         else if length vchPushValue > MAX_SCRIPT_ELEMENT_SIZE then Fail SCRIPT_ERR_PUSH_SIZE
         else let s' = s\<lparr>es_pc := pc', es_nOpCount := es_nOpCount s + (if opcode > OP_16 then 1 else 0)\<rparr>
         in if opcode > OP_16 \<and> es_nOpCount s' > int MAX_OPS_PER_SCRIPT then Fail SCRIPT_ERR_OP_COUNT
         else if disabled_opcode opcode then Fail SCRIPT_ERR_DISABLED_OPCODE
         else size_limit
           (if fExec \<and> opcode \<le> OP_PUSHDATA4
            then if fRequireMinimal e \<and> \<not> CheckMinimalPush vchPushValue opcode then Fail SCRIPT_ERR_MINIMALDATA
                 else set_stack s' (vchPushValue # es_stack s')
            else if fExec \<or> OP_IF \<le> opcode \<and> opcode \<le> OP_ENDIF then exec_op e fExec opcode s'
            else Go s'))"

subsection \<open>What an operation may change\<close>

abbreviation elems_ok :: "bytes list \<Rightarrow> bool" where
  "elems_ok st \<equiv> list_all (\<lambda>x. length x \<le> MAX_SCRIPT_ELEMENT_SIZE) st"

text \<open>Going on leaves the position alone, never lowers the operation count or lifts it past its limit, keeps the size
  limit on elements, and moves the start of signed code only to the current position.\<close>

definition frame :: "eval_state \<Rightarrow> eval_state \<Rightarrow> bool" where
  "frame s s' \<longleftrightarrow> es_pc s' = es_pc s \<and> es_nOpCount s \<le> es_nOpCount s' \<and>
     (es_nOpCount s \<le> int MAX_OPS_PER_SCRIPT \<longrightarrow> es_nOpCount s' \<le> int MAX_OPS_PER_SCRIPT) \<and>
     (elems_ok (es_stack s) \<and> elems_ok (es_altstack s) \<longrightarrow> elems_ok (es_stack s') \<and> elems_ok (es_altstack s')) \<and>
     (es_codehash s' = es_codehash s \<or> es_codehash s' = es_pc s)"

fun framed :: "eval_state \<Rightarrow> outcome \<Rightarrow> bool" where
  "framed s (Go s') = frame s s'"
| "framed s _ = True"

lemma framed_Go [simp]: "framed s (Go s)"
  by (simp add: frame_def)

lemma framed_with_num: "(\<And>n. framed s (f n)) \<Longrightarrow> framed s (with_num e k v f)"
  by (simp add: with_num_def split: option.split)

lemma framed_set_stack: "(elems_ok (es_stack s) \<Longrightarrow> elems_ok st) \<Longrightarrow> framed s (set_stack s st)"
  by (simp add: set_stack_def frame_def)

lemma length_serialize_num: "length (serialize_num n) \<le> 9"
proof -
  have "length (serialize_abs w) \<le> 8" for w
  proof (cases "w = 0")
    case False
    let ?b = "serialize_abs w"
    have "256 ^ (length ?b - 1) \<le> unat w" using last_le_val [of ?b] serialize_abs_props [of w] False by simp
    also have "unat w < 256 ^ 8" using unat_bound [of w] by simp
    finally have "length ?b - 1 < 8" by (rule power_less_imp_less_exp [rotated]) simp
    then show ?thesis by simp
  qed (simp add: serialize_abs.simps)
  from this [of "word_of_int (if n < 0 then - n else n)"] show ?thesis by (auto simp: serialize_num_def Let_def)
qed

lemma small_elems [simp]:
  "length (serialize_num n) \<le> MAX_SCRIPT_ELEMENT_SIZE" "length (vchBool b) \<le> MAX_SCRIPT_ELEMENT_SIZE"
  using le_trans [OF length_serialize_num [of n], of MAX_SCRIPT_ELEMENT_SIZE] by (simp_all add: MAX_SCRIPT_ELEMENT_SIZE_def vchBool_def)

lemmas framed_intros = framed_with_num framed_set_stack

lemma framed_simple:
  "framed s (op_push_value oc s)" "framed s (op_checklocktimeverify e s)" "framed s (op_checksequenceverify e s)"
  "framed s (op_upgradable_nop e s)" "framed s (op_if e fExec oc s)" "framed s (op_else s)" "framed s (op_endif s)"
  "framed s (op_verify s)" "framed s (op_equal oc s)" "framed s (op_unary e oc s)" "framed s (op_binary e oc s)" "framed s (op_within e s)"
  "framed s (op_contract oc s)"
  by (auto simp: op_push_value_def op_checklocktimeverify_def op_checksequenceverify_def op_upgradable_nop_def op_if_def op_else_def
      op_endif_def op_verify_def op_equal_def op_unary_def op_binary_def op_within_def op_contract_def Let_def frame_def
      intro!: framed_intros split: list.split if_splits)

lemma framed_op_stack: "framed s (op_stack oc s)"
  by (auto simp: op_stack_def frame_def intro!: framed_set_stack split: list.split)

lemma framed_op_stack2: "framed s (op_stack2 e oc s)"
proof -
  have el: "length ((x # r) ! nat k) \<le> M" if "\<not> k < 0" "\<not> 1 + int (length r) \<le> k" "length x \<le> M" "\<forall>y\<in>set r. length y \<le> M"
    for x :: bytes and r k M
    using that nth_mem [of "nat k" "x # r"] by (auto simp: nat_less_iff)
  have "framed s (op_pick_roll e oc s)"
    by (auto simp: op_pick_roll_def Let_def intro!: framed_intros split: list.split)
       (auto simp: list_all_iff intro: el dest!: in_set_takeD in_set_dropD)
  then show ?thesis by (auto simp: op_stack2_def intro!: framed_set_stack split: list.split)
qed

lemma length_hashes:
  assumes "length vch \<le> MAX_SCRIPT_ELEMENT_SIZE"
  shows "length (CRIPEMD160_Finalize (CRIPEMD160_Write vch CRIPEMD160_Init)) = 20"
    "length (CSHA1_Finalize (CSHA1_Write vch CSHA1_Init)) = 20"
    "length (CSHA256_Finalize (CSHA256_Write vch CSHA256_Init)) = 32"
    "length (CHash160_Finalize (CSHA256_Write vch CSHA256_Init)) = 20"
    "length (CHash256_Finalize (CSHA256_Write vch CSHA256_Init)) = 32"
proof -
  have l: "length (concat [vch]) < 2 ^ 61" using assms by (simp add: MAX_SCRIPT_ELEMENT_SIZE_def)
  show "length (CRIPEMD160_Finalize (CRIPEMD160_Write vch CRIPEMD160_Init)) = 20"
    "length (CSHA1_Finalize (CSHA1_Write vch CSHA1_Init)) = 20"
    "length (CSHA256_Finalize (CSHA256_Write vch CSHA256_Init)) = 32"
    "length (CHash160_Finalize (CSHA256_Write vch CSHA256_Init)) = 20"
    "length (CHash256_Finalize (CSHA256_Write vch CSHA256_Init)) = 32"
    using CRIPEMD160_digest [OF l] CSHA1_digest [OF l] CSHA256_digest [OF l] CHash160_Finalize_ripemd [OF l] CHash256_Finalize_double [OF l]
    by (simp_all add: digest_lengths digest_lengths_160)
qed

lemma framed_op_hash: "framed s (op_hash oc s)"
  by (auto simp: op_hash_def length_hashes MAX_SCRIPT_ELEMENT_SIZE_def intro!: framed_set_stack split: list.split)

lemma framed_op_checksig: "framed s (op_checksig e oc s)"
  by (auto simp: op_checksig_def Let_def intro!: framed_set_stack split: list.split option.split)

lemma multisig_cleanup_suffix: "multisig_cleanup e fS i k st = Inr st' \<Longrightarrow> st' = drop i st \<and> i \<le> length st"
  by (induction e fS i k st rule: multisig_cleanup.induct) (auto split: if_splits)

lemma framed_trans: "frame s s1 \<Longrightarrow> framed s1 out \<Longrightarrow> es_codehash s1 = es_codehash s \<Longrightarrow> framed s out"
  by (cases out) (auto simp: frame_def)

lemma framed_multisig_finish: "framed s (multisig_finish e oc s fS i k)"
proof -
  have "elems_ok r" if "elems_ok st" "d # r = drop n st" for st d r n
    using that set_drop_subset [of n st] unfolding that(2) [symmetric] by (auto simp: list_all_iff)
  then show ?thesis
    by (auto simp: multisig_finish_def intro!: framed_set_stack split: sum.split list.split dest!: multisig_cleanup_suffix)
qed

lemma framed_op_checkmultisig: "framed s (op_checkmultisig e oc s)"
proof -
  have "framed s (multisig_finish e oc (s\<lparr>es_nOpCount := es_nOpCount s + k\<rparr>) fS i m)"
    if "0 \<le> k" "es_nOpCount s + k \<le> int MAX_OPS_PER_SCRIPT" for k fS i m
    using that by (intro framed_trans [OF _ framed_multisig_finish]) (simp_all add: frame_def)
  then show ?thesis
    by (auto simp: op_checkmultisig_def Let_def intro!: framed_with_num split: sum.split)
qed

lemma framed_exec_op: "framed s (exec_op e fExec oc s)"
  unfolding exec_op_def
  by (simp add: framed_simple framed_op_stack framed_op_stack2 framed_op_hash framed_op_checksig framed_op_checkmultisig)
     (simp add: frame_def)

lemma frameD:
  assumes "framed s (Go s')"
  shows "es_pc s' = es_pc s" "es_nOpCount s \<le> es_nOpCount s'"
    "es_nOpCount s \<le> int MAX_OPS_PER_SCRIPT \<Longrightarrow> es_nOpCount s' \<le> int MAX_OPS_PER_SCRIPT"
    "elems_ok (es_stack s) \<Longrightarrow> elems_ok (es_altstack s) \<Longrightarrow> elems_ok (es_stack s') \<and> elems_ok (es_altstack s')"
    "es_codehash s' = es_codehash s \<or> es_codehash s' = es_pc s"
  using assms by (auto simp: frame_def)

lemma size_limit_Go: "size_limit out = Go s \<longleftrightarrow> out = Go s \<and> length (es_stack s) + length (es_altstack s) \<le> MAX_STACK_SIZE"
  by (cases out) auto

text \<open>One round that goes on: an instruction was read and the state framed.\<close>

lemma eval_step_Go:
  assumes "eval_step e s = Go s'"
  obtains pc' opcode vch s1 where "GetOp2 (es_pc s) = (True, pc', opcode, vch)" "length vch \<le> MAX_SCRIPT_ELEMENT_SIZE"
    "s1 = s\<lparr>es_pc := pc', es_nOpCount := es_nOpCount s + (if opcode > OP_16 then 1 else 0)\<rparr>"
    "opcode > OP_16 \<longrightarrow> es_nOpCount s1 \<le> int MAX_OPS_PER_SCRIPT"
    "framed s1 (Go s')" "length (es_stack s') + length (es_altstack s') \<le> MAX_STACK_SIZE"
    "list_all (\<lambda>b. b) (es_vfExec s) \<or> es_stack s' = es_stack s \<and> es_altstack s' = es_altstack s \<and> es_codehash s' = es_codehash s"
proof -
  obtain fRet pc' opcode vch where g: "GetOp2 (es_pc s) = (fRet, pc', opcode, vch)" by (cases "GetOp2 (es_pc s)")
  define s1 where "s1 = s\<lparr>es_pc := pc', es_nOpCount := es_nOpCount s + (if opcode > OP_16 then 1 else 0)\<rparr>"
  define fExec where "fExec = list_all (\<lambda>b. b) (es_vfExec s)"
  have r: fRet "length vch \<le> MAX_SCRIPT_ELEMENT_SIZE" "opcode > OP_16 \<longrightarrow> es_nOpCount s1 \<le> int MAX_OPS_PER_SCRIPT"
    and out: "(if fExec \<and> opcode \<le> OP_PUSHDATA4
            then if fRequireMinimal e \<and> \<not> CheckMinimalPush vch opcode then Fail SCRIPT_ERR_MINIMALDATA
                 else set_stack s1 (vch # es_stack s1)
            else if fExec \<or> OP_IF \<le> opcode \<and> opcode \<le> OP_ENDIF then exec_op e fExec opcode s1
            else Go s1) = Go s'"
    and l: "length (es_stack s') + length (es_altstack s') \<le> MAX_STACK_SIZE"
    using assms unfolding eval_step_def Let_def g prod.case s1_def [symmetric] fExec_def [symmetric]
    by (auto simp: size_limit_Go not_less split: if_splits)
  have "framed s1 (Go s')"
  proof (cases "fExec \<and> opcode \<le> OP_PUSHDATA4")
    case True
    then have "set_stack s1 (vch # es_stack s1) = Go s'" using out by (auto split: if_splits)
    then show ?thesis using framed_set_stack [of s1 "vch # es_stack s1"] r(2) by simp
  next
    case False
    then show ?thesis using out framed_exec_op [of s1 e fExec opcode] framed_Go [of s1]
      by (cases "fExec \<or> OP_IF \<le> opcode \<and> opcode \<le> OP_ENDIF") auto
  qed
  moreover have "es_stack s' = es_stack s \<and> es_altstack s' = es_altstack s \<and> es_codehash s' = es_codehash s" if "\<not> fExec"
  proof (cases "OP_IF \<le> opcode \<and> opcode \<le> OP_ENDIF")
    case True
    then have "unat opcode \<in> {99, 100, 101, 102, 103, 104}" by (simp add: le_u8) presburger
    then have "opcode \<in> {OP_IF, OP_NOTIF, OP_VERIF, OP_VERNOTIF, OP_ELSE, OP_ENDIF}" by (auto simp: word_unat_eq_iff)
    then show ?thesis using out that
      by (auto simp: exec_op_def op_if_def op_else_def op_endif_def s1_def le_u8 split: list.splits)
  next
    case False
    then show ?thesis using out that by (auto simp: s1_def)
  qed
  ultimately show ?thesis using r(1) by (intro that [OF _ r(2) s1_def r(3) _ l]) (auto simp: g fExec_def)
qed

lemma eval_step_pc: "eval_step e s = Go s' \<Longrightarrow> length (es_pc s') < length (es_pc s)"
  by (erule eval_step_Go) (drule GetOp2_shorter, drule frameD(1), simp)

subsection \<open>The loop\<close>

(* src/src/script/interpreter.cpp:277-1063 EvalScript *)
function EvalScript_loop :: "eval_env \<Rightarrow> eval_state \<Rightarrow> ScriptError + bytes list" where
  "EvalScript_loop e s =
     (if es_pc s = [] then if es_vfExec s \<noteq> [] then Inl SCRIPT_ERR_UNBALANCED_CONDITIONAL else Inr (es_stack s)
      else case eval_step e s of Fail err \<Rightarrow> Inl err | Done st \<Rightarrow> Inr st | Go s' \<Rightarrow> EvalScript_loop e s')"
  by pat_completeness auto
termination
  by (relation "measure (\<lambda>(e, s). length (es_pc s))") (auto dest: eval_step_pc)

declare EvalScript_loop.simps [simp del]

(* src/src/script/interpreter.cpp:262-272 EvalScript *)
definition eval_start :: "bytes list \<Rightarrow> bytes \<Rightarrow> eval_state" where
  "eval_start st script =
     \<lparr>es_stack = st, es_altstack = [], es_vfExec = [], es_pc = script, es_codehash = script, es_nOpCount = 0\<rparr>"

(* src/src/script/interpreter.cpp:252-1064 EvalScript *)
definition EvalScript :: "eval_env \<Rightarrow> bytes list \<Rightarrow> bytes \<Rightarrow> ScriptError + bytes list" where
  "EvalScript e st script =
     (if length script > MAX_SCRIPT_SIZE then Inl SCRIPT_ERR_SCRIPT_SIZE else EvalScript_loop e (eval_start st script))"

text \<open>The states a run passes through.\<close>

inductive eval_reach :: "eval_env \<Rightarrow> eval_state \<Rightarrow> eval_state \<Rightarrow> bool" for e s0 where
  start: "eval_reach e s0 s0"
| step: "eval_reach e s0 s \<Longrightarrow> es_pc s \<noteq> [] \<Longrightarrow> eval_step e s = Go s' \<Longrightarrow> eval_reach e s0 s'"

lemma eval_reach_front: "eval_reach e s1 s2 \<Longrightarrow> es_pc s \<noteq> [] \<Longrightarrow> eval_step e s = Go s1 \<Longrightarrow> eval_reach e s s2"
  by (induction rule: eval_reach.induct) (auto intro: eval_reach.intros)

lemma EvalScript_loop_run:
  "EvalScript_loop e s0 = Inr st \<longleftrightarrow> (\<exists>s. eval_reach e s0 s \<and>
     (es_pc s = [] \<and> es_vfExec s = [] \<and> st = es_stack s \<or> es_pc s \<noteq> [] \<and> eval_step e s = Done st))" (is "?l s0 \<longleftrightarrow> ?r s0")
proof
  show "?l s0 \<Longrightarrow> ?r s0"
  proof (induction e s0 rule: EvalScript_loop.induct)
    case (1 e s0)
    then show ?case
      by (auto simp: EvalScript_loop.simps [of e s0] split: if_splits outcome.splits intro: eval_reach.start eval_reach_front)
  qed
next
  have same: "EvalScript_loop e s0 = EvalScript_loop e s" if "eval_reach e s0 s" for s
    using that
  proof induction
    case (step s s')
    then show ?case by (simp add: EvalScript_loop.simps [of e s])
  qed simp
  assume "?r s0"
  then obtain s where s: "eval_reach e s0 s"
    "es_pc s = [] \<and> es_vfExec s = [] \<and> st = es_stack s \<or> es_pc s \<noteq> [] \<and> eval_step e s = Done st" by blast
  then show "?l s0" unfolding same [OF s(1)] by (auto simp: EvalScript_loop.simps [of e s])
qed

definition eval_inv :: "bytes \<Rightarrow> eval_state \<Rightarrow> bool" where
  "eval_inv script s \<longleftrightarrow> length (es_stack s) + length (es_altstack s) \<le> MAX_STACK_SIZE \<and>
     elems_ok (es_stack s) \<and> elems_ok (es_altstack s) \<and> 0 \<le> es_nOpCount s \<and> es_nOpCount s \<le> int MAX_OPS_PER_SCRIPT \<and>
     suffix (es_pc s) script \<and> suffix (es_codehash s) script"

lemma eval_step_inv:
  assumes i: "eval_inv script s" and g: "eval_step e s = Go s'"
  shows "eval_inv script s'"
  using g
proof (rule eval_step_Go)
  fix pc' opcode vch s1
  assume r: "GetOp2 (es_pc s) = (True, pc', opcode, vch)"
    "s1 = s\<lparr>es_pc := pc', es_nOpCount := es_nOpCount s + (if opcode > OP_16 then 1 else 0)\<rparr>"
    "opcode > OP_16 \<longrightarrow> es_nOpCount s1 \<le> int MAX_OPS_PER_SCRIPT"
    "framed s1 (Go s')" "length (es_stack s') + length (es_altstack s') \<le> MAX_STACK_SIZE"
  have "suffix pc' script" using GetOp2_suffix [OF r(1)] i
    by (auto simp: eval_inv_def suffix_def) (metis append_assoc)
  moreover have "es_nOpCount s1 \<le> int MAX_OPS_PER_SCRIPT" "0 \<le> es_nOpCount s1" using r(2,3) i by (auto simp: eval_inv_def)
  ultimately show ?thesis using frameD [OF r(4)] i r(2,5) by (auto simp: eval_inv_def split: if_splits)
qed

lemma eval_reach_inv: "eval_reach e s0 s \<Longrightarrow> eval_inv script s0 \<Longrightarrow> eval_inv script s"
  by (induction rule: eval_reach.induct) (auto intro: eval_step_inv)

text \<open>Early success comes from the three contract opcodes only.\<close>

lemma exec_op_Done: "exec_op e fExec oc s = Done st \<Longrightarrow> oc \<in> {OP_SPEND, OP_CREATE, OP_CALL} \<and> op_contract oc s = Done st"
proof -
  have w: "with_num e k v f = Done st \<Longrightarrow> \<exists>n. f n = Done st" for k v f by (auto simp: with_num_def split: option.splits)
  have m: "multisig_finish e oc s' fS i k \<noteq> Done st" for s' fS i k
    by (auto simp: multisig_finish_def set_stack_def split: sum.splits list.splits)
  have "op_push_value oc s \<noteq> Done st" "op_checklocktimeverify e s \<noteq> Done st" "op_checksequenceverify e s \<noteq> Done st"
    "op_upgradable_nop e s \<noteq> Done st" "op_if e fExec oc s \<noteq> Done st" "op_else s \<noteq> Done st" "op_endif s \<noteq> Done st" "op_verify s \<noteq> Done st"
    "op_stack oc s \<noteq> Done st" "op_equal oc s \<noteq> Done st" "op_unary e oc s \<noteq> Done st" "op_within e s \<noteq> Done st" "op_hash oc s \<noteq> Done st"
    by (auto simp: op_push_value_def op_checklocktimeverify_def op_checksequenceverify_def op_upgradable_nop_def op_if_def op_else_def
        op_endif_def op_verify_def op_stack_def op_equal_def op_unary_def op_within_def op_hash_def set_stack_def Let_def
        dest!: w split: list.splits if_splits)
  moreover have "op_stack2 e oc s \<noteq> Done st" "op_binary e oc s \<noteq> Done st" "op_checksig e oc s \<noteq> Done st" "op_checkmultisig e oc s \<noteq> Done st"
    using m by (auto simp: op_stack2_def op_pick_roll_def op_binary_def op_checksig_def op_checkmultisig_def set_stack_def Let_def
        dest!: w split: list.splits if_splits option.splits sum.splits)
  moreover assume "exec_op e fExec oc s = Done st"
  ultimately show ?thesis unfolding exec_op_def by (simp split: if_splits)
qed

lemma size_limit_Done: "size_limit out = Done st \<longleftrightarrow> out = Done st"
  by (cases out) auto

definition within_limits :: "bytes list \<Rightarrow> bool" where
  "within_limits st \<longleftrightarrow> length st \<le> MAX_STACK_SIZE \<and> elems_ok st"

text \<open>The stack that a contract opcode leaves: the rest of the script, from that opcode on, on top.\<close>

definition contract_exit :: "bytes \<Rightarrow> bytes list \<Rightarrow> bool" where
  "contract_exit script st \<longleftrightarrow> (case st of [] \<Rightarrow> False
     | rest # st0 \<Rightarrow> suffix rest script \<and> rest \<noteq> [] \<and> hd rest \<in> {OP_CREATE, OP_CALL} \<and> within_limits st0)"

lemma eval_inv_stack: "eval_inv script s \<Longrightarrow> within_limits (es_stack s)"
  by (simp add: eval_inv_def within_limits_def)

lemma limits_bound:
  "within_limits st \<or> contract_exit script st \<Longrightarrow> length script \<le> MAX_SCRIPT_SIZE \<Longrightarrow>
     length st \<le> MAX_STACK_SIZE + 1 \<and> list_all (\<lambda>x. length x \<le> MAX_SCRIPT_SIZE) st"
  by (auto simp: within_limits_def contract_exit_def list_all_iff MAX_SCRIPT_SIZE_def MAX_SCRIPT_ELEMENT_SIZE_def
      dest: suffix_length_le split: list.splits)

lemma eval_Done_exit:
  assumes i: "eval_inv script s" and d: "eval_step e s = Done st"
  shows "within_limits st \<or> contract_exit script st"
proof -
  obtain fRet pc' oc vch where g: "GetOp2 (es_pc s) = (fRet, pc', oc, vch)" by (cases "GetOp2 (es_pc s)")
  define s1 where "s1 = s\<lparr>es_pc := pc', es_nOpCount := es_nOpCount s + (if oc > OP_16 then 1 else 0)\<rparr>"
  have "\<exists>fExec. exec_op e fExec oc s1 = Done st \<and> fRet"
    using d unfolding eval_step_def Let_def g prod.case s1_def [symmetric]
    by (auto simp: size_limit_Done set_stack_def split: if_splits)
  then have o: "op_contract oc s1 = Done st" fRet "oc \<in> {OP_SPEND, OP_CREATE, OP_CALL}" using exec_op_Done by blast+
  show ?thesis
  proof (cases "oc = OP_SPEND")
    case True
    then show ?thesis using o(1) eval_inv_stack [OF i] by (simp add: op_contract_def s1_def)
  next
    case False
    then have "es_pc s = oc # pc'" using o g by (auto simp: GetOp2_def split: list.splits if_splits option.splits)
    then have "suffix (oc # pc') script" using i by (simp add: eval_inv_def)
    then show ?thesis using False o(1,3) eval_inv_stack [OF i] by (auto simp: op_contract_def s1_def contract_exit_def)
  qed
qed

subsection \<open>Matching signatures to keys\<close>

text \<open>The order-preserving matching that \<^verbatim>\<open>CHECKMULTISIG\<close> looks for, greedily.\<close>

fun greedy :: "('a \<Rightarrow> 'b \<Rightarrow> bool) \<Rightarrow> 'a list \<Rightarrow> 'b list \<Rightarrow> bool" where
  "greedy P [] ks = True"
| "greedy P (x # xs) [] = False"
| "greedy P (x # xs) (k # ks) = (if P x k then greedy P xs ks else greedy P (x # xs) ks)"

lemma greedy_length: "greedy P xs ks \<Longrightarrow> length xs \<le> length ks"
  by (induction P xs ks rule: greedy.induct) (auto split: if_splits)

lemma greedy_mono: "greedy P xs ks \<Longrightarrow> greedy P xs (k # ks)" and greedy_tl: "greedy P (x # xs) ks \<Longrightarrow> greedy P xs ks"
proof -
  have "(greedy P xs ks \<longrightarrow> greedy P xs (k # ks)) \<and> (greedy P (x # xs) ks \<longrightarrow> greedy P xs ks)" for x xs k
  proof (induction ks arbitrary: x xs k)
    case Nil
    then show ?case by (cases xs) auto
  next
    case (Cons k' ks)
    have "greedy P (x # xs) ks \<Longrightarrow> greedy P xs ks" for x xs using Cons.IH by blast
    then show ?case using Cons.IH by (cases xs) (auto, metis)
  qed
  then show "greedy P xs ks \<Longrightarrow> greedy P xs (k # ks)" "greedy P (x # xs) ks \<Longrightarrow> greedy P xs ks" by blast+
qed

lemma greedy_complete: "greedy P xs ks \<longleftrightarrow> (\<exists>js. subseq js ks \<and> list_all2 P xs js)"
proof
  show "greedy P xs ks \<Longrightarrow> \<exists>js. subseq js ks \<and> list_all2 P xs js"
  proof (induction P xs ks rule: greedy.induct)
    case (3 P x xs k ks)
    then show ?case
      by (auto split: if_splits intro: subseq_Cons2 exI [of _ "k # _"])
  qed (auto intro: exI [of _ "[]"])
next
  assume "\<exists>js. subseq js ks \<and> list_all2 P xs js"
  then obtain js where "subseq js ks" "list_all2 P xs js" by blast
  then show "greedy P xs ks"
  proof (induction ks arbitrary: xs js rule: list.induct)
    case Nil
    then show ?case by (auto dest!: list_emb_Nil2)
  next
    case (Cons k ks)
    show ?case
    proof (cases xs)
      case (Cons x xs')
      then obtain j js' where j: "js = j # js'" "P x j" "list_all2 P xs' js'"
        using Cons.prems(2) by (auto simp: list_all2_Cons1)
      show ?thesis
      proof (cases "j = k")
        case True
        then have "subseq js' ks" using \<open>subseq js (k # ks)\<close> j by (simp add: subseq_Cons2_iff)
        then show ?thesis using Cons.IH j True Cons by (auto)
      next
        case False
        then have "subseq js ks" using \<open>subseq js (k # ks)\<close> j by (simp add: subseq_Cons2_neq)
        then have "greedy P xs ks" using \<open>list_all2 P xs js\<close> by (rule Cons.IH)
        then show ?thesis using Cons greedy_tl by auto
      qed
    qed simp
  qed
qed

lemma multisig_loop_greedy:
  assumes "0 \<le> nSigs" "nSigs \<le> nKeys" "isig \<noteq> 0" "ikey \<noteq> 0" "isig - 1 + nat nSigs \<le> length st" "ikey - 1 + nat nKeys \<le> length st"
    and "\<And>x. x \<in> set (take (nat nSigs) (drop (isig - 1) st)) \<Longrightarrow> CheckSignatureEncoding e x = None"
    and "\<And>x. x \<in> set (take (nat nKeys) (drop (ikey - 1) st)) \<Longrightarrow> CheckPubKeyEncoding e x = None"
  shows "multisig_loop e st code isig ikey nSigs nKeys =
    Inr (greedy (\<lambda>x k. CheckSig (ee_checker e) x k code (ee_sigversion e))
      (take (nat nSigs) (drop (isig - 1) st)) (take (nat nKeys) (drop (ikey - 1) st)))"
  using assms
proof (induction e st code isig ikey nSigs nKeys rule: multisig_loop.induct)
  case (1 e st code isig ikey nSigs nKeys)
  let ?P = "\<lambda>x k. CheckSig (ee_checker e) x k code (ee_sigversion e)"
  show ?case
  proof (cases "nSigs \<le> 0")
    case True
    then show ?thesis using "1.prems"(1) by (simp add: multisig_loop.simps [of e st])
  next
    case False
    obtain m where m: "nSigs = int (Suc m)" using False zero_less_imp_eq_int [of nSigs] gr0_conv_Suc by force
    obtain n where n: "nKeys = int (Suc n)" using False "1.prems"(2) zero_less_imp_eq_int [of nKeys] gr0_conv_Suc by force
    let ?x = "st ! (isig - 1)" and ?k = "st ! (ikey - 1)"
    have x: "take (nat nSigs) (drop (isig - 1) st) = ?x # take m (drop isig st)"
    proof -
      have "isig - 1 < length st" using "1.prems"(5) m by simp
      then have "drop (isig - 1) st = ?x # drop isig st" using Cons_nth_drop_Suc [of "isig - 1" st] "1.prems"(3) by simp
      moreover have "nat nSigs = Suc m" using m by simp
      ultimately show ?thesis by (simp only: take_Suc_Cons)
    qed
    have k: "take (nat nKeys) (drop (ikey - 1) st) = ?k # take n (drop ikey st)"
    proof -
      have "ikey - 1 < length st" using "1.prems"(6) n by simp
      then have "drop (ikey - 1) st = ?k # drop ikey st" using Cons_nth_drop_Suc [of "ikey - 1" st] "1.prems"(4) by simp
      moreover have "nat nKeys = Suc n" using n by simp
      ultimately show ?thesis by (simp only: take_Suc_Cons)
    qed
    have enc: "CheckSignatureEncoding e ?x = None" "CheckPubKeyEncoding e ?k = None"
      using "1.prems"(7,8) x k by simp_all
    have short: "\<not> greedy ?P xs (take n (drop ikey st))" if "length xs > n" for xs
      using that greedy_length [of ?P xs "take n (drop ikey st)"] by auto
    note IH = "1.IH" [OF False refl refl enc refl refl refl]
    have xs: "CheckSignatureEncoding e y = None" if "y \<in> set (?x # take m (drop isig st))" for y using "1.prems"(7) that unfolding x .
    have ks: "CheckPubKeyEncoding e y = None" if "y \<in> set (?k # take n (drop ikey st))" for y using "1.prems"(8) that unfolding k .
    have a: "int (Suc j) - 1 = int j" "i + 1 - 1 = i" "nat (int j) = j" for i j :: nat by simp_all
    have le: "m \<le> n" "isig + m \<le> length st" "ikey + n \<le> length st" using "1.prems"(2-6) m n by auto
    show ?thesis
    proof (cases "?P ?x ?k")
      case True
      have "multisig_loop e st code (isig + 1) (ikey + 1) (int m) (int n) = Inr (greedy ?P (take m (drop isig st)) (take n (drop ikey st)))"
        by (rule IH [unfolded if_P [OF True] m n a]) (use le xs ks in simp_all)
      then show ?thesis using True m n "1.prems"(2) unfolding x k by (simp add: multisig_loop.simps [of e st code isig] enc [simplified] Let_def)
    next
      case no: False
      show ?thesis
      proof (cases "n < Suc m")
        case True
        then show ?thesis using no m n short [of "?x # take m (drop isig st)"] "1.prems"(3,5)
          unfolding x k by (simp add: multisig_loop.simps [of e st code isig] enc [simplified] Let_def)
      next
        case False
        have "multisig_loop e st code isig (ikey + 1) nSigs (int n) = Inr (greedy ?P (?x # take m (drop isig st)) (take n (drop ikey st)))"
          unfolding x [symmetric] by (rule IH [unfolded if_not_P [OF no] n a]) (use le "1.prems"(1-5,7) False m ks in simp_all)
        then show ?thesis using no m n False unfolding x k by (simp add: multisig_loop.simps [of e st code isig] enc [simplified] Let_def)
      qed
    qed
  qed
qed

text \<open>Cleaning up pops the arguments; the signatures are the items below the first \<open>ikey2\<close>.\<close>

lemma multisig_cleanup_args:
  "multisig_cleanup e fS (length a + length b) (length a) (a @ b @ r) =
     (if \<not> fS \<and> flag e SCRIPT_VERIFY_NULLFAIL \<and> (\<exists>x\<in>set b. x \<noteq> []) then Inl SCRIPT_ERR_SIG_NULLFAIL else Inr r)"
proof (induction a)
  case Nil
  show ?case by (induction b) auto
next
  case (Cons x a)
  then show ?case by simp
qed

subsection \<open>Small numbers and pushes\<close>

lemma serialize_num_small: "0 < n \<Longrightarrow> n < 128 \<Longrightarrow> serialize_num (int n) = [of_nat n]"
proof -
  assume n: "0 < n" "n < 128"
  then have u: "unat (of_nat n :: u8) = n" by (simp add: unat_of_nat)
  then have "minimal_num [of_nat n]" "sm_value [of_nat n] = int n" using n by (auto simp: minimal_num_def sm_value_def word_unat_eq_iff)
  then show ?thesis using minimal_unique [of "[of_nat n]"] by simp
qed

lemma with_num_small:
  assumes "n < 128" "0 < k" "k \<le> 8"
  shows "with_num e k (serialize_num (int n)) f = f (int n)"
proof -
  have l: "length (serialize_num (int n)) \<le> k" using assms serialize_num_small [of n] by (cases "n = 0") (simp_all add: serialize_num_def)
  have v: "set_vch (serialize_num (int n)) = int n" "minimal_num (serialize_num (int n))"
    using l assms(1,3) serialize_num_round [of "int n"] by (simp_all add: set_vch_value)
  have "CScriptNum (serialize_num (int n)) b k = Some (int n)" for b
    using l v num_minimal [of "serialize_num (int n)" k] by (cases b) (simp_all add: CScriptNum_def)
  then show ?thesis by (simp add: with_num_def)
qed

lemma GetOp2_op: "OP_PUSHDATA4 < oc \<Longrightarrow> GetOp2 (oc # r) = (True, r, oc, [])"
  by (simp add: GetOp2_def not_le [symmetric])

subsection \<open>Properties\<close>

text \<open>C18. Resource limits hold in every state a run of the machine passes through: at most 1000 elements on both stacks, each
  within the element limit, at most 201 counted operations, and both the program counter and the start of the signed code
  inside the script. The stack a run returns has at most 1000 elements within the element limit as well, with one exception:
  \<^verbatim>\<open>OP_CREATE\<close> and \<^verbatim>\<open>OP_CALL\<close> return at once, without the check of the limits, with the rest of the script from that
  opcode on as an additional element, so that the returned stack has up to 1001 elements of up to the size of a script.\<close>
theorem EvalScript_limits:
  assumes "length st \<le> MAX_STACK_SIZE" "elems_ok st" "eval_reach e (eval_start st script) s"
  shows "eval_inv script s \<and>
    (EvalScript e st script = Inr st' \<longrightarrow>
       (length st' \<le> MAX_STACK_SIZE \<and> elems_ok st' \<or> contract_exit script st') \<and>
       length st' \<le> MAX_STACK_SIZE + 1 \<and> list_all (\<lambda>x. length x \<le> MAX_SCRIPT_SIZE) st')"
proof
  have i0: "eval_inv script (eval_start st script)" using assms(1,2) by (simp add: eval_inv_def eval_start_def)
  then show "eval_inv script s" using eval_reach_inv [OF assms(3)] by blast
  show "EvalScript e st script = Inr st' \<longrightarrow> (length st' \<le> MAX_STACK_SIZE \<and> elems_ok st' \<or> contract_exit script st') \<and>
    length st' \<le> MAX_STACK_SIZE + 1 \<and> list_all (\<lambda>x. length x \<le> MAX_SCRIPT_SIZE) st'"
  proof
    assume "EvalScript e st script = Inr st'"
    then have "length script \<le> MAX_SCRIPT_SIZE" and "EvalScript_loop e (eval_start st script) = Inr st'"
      by (auto simp: EvalScript_def split: if_splits)
    then obtain t where t: "eval_inv script t" "length script \<le> MAX_SCRIPT_SIZE"
      and "st' = es_stack t \<or> es_pc t \<noteq> [] \<and> eval_step e t = Done st'"
      using eval_reach_inv [OF _ i0] unfolding EvalScript_loop_run by blast
    then have l: "within_limits st' \<or> contract_exit script st'" using eval_Done_exit [OF t(1)] eval_inv_stack [OF t(1)] by blast
    then show "(length st' \<le> MAX_STACK_SIZE \<and> elems_ok st' \<or> contract_exit script st') \<and>
      length st' \<le> MAX_STACK_SIZE + 1 \<and> list_all (\<lambda>x. length x \<le> MAX_SCRIPT_SIZE) st'"
      using limits_bound [OF l t(2)] by (simp only: within_limits_def simp_thms)
  qed
qed

definition sample_env :: eval_env where
  "sample_env = \<lparr>ee_flags = 0, ee_checker = BaseSignatureChecker, ee_sigversion = SIGVERSION_BASE, ee_CheckLowS = \<lambda>_. False\<rparr>"

lemma sample_step:
  "eval_step sample_env (eval_start [] [OP_1, OP_DUP]) = Go ((eval_start [] [OP_1, OP_DUP])\<lparr>es_stack := [[1]], es_pc := [OP_DUP]\<rparr>)"
  "es_pc (eval_start [] [OP_1, OP_DUP]) \<noteq> []"
  using serialize_num_small [of 1]
  by (simp_all add: eval_step_def eval_start_def GetOp2_op disabled_opcode_def exec_op_def op_push_value_def set_stack_def MAX_STACK_SIZE_def)

theorem EvalScript_limits_witness: "eval_inv [OP_1, OP_DUP] ((eval_start [] [OP_1, OP_DUP])\<lparr>es_stack := [[1]], es_pc := [OP_DUP]\<rparr>)"
  using EvalScript_limits [of "[]" sample_env "[OP_1, OP_DUP]"] eval_reach.step [OF eval_reach.start sample_step(2,1)] by simp

text \<open>C19. The machine always stops: every round consumes at least one byte of the script, so a run that goes on has made at
  most as many rounds as the script has bytes, whatever the checker answers.\<close>
theorem EvalScript_rounds:
  "((\<lambda>s s'. es_pc s \<noteq> [] \<and> eval_step e s = Go s') ^^ n) (eval_start st script) s \<Longrightarrow> n + length (es_pc s) \<le> length script"
proof (induction n arbitrary: s)
  case 0
  then show ?case by (auto simp: eval_start_def)
next
  case (Suc n)
  then obtain t where "n + length (es_pc t) \<le> length script" "eval_step e t = Go s" by auto
  then show ?case using eval_step_pc [of e t s] by simp
qed

theorem EvalScript_rounds_witness:
  "((\<lambda>s s'. es_pc s \<noteq> [] \<and> eval_step sample_env s = Go s') ^^ 1) (eval_start [] [OP_1, OP_DUP])
     ((eval_start [] [OP_1, OP_DUP])\<lparr>es_stack := [[1]], es_pc := [OP_DUP]\<rparr>) \<and>
   1 + length (es_pc ((eval_start [] [OP_1, OP_DUP])\<lparr>es_stack := [[1]], es_pc := [OP_DUP]\<rparr>)) \<le> length [OP_1, OP_DUP]"
proof -
  have r: "((\<lambda>s s'. es_pc s \<noteq> [] \<and> eval_step sample_env s = Go s') ^^ 1) (eval_start [] [OP_1, OP_DUP])
     ((eval_start [] [OP_1, OP_DUP])\<lparr>es_stack := [[1]], es_pc := [OP_DUP]\<rparr>)"
    using sample_step unfolding relpowp_1 by simp
  show ?thesis using r EvalScript_rounds [OF r] by blast
qed

text \<open>C20. \<^verbatim>\<open>CHECKMULTISIG\<close> decides an order-preserving matching: with well-encoded arguments it succeeds exactly when
  the signatures can be assigned to distinct keys in the same order, each verifying the code with all these signatures
  removed (before segregated witness); it consumes the arguments and the extra element, counts the keys as operations, and
  enforces the two optional rules on failed signatures and on the extra element.\<close>
theorem checkmultisig_matching:
  assumes st: "es_stack s = serialize_num (int (length keys)) # keys @ serialize_num (int (length sigs)) # sigs @ dummy # r"
    and n: "length sigs \<le> length keys" "length keys \<le> MAX_PUBKEYS_PER_MULTISIG" "es_nOpCount s + int (length keys) \<le> int MAX_OPS_PER_SCRIPT"
    and enc: "\<forall>x\<in>set sigs. CheckSignatureEncoding e x = None" "\<forall>k\<in>set keys. CheckPubKeyEncoding e k = None"
    and code: "code = (if ee_sigversion e = SIGVERSION_BASE then fold (\<lambda>x c. fst (FindAndDelete c (push_data x))) sigs (es_codehash s) else es_codehash s)"
    and ok: "ok = (\<exists>js. subseq js keys \<and> list_all2 (\<lambda>x k. CheckSig (ee_checker e) x k code (ee_sigversion e)) sigs js)"
  shows "op_checkmultisig e OP_CHECKMULTISIG s =
    (if \<not> ok \<and> flag e SCRIPT_VERIFY_NULLFAIL \<and> (\<exists>x\<in>set sigs. x \<noteq> []) then Fail SCRIPT_ERR_SIG_NULLFAIL
     else if flag e SCRIPT_VERIFY_NULLDUMMY \<and> dummy \<noteq> [] then Fail SCRIPT_ERR_SIG_NULLDUMMY
     else Go (s\<lparr>es_nOpCount := es_nOpCount s + int (length keys), es_stack := vchBool ok # r\<rparr>))"
proof -
  let ?st = "es_stack s" and ?K = "length keys" and ?N = "length sigs"
  have k: "?K < 128" "?N < 128" using n by (simp_all add: MAX_PUBKEYS_PER_MULTISIG_def)
  have sm: "with_num e nDefaultMaxNumSize (serialize_num (int m)) f = f (int m)" "getint (int m) = int m" if "m < 128" for m f
    using that by (simp_all add: with_num_small nDefaultMaxNumSize_def getint_def)
  have at: "?st ! 0 = serialize_num (int ?K)" "?st ! (?K + 1) = serialize_num (int ?N)"
    by (simp_all add: st nth_append)
  have keys: "take ?K (drop 1 ?st) = keys" and sigs: "take ?N (drop (?K + 2) ?st) = sigs" by (simp_all add: st)
  have "map (\<lambda>i. ?st ! (?K + 2 + i)) [0..<?N] = sigs"
    by (rule nth_equalityI) (simp_all add: st nth_append)
  then have fold: "fold (\<lambda>i c. fst (FindAndDelete c (push_data (?st ! (?K + 2 + i))))) [0..<?N] c = fold (\<lambda>x c. fst (FindAndDelete c (push_data x))) sigs c" for c
    using fold_map [of "\<lambda>x c. fst (FindAndDelete c (push_data x))" "\<lambda>i. ?st ! (?K + 2 + i)" "[0..<?N]"] by (simp add: o_def)
  have loop: "multisig_loop e ?st code (?K + 3) 2 (int ?N) (int ?K) = Inr ok"
    using multisig_loop_greedy [of "int ?N" "int ?K" "?K + 3" 2 ?st e code] n(1) enc
    unfolding ok greedy_complete [symmetric] by (simp add: keys sigs) (simp add: st)
  have fin: "multisig_finish e OP_CHECKMULTISIG (s\<lparr>es_nOpCount := m\<rparr>) ok (?K + 3 + ?N) (?K + 2) =
    (if \<not> ok \<and> flag e SCRIPT_VERIFY_NULLFAIL \<and> (\<exists>x\<in>set sigs. x \<noteq> []) then Fail SCRIPT_ERR_SIG_NULLFAIL
     else if flag e SCRIPT_VERIFY_NULLDUMMY \<and> dummy \<noteq> [] then Fail SCRIPT_ERR_SIG_NULLDUMMY
     else Go (s\<lparr>es_nOpCount := m, es_stack := vchBool ok # r\<rparr>))" for m
    using multisig_cleanup_args [of e ok "serialize_num (int ?K) # keys @ [serialize_num (int ?N)]" sigs "dummy # r"]
    by (simp add: multisig_finish_def st set_stack_def)
  have len: "\<not> length ?st < 1" "\<not> length ?st < ?K + 2" "\<not> length ?st < ?K + 3 + ?N" by (simp_all add: st)
  have lim: "\<not> (int ?K < 0 \<or> int ?K > int MAX_PUBKEYS_PER_MULTISIG)" "\<not> es_nOpCount s + int ?K > int MAX_OPS_PER_SCRIPT"
    "\<not> (int ?N < 0 \<or> int ?N > int ?K)" using n by simp_all
  have idx: "2 + nat (int ?K) = ?K + 2" "nat (int ?K) + 2 = ?K + 2" "?K + 2 - 1 = ?K + 1" "?K + 2 + 1 = ?K + 3" "nat (int ?N) = ?N"
    "\<And>i. ?K + 3 + i - 1 = ?K + 2 + i" by simp_all
  show ?thesis using lim(2)
    unfolding op_checkmultisig_def Let_def if_not_P [OF len(1)] at(1) sm [OF k(1)] if_not_P [OF lim(1)] idx if_not_P [OF len(2)] at(2) sm [OF k(2)] if_not_P [OF lim(3)] if_not_P [OF len(3)] fold
      code [symmetric] loop sum.case fin by simp
qed

theorem checkmultisig_matching_witness:
  "op_checkmultisig \<lparr>ee_flags = 0, ee_checker = \<lparr>CheckSig = \<lambda>x k _ _. x = k, CheckLockTime = \<lambda>_. False, CheckSequence = \<lambda>_. False\<rparr>,
      ee_sigversion = SIGVERSION_WITNESS_V0, ee_CheckLowS = \<lambda>_. False\<rparr> OP_CHECKMULTISIG
     (eval_start (serialize_num (int (length [[7], [8]])) # [[7], [8]] @ serialize_num (int (length [[8]])) # [[8]] @ [] # []) []) =
   Go ((eval_start (serialize_num (int (length [[7], [8]])) # [[7], [8]] @ serialize_num (int (length [[8]])) # [[8]] @ [] # []) [])
     \<lparr>es_nOpCount := 2, es_stack := [[1]]\<rparr>)"
proof -
  define e where "e = \<lparr>ee_flags = 0, ee_checker = \<lparr>CheckSig = \<lambda>x k _ _. x = k, CheckLockTime = \<lambda>_. False, CheckSequence = \<lambda>_. False\<rparr>,
      ee_sigversion = SIGVERSION_WITNESS_V0, ee_CheckLowS = \<lambda>_. False\<rparr>"
  define s where "s = eval_start (serialize_num (int (length [[7], [8]])) # [[7], [8]] @ serialize_num (int (length [[8]])) # [[8]] @ [] # []) []"
  have enc: "CheckSignatureEncoding e x = None" "CheckPubKeyEncoding e x = None" for x
    by (simp_all add: CheckSignatureEncoding_def CheckPubKeyEncoding_def e_def has_flag_def)
  have m: "\<exists>js. subseq js [[7], [8 :: u8]] \<and> list_all2 (\<lambda>x k. CheckSig (ee_checker e) x k [] (ee_sigversion e)) [[8]] js"
    by (rule exI [of _ "[[8]]"]) (simp add: e_def)
  have "op_checkmultisig e OP_CHECKMULTISIG s = Go (s\<lparr>es_nOpCount := es_nOpCount s + int (length [[7], [8 :: u8]]), es_stack := vchBool True # []\<rparr>)"
    using checkmultisig_matching [of s "[[7], [8]]" "[[8]]" "[]" "[]" e "[]" True] enc m
    by (simp add: s_def eval_start_def MAX_PUBKEYS_PER_MULTISIG_def MAX_OPS_PER_SCRIPT_def e_def has_flag_def)
  then show ?thesis unfolding e_def [symmetric] s_def [symmetric] by (simp add: vchBool_def) (simp add: s_def eval_start_def)
qed

end
