(* ===== verification/Interpreter.thy ===== *)
theory Interpreter
  imports Script_Eval
begin

text \<open>
  The rest of \<^verbatim>\<open>src/src/script/interpreter.cpp\<close>: signature hashes, the transaction signature checker, and the verification of a
  spending script against an output script, with pay-to-script-hash and witness programs. The elliptic-curve verification
  \<^verbatim>\<open>CPubKey::Verify\<close> is a parameter (public key, hash, signature).
\<close>

subsection \<open>Signature hashes\<close>

definition hash_of :: "bytes list \<Rightarrow> bytes" where
  "hash_of pieces = (case SerializeHash pieces SER_GETHASH 0 of Some h \<Rightarrow> h | None \<Rightarrow> [])"

(* src/src/script/interpreter.cpp:1095-1098 CTransactionSignatureSerializer::SerializeScriptCode *)
function count_separators :: "bytes \<Rightarrow> nat" where
  "count_separators it =
     (case GetOp2 it of (fRet, it', opcode, _) \<Rightarrow>
        if \<not> fRet then 0 else (if opcode = OP_CODESEPARATOR then 1 else 0) + count_separators it')"
  by pat_completeness auto
termination
  by (relation "measure length") (auto dest: GetOp2_shorter [OF sym])

declare count_separators.simps [simp del]

text \<open>The bytes written before the loop ends, the start of the pending piece, and the final position, which a failing read
  has already moved.\<close>

(* src/src/script/interpreter.cpp:1101-1106 CTransactionSignatureSerializer::SerializeScriptCode *)
function code_loop :: "bytes \<Rightarrow> bytes \<Rightarrow> bytes \<times> bytes \<times> bytes" where
  "code_loop itBegin it =
     (case GetOp2 it of (fRet, it', opcode, _) \<Rightarrow>
        if \<not> fRet then ([], itBegin, it')
        else if opcode = OP_CODESEPARATOR
        then (case code_loop it' it' of (out, b, i) \<Rightarrow> (take (length itBegin - length it' - 1) itBegin @ out, b, i))
        else code_loop itBegin it')"
  by pat_completeness auto
termination
  by (relation "measure (length \<circ> snd)") (auto dest: GetOp2_shorter [OF sym])

declare code_loop.simps [simp del]

(* src/src/script/interpreter.cpp:1088-1109 CTransactionSignatureSerializer::SerializeScriptCode *)
definition SerializeScriptCode :: "bytes \<Rightarrow> bytes" where
  "SerializeScriptCode scriptCode =
     WriteCompactSize (of_nat (length scriptCode - count_separators scriptCode)) @
     (case code_loop scriptCode scriptCode of (out, itBegin, it) \<Rightarrow>
        out @ (if itBegin \<noteq> [] then take (length itBegin - length it) itBegin else []))"

(* src/src/script/interpreter.cpp:1072-1086 CTransactionSignatureSerializer *)
record sig_serializer =
  ss_txTo :: CTransaction
  ss_scriptCode :: bytes
  ss_nIn :: nat
  fAnyoneCanPay :: bool
  fHashSingle :: bool
  fHashNone :: bool

(* src/src/script/interpreter.cpp:1082-1086 CTransactionSignatureSerializer *)
definition sig_serializer_for :: "CTransaction \<Rightarrow> bytes \<Rightarrow> nat \<Rightarrow> u32 \<Rightarrow> sig_serializer" where
  "sig_serializer_for txToIn scriptCodeIn nInIn nHashTypeIn =
     \<lparr>ss_txTo = txToIn, ss_scriptCode = scriptCodeIn, ss_nIn = nInIn,
      fAnyoneCanPay = (nHashTypeIn AND SIGHASH_ANYONECANPAY \<noteq> 0),
      fHashSingle = (nHashTypeIn AND 0x1f = SIGHASH_SINGLE),
      fHashNone = (nHashTypeIn AND 0x1f = SIGHASH_NONE)\<rparr>"

(* src/src/script/interpreter.cpp:1112-1131 CTransactionSignatureSerializer::SerializeInput *)
definition SerializeInput :: "sig_serializer \<Rightarrow> nat \<Rightarrow> bytes" where
  "SerializeInput z nInput0 =
     (let nInput = (if fAnyoneCanPay z then ss_nIn z else nInput0); txin = vin (ss_txTo z) ! nInput
      in Serialize_COutPoint (prevout txin)
         @ (if nInput \<noteq> ss_nIn z then Serialize_prevector [] else SerializeScriptCode (ss_scriptCode z))
         @ (if nInput \<noteq> ss_nIn z \<and> (fHashSingle z \<or> fHashNone z) then ser_writedata32 0 else ser_writedata32 (nSequence txin)))"

(* src/src/script/interpreter.cpp:1134-1141 CTransactionSignatureSerializer::SerializeOutput *)
definition SerializeOutput :: "sig_serializer \<Rightarrow> nat \<Rightarrow> bytes" where
  "SerializeOutput z nOutput =
     (if fHashSingle z \<and> nOutput \<noteq> ss_nIn z then Serialize_CTxOut CTxOut_null else Serialize_CTxOut (vout (ss_txTo z) ! nOutput))"

(* src/src/script/interpreter.cpp:1144-1160 CTransactionSignatureSerializer::Serialize *)
definition Serialize_signed :: "sig_serializer \<Rightarrow> bytes" where
  "Serialize_signed z =
     (let tx = ss_txTo z;
          nInputs = (if fAnyoneCanPay z then 1 else length (vin tx));
          nOutputs = (if fHashNone z then 0 else if fHashSingle z then ss_nIn z + 1 else length (vout tx))
      in ser_writedata32 (tx_nVersion tx)
         @ WriteCompactSize (of_nat nInputs) @ concat (map (SerializeInput z) [0..<nInputs])
         @ WriteCompactSize (of_nat nOutputs) @ concat (map (SerializeOutput z) [0..<nOutputs])
         @ ser_writedata32 (tx_nLockTime tx))"

(* src/src/script/interpreter.cpp:1163-1169 GetPrevoutHash *)
definition GetPrevoutHash :: "CTransaction \<Rightarrow> bytes" where
  "GetPrevoutHash txTo = hash_of (map (\<lambda>txin. Serialize_COutPoint (prevout txin)) (vin txTo))"

(* src/src/script/interpreter.cpp:1171-1177 GetSequenceHash *)
definition GetSequenceHash :: "CTransaction \<Rightarrow> bytes" where
  "GetSequenceHash txTo = hash_of (map (\<lambda>txin. ser_writedata32 (nSequence txin)) (vin txTo))"

(* src/src/script/interpreter.cpp:1179-1185 GetOutputsHash *)
definition GetOutputsHash :: "CTransaction \<Rightarrow> bytes" where
  "GetOutputsHash txTo = hash_of (map Serialize_CTxOut (vout txTo))"

(* src/src/script/interpreter.h:119-124 PrecomputedTransactionData *)
record PrecomputedTransactionData =
  hashPrevouts :: bytes
  hashSequence :: bytes
  hashOutputs :: bytes

(* src/src/script/interpreter.cpp:1189-1194 PrecomputedTransactionData *)
definition precompute :: "CTransaction \<Rightarrow> PrecomputedTransactionData" where
  "precompute txTo = \<lparr>hashPrevouts = GetPrevoutHash txTo, hashSequence = GetSequenceHash txTo, hashOutputs = GetOutputsHash txTo\<rparr>"

definition uint256_zero :: bytes where
  "uint256_zero = replicate 32 0"

definition uint256_one :: bytes where
  "uint256_one = 1 # replicate 31 0"

text \<open>The pieces hashed for a version 0 witness program; there is no bounds check on the input index.\<close>

(* src/src/script/interpreter.cpp:1198-1241 SignatureHash *)
definition SignatureHash_witness :: "bytes \<Rightarrow> CTransaction \<Rightarrow> nat \<Rightarrow> u32 \<Rightarrow> CAmount \<Rightarrow> PrecomputedTransactionData option \<Rightarrow> bytes option" where
  "SignatureHash_witness scriptCode txTo nIn nHashType amount cache =
     (let acp = (nHashType AND SIGHASH_ANYONECANPAY \<noteq> 0);
          single = (nHashType AND 0x1f = SIGHASH_SINGLE); none = (nHashType AND 0x1f = SIGHASH_NONE);
          hPrevouts = (if \<not> acp then case cache of Some c \<Rightarrow> hashPrevouts c | None \<Rightarrow> GetPrevoutHash txTo else uint256_zero);
          hSequence = (if \<not> acp \<and> \<not> single \<and> \<not> none then case cache of Some c \<Rightarrow> hashSequence c | None \<Rightarrow> GetSequenceHash txTo
                       else uint256_zero);
          hOutputs = (if \<not> single \<and> \<not> none then case cache of Some c \<Rightarrow> hashOutputs c | None \<Rightarrow> GetOutputsHash txTo
                      else if single \<and> nIn < length (vout txTo) then hash_of [Serialize_CTxOut (vout txTo ! nIn)]
                      else uint256_zero)
      in if nIn \<ge> length (vin txTo) then None
         else Some (hash_of [ser_writedata32 (tx_nVersion txTo), hPrevouts, hSequence,
                Serialize_COutPoint (prevout (vin txTo ! nIn)), Serialize_prevector scriptCode, ser_writedata64 amount,
                ser_writedata32 (nSequence (vin txTo ! nIn)), hOutputs, ser_writedata32 (tx_nLockTime txTo), ser_writedata32 nHashType]))"

(* src/src/script/interpreter.cpp:1196-1264 SignatureHash *)
definition SignatureHash ::
  "bytes \<Rightarrow> CTransaction \<Rightarrow> nat \<Rightarrow> u32 \<Rightarrow> CAmount \<Rightarrow> SigVersion \<Rightarrow> PrecomputedTransactionData option \<Rightarrow> bytes option" where
  "SignatureHash scriptCode txTo nIn nHashType amount sigversion cache =
     (if sigversion = SIGVERSION_WITNESS_V0 then SignatureHash_witness scriptCode txTo nIn nHashType amount cache
      else if nIn \<ge> length (vin txTo) then Some uint256_one
      else if nHashType AND 0x1f = SIGHASH_SINGLE \<and> nIn \<ge> length (vout txTo) then Some uint256_one
      else Some (hash_of [Serialize_signed (sig_serializer_for txTo scriptCode nIn nHashType), ser_writedata32 nHashType]))"

subsection \<open>The transaction signature checker\<close>

(* src/src/pubkey.h:50-57 CPubKey::GetLen *)
definition pubkey_GetLen :: "u8 \<Rightarrow> nat" where
  "pubkey_GetLen chHeader =
     (if chHeader = 2 \<or> chHeader = 3 then 33 else if chHeader = 4 \<or> chHeader = 6 \<or> chHeader = 7 then 65 else 0)"

(* src/src/pubkey.h:74-81 CPubKey::Set *)
definition pubkey_IsValid :: "bytes \<Rightarrow> bool" where
  "pubkey_IsValid vch =
     (let len = (if vch = [] then 0 else pubkey_GetLen (vch ! 0)) in len \<noteq> 0 \<and> len = length vch)"

(* src/src/script/interpreter.h:155-161 TransactionSignatureChecker *)
record tx_checker =
  tc_txTo :: CTransaction
  tc_nIn :: nat
  tc_amount :: CAmount
  tc_txdata :: "PrecomputedTransactionData option"

(* src/src/script/interpreter.cpp:1271-1290 TransactionSignatureChecker::CheckSig *)
definition tx_CheckSig :: "(bytes \<Rightarrow> bytes \<Rightarrow> bytes \<Rightarrow> bool) \<Rightarrow> tx_checker \<Rightarrow> bytes \<Rightarrow> bytes \<Rightarrow> bytes \<Rightarrow> SigVersion \<Rightarrow> bool" where
  "tx_CheckSig verify t vchSigIn vchPubKey scriptCode sigversion =
     (if \<not> pubkey_IsValid vchPubKey then False
      else if vchSigIn = [] then False
      else let nHashType = ucast (last vchSigIn); vchSig = butlast vchSigIn
           in case SignatureHash scriptCode (tc_txTo t) (tc_nIn t) nHashType (tc_amount t) sigversion (tc_txdata t) of
                None \<Rightarrow> False
              | Some sighash \<Rightarrow> verify vchPubKey sighash vchSig)"

(* src/src/script/interpreter.cpp:1292-1326 TransactionSignatureChecker::CheckLockTime *)
definition tx_CheckLockTime :: "tx_checker \<Rightarrow> int \<Rightarrow> bool" where
  "tx_CheckLockTime t nLockTime =
     (let txLock = uint (tx_nLockTime (tc_txTo t)); threshold = uint LOCKTIME_THRESHOLD
      in if \<not> (txLock < threshold \<and> nLockTime < threshold \<or> txLock \<ge> threshold \<and> nLockTime \<ge> threshold) then False
         else if nLockTime > txLock then False
         else if SEQUENCE_FINAL = nSequence (vin (tc_txTo t) ! tc_nIn t) then False
         else True)"

(* src/src/script/interpreter.cpp:1328-1372 TransactionSignatureChecker::CheckSequence *)
definition tx_CheckSequence :: "tx_checker \<Rightarrow> int \<Rightarrow> bool" where
  "tx_CheckSequence t nSeq =
     (let txToSequence = uint (nSequence (vin (tc_txTo t) ! tc_nIn t));
          nLockTimeMask = uint (SEQUENCE_LOCKTIME_TYPE_FLAG OR SEQUENCE_LOCKTIME_MASK);
          type_flag = uint SEQUENCE_LOCKTIME_TYPE_FLAG
      in if tx_nVersion (tc_txTo t) < 2 then False
         else if txToSequence AND uint SEQUENCE_LOCKTIME_DISABLE_FLAG \<noteq> 0 then False
         else let txToSequenceMasked = txToSequence AND nLockTimeMask; nSequenceMasked = nSeq AND nLockTimeMask
              in if \<not> (txToSequenceMasked < type_flag \<and> nSequenceMasked < type_flag \<or>
                       txToSequenceMasked \<ge> type_flag \<and> nSequenceMasked \<ge> type_flag) then False
                 else \<not> nSequenceMasked > txToSequenceMasked)"

(* src/src/script/interpreter.h:167-171 TransactionSignatureChecker *)
definition TransactionSignatureChecker :: "(bytes \<Rightarrow> bytes \<Rightarrow> bytes \<Rightarrow> bool) \<Rightarrow> tx_checker \<Rightarrow> checker" where
  "TransactionSignatureChecker verify t =
     \<lparr>CheckSig = tx_CheckSig verify t, CheckLockTime = tx_CheckLockTime t, CheckSequence = tx_CheckSequence t\<rparr>"

subsection \<open>Script verification\<close>

datatype verify_error = ScriptErr ScriptError | AssertFailed

text \<open>What stays the same during one verification.\<close>

record verify_env =
  ve_flags :: u32
  ve_checker :: checker
  ve_CheckLowS :: "bytes \<Rightarrow> bool"

definition eval_env_of :: "verify_env \<Rightarrow> SigVersion \<Rightarrow> eval_env" where
  "eval_env_of v sigversion =
     \<lparr>ee_flags = ve_flags v, ee_checker = ve_checker v, ee_sigversion = sigversion, ee_CheckLowS = ve_CheckLowS v\<rparr>"

definition eval_in :: "verify_env \<Rightarrow> SigVersion \<Rightarrow> bytes list \<Rightarrow> bytes \<Rightarrow> ScriptError + bytes list" where
  "eval_in v sigversion st script = EvalScript (eval_env_of v sigversion) st script"

abbreviation vflag :: "verify_env \<Rightarrow> u32 \<Rightarrow> bool" where
  "vflag v f \<equiv> has_flag (ve_flags v) f"

(* src/src/script/interpreter.cpp:1397-1397 VerifyWitnessProgram *)
definition p2wpkh_script :: "bytes \<Rightarrow> bytes" where
  "p2wpkh_script program = [OP_DUP, OP_HASH160] @ push_data program @ [OP_EQUALVERIFY, OP_CHECKSIG]"

(* src/src/script/interpreter.cpp:1409-1425 VerifyWitnessProgram *)
definition run_witness :: "verify_env \<Rightarrow> bytes list \<Rightarrow> bytes \<Rightarrow> ScriptError option" where
  "run_witness v st script =
     (if \<not> list_all (\<lambda>x. length x \<le> MAX_SCRIPT_ELEMENT_SIZE) st then Some SCRIPT_ERR_PUSH_SIZE
      else case eval_in v SIGVERSION_WITNESS_V0 st script of
             Inl err \<Rightarrow> Some err
           | Inr st' \<Rightarrow> (case st' of [x] \<Rightarrow> if CastToBool x then None else Some SCRIPT_ERR_EVAL_FALSE | _ \<Rightarrow> Some SCRIPT_ERR_EVAL_FALSE))"

(* src/src/script/interpreter.cpp:1374-1425 VerifyWitnessProgram *)
definition VerifyWitnessProgram :: "verify_env \<Rightarrow> bytes list \<Rightarrow> nat \<Rightarrow> bytes \<Rightarrow> ScriptError option" where
  "VerifyWitnessProgram v witness witversion program =
     (if witversion = 0
      then if length program = 32
           then if witness = [] then Some SCRIPT_ERR_WITNESS_PROGRAM_WITNESS_EMPTY
                else let script = last witness; st = rev (butlast witness)
                     in if CSHA256_Finalize (CSHA256_Write script CSHA256_Init) \<noteq> program then Some SCRIPT_ERR_WITNESS_PROGRAM_MISMATCH
                        else run_witness v st script
           else if length program = 20
           then if length witness \<noteq> 2 then Some SCRIPT_ERR_WITNESS_PROGRAM_MISMATCH
                else run_witness v (rev witness) (p2wpkh_script program)
           else Some SCRIPT_ERR_WITNESS_PROGRAM_WRONG_LENGTH
      else if vflag v SCRIPT_VERIFY_DISCOURAGE_UPGRADABLE_WITNESS_PROGRAM
      then Some SCRIPT_ERR_DISCOURAGE_UPGRADABLE_WITNESS_PROGRAM
      else None)"

text \<open>A witness program in the output script or in the redeem script: whether there was one, and the stack left for the
  clean-stack rule.\<close>

(* src/src/script/interpreter.cpp:1456-1472 VerifyScript *)
definition bare_witness :: "verify_env \<Rightarrow> bytes list \<Rightarrow> bytes \<Rightarrow> bytes \<Rightarrow> bytes list \<Rightarrow> verify_error + bool \<times> bytes list" where
  "bare_witness v witness scriptSg scriptPub st =
     (if vflag v SCRIPT_VERIFY_WITNESS
      then case IsWitnessProgram scriptPub of
             None \<Rightarrow> Inr (False, st)
           | Some (witnessversion, witnessprogram) \<Rightarrow>
               if scriptSg \<noteq> [] then Inl (ScriptErr SCRIPT_ERR_WITNESS_MALLEATED)
               else (case VerifyWitnessProgram v witness witnessversion witnessprogram of
                       Some err \<Rightarrow> Inl (ScriptErr err) | None \<Rightarrow> Inr (True, [last st]))
      else Inr (False, st))"

(* src/src/script/interpreter.cpp:1502-1517 VerifyScript *)
definition p2sh_witness :: "verify_env \<Rightarrow> bytes list \<Rightarrow> bytes \<Rightarrow> bytes \<Rightarrow> bool \<Rightarrow> bytes list \<Rightarrow> verify_error + bool \<times> bytes list" where
  "p2sh_witness v witness scriptSg pubKey2 hadWitness st =
     (if vflag v SCRIPT_VERIFY_WITNESS
      then case IsWitnessProgram pubKey2 of
             None \<Rightarrow> Inr (hadWitness, st)
           | Some (witnessversion, witnessprogram) \<Rightarrow>
               if scriptSg \<noteq> push_data pubKey2 then Inl (ScriptErr SCRIPT_ERR_WITNESS_MALLEATED_P2SH)
               else (case VerifyWitnessProgram v witness witnessversion witnessprogram of
                       Some err \<Rightarrow> Inl (ScriptErr err) | None \<Rightarrow> Inr (True, [last st]))
      else Inr (hadWitness, st))"

(* src/src/script/interpreter.cpp:1475-1518 VerifyScript *)
definition p2sh_part :: "verify_env \<Rightarrow> bytes list \<Rightarrow> bytes \<Rightarrow> bytes \<Rightarrow> bytes list \<Rightarrow> bool \<times> bytes list \<Rightarrow> verify_error + bool \<times> bytes list" where
  "p2sh_part v witness scriptSg scriptPub stackCopy = (\<lambda>(hadWitness, st).
     if vflag v SCRIPT_VERIFY_P2SH \<and> IsPayToScriptHash scriptPub
     then if \<not> IsPushOnly scriptSg then Inl (ScriptErr SCRIPT_ERR_SIG_PUSHONLY)
          else case stackCopy of
                 [] \<Rightarrow> Inl AssertFailed
               | pubKey2 # st2 \<Rightarrow>
                   (case eval_in v SIGVERSION_BASE st2 pubKey2 of
                      Inl err \<Rightarrow> Inl (ScriptErr err)
                    | Inr st3 \<Rightarrow>
                        if st3 = [] then Inl (ScriptErr SCRIPT_ERR_EVAL_FALSE)
                        else if \<not> CastToBool (hd st3) then Inl (ScriptErr SCRIPT_ERR_EVAL_FALSE)
                        else p2sh_witness v witness scriptSg pubKey2 hadWitness st3)
     else Inr (hadWitness, st))"

(* src/src/script/interpreter.cpp:1523-1543 VerifyScript *)
definition verify_end :: "verify_env \<Rightarrow> bytes list \<Rightarrow> bool \<times> bytes list \<Rightarrow> verify_error + unit" where
  "verify_end v witness = (\<lambda>(hadWitness, st).
     if vflag v SCRIPT_VERIFY_CLEANSTACK \<and> (\<not> vflag v SCRIPT_VERIFY_P2SH \<or> \<not> vflag v SCRIPT_VERIFY_WITNESS) then Inl AssertFailed
     else if vflag v SCRIPT_VERIFY_CLEANSTACK \<and> length st \<noteq> 1 then Inl (ScriptErr SCRIPT_ERR_CLEANSTACK)
     else if vflag v SCRIPT_VERIFY_WITNESS \<and> \<not> vflag v SCRIPT_VERIFY_P2SH then Inl AssertFailed
     else if vflag v SCRIPT_VERIFY_WITNESS \<and> \<not> hadWitness \<and> witness \<noteq> [] then Inl (ScriptErr SCRIPT_ERR_WITNESS_UNEXPECTED)
     else Inr ())"

(* src/src/script/interpreter.cpp:1427-1544 VerifyScript *)
definition VerifyScript :: "verify_env \<Rightarrow> bytes \<Rightarrow> bytes \<Rightarrow> bytes list option \<Rightarrow> verify_error + unit" where
  "VerifyScript v scriptSg scriptPub witness0 =
     (let witness = (case witness0 of None \<Rightarrow> [] | Some w \<Rightarrow> w)
      in if vflag v SCRIPT_VERIFY_SIGPUSHONLY \<and> \<not> IsPushOnly scriptSg then Inl (ScriptErr SCRIPT_ERR_SIG_PUSHONLY)
         else case eval_in v SIGVERSION_BASE [] scriptSg of
                Inl err \<Rightarrow> Inl (ScriptErr err)
              | Inr st1 \<Rightarrow>
                  (case eval_in v SIGVERSION_BASE st1 scriptPub of
                     Inl err \<Rightarrow> Inl (ScriptErr err)
                   | Inr st2 \<Rightarrow>
                       if st2 = [] then Inl (ScriptErr SCRIPT_ERR_EVAL_FALSE)
                       else if \<not> CastToBool (hd st2) then Inl (ScriptErr SCRIPT_ERR_EVAL_FALSE)
                       else (case bare_witness v witness scriptSg scriptPub st2 of
                               Inl err \<Rightarrow> Inl err
                             | Inr r \<Rightarrow> (case p2sh_part v witness scriptSg scriptPub st1 r of
                                           Inl err \<Rightarrow> Inl err | Inr r' \<Rightarrow> verify_end v witness r'))))"

(* src/src/script/interpreter.cpp:1546-1560 WitnessSigOps *)
definition WitnessSigOps :: "nat \<Rightarrow> bytes \<Rightarrow> bytes list \<Rightarrow> nat" where
  "WitnessSigOps witversion witprogram witness =
     (if witversion = 0
      then if length witprogram = 20 then 1
           else if length witprogram = 32 \<and> length witness > 0 then unat (GetSigOpCount True (last witness))
           else 0
      else 0)"

text \<open>The data of the last instruction of a script, whatever it is; a failing read leaves none but moves on.\<close>

lemma GetOp2_advances: "GetOp2 pc = (r, pc', opcode, vch) \<Longrightarrow> pc \<noteq> [] \<Longrightarrow> length pc' < length pc"
  by (auto simp: GetOp2_def less_Suc_eq_le split: list.splits if_splits option.splits dest!: push_size_shorter)

(* src/src/script/interpreter.cpp:1578-1583 CountWitnessSigOps *)
function last_data :: "bytes \<Rightarrow> bytes \<Rightarrow> bytes" where
  "last_data dat pc =
     (if pc = [] then dat else case GetOp2 pc of (fRet, pc', opcode, vch) \<Rightarrow> last_data vch pc')"
  by pat_completeness auto
termination
  by (relation "measure (length \<circ> snd)") (auto intro: GetOp2_advances [OF sym])

declare last_data.simps [simp del]

(* src/src/script/interpreter.cpp:1562-1591 CountWitnessSigOps *)
definition CountWitnessSigOps :: "bytes \<Rightarrow> bytes \<Rightarrow> bytes list option \<Rightarrow> u32 \<Rightarrow> verify_error + nat" where
  "CountWitnessSigOps scriptSg scriptPub witness flags =
     (let w = (case witness of None \<Rightarrow> [] | Some w \<Rightarrow> w)
      in if \<not> has_flag flags SCRIPT_VERIFY_WITNESS then Inr 0
         else if \<not> has_flag flags SCRIPT_VERIFY_P2SH then Inl AssertFailed
         else case IsWitnessProgram scriptPub of
                Some (witnessversion, witnessprogram) \<Rightarrow> Inr (WitnessSigOps witnessversion witnessprogram w)
              | None \<Rightarrow>
                  if IsPayToScriptHash scriptPub \<and> IsPushOnly scriptSg
                  then case IsWitnessProgram (last_data [] scriptSg) of
                         Some (witnessversion, witnessprogram) \<Rightarrow> Inr (WitnessSigOps witnessversion witnessprogram w)
                       | None \<Rightarrow> Inr 0
                  else Inr 0)"

subsection \<open>The signed serialization is a modified transaction\<close>

lemma hash_of_sha3: "hash_of ps = fips_sha3_256 (concat ps)"
  by (simp add: hash_of_def SerializeHash_sha3)

text \<open>Scripts whose instructions can all be read, and such a script without its code separators.\<close>

function parses :: "bytes \<Rightarrow> bool" where
  "parses pc = (if pc = [] then True else case GetOp2 pc of (fRet, pc', _, _) \<Rightarrow> fRet \<and> parses pc')"
  by pat_completeness auto
termination
  by (relation "measure length") (auto intro: GetOp2_advances [OF sym])

declare parses.simps [simp del]

function without_separators :: "bytes \<Rightarrow> bytes" where
  "without_separators pc =
     (case GetOp2 pc of (fRet, pc', opcode, _) \<Rightarrow>
        if \<not> fRet then [] else (if opcode = OP_CODESEPARATOR then [] else take (length pc - length pc') pc) @ without_separators pc')"
  by pat_completeness auto
termination
  by (relation "measure length") (auto dest: GetOp2_shorter [OF sym])

declare without_separators.simps [simp del]

lemma GetOp2_separator: "GetOp2 pc = (True, pc', OP_CODESEPARATOR, vch) \<longleftrightarrow> pc = OP_CODESEPARATOR # pc' \<and> vch = []"
  by (auto simp: GetOp2_def split: list.splits if_splits option.splits)

lemma parses_cases:
  assumes "parses pc"
  obtains "pc = []" | pc' where "pc = OP_CODESEPARATOR # pc'" "parses pc'"
    | x pc' opcode vch where "GetOp2 pc = (True, pc', opcode, vch)" "opcode \<noteq> OP_CODESEPARATOR" "pc = x @ pc'" "x \<noteq> []"
        "hd pc \<noteq> OP_CODESEPARATOR" "parses pc'"
proof (cases "pc = []")
  case False
  obtain r pc' opcode vch where g: "GetOp2 pc = (r, pc', opcode, vch)" by (cases "GetOp2 pc")
  then have r: r "parses pc'" using assms False by (auto simp: parses.simps [of pc])
  show ?thesis
  proof (cases "opcode = OP_CODESEPARATOR")
    case True
    then show ?thesis using that(2) r GetOp2_separator [of pc pc' vch] g by auto
  next
    case no: False
    obtain x where x: "pc = x @ pc'" using GetOp2_suffix [OF g] by blast
    have "hd pc \<noteq> OP_CODESEPARATOR" using g no False r(1) by (cases pc) (auto simp: GetOp2_op)
    moreover have "x \<noteq> []" using GetOp2_shorter [of pc pc' opcode vch] g r(1) x by auto
    ultimately show ?thesis using that(3) [of pc' opcode vch x] g no x r by simp
  qed
qed (use that in blast)

lemma GetOp2_Nil [simp]: "GetOp2 [] = (False, [], OP_INVALIDOPCODE, [])"
  by (simp add: GetOp2_def)

lemma separator_steps [simp]:
  "count_separators [] = 0" "without_separators [] = []"
  "count_separators (OP_CODESEPARATOR # pc) = Suc (count_separators pc)" "without_separators (OP_CODESEPARATOR # pc) = without_separators pc"
  by (simp_all add: count_separators.simps without_separators.simps GetOp2_op)

lemma other_steps:
  assumes "GetOp2 pc = (True, pc', opcode, vch)" "opcode \<noteq> OP_CODESEPARATOR" "pc = x @ pc'"
  shows "count_separators pc = count_separators pc'" "without_separators pc = x @ without_separators pc'"
  using assms(1,2) arg_cong [OF assms(3), of length] arg_cong [OF assms(3), of "take (length x)"]
  by (simp_all add: count_separators.simps [of pc] without_separators.simps [of pc])

lemma without_separators_length: "parses pc \<Longrightarrow> length (without_separators pc) + count_separators pc = length pc"
proof (induction pc rule: length_induct)
  case (1 pc)
  from "1.prems" show ?case
  proof (cases rule: parses_cases)
    case (3 x pc' opcode vch)
    then have "length (without_separators pc') + count_separators pc' = length pc'" using "1.IH" by auto
    then show ?thesis using other_steps [OF 3(1-3)] 3(3) by simp
  qed (use "1.IH" in auto)
qed

lemma code_loop_parses:
  "parses it \<Longrightarrow> code_loop (x @ it) it = (out, b, i) \<Longrightarrow> out @ b = x @ without_separators it \<and> i = []"
proof (induction it arbitrary: x out b i rule: length_induct)
  case (1 it)
  from "1.prems"(1) show ?case
  proof (cases rule: parses_cases)
    case 1
    then show ?thesis using "1.prems"(2) by (simp add: code_loop.simps)
  next
    case (2 it')
    obtain out' b' i' where c: "code_loop it' it' = (out', b', i')" by (cases "code_loop it' it'")
    then have "out' @ b' = without_separators it' \<and> i' = []" using "1.IH" 2 by (metis append_Nil length_Cons lessI)
    then show ?thesis using "1.prems"(2) 2 c by (auto simp: code_loop.simps [of "x @ OP_CODESEPARATOR # it'"] GetOp2_op)
  next
    case (3 y it' opcode vch)
    have "code_loop (x @ it) it = code_loop (x @ it) it'" using 3(1,2) by (simp add: code_loop.simps [of "x @ it"])
    also have "x @ it = (x @ y) @ it'" using 3(3) by simp
    finally have "out @ b = (x @ y) @ without_separators it' \<and> i = []"
      using "1.IH" [rule_format, of it' "x @ y" out b i] 3 "1.prems"(2) by auto
    then show ?thesis using other_steps [OF 3(1-3)] by simp
  qed
qed

lemma SerializeScriptCode_parses:
  assumes "parses code"
  shows "SerializeScriptCode code = Serialize_prevector (without_separators code)"
proof -
  obtain out b i where c: "code_loop code code = (out, b, i)" by (cases "code_loop code code")
  then have "out @ b = without_separators code" "i = []" using code_loop_parses [OF assms, of "[]"] by auto
  moreover have "length code - count_separators code = length (without_separators code)"
    using without_separators_length [OF assms] by simp
  ultimately show ?thesis unfolding SerializeScriptCode_def Serialize_prevector_def c prod.case by auto
qed

text \<open>The reference algorithm of \<^verbatim>\<open>src/src/test/sighash_tests.cpp\<close> deletes the separators with \<^verbatim>\<open>FindAndDelete\<close>; on
  readable scripts this is the same script.\<close>

lemma skip_separators:
  "skip_matches [OP_CODESEPARATOR] pc n =
     (case pc of [] \<Rightarrow> ([], n) | c # pc' \<Rightarrow> if c = OP_CODESEPARATOR then skip_matches [OP_CODESEPARATOR] pc' (Suc n) else (pc, n))"
  by (subst skip_matches.simps) (auto split: list.split)

lemma FindAndDelete_loop_separators:
  "parses pc \<Longrightarrow> FindAndDelete_loop [OP_CODESEPARATOR] result (x @ pc) pc n = (result', pc2', n') \<Longrightarrow>
     result' @ pc2' = result @ x @ without_separators pc \<and> n' = n + count_separators pc"
proof (induction pc arbitrary: result x n rule: length_induct)
  case (1 pc)
  let ?S = "OP_CODESEPARATOR"
  have l: "FindAndDelete_loop [?S] result (x @ pc) pc n =
      (case skip_matches [?S] pc n of (pc1, n1) \<Rightarrow> case GetOp2 pc1 of (fRet, pc3, opcode, vch) \<Rightarrow>
        if fRet then FindAndDelete_loop [?S] (result @ x) pc1 pc3 n1 else (result @ x, pc1, n1))" for result x n pc
    by (subst FindAndDelete_loop.simps) (simp add: Let_def)
  from "1.prems"(1) show ?case
  proof (cases rule: parses_cases)
    case 1
    then show ?thesis using "1.prems"(2) [unfolded l] by (auto simp: skip_separators)
  next
    case (2 pc')
    have "FindAndDelete_loop [?S] result (x @ pc) pc n = FindAndDelete_loop [?S] result (x @ pc') pc' (Suc n)"
      by (simp only: 2 l skip_separators [of "?S # pc'"] list.case if_True refl)
    then show ?thesis using "1.IH" [rule_format, of pc' result x "Suc n"] "1.prems"(2) 2 by simp
  next
    case (3 y pc' opcode vch)
    then have "skip_matches [?S] pc n = (pc, n)" by (cases y) (auto simp: skip_separators)
    then have "FindAndDelete_loop [?S] result (x @ pc) pc n = FindAndDelete_loop [?S] (result @ x) (y @ pc') pc' n"
      using 3 by (simp add: l)
    moreover have "length pc' < length pc" using 3 by simp
    ultimately have "result' @ pc2' = (result @ x) @ y @ without_separators pc' \<and> n' = n + count_separators pc'"
      using "1.IH" "1.prems"(2) 3(6) by simp
    then show ?thesis using other_steps [OF 3(1-3)] by simp
  qed
qed

lemma count_0_without: "parses pc \<Longrightarrow> count_separators pc = 0 \<Longrightarrow> without_separators pc = pc"
proof (induction pc rule: length_induct)
  case (1 pc)
  from "1.prems"(1) show ?case
  proof (cases rule: parses_cases)
    case (3 x pc' opcode vch)
    then show ?thesis using "1.IH" "1.prems"(2) other_steps [OF 3(1-3)] by auto
  qed (use "1.prems"(2) in auto)
qed

lemma FindAndDelete_separators: "parses code \<Longrightarrow> fst (FindAndDelete code [OP_CODESEPARATOR]) = without_separators code"
proof -
  assume p: "parses code"
  obtain r pc2 n where f: "FindAndDelete_loop [OP_CODESEPARATOR] [] code code 0 = (r, pc2, n)"
    by (cases "FindAndDelete_loop [OP_CODESEPARATOR] [] code code 0")
  then have "r @ pc2 = without_separators code \<and> n = count_separators code"
    using FindAndDelete_loop_separators [OF p, of "[]" "[]" 0] by simp
  then show ?thesis using f count_0_without [OF p] by (auto simp: FindAndDelete_def)
qed

text \<open>The modified copy of the transaction.\<close>

definition sighash_input :: "bytes \<Rightarrow> nat \<Rightarrow> bool \<Rightarrow> nat \<Rightarrow> CTxIn \<Rightarrow> CTxIn" where
  "sighash_input code nIn others_free i txin =
     (if i = nIn then txin\<lparr>scriptSig := code, scriptWitness := []\<rparr>
      else txin\<lparr>scriptSig := [], nSequence := (if others_free then 0 else nSequence txin), scriptWitness := []\<rparr>)"

definition sighash_tx :: "CTransaction \<Rightarrow> bytes \<Rightarrow> nat \<Rightarrow> u32 \<Rightarrow> CTransaction" where
  "sighash_tx tx code nIn nHashType =
     (let none = (nHashType AND 0x1f = SIGHASH_NONE); single = (nHashType AND 0x1f = SIGHASH_SINGLE);
          ins = map2 (sighash_input code nIn (none \<or> single)) [0..<length (vin tx)] (vin tx)
      in tx\<lparr>vin := (if nHashType AND SIGHASH_ANYONECANPAY \<noteq> 0 then [ins ! nIn] else ins),
            vout := (if none then [] else if single then replicate nIn CTxOut_null @ [vout tx ! nIn] else vout tx)\<rparr>)"

lemma Serialize_signed_tx:
  assumes "parses code" "nIn < length (vin tx)" "nHashType AND 0x1f = SIGHASH_SINGLE \<Longrightarrow> nIn < length (vout tx)"
  shows "Serialize_signed (sig_serializer_for tx code nIn nHashType) = plain_bytes (sighash_tx tx (without_separators code) nIn nHashType)"
proof -
  let ?z = "sig_serializer_for tx code nIn nHashType" and ?c = "without_separators code"
  let ?none = "nHashType AND 0x1f = SIGHASH_NONE" and ?single = "nHashType AND 0x1f = SIGHASH_SINGLE"
  let ?ins = "map2 (sighash_input ?c nIn (?none \<or> ?single)) [0..<length (vin tx)] (vin tx)"
  have i: "SerializeInput ?z i = Serialize_CTxIn (?ins ! (if nHashType AND SIGHASH_ANYONECANPAY \<noteq> 0 then nIn else i))"
    if "i < length (vin tx)" for i
    using that assms(2) by (auto simp: SerializeInput_def sig_serializer_for_def Serialize_CTxIn_def sighash_input_def Let_def SerializeScriptCode_parses [OF assms(1)])
  have ins: "map (SerializeInput ?z) [0..<if nHashType AND SIGHASH_ANYONECANPAY \<noteq> 0 then 1 else length (vin tx)] =
      map Serialize_CTxIn (if nHashType AND SIGHASH_ANYONECANPAY \<noteq> 0 then [?ins ! nIn] else ?ins)"
  proof (cases "nHashType AND SIGHASH_ANYONECANPAY \<noteq> 0")
    case True
    have "0 < length (vin tx)" using assms(2) by linarith
    from i [OF this] True show ?thesis by simp
  next
    case False
    then show ?thesis using i by (auto intro!: nth_equalityI)
  qed
  have outs: "map (SerializeOutput ?z) [0..<if ?none then 0 else if ?single then nIn + 1 else length (vout tx)] =
      map Serialize_CTxOut (if ?none then [] else if ?single then replicate nIn CTxOut_null @ [vout tx ! nIn] else vout tx)"
    using assms(3) by (auto simp: SerializeOutput_def sig_serializer_for_def nth_append intro!: nth_equalityI)
  have z: "ss_txTo ?z = tx" "ss_nIn ?z = nIn" "fHashNone ?z = ?none" "fHashSingle ?z = ?single"
    "fAnyoneCanPay ?z = (nHashType AND SIGHASH_ANYONECANPAY \<noteq> 0)"
    by (simp_all add: sig_serializer_for_def)
  have li: "length (if nHashType AND SIGHASH_ANYONECANPAY \<noteq> 0 then [?ins ! nIn] else ?ins) =
      (if nHashType AND SIGHASH_ANYONECANPAY \<noteq> 0 then 1 else length (vin tx))"
    by simp
  have lo: "length (if ?none then [] else if ?single then replicate nIn CTxOut_null @ [vout tx ! nIn] else vout tx) =
      (if ?none then 0 else if ?single then nIn + 1 else length (vout tx))"
    by simp
  have p: "plain_bytes (tx\<lparr>vin := a, vout := b\<rparr>) = ser_writedata32 (tx_nVersion tx) @ Serialize_vec Serialize_CTxIn a
      @ Serialize_vec Serialize_CTxOut b @ ser_writedata32 (tx_nLockTime tx)" for a b
    by (simp add: plain_bytes_def)
  show ?thesis
    by (simp only: Serialize_signed_def p sighash_tx_def Serialize_vec_def Let_def z ins outs li lo append_assoc)
qed

subsection \<open>Running pushes and single operations\<close>

lemma GetOp2_opcode: "GetOp2 (c # r) = (True, r', oc, vch) \<Longrightarrow> oc = c"
  by (auto simp: GetOp2_def split: if_splits option.splits)

text \<open>Data of at least two bytes has no shorter push.\<close>

lemma push_data_minimal:
  assumes "2 \<le> length b" "GetOp2 (push_data b @ r) = (True, r, oc, b)"
  shows "CheckMinimalPush b oc"
proof -
  obtain c cs where c: "push_data b = c # cs" using push_data_nonempty [of b] by (cases "push_data b") auto
  then have "oc = hd (push_data b)" using GetOp2_opcode [of c "cs @ r"] assms(2) by simp
  moreover have "unat (of_nat (length b) :: u8) = length b" if "length b < 76" using that by (simp add: unat_of_nat)
  ultimately show ?thesis using assms(1) by (auto simp: CheckMinimalPush_def push_data_def)
qed

lemma eval_push:
  assumes "es_pc s = push_data b @ r" "es_vfExec s = []" "length b \<le> MAX_SCRIPT_ELEMENT_SIZE" "fRequireMinimal e \<longrightarrow> 2 \<le> length b"
    "length (es_stack s) + length (es_altstack s) < MAX_STACK_SIZE"
  shows "eval_step e s = Go (s\<lparr>es_pc := r, es_stack := b # es_stack s\<rparr>)"
proof -
  have "length b < 2 ^ 32" using assms(3) by (simp add: MAX_SCRIPT_ELEMENT_SIZE_def)
  then obtain oc where g: "GetOp2 (push_data b @ r) = (True, r, oc, b)" "oc \<le> OP_PUSHDATA4" using GetOp2_push_data [of b r] by blast
  have "\<not> oc > OP_16" "\<not> disabled_opcode oc" using g(2) by (auto simp: le_u8 disabled_opcode_def)
  moreover have "\<not> (fRequireMinimal e \<and> \<not> CheckMinimalPush b oc)" using push_data_minimal [OF _ g(1)] assms(4) by blast
  ultimately show ?thesis using assms g by (simp add: eval_step_def set_stack_def Let_def)
qed

lemma EvalScript_loop_push:
  assumes "es_pc s = push_data b @ r" "es_vfExec s = []" "length b \<le> MAX_SCRIPT_ELEMENT_SIZE" "fRequireMinimal e \<longrightarrow> 2 \<le> length b"
    "length (es_stack s) + length (es_altstack s) < MAX_STACK_SIZE"
  shows "EvalScript_loop e s = EvalScript_loop e (s\<lparr>es_pc := r, es_stack := b # es_stack s\<rparr>)"
  using eval_push [OF assms] assms(1) push_data_nonempty [of b] by (simp add: EvalScript_loop.simps [of e s])

lemma EvalScript_loop_op:
  assumes "es_pc s = oc # r" "OP_16 < oc" "\<not> disabled_opcode oc" "es_vfExec s = []" "es_nOpCount s < int MAX_OPS_PER_SCRIPT"
  shows "EvalScript_loop e s =
    (case size_limit (exec_op e True oc (s\<lparr>es_pc := r, es_nOpCount := es_nOpCount s + 1\<rparr>)) of
       Fail err \<Rightarrow> Inl err | Done st \<Rightarrow> Inr st | Go s' \<Rightarrow> EvalScript_loop e s')"
proof -
  have "OP_PUSHDATA4 < oc" using assms(2) by (simp add: word_less_nat_alt)
  then show ?thesis using assms
    by (simp add: EvalScript_loop.simps [of e s] eval_step_def GetOp2_op not_le [symmetric])
qed

lemma EvalScript_loop_end: "es_pc s = [] \<Longrightarrow> es_vfExec s = [] \<Longrightarrow> EvalScript_loop e s = Inr (es_stack s)"
  by (simp add: EvalScript_loop.simps [of e s])

text \<open>The script paying to a key hash, run on a key and a signature.\<close>

definition p2pkh_result :: "eval_env \<Rightarrow> bytes \<Rightarrow> bytes \<Rightarrow> bytes \<Rightarrow> ScriptError + bool" where
  "p2pkh_result e sig pk h =
     (let code = (if ee_sigversion e = SIGVERSION_BASE then fst (FindAndDelete (p2wpkh_script h) (push_data sig)) else p2wpkh_script h);
          ok = CheckSig (ee_checker e) sig pk code (ee_sigversion e)
      in if spec_ripemd160 (fips_sha256 pk) \<noteq> h then Inl SCRIPT_ERR_EQUALVERIFY
         else case CheckSignatureEncoding e sig of Some err \<Rightarrow> Inl err
         | None \<Rightarrow> (case CheckPubKeyEncoding e pk of Some err \<Rightarrow> Inl err
         | None \<Rightarrow> if \<not> ok \<and> flag e SCRIPT_VERIFY_NULLFAIL \<and> sig \<noteq> [] then Inl SCRIPT_ERR_SIG_NULLFAIL else Inr ok))"

lemma EvalScript_p2pkh:
  assumes "length h = 20" "length pk \<le> MAX_SCRIPT_ELEMENT_SIZE" "length st + 4 \<le> MAX_STACK_SIZE"
  shows "EvalScript e (pk # sig # st) (p2wpkh_script h) =
    (case p2pkh_result e sig pk h of Inl err \<Rightarrow> Inl err | Inr ok \<Rightarrow> Inr (vchBool ok # st))"
proof -
  have hash: "CHash160_Finalize (CSHA256_Write pk CSHA256_Init) = spec_ripemd160 (fips_sha256 pk)"
    using CHash160_Finalize_ripemd [of "[pk]"] assms(2) by (simp add: MAX_SCRIPT_ELEMENT_SIZE_def)
  let ?H = "spec_ripemd160 (fips_sha256 pk)" and ?code = "p2wpkh_script h"
  let ?s = "\<lambda>st pc n. \<lparr>es_stack = st, es_altstack = [], es_vfExec = [], es_pc = pc, es_codehash = ?code, es_nOpCount = n\<rparr>"
  have size: "length ?code = 25" using assms(1) by (simp add: p2wpkh_script_def push_data_def)
  note op = EvalScript_loop_op [where r = "_ # _"] EvalScript_loop_op [where r = "push_data h @ _"] EvalScript_loop_op [where r = "[]"]
  have "EvalScript e (pk # sig # st) ?code = EvalScript_loop e (?s (pk # sig # st) ([OP_DUP, OP_HASH160] @ push_data h @ [OP_EQUALVERIFY, OP_CHECKSIG]) 0)"
    by (simp add: EvalScript_def size MAX_SCRIPT_SIZE_def eval_start_def) (simp add: p2wpkh_script_def)
  also have "\<dots> = EvalScript_loop e (?s (pk # pk # sig # st) (OP_HASH160 # push_data h @ [OP_EQUALVERIFY, OP_CHECKSIG]) 1)"
    using assms(3) by (simp add: op MAX_OPS_PER_SCRIPT_def disabled_opcode_def exec_op_def op_stack2_def set_stack_def)
  also have "\<dots> = EvalScript_loop e (?s (?H # pk # sig # st) (push_data h @ [OP_EQUALVERIFY, OP_CHECKSIG]) 2)"
    using assms(3) by (simp add: op MAX_OPS_PER_SCRIPT_def disabled_opcode_def exec_op_def op_hash_def set_stack_def hash)
  also have "\<dots> = EvalScript_loop e (?s (h # ?H # pk # sig # st) [OP_EQUALVERIFY, OP_CHECKSIG] 2)"
    using assms(1,3) by (subst EvalScript_loop_push [of _ h "[OP_EQUALVERIFY, OP_CHECKSIG]"]) (simp_all add: MAX_SCRIPT_ELEMENT_SIZE_def)
  also have "\<dots> = (if ?H \<noteq> h then Inl SCRIPT_ERR_EQUALVERIFY else EvalScript_loop e (?s (pk # sig # st) [OP_CHECKSIG] 3))"
    using assms(3) by (simp add: op MAX_OPS_PER_SCRIPT_def disabled_opcode_def exec_op_def op_equal_def set_stack_def)
  also have "EvalScript_loop e (?s (pk # sig # st) [OP_CHECKSIG] 3) =
      (case size_limit (op_checksig e OP_CHECKSIG (?s (pk # sig # st) [] 4)) of
         Fail err \<Rightarrow> Inl err | Done st \<Rightarrow> Inr st | Go s' \<Rightarrow> EvalScript_loop e s')"
    by (simp add: op MAX_OPS_PER_SCRIPT_def disabled_opcode_def exec_op_def)
  finally show ?thesis using assms(3)
    by (auto simp: op_checksig_def p2pkh_result_def set_stack_def Let_def EvalScript_loop_end split: option.split)
qed

lemma p2pkh_shape: "length h = 20 \<Longrightarrow> IsWitnessProgram (p2wpkh_script h) = None \<and> \<not> IsPayToScriptHash (p2wpkh_script h)"
  by (simp add: p2wpkh_script_def IsWitnessProgram_def IsPayToScriptHash_def push_data_def word_less_nat_alt)

lemma EvalScript_two_pushes:
  assumes "length a \<le> 75" "length b \<le> 75" "2 \<le> length a" "2 \<le> length b"
  shows "EvalScript e [] (push_data a @ push_data b) = Inr [b, a]"
proof -
  let ?s = "eval_start [] (push_data a @ push_data b)"
  have "length (push_data a @ push_data b) \<le> MAX_SCRIPT_SIZE" using assms by (simp add: push_data_def MAX_SCRIPT_SIZE_def)
  then have "EvalScript e [] (push_data a @ push_data b) = EvalScript_loop e ?s" by (simp add: EvalScript_def)
  also have "\<dots> = EvalScript_loop e (?s\<lparr>es_pc := push_data b, es_stack := [a]\<rparr>)"
    using assms by (subst EvalScript_loop_push [of _ a "push_data b"]) (simp_all add: eval_start_def MAX_SCRIPT_ELEMENT_SIZE_def MAX_STACK_SIZE_def)
  also have "\<dots> = EvalScript_loop e (?s\<lparr>es_pc := [], es_stack := [b, a]\<rparr>)"
    using assms by (subst EvalScript_loop_push [of _ b "[]"]) (simp_all add: eval_start_def MAX_SCRIPT_ELEMENT_SIZE_def MAX_STACK_SIZE_def)
  finally show ?thesis by (simp add: EvalScript_loop_end eval_start_def)
qed

lemma EvalScript_p2sh_empty: "IsPayToScriptHash script \<Longrightarrow> EvalScript e [] script = Inl SCRIPT_ERR_INVALID_STACK_OPERATION"
proof -
  assume p: "IsPayToScriptHash script"
  then obtain r where "script = OP_HASH160 # r" by (cases script) (auto simp: IsPayToScriptHash_def)
  moreover have "length script \<le> MAX_SCRIPT_SIZE" using p by (simp add: IsPayToScriptHash_def MAX_SCRIPT_SIZE_def)
  ultimately show ?thesis
    by (simp add: EvalScript_def eval_start_def EvalScript_loop_op MAX_OPS_PER_SCRIPT_def disabled_opcode_def exec_op_def op_hash_def)
qed

subsection \<open>Properties\<close>

text \<open>C22. The legacy signature hash is the SHA3-256 digest of an ordinary transaction followed by the hash type: the copy of
  the signed transaction whose inputs carry no script except the signed one, which carries the code without its code
  separators, with the outputs and the other inputs dropped or blanked as the hash type says. An index out of range gives
  the number one instead. The serializer never builds that copy; the equality holds for every code whose instructions can
  all be read.\<close>
theorem SignatureHash_reference:
  assumes "parses code"
  shows "SignatureHash code tx nIn nHashType amount SIGVERSION_BASE cache =
    Some (if length (vin tx) \<le> nIn \<or> nHashType AND 0x1f = SIGHASH_SINGLE \<and> length (vout tx) \<le> nIn then uint256_one
          else fips_sha3_256 (SerializeTransaction SERIALIZE_TRANSACTION_NO_WITNESS
                 (sighash_tx tx (fst (FindAndDelete code [OP_CODESEPARATOR])) nIn nHashType) @ ser_writedata32 nHashType))"
  using Serialize_signed_tx [OF assms, of nIn tx nHashType]
  by (auto simp: SignatureHash_def hash_of_sha3 FindAndDelete_separators [OF assms] SerializeTransaction_forms fAllowWitness_def SERIALIZE_TRANSACTION_NO_WITNESS_def)

theorem SignatureHash_reference_witness:
  "SignatureHash [OP_CODESEPARATOR, OP_DUP] sample_tx 0 1 5 SIGVERSION_BASE None =
     Some (fips_sha3_256 (SerializeTransaction SERIALIZE_TRANSACTION_NO_WITNESS (sighash_tx sample_tx [OP_DUP] 0 1) @ ser_writedata32 1))"
proof -
  have p: "parses [OP_CODESEPARATOR, OP_DUP]" by (simp add: parses.simps GetOp2_op)
  have "without_separators [OP_DUP] = [OP_DUP]" by (simp add: without_separators.simps [of "[OP_DUP]"] GetOp2_op)
  then show ?thesis using SignatureHash_reference [OF p, of sample_tx 0 1 5 None] FindAndDelete_separators [OF p]
    by (simp add: sample_tx_def SIGHASH_SINGLE_def)
qed

text \<open>C21. Spending an output that pays to a key hash, with the signature and the key pushed by the input script: the result is
  decided by the hash of the key, the encodings of both and the checker, whatever the flags, as long as they are consistent;
  the version 0 witness program of the same hash decides in the same way with its own signature version.\<close>
theorem VerifyScript_p2pkh:
  assumes "length h = 20" "2 \<le> length sig" "length sig \<le> 75" "2 \<le> length pk" "length pk \<le> 75"
    and flags: "vflag v SCRIPT_VERIFY_CLEANSTACK \<longrightarrow> vflag v SCRIPT_VERIFY_WITNESS" "vflag v SCRIPT_VERIFY_WITNESS \<longrightarrow> vflag v SCRIPT_VERIFY_P2SH"
  shows "VerifyScript v (push_data sig @ push_data pk) (p2wpkh_script h) None =
      (case p2pkh_result (eval_env_of v SIGVERSION_BASE) sig pk h of Inl err \<Rightarrow> Inl (ScriptErr err)
       | Inr ok \<Rightarrow> if ok then Inr () else Inl (ScriptErr SCRIPT_ERR_EVAL_FALSE)) \<and>
    VerifyWitnessProgram v [sig, pk] 0 h =
      (case p2pkh_result (eval_env_of v SIGVERSION_WITNESS_V0) sig pk h of Inl err \<Rightarrow> Some err
       | Inr ok \<Rightarrow> if ok then None else Some SCRIPT_ERR_EVAL_FALSE)"
proof
  have big: "length pk \<le> MAX_SCRIPT_ELEMENT_SIZE" "length sig \<le> MAX_SCRIPT_ELEMENT_SIZE" "length ([] :: bytes list) + 4 \<le> MAX_STACK_SIZE"
    using assms(3,5) by (simp_all add: MAX_SCRIPT_ELEMENT_SIZE_def MAX_STACK_SIZE_def)
  note run = EvalScript_p2pkh [OF assms(1) big(1,3)]
  have push: "IsPushOnly (push_data sig @ push_data pk)" using pushes_read_back [of "[sig, pk]"] assms(3,5) by simp
  show "VerifyScript v (push_data sig @ push_data pk) (p2wpkh_script h) None =
      (case p2pkh_result (eval_env_of v SIGVERSION_BASE) sig pk h of Inl err \<Rightarrow> Inl (ScriptErr err)
       | Inr ok \<Rightarrow> if ok then Inr () else Inl (ScriptErr SCRIPT_ERR_EVAL_FALSE))"
    using push p2pkh_shape [OF assms(1)] flags
    by (simp add: VerifyScript_def eval_in_def EvalScript_two_pushes [OF assms(3,5,2,4)] run vchBool_def bare_witness_def p2sh_part_def
        verify_end_def split: sum.split)
  show "VerifyWitnessProgram v [sig, pk] 0 h =
      (case p2pkh_result (eval_env_of v SIGVERSION_WITNESS_V0) sig pk h of Inl err \<Rightarrow> Some err
       | Inr ok \<Rightarrow> if ok then None else Some SCRIPT_ERR_EVAL_FALSE)"
    using assms(1) big(1,2) by (simp add: VerifyWitnessProgram_def run_witness_def eval_in_def run vchBool_def split: sum.split)
qed

lemmas flag_defs = SCRIPT_VERIFY_P2SH_def SCRIPT_VERIFY_STRICTENC_def SCRIPT_VERIFY_DERSIG_def SCRIPT_VERIFY_LOW_S_def
  SCRIPT_VERIFY_NULLDUMMY_def SCRIPT_VERIFY_SIGPUSHONLY_def SCRIPT_VERIFY_MINIMALDATA_def
  SCRIPT_VERIFY_DISCOURAGE_UPGRADABLE_NOPS_def SCRIPT_VERIFY_CLEANSTACK_def SCRIPT_VERIFY_CHECKLOCKTIMEVERIFY_def
  SCRIPT_VERIFY_CHECKSEQUENCEVERIFY_def SCRIPT_VERIFY_WITNESS_def SCRIPT_VERIFY_DISCOURAGE_UPGRADABLE_WITNESS_PROGRAM_def
  SCRIPT_VERIFY_MINIMALIF_def SCRIPT_VERIFY_NULLFAIL_def SCRIPT_VERIFY_WITNESS_PUBKEYTYPE_def

definition sample_verify :: verify_env where
  "sample_verify = \<lparr>ve_flags = SCRIPT_VERIFY_P2SH,
     ve_checker = \<lparr>CheckSig = \<lambda>x k code sv. x = [7, 7] \<and> k = [2, 9], CheckLockTime = \<lambda>_. False, CheckSequence = \<lambda>_. False\<rparr>,
     ve_CheckLowS = \<lambda>_. True\<rparr>"

theorem VerifyScript_p2pkh_witness:
  "VerifyScript sample_verify (push_data [7, 7] @ push_data [2, 9]) (p2wpkh_script (spec_ripemd160 (fips_sha256 [2, 9]))) None = Inr () \<and>
   VerifyScript sample_verify (push_data [7, 8] @ push_data [2, 9]) (p2wpkh_script (spec_ripemd160 (fips_sha256 [2, 9]))) None =
     Inl (ScriptErr SCRIPT_ERR_EVAL_FALSE)"
proof -
  note use = VerifyScript_p2pkh [of "spec_ripemd160 (fips_sha256 [2, 9])" _ "[2, 9]" sample_verify]
  have "p2pkh_result (eval_env_of sample_verify SIGVERSION_BASE) sig [2, 9] (spec_ripemd160 (fips_sha256 [2, 9])) = Inr (sig = [7, 7])" for sig
    by (simp add: p2pkh_result_def CheckSignatureEncoding_def CheckPubKeyEncoding_def eval_env_of_def sample_verify_def has_flag_def flag_defs)
  then show ?thesis using use [of "[7, 7]"] use [of "[7, 8]"]
    by (simp add: digest_lengths_160 sample_verify_def has_flag_def flag_defs)
qed

text \<open>C23. The assertions of script verification cannot fail: with consistent flags no input, output script or witness reaches
  one, in particular the redeem script is never taken from an empty stack.\<close>
theorem VerifyScript_no_assertion:
  assumes "vflag v SCRIPT_VERIFY_CLEANSTACK \<longrightarrow> vflag v SCRIPT_VERIFY_WITNESS" "vflag v SCRIPT_VERIFY_WITNESS \<longrightarrow> vflag v SCRIPT_VERIFY_P2SH"
  shows "VerifyScript v scriptSg scriptPub witness \<noteq> Inl AssertFailed"
proof -
  have "p2sh_part v w scriptSg scriptPub st1 r \<noteq> Inl AssertFailed" if "eval_in v SIGVERSION_BASE st1 scriptPub = Inr st2" for w st1 st2 r
  proof (cases "IsPayToScriptHash scriptPub")
    case True
    then have "st1 \<noteq> []" using that EvalScript_p2sh_empty [OF True] by (auto simp: eval_in_def)
    then show ?thesis by (auto simp: p2sh_part_def p2sh_witness_def split: prod.splits list.splits sum.splits option.splits if_splits)
  qed (simp add: p2sh_part_def split: prod.split)
  moreover have "bare_witness v w scriptSg scriptPub st \<noteq> Inl AssertFailed" "verify_end v w r \<noteq> Inl AssertFailed" for w st r
    using assms by (auto simp: bare_witness_def verify_end_def split: prod.splits option.splits if_splits)
  ultimately show ?thesis by (auto simp: VerifyScript_def Let_def split: sum.splits if_splits)
qed

theorem VerifyScript_no_assertion_witness: "VerifyScript sample_verify [] [OP_HASH160] (Some [[1]]) \<noteq> Inl AssertFailed"
  by (rule VerifyScript_no_assertion) (simp_all add: sample_verify_def has_flag_def flag_defs)

end
