(* ===== verification/Standard.thy ===== *)
theory Standard
  imports Interpreter
begin

text \<open>
  Standard output scripts (\<^verbatim>\<open>src/src/script/standard.cpp\<close>): recognising them by templates, extracting destinations, and building
  them from destinations. Every script built for a destination is recognised as that destination again.
\<close>

subsection \<open>Data\<close>

(* src/src/script/standard.h:52-67 txnouttype *)
datatype txnouttype = TX_NONSTANDARD | TX_PUBKEY | TX_PUBKEYHASH | TX_SCRIPTHASH | TX_MULTISIG | TX_NULL_DATA
  | TX_WITNESS_V0_SCRIPTHASH | TX_WITNESS_V0_KEYHASH | TX_CREATE | TX_CALL | TX_SSTX

(* src/src/script/standard.h:69-82 CTxDestination *)
datatype CTxDestination = CNoDestination | CKeyID bytes | CScriptID bytes

(* src/src/script/standard.cpp:52-71 Solver *)
definition mTemplates :: "(txnouttype \<times> bytes) list" where
  "mTemplates =
     [(TX_PUBKEY, [OP_PUBKEY, OP_CHECKSIG]),
      (TX_PUBKEYHASH, [OP_DUP, OP_HASH160, OP_PUBKEYHASH, OP_EQUALVERIFY, OP_CHECKSIG]),
      (TX_MULTISIG, [OP_SMALLINTEGER, OP_PUBKEYS, OP_SMALLINTEGER, OP_CHECKMULTISIG]),
      (TX_CREATE, [OP_VERSION, OP_GAS_LIMIT, OP_GAS_PRICE, OP_DATA, OP_CREATE]),
      (TX_CALL, [OP_VERSION, OP_GAS_LIMIT, OP_GAS_PRICE, OP_DATA, OP_PUBKEYHASH, OP_CALL])]"

text \<open>The raw form of a contract version: the root machine is in bits 2 to 7.\<close>

(* src/src/tsc/tsctransaction.h:6-43 VersionVM *)
definition rootVM_of :: "u32 \<Rightarrow> u8" where
  "rootVM_of raw = ucast (drop_bit 2 raw AND 0x3f)"

(* src/src/script/standard.h:20-20 STANDARD_MINIMUM_GAS_LIMIT *)
definition STANDARD_MINIMUM_GAS_LIMIT :: u64 where
  "STANDARD_MINIMUM_GAS_LIMIT = 10000"

(* src/src/script/standard.h:23-23 STANDARD_MINIMUM_GAS_PRICE *)
definition STANDARD_MINIMUM_GAS_PRICE :: u64 where
  "STANDARD_MINIMUM_GAS_PRICE = 1"

(* src/src/tsc/tscDGP.h:24-24 MAX_BLOCK_GAS_LIMIT_DGP *)
definition MAX_BLOCK_GAS_LIMIT_DGP :: u64 where
  "MAX_BLOCK_GAS_LIMIT_DGP = 1000000000"

(* src/src/tsc/tscDGP.h:25-25 DEFAULT_BLOCK_GAS_LIMIT_DGP *)
definition DEFAULT_BLOCK_GAS_LIMIT_DGP :: u64 where
  "DEFAULT_BLOCK_GAS_LIMIT_DGP = 40000000"

subsection \<open>Matching templates\<close>

text \<open>One pair of instructions: go on with the solutions and the root machine, give this template up, or refuse the script. The
  version is converted outside the handler for number errors; the tests before it exclude every such error.\<close>

datatype tmatch = TGo "bytes list" u8 | TBreak | TReject

(* src/src/script/standard.cpp:192-205 Solver *)
definition match_version :: "u8 \<Rightarrow> bytes \<Rightarrow> bytes list \<Rightarrow> u8 \<Rightarrow> tmatch" where
  "match_version opcode1 vch1 sols rootVM =
     (if opcode1 \<le> OP_PUSHDATA4
      then if vch1 = [] \<or> length vch1 > 4 \<or> last vch1 AND 0x80 \<noteq> 0 then TReject
           else case vch_to_uint64 vch1 of None \<Rightarrow> TReject
                | Some v \<Rightarrow> (let raw = ucast v :: u32 in if raw = 4 \<or> raw = 0 then TGo sols (rootVM_of raw) else TReject)
      else TGo sols rootVM)"

(* src/src/script/standard.cpp:206-234 Solver *)
definition match_gas_limit :: "bool \<Rightarrow> bytes \<Rightarrow> bytes list \<Rightarrow> u8 \<Rightarrow> tmatch" where
  "match_gas_limit contractConsensus vch1 sols rootVM =
     (case vch_to_uint64 vch1 of None \<Rightarrow> TReject
      | Some val \<Rightarrow>
          if contractConsensus
          then if rootVM \<noteq> 0 \<and> val < 1 \<or> val > MAX_BLOCK_GAS_LIMIT_DGP then TReject else TGo sols rootVM
          else if rootVM \<noteq> 0 \<and> val < STANDARD_MINIMUM_GAS_LIMIT \<or> val > DEFAULT_BLOCK_GAS_LIMIT_DGP div 2 then TReject
          else TGo sols rootVM)"

(* src/src/script/standard.cpp:235-253 Solver *)
definition match_gas_price :: "bool \<Rightarrow> bytes \<Rightarrow> bytes list \<Rightarrow> u8 \<Rightarrow> tmatch" where
  "match_gas_price contractConsensus vch1 sols rootVM =
     (case vch_to_uint64 vch1 of None \<Rightarrow> TReject
      | Some val \<Rightarrow>
          if rootVM \<noteq> 0 \<and> val < (if contractConsensus then 1 else STANDARD_MINIMUM_GAS_PRICE) then TReject else TGo sols rootVM)"

(* src/src/script/standard.cpp:168-267 Solver *)
definition match_op :: "bool \<Rightarrow> u8 \<Rightarrow> bytes \<Rightarrow> u8 \<Rightarrow> bytes \<Rightarrow> bytes list \<Rightarrow> u8 \<Rightarrow> tmatch" where
  "match_op contractConsensus opcode1 vch1 opcode2 vch2 sols rootVM =
     (if opcode2 = OP_PUBKEY
      then if length vch1 < 33 \<or> length vch1 > 65 then TBreak else TGo (sols @ [vch1]) rootVM
      else if opcode2 = OP_PUBKEYHASH
      then if length vch1 \<noteq> 20 then TBreak else TGo (sols @ [vch1]) rootVM
      else if opcode2 = OP_SMALLINTEGER
      then if opcode1 = OP_0 \<or> OP_1 \<le> opcode1 \<and> opcode1 \<le> OP_16
           then case DecodeOP_N opcode1 of None \<Rightarrow> TBreak | Some n \<Rightarrow> TGo (sols @ [[of_nat n]]) rootVM
           else TBreak
      else if opcode2 = OP_VERSION then match_version opcode1 vch1 sols rootVM
      else if opcode2 = OP_GAS_LIMIT then match_gas_limit contractConsensus vch1 sols rootVM
      else if opcode2 = OP_GAS_PRICE then match_gas_price contractConsensus vch1 sols rootVM
      else if opcode2 = OP_DATA
      then if opcode1 \<le> OP_PUSHDATA4 \<and> vch1 = [] then TBreak else TGo sols rootVM
      else if opcode1 \<noteq> opcode2 \<or> vch1 \<noteq> vch2 then TBreak
      else TGo sols rootVM)"

text \<open>Reading keys for as long as there are some; a failed read ends this with an invalid opcode and no data.\<close>

(* src/src/script/standard.cpp:156-161 Solver *)
function pubkeys_loop :: "bytes \<Rightarrow> u8 \<Rightarrow> bytes \<Rightarrow> bytes list \<Rightarrow> bytes \<times> u8 \<times> bytes \<times> bytes list" where
  "pubkeys_loop pc1 opcode1 vch1 sols =
     (if 33 \<le> length vch1 \<and> length vch1 \<le> 65
      then case GetOp2 pc1 of (fRet, pc1', opcode1', vch1') \<Rightarrow>
             if fRet then pubkeys_loop pc1' opcode1' vch1' (sols @ [vch1]) else (pc1', opcode1', vch1', sols @ [vch1])
      else (pc1, opcode1, vch1, sols))"
  by pat_completeness auto
termination
  by (relation "measure (\<lambda>(pc1, _). length pc1)") (auto dest: GetOp2_shorter [OF sym])

declare pubkeys_loop.simps [simp del]

datatype tresult = Matched "bytes list" | NoMatch | Rejected "bytes list"

(* src/src/script/standard.cpp:129-268 Solver *)
function template_loop :: "bool \<Rightarrow> bytes \<Rightarrow> bytes \<Rightarrow> bytes list \<Rightarrow> u8 \<Rightarrow> tresult" where
  "template_loop cc pc1 pc2 sols rootVM =
     (if pc1 = [] \<and> pc2 = [] then Matched sols
      else case GetOp2 pc1 of (ok1, pc1', opcode1, vch1) \<Rightarrow>
           if \<not> ok1 then NoMatch
           else case GetOp2 pc2 of (ok2, pc2', opcode2, vch2) \<Rightarrow>
           if \<not> ok2 then NoMatch
           else if opcode2 = OP_PUBKEYS
           then case pubkeys_loop pc1' opcode1 vch1 sols of (pc1'', opcode1', vch1', sols') \<Rightarrow>
                case GetOp2 pc2' of (ok3, pc2'', opcode2', vch2') \<Rightarrow>
                if \<not> ok3 then NoMatch
                else (case match_op cc opcode1' vch1' opcode2' vch2' sols' rootVM of
                        TBreak \<Rightarrow> NoMatch | TReject \<Rightarrow> Rejected sols' | TGo s r \<Rightarrow> template_loop cc pc1'' pc2'' s r)
           else (case match_op cc opcode1 vch1 opcode2 vch2 sols rootVM of
                   TBreak \<Rightarrow> NoMatch | TReject \<Rightarrow> Rejected sols | TGo s r \<Rightarrow> template_loop cc pc1' pc2' s r))"
  by pat_completeness auto
termination
  by (relation "measure (\<lambda>(cc, pc1, pc2, _). length pc2)") (auto dest!: GetOp2_shorter [OF sym])

declare template_loop.simps [simp del]

text \<open>The return value and the two output arguments, the type and the solutions; a refused script leaves the type as it was, and
  a multisignature script with impossible counts keeps its type.\<close>

(* src/src/script/standard.cpp:117-274 Solver *)
fun scan_templates :: "bool \<Rightarrow> txnouttype \<Rightarrow> bytes \<Rightarrow> (txnouttype \<times> bytes) list \<Rightarrow> bool \<times> txnouttype \<times> bytes list" where
  "scan_templates cc typeRet script1 [] = (False, TX_NONSTANDARD, [])"
| "scan_templates cc typeRet script1 ((typ, script2) # ts) =
     (case template_loop cc script1 script2 [] 20 of
        NoMatch \<Rightarrow> scan_templates cc typeRet script1 ts
      | Rejected sols \<Rightarrow> (False, typeRet, sols)
      | Matched sols \<Rightarrow>
          if typ = TX_MULTISIG \<and>
             (let m = hd sols ! 0; n = last sols ! 0 in m < 1 \<or> n < 1 \<or> m > n \<or> length sols - 2 \<noteq> unat n)
          then (False, typ, sols) else (True, typ, sols))"

text \<open>\<^verbatim>\<open>HasOpSStx\<close> looks at the first byte even of an empty script; \<open>past\<close> is the byte found there.\<close>

(* src/src/script/standard.cpp:46-274 Solver *)
definition Solver :: "u8 \<Rightarrow> bool \<Rightarrow> txnouttype \<Rightarrow> bytes \<Rightarrow> bool \<times> txnouttype \<times> bytes list" where
  "Solver past contractConsensus typeRet scriptPub =
     (if IsPayToScriptHash scriptPub then (True, TX_SCRIPTHASH, [take 20 (drop 2 scriptPub)])
      else case IsWitnessProgram scriptPub of
        Some (witnessversion, witnessprogram) \<Rightarrow>
          if witnessversion = 0 \<and> length witnessprogram = 20 then (True, TX_WITNESS_V0_KEYHASH, [witnessprogram])
          else if witnessversion = 0 \<and> length witnessprogram = 32 then (True, TX_WITNESS_V0_SCRIPTHASH, [witnessprogram])
          else (False, typeRet, [])
      | None \<Rightarrow>
          if length scriptPub \<ge> 1 \<and> scriptPub ! 0 = OP_RETURN \<and> IsPushOnly (drop 1 scriptPub) then (True, TX_NULL_DATA, [])
          else if (case HasOpSStx scriptPub of None \<Rightarrow> past = OP_BUYTICKET | Some b \<Rightarrow> b) then (True, TX_SSTX, [])
          else scan_templates contractConsensus typeRet scriptPub mTemplates)"

text \<open>The address, if there is one, and the type written through the optional pointer, if one was written. The local
  \<^verbatim>\<open>whichType\<close> starts uninitialised and is only read after a successful call.\<close>

(* src/src/script/standard.cpp:276-308 ExtractDestination *)
definition ExtractDestination :: "u8 \<Rightarrow> bytes \<Rightarrow> CTxDestination option \<times> txnouttype option" where
  "ExtractDestination past scriptPub =
     (case Solver past False TX_NONSTANDARD scriptPub of (ok, whichType, vSolutions) \<Rightarrow>
        if \<not> ok then (None, None)
        else
          (if whichType = TX_PUBKEY
           then if pubkey_IsValid (vSolutions ! 0) then Some (CKeyID (Hash160 (vSolutions ! 0))) else None
           else if whichType = TX_PUBKEYHASH then Some (CKeyID (vSolutions ! 0))
           else if whichType = TX_SCRIPTHASH then Some (CScriptID (vSolutions ! 0))
           else None, Some whichType))"

(* src/src/script/standard.cpp:310-355 ExtractDestinations *)
definition ExtractDestinations :: "u8 \<Rightarrow> nat \<Rightarrow> bytes \<Rightarrow> bool \<times> txnouttype \<times> CTxDestination list \<times> nat" where
  "ExtractDestinations past nRequiredRet scriptPub =
     (case Solver past False TX_NONSTANDARD scriptPub of (ok, typeRet, vSolutions) \<Rightarrow>
        if \<not> ok \<or> typeRet = TX_NULL_DATA then (False, typeRet, [], nRequiredRet)
        else if typeRet = TX_MULTISIG
        then let addressRet = map (\<lambda>k. CKeyID (Hash160 k)) (filter pubkey_IsValid (butlast (tl vSolutions)))
             in (addressRet \<noteq> [], typeRet, addressRet, unat (hd vSolutions ! 0))
        else case fst (ExtractDestination past scriptPub) of
               None \<Rightarrow> (False, typeRet, [], 1) | Some address \<Rightarrow> (True, typeRet, [address], 1))"

subsection \<open>Building scripts\<close>

(* src/src/script/standard.cpp:357-391 GetScriptForDestination *)
definition GetScriptForDestination :: "CTxDestination \<Rightarrow> bytes" where
  "GetScriptForDestination dest =
     (case dest of CNoDestination \<Rightarrow> []
      | CKeyID h \<Rightarrow> [OP_DUP, OP_HASH160] @ push_data h @ [OP_EQUALVERIFY, OP_CHECKSIG]
      | CScriptID h \<Rightarrow> [OP_HASH160] @ push_data h @ [OP_EQUAL])"

(* src/src/script/standard.cpp:393-396 GetScriptForRawPubKey *)
definition GetScriptForRawPubKey :: "bytes \<Rightarrow> bytes" where
  "GetScriptForRawPubKey pubKey = push_data pubKey @ [OP_CHECKSIG]"

(* src/src/script/standard.cpp:398-407 GetScriptForMultisig *)
definition GetScriptForMultisig :: "nat \<Rightarrow> bytes list \<Rightarrow> bytes option" where
  "GetScriptForMultisig nRequired keys =
     (case (EncodeOP_N nRequired, EncodeOP_N (length keys)) of
        (Some m, Some n) \<Rightarrow> Some (m # concat (map push_data keys) @ [n, OP_CHECKMULTISIG]) | _ \<Rightarrow> None)"

(* src/src/script/standard.cpp:409-430 GetScriptForWitness *)
definition GetScriptForWitness :: "u8 \<Rightarrow> bytes \<Rightarrow> bytes" where
  "GetScriptForWitness past redeemscript =
     (case Solver past False TX_NONSTANDARD redeemscript of (ok, typ, vSolutions) \<Rightarrow>
        if ok \<and> typ = TX_PUBKEY then OP_0 # push_data (CHash160_Finalize (CSHA256_Write (vSolutions ! 0) CSHA256_Init))
        else if ok \<and> typ = TX_PUBKEYHASH then OP_0 # push_data (vSolutions ! 0)
        else OP_0 # push_data (CSHA256_Finalize (CSHA256_Write redeemscript CSHA256_Init)))"

subsection \<open>Steps of the template loop\<close>

lemma template_end: "template_loop cc pc [] s r = Matched sols \<Longrightarrow> sols = s"
  by (subst (asm) template_loop.simps) (auto split: if_splits prod.splits)

lemma template_empty: "template_loop cc [] [] s r = Matched s"
  by (simp add: template_loop.simps)

lemma template_step:
  assumes "GetOp2 pc1 = (True, pc1', o1, v1)" "OP_PUSHDATA4 < o2" "o2 \<noteq> OP_PUBKEYS"
  shows "template_loop cc pc1 (o2 # ops) s r =
    (case match_op cc o1 v1 o2 [] s r of TBreak \<Rightarrow> NoMatch | TReject \<Rightarrow> Rejected s | TGo s' r' \<Rightarrow> template_loop cc pc1' ops s' r')"
  using assms by (subst template_loop.simps) (simp add: GetOp2_op)

lemma template_keys_step:
  assumes "GetOp2 pc1 = (True, pc1', o1, v1)" "pubkeys_loop pc1' o1 v1 s = (pc, oc, v, s')" "OP_PUSHDATA4 < o2"
  shows "template_loop cc pc1 (OP_PUBKEYS # o2 # ops) s r =
    (case match_op cc oc v o2 [] s' r of TBreak \<Rightarrow> NoMatch | TReject \<Rightarrow> Rejected s' | TGo s'' r' \<Rightarrow> template_loop cc pc ops s'' r')"
  using assms by (subst template_loop.simps) (simp add: GetOp2_op le_u8)

lemma template_stepE:
  assumes "template_loop cc pc1 (o2 # ops) s r = Matched sols" "OP_PUSHDATA4 < o2" "o2 \<noteq> OP_PUBKEYS"
  obtains pc o1 v s' r' where "match_op cc o1 v o2 [] s r = TGo s' r'" "template_loop cc pc ops s' r' = Matched sols"
proof -
  obtain ok pc o1 v where g: "GetOp2 pc1 = (ok, pc, o1, v)" by (rule prod_cases4)
  have ok using assms(1) g by (subst (asm) template_loop.simps) (auto split: if_splits)
  then show ?thesis using assms template_step [of pc1 pc o1 v o2 cc ops s r] g that by (auto split: tmatch.splits)
qed

definition is_key :: "bytes \<Rightarrow> bool" where
  "is_key v \<longleftrightarrow> 33 \<le> length v \<and> length v \<le> 65"

lemma pubkeys_loop_keys: "pubkeys_loop pc oc v s = (pc', oc', v', s') \<Longrightarrow> \<exists>keys. s' = s @ keys \<and> list_all is_key keys"
proof (induction pc oc v s arbitrary: pc' oc' v' s' rule: pubkeys_loop.induct)
  case (1 pc oc v s)
  obtain ok pc1 o1 v1 where g: "GetOp2 pc = (ok, pc1, o1, v1)" by (rule prod_cases4)
  show ?case
  proof (cases "is_key v \<and> ok")
    case True
    then have "pubkeys_loop pc1 o1 v1 (s @ [v]) = (pc', oc', v', s')"
      using "1.prems" g by (subst (asm) pubkeys_loop.simps) (simp add: is_key_def)
    moreover have "33 \<le> length v \<and> length v \<le> 65" ok using True by (simp_all add: is_key_def)
    ultimately obtain keys where "s' = (s @ [v]) @ keys" "list_all is_key keys"
      using "1.IH" [OF _ g [symmetric] refl refl] by blast
    with True show ?thesis by (intro exI [of _ "v # keys"]) simp
  next
    case False
    then have "s' = (if is_key v then s @ [v] else s)"
      using "1.prems" g by (subst (asm) pubkeys_loop.simps) (auto simp: is_key_def split: if_splits)
    then show ?thesis by (intro exI [of _ "if is_key v then [v] else []"]) simp
  qed
qed

lemma pubkeys_loop_reads:
  assumes "list_all is_key keys" "GetOp2 r = (True, r', oc, v)" "\<not> is_key v"
    "GetOp2 (concat (map push_data keys) @ r) = (True, pc, o1, v1)"
  shows "pubkeys_loop pc o1 v1 s = (r', oc, v, s @ keys)"
  using assms(1,4)
proof (induction keys arbitrary: pc o1 v1 s)
  case Nil
  with assms(2,3) show ?case by (subst pubkeys_loop.simps) (auto simp: is_key_def)
next
  case (Cons k ks)
  have "length k < 2 ^ 32" using Cons.prems(1) by (simp add: is_key_def)
  then have k: "v1 = k" "pc = concat (map push_data ks) @ r"
    using GetOp2_push_data [of k "concat (map push_data ks) @ r"] Cons.prems(2) by auto
  obtain pc2 o2 v2 where g: "GetOp2 pc = (True, pc2, o2, v2)"
  proof (cases ks)
    case Nil
    then show ?thesis using k assms(2) that by simp
  next
    case (Cons k' ks')
    then have "length k' < 2 ^ 32" using Cons.prems(1) by (simp add: is_key_def)
    then show ?thesis using k Cons GetOp2_push_data [of k' "concat (map push_data ks') @ r"] that by auto
  qed
  have "pubkeys_loop pc2 o2 v2 (s @ [k]) = (r', oc, v, (s @ [k]) @ ks)"
    using Cons.IH [of pc2 o2 v2 "s @ [k]"] Cons.prems(1) g k by simp
  with g k Cons.prems(1) show ?case by (subst pubkeys_loop.simps) (simp add: is_key_def)
qed

subsection \<open>What a recognised script yields\<close>

text \<open>The solutions a caller may rely on, by type: it takes the first one as a key or as a hash of 160 bits, which
  \<^verbatim>\<open>uint160\<close> asserts to have 20 bytes.\<close>

definition solutions_ok :: "txnouttype \<Rightarrow> bytes list \<Rightarrow> bool" where
  "solutions_ok typ sols =
     (case typ of
        TX_NONSTANDARD \<Rightarrow> False
      | TX_PUBKEY \<Rightarrow> length sols = 1 \<and> is_key (sols ! 0)
      | TX_PUBKEYHASH \<Rightarrow> map length sols = [20]
      | TX_SCRIPTHASH \<Rightarrow> map length sols = [20]
      | TX_MULTISIG \<Rightarrow>
          2 \<le> length sols \<and> length (hd sols) = 1 \<and> length (last sols) = 1 \<and> list_all is_key (butlast (tl sols)) \<and>
          1 \<le> hd sols ! 0 \<and> hd sols ! 0 \<le> last sols ! 0 \<and> last sols ! 0 \<le> 16 \<and> length sols = unat (last sols ! 0) + 2
      | TX_NULL_DATA \<Rightarrow> sols = []
      | TX_WITNESS_V0_SCRIPTHASH \<Rightarrow> map length sols = [32]
      | TX_WITNESS_V0_KEYHASH \<Rightarrow> map length sols = [20]
      | TX_CREATE \<Rightarrow> sols = []
      | TX_CALL \<Rightarrow> map length sols = [20]
      | TX_SSTX \<Rightarrow> sols = [])"

lemma match_key: "match_op cc o1 v OP_PUBKEY [] s r = TGo s' r' \<Longrightarrow> s' = s @ [v] \<and> is_key v"
  by (auto simp: match_op_def is_key_def split: if_splits)

lemma match_hash: "match_op cc o1 v OP_PUBKEYHASH [] s r = TGo s' r' \<Longrightarrow> s' = s @ [v] \<and> length v = 20"
  by (auto simp: match_op_def split: if_splits)

lemma match_small: "match_op cc o1 v OP_SMALLINTEGER [] s r = TGo s' r' \<Longrightarrow> \<exists>n\<le>16. s' = s @ [[n]]"
  by (auto simp: match_op_def DecodeOP_N_def le_u8 unat_of_nat unat_sub word_le_nat_alt split: if_splits option.splits)

lemma match_other:
  "match_op cc o1 v o2 [] s r = TGo s' r' \<Longrightarrow> o2 \<notin> {OP_PUBKEY, OP_PUBKEYHASH, OP_SMALLINTEGER} \<Longrightarrow> s' = s"
  by (auto simp: match_op_def match_version_def match_gas_limit_def match_gas_price_def Let_def split: if_splits option.splits)

definition plain_op :: "u8 \<Rightarrow> bool" where
  "plain_op oc \<longleftrightarrow> OP_PUSHDATA4 < oc \<and> oc \<notin> {OP_PUBKEY, OP_PUBKEYHASH, OP_SMALLINTEGER, OP_PUBKEYS}"

lemma template_skips:
  assumes "list_all plain_op ops" "template_loop cc pc1 (ops @ rest) s r = Matched sols"
  shows "\<exists>pc r'. template_loop cc pc rest s r' = Matched sols"
  using assms
proof (induction ops arbitrary: pc1 r)
  case (Cons o2 ops)
  then have o2: "OP_PUSHDATA4 < o2" "o2 \<noteq> OP_PUBKEYS" "o2 \<notin> {OP_PUBKEY, OP_PUBKEYHASH, OP_SMALLINTEGER}" by (simp_all add: plain_op_def)
  have "template_loop cc pc1 (o2 # (ops @ rest)) s r = Matched sols" using Cons.prems(2) by simp
  from this o2(1,2) obtain pc o1 v s' r' where m: "match_op cc o1 v o2 [] s r = TGo s' r'"
    "template_loop cc pc (ops @ rest) s' r' = Matched sols" by (rule template_stepE)
  from Cons.IH [of pc r'] Cons.prems(1) m(2) match_other [OF m(1) o2(3)] show ?case by simp
qed auto

lemma template_hash:
  assumes "template_loop cc pc1 (OP_PUBKEYHASH # ops) s r = Matched sols"
  shows "\<exists>pc h r'. length h = 20 \<and> template_loop cc pc ops (s @ [h]) r' = Matched sols"
proof -
  obtain pc o1 v s' r' where m: "match_op cc o1 v OP_PUBKEYHASH [] s r = TGo s' r'" "template_loop cc pc ops s' r' = Matched sols"
    by (rule template_stepE [OF assms]) auto
  then show ?thesis using match_hash [OF m(1)] by blast
qed

lemma one_le_word: "1 \<le> (w :: u8) \<longleftrightarrow> w \<noteq> 0"
  by (simp add: le_u8 Suc_le_eq unat_gt_0)

lemma scan_templates_match:
  assumes "scan_templates cc t s ts = (True, typ, sols)"
  shows "\<exists>ops. (typ, ops) \<in> set ts \<and> template_loop cc s ops [] 20 = Matched sols \<and>
    (typ = TX_MULTISIG \<longrightarrow> 1 \<le> hd sols ! 0 \<and> hd sols ! 0 \<le> last sols ! 0 \<and> length sols - 2 = unat (last sols ! 0))"
  using assms
proof (induction ts)
  case (Cons p ts)
  obtain ty ops where p: "p = (ty, ops)" by force
  show ?case
  proof (cases "template_loop cc s ops [] 20")
    case (Matched x)
    with Cons.prems p have "typ = ty" "sols = x"
      "typ = TX_MULTISIG \<longrightarrow> 1 \<le> hd sols ! 0 \<and> hd sols ! 0 \<le> last sols ! 0 \<and> length sols - 2 = unat (last sols ! 0)"
      by (auto simp: Let_def not_less one_le_word split: if_splits)
    with Matched p show ?thesis by (intro exI [of _ ops]) simp
  next
    case NoMatch
    with Cons p have "scan_templates cc t s ts = (True, typ, sols)" by simp
    from Cons.IH [OF this] show ?thesis by (meson list.set_intros(2))
  next
    case (Rejected x)
    with Cons.prems p show ?thesis by simp
  qed
qed simp

lemma template_plain_end:
  assumes "list_all plain_op ops" "template_loop cc pc ops s r = Matched sols"
  shows "sols = s"
  using template_skips [of ops cc pc "[]" s r sols] assms template_end by auto

lemma template_hash_end:
  assumes "template_loop cc pc (ops @ OP_PUBKEYHASH # ops') [] r = Matched sols" "list_all plain_op ops" "list_all plain_op ops'"
  shows "map length sols = [20]"
proof -
  obtain pc' r' where "template_loop cc pc' (OP_PUBKEYHASH # ops') [] r' = Matched sols" using template_skips [OF assms(2,1)] by blast
  from template_hash [OF this] obtain pc'' h r'' where h: "length h = 20" "template_loop cc pc'' ops' ([] @ [h]) r'' = Matched sols" by blast
  show ?thesis using template_plain_end [OF assms(3) h(2)] h(1) by simp
qed

lemma template_pubkey:
  assumes "template_loop cc s [OP_PUBKEY, OP_CHECKSIG] [] r = Matched sols"
  shows "solutions_ok TX_PUBKEY sols"
proof -
  obtain pc o1 v s' r' where m: "match_op cc o1 v OP_PUBKEY [] [] r = TGo s' r'" "template_loop cc pc [OP_CHECKSIG] s' r' = Matched sols"
    by (rule template_stepE [OF assms]) auto
  show ?thesis using match_key [OF m(1)] template_plain_end [OF _ m(2)] by (simp add: plain_op_def solutions_ok_def)
qed

lemma template_pubkeyhash:
  "template_loop cc s [OP_DUP, OP_HASH160, OP_PUBKEYHASH, OP_EQUALVERIFY, OP_CHECKSIG] [] r = Matched sols \<Longrightarrow>
     solutions_ok TX_PUBKEYHASH sols"
  using template_hash_end [of cc s "[OP_DUP, OP_HASH160]" "[OP_EQUALVERIFY, OP_CHECKSIG]" r sols]
  by (simp add: plain_op_def solutions_ok_def)

lemma template_create:
  "template_loop cc s [OP_VERSION, OP_GAS_LIMIT, OP_GAS_PRICE, OP_DATA, OP_CREATE] [] r = Matched sols \<Longrightarrow>
     solutions_ok TX_CREATE sols"
  using template_plain_end [of "[OP_VERSION, OP_GAS_LIMIT, OP_GAS_PRICE, OP_DATA, OP_CREATE]" cc s "[]" r sols]
  by (simp add: plain_op_def solutions_ok_def)

lemma template_call:
  "template_loop cc s [OP_VERSION, OP_GAS_LIMIT, OP_GAS_PRICE, OP_DATA, OP_PUBKEYHASH, OP_CALL] [] r = Matched sols \<Longrightarrow>
     solutions_ok TX_CALL sols"
  using template_hash_end [of cc s "[OP_VERSION, OP_GAS_LIMIT, OP_GAS_PRICE, OP_DATA]" "[OP_CALL]" r sols]
  by (simp add: plain_op_def solutions_ok_def)

lemma template_keysE:
  assumes "template_loop cc pc1 (OP_PUBKEYS # OP_SMALLINTEGER # ops) s r = Matched sols"
  obtains pc keys n r' where "list_all is_key keys" "n \<le> 16" "template_loop cc pc ops (s @ keys @ [[n]]) r' = Matched sols"
proof -
  obtain ok pc o1 v where g: "GetOp2 pc1 = (ok, pc, o1, v)" by (rule prod_cases4)
  obtain pc' oc v' s' where l: "pubkeys_loop pc o1 v s = (pc', oc, v', s')" by (rule prod_cases4)
  have ok using assms g by (subst (asm) template_loop.simps) (auto split: if_splits)
  with assms template_keys_step [of pc1 pc o1 v s pc' oc v' s' OP_SMALLINTEGER cc ops r] g l
  obtain s'' r' where m: "match_op cc oc v' OP_SMALLINTEGER [] s' r = TGo s'' r'" "template_loop cc pc' ops s'' r' = Matched sols"
    by (auto split: tmatch.splits)
  from pubkeys_loop_keys [OF l] match_small [OF m(1)] m(2) that show ?thesis by auto
qed

lemma template_multisig:
  assumes "template_loop cc s [OP_SMALLINTEGER, OP_PUBKEYS, OP_SMALLINTEGER, OP_CHECKMULTISIG] [] r = Matched sols"
    and "1 \<le> hd sols ! 0" "hd sols ! 0 \<le> last sols ! 0" "length sols - 2 = unat (last sols ! 0)"
  shows "solutions_ok TX_MULTISIG sols"
proof -
  obtain pc o1 v s1 r1 where a: "match_op cc o1 v OP_SMALLINTEGER [] [] r = TGo s1 r1"
    "template_loop cc pc [OP_PUBKEYS, OP_SMALLINTEGER, OP_CHECKMULTISIG] s1 r1 = Matched sols"
    by (rule template_stepE [OF assms(1)]) auto
  obtain pc' keys n r' where b: "list_all is_key keys" "n \<le> 16"
    "template_loop cc pc' [OP_CHECKMULTISIG] (s1 @ keys @ [[n]]) r' = Matched sols"
    using template_keysE [OF a(2)] by metis
  have "sols = s1 @ keys @ [[n]]" by (rule template_plain_end [OF _ b(3)]) (simp add: plain_op_def)
  moreover obtain m where "s1 = [[m]]" using match_small [OF a(1)] by auto
  ultimately show ?thesis using b(1,2) assms(2-4) by (simp add: solutions_ok_def butlast_append)
qed

text \<open>C39. Every script the solver recognises, under mempool or consensus rules, yields solutions of the shape its type promises:
  one key of 33 to 65 bytes, one hash of exactly 20 or 32 bytes, or for a multisignature script counts with
  1 \<open>\<le>\<close> m \<open>\<le>\<close> n \<open>\<le>\<close> 16 around exactly n keys. No caller indexes past the solutions or converts a hash of the wrong length.\<close>
theorem Solver_solutions:
  assumes "Solver past cc t s = (True, typ, sols)"
  shows "solutions_ok typ sols"
proof -
  consider (p2sh) "IsPayToScriptHash s" | (witness) w where "\<not> IsPayToScriptHash s" "IsWitnessProgram s = Some w"
    | (other) "\<not> IsPayToScriptHash s" "IsWitnessProgram s = None" by (cases "IsWitnessProgram s") auto
  then show ?thesis
  proof cases
    case p2sh
    then have "length s = 23" "typ = TX_SCRIPTHASH" "sols = [take 20 (drop 2 s)]" using assms by (simp_all add: Solver_def IsPayToScriptHash_def)
    then show ?thesis by (simp add: solutions_ok_def)
  next
    case witness
    with assms show ?thesis by (cases w) (auto simp: Solver_def solutions_ok_def split: if_splits)
  next
    case other
    then consider "solutions_ok typ sols" | "scan_templates cc t s mTemplates = (True, typ, sols)"
      using assms unfolding Solver_def by (simp split: if_split_asm) (auto simp: solutions_ok_def)
    then show ?thesis
    proof cases
      case 2
      obtain ops where m: "(typ, ops) \<in> set mTemplates" "template_loop cc s ops [] 20 = Matched sols"
        "typ = TX_MULTISIG \<longrightarrow> 1 \<le> hd sols ! 0 \<and> hd sols ! 0 \<le> last sols ! 0 \<and> length sols - 2 = unat (last sols ! 0)"
        using scan_templates_match [OF 2] by blast
      from m(1) show ?thesis unfolding mTemplates_def
        by (simp, elim disjE conjE)
          (use m(2,3) template_pubkey template_pubkeyhash template_multisig template_create template_call in blast)+
    qed
  qed
qed

theorem Solver_solutions_witness:
  "let k = 2 # replicate 32 9
   in Solver 0 False TX_NONSTANDARD (OP_1 # push_data k @ [OP_1, OP_CHECKMULTISIG]) = (True, TX_MULTISIG, [[1], k, [1]]) \<and>
      solutions_ok TX_MULTISIG [[1], k, [1]]"
proof -
  let ?k = "2 # replicate 32 9 :: bytes"
  have g: "GetOp2 (push_data ?k @ [OP_1, OP_CHECKMULTISIG]) = (True, [OP_1, OP_CHECKMULTISIG], 33, ?k)"
    by (simp add: push_data_def GetOp2_def push_size_def)
  have l: "pubkeys_loop [OP_1, OP_CHECKMULTISIG] 33 ?k [[1]] = ([OP_CHECKMULTISIG], OP_1, [], [[1], ?k])"
    using pubkeys_loop_reads [of "[?k]" "[OP_1, OP_CHECKMULTISIG]" "[OP_CHECKMULTISIG]" OP_1 "[]" _ 33 ?k "[[1]]"] g
    by (simp add: is_key_def GetOp2_op)
  have "template_loop False (OP_1 # push_data ?k @ [OP_1, OP_CHECKMULTISIG])
      [OP_SMALLINTEGER, OP_PUBKEYS, OP_SMALLINTEGER, OP_CHECKMULTISIG] [] 20 = Matched [[1], ?k, [1]]"
    by (simp add: template_step [OF GetOp2_op] template_keys_step [OF g l] template_empty match_op_def DecodeOP_N_def)
  then have s: "Solver 0 False TX_NONSTANDARD (OP_1 # push_data ?k @ [OP_1, OP_CHECKMULTISIG]) = (True, TX_MULTISIG, [[1], ?k, [1]])"
    by (simp add: Solver_def IsPayToScriptHash_def IsWitnessProgram_def HasOpSStx_def push_data_def mTemplates_def
        template_step [OF GetOp2_op] match_op_def)
  show ?thesis using s Solver_solutions [OF s] unfolding Let_def by (rule conjI)
qed

subsection \<open>Scripts built for destinations\<close>

lemma pubkey_is_key: "pubkey_IsValid k \<Longrightarrow> is_key k"
  by (auto simp: pubkey_IsValid_def pubkey_GetLen_def is_key_def Let_def split: if_splits)

lemma GetOp2_short_push: "length b < 76 \<Longrightarrow> GetOp2 (push_data b @ r) = (True, r, of_nat (length b), b)"
  by (simp add: push_data_def GetOp2_def push_size_def le_u8 unat_of_nat)

lemma scan_first:
  assumes "template_loop cc s ops [] 20 = Matched sols" "typ \<noteq> TX_MULTISIG"
  shows "scan_templates cc t s ((typ, ops) # ts) = (True, typ, sols)"
  using assms by simp

lemma Solver_raw:
  assumes "is_key pk"
  shows "Solver past cc t (GetScriptForRawPubKey pk) = (True, TX_PUBKEY, [pk])"
proof -
  have len: "33 \<le> length pk" "length pk \<le> 65" using assms by (simp_all add: is_key_def)
  have u: "unat (of_nat (length pk) :: u8) = length pk" using len by (simp add: unat_of_nat)
  have g: "GetOp2 (GetScriptForRawPubKey pk) = (True, [OP_CHECKSIG], of_nat (length pk), pk)"
    using GetOp2_short_push [of pk "[OP_CHECKSIG]"] len by (simp add: GetScriptForRawPubKey_def)
  have hd: "GetScriptForRawPubKey pk = of_nat (length pk) # pk @ [OP_CHECKSIG]"
    using len by (simp add: GetScriptForRawPubKey_def push_data_def)
  have ne: "(of_nat (length pk) :: u8) \<noteq> OP_RETURN" "(of_nat (length pk) :: u8) \<noteq> OP_BUYTICKET" "(of_nat (length pk) :: u8) \<noteq> OP_0"
    "(of_nat (length pk) :: u8) < OP_1" using len u by (auto simp: word_unat_eq_iff le_u8)
  have "template_loop cc (GetScriptForRawPubKey pk) [OP_PUBKEY, OP_CHECKSIG] [] 20 = Matched [pk]"
    using len by (simp add: template_step [OF g] template_step [OF GetOp2_op] match_op_def template_empty)
  then have "scan_templates cc t (GetScriptForRawPubKey pk) mTemplates = (True, TX_PUBKEY, [pk])"
    unfolding mTemplates_def by (rule scan_first) simp
  moreover have "\<not> IsPayToScriptHash (GetScriptForRawPubKey pk)" "IsWitnessProgram (GetScriptForRawPubKey pk) = None"
    using len ne by (simp_all add: IsPayToScriptHash_def IsWitnessProgram_def hd)
  ultimately show ?thesis using ne by (simp add: Solver_def HasOpSStx_def hd)
qed

lemma Solver_keyhash:
  assumes "length h = 20"
  shows "Solver past cc t (GetScriptForDestination (CKeyID h)) = (True, TX_PUBKEYHASH, [h])"
proof -
  let ?s = "OP_DUP # OP_HASH160 # push_data h @ [OP_EQUALVERIFY, OP_CHECKSIG]"
  have s: "GetScriptForDestination (CKeyID h) = ?s" by (simp add: GetScriptForDestination_def)
  have g: "GetOp2 (push_data h @ [OP_EQUALVERIFY, OP_CHECKSIG]) = (True, [OP_EQUALVERIFY, OP_CHECKSIG], of_nat (length h), h)"
    by (rule GetOp2_short_push) (simp add: assms)
  have "template_loop cc ?s [OP_PUBKEY, OP_CHECKSIG] [] 20 = NoMatch" by (simp add: template_step [OF GetOp2_op] match_op_def)
  moreover have "template_loop cc ?s [OP_DUP, OP_HASH160, OP_PUBKEYHASH, OP_EQUALVERIFY, OP_CHECKSIG] [] 20 = Matched [h]"
    using assms by (simp add: template_step [OF g] template_step [OF GetOp2_op] match_op_def template_empty)
  ultimately have "scan_templates cc t ?s mTemplates = (True, TX_PUBKEYHASH, [h])" by (simp add: mTemplates_def)
  moreover have "\<not> IsPayToScriptHash ?s" "IsWitnessProgram ?s = None"
    using assms by (simp_all add: IsPayToScriptHash_def IsWitnessProgram_def push_data_def le_u8)
  ultimately show ?thesis by (simp add: Solver_def HasOpSStx_def s)
qed

lemma Solver_scripthash:
  assumes "length h = 20"
  shows "Solver past cc t (GetScriptForDestination (CScriptID h)) = (True, TX_SCRIPTHASH, [h])"
  using assms by (simp add: Solver_def GetScriptForDestination_def push_data_def IsPayToScriptHash_def nth_append)

definition small_op :: "nat \<Rightarrow> u8" where
  "small_op n = OP_1 + of_nat n - 1"

lemma small_op_value:
  assumes "1 \<le> n" "n \<le> 16"
  shows "unat (small_op n) = 80 + n" "EncodeOP_N n = Some (small_op n)" "DecodeOP_N (small_op n) = Some n"
proof -
  have "small_op n = of_nat (80 + n)" by (simp add: small_op_def)
  then show u: "unat (small_op n) = 80 + n" using assms by (simp only: unat_of_nat) simp
  show "EncodeOP_N n = Some (small_op n)" using assms by (simp add: EncodeOP_N_def small_op_def)
  show "DecodeOP_N (small_op n) = Some n" using assms u by (auto simp: DecodeOP_N_def le_u8 word_unat_eq_iff)
qed

lemma GetOp2_small_op: "1 \<le> n \<Longrightarrow> n \<le> 16 \<Longrightarrow> GetOp2 (small_op n # r) = (True, r, small_op n, [])"
  by (rule GetOp2_op) (simp add: le_u8 small_op_value)

lemma match_small_op:
  assumes "1 \<le> n" "n \<le> 16"
  shows "match_op cc (small_op n) [] OP_SMALLINTEGER [] s r = TGo (s @ [[of_nat n]]) r"
    and "match_op cc (small_op n) [] OP_PUBKEY [] s r = TBreak" and "match_op cc (small_op n) [] OP_DUP [] s r = TBreak"
  using small_op_value [OF assms] assms by (auto simp: match_op_def le_u8 word_unat_eq_iff)

lemma template_built_multisig:
  assumes "1 \<le> m" "m \<le> 16" "1 \<le> n" "n \<le> 16" "list_all is_key keys" "keys \<noteq> []"
  shows "template_loop cc (small_op m # concat (map push_data keys) @ [small_op n, OP_CHECKMULTISIG])
    [OP_SMALLINTEGER, OP_PUBKEYS, OP_SMALLINTEGER, OP_CHECKMULTISIG] [] r = Matched ([of_nat m] # keys @ [[of_nat n]])"
proof -
  let ?tail = "[small_op n, OP_CHECKMULTISIG]"
  obtain k ks where k: "keys = k # ks" using assms(6) by (cases keys) auto
  have "length k < 76" using assms(5) k by (simp add: is_key_def)
  then have g: "GetOp2 (concat (map push_data keys) @ ?tail) = (True, concat (map push_data ks) @ ?tail, of_nat (length k), k)"
    using GetOp2_short_push k by simp
  have l: "pubkeys_loop (concat (map push_data ks) @ ?tail) (of_nat (length k)) k [[of_nat m]] =
      ([OP_CHECKMULTISIG], small_op n, [], [of_nat m] # keys)"
    using pubkeys_loop_reads [OF assms(5) GetOp2_small_op [OF assms(3,4)] _ g] by (simp add: is_key_def)
  show ?thesis using match_small_op [OF assms(1,2)] match_small_op [OF assms(3,4)]
    by (simp add: template_step [OF GetOp2_small_op [OF assms(1,2)]] template_keys_step [OF g l] template_step [OF GetOp2_op]
        match_op_def [of _ OP_CHECKMULTISIG] template_empty)
qed

lemma Solver_multisig:
  assumes "1 \<le> m" "m \<le> length keys" "length keys \<le> 16" "list_all is_key keys"
  shows "\<exists>s. GetScriptForMultisig m keys = Some s \<and>
    Solver past cc t s = (True, TX_MULTISIG, [of_nat m] # keys @ [[of_nat (length keys)]])"
proof -
  let ?n = "length keys" and ?cat = "concat (map push_data keys)"
  have m: "1 \<le> m" "m \<le> 16" and n: "1 \<le> ?n" "?n \<le> 16" and ne: "keys \<noteq> []" using assms by auto
  let ?s = "small_op m # ?cat @ [small_op ?n, OP_CHECKMULTISIG]"
  have "template_loop cc ?s [OP_PUBKEY, OP_CHECKSIG] [] 20 = NoMatch"
    "template_loop cc ?s [OP_DUP, OP_HASH160, OP_PUBKEYHASH, OP_EQUALVERIFY, OP_CHECKSIG] [] 20 = NoMatch"
    by (simp_all add: template_step [OF GetOp2_small_op [OF m]] match_small_op [OF m])
  moreover have "unat (of_nat m :: u8) = m" "unat (of_nat ?n :: u8) = ?n" using m n by (simp_all add: unat_of_nat)
  ultimately have scan: "scan_templates cc t ?s mTemplates = (True, TX_MULTISIG, [of_nat m] # keys @ [[of_nat ?n]])"
    using assms(1,2) ne by (simp add: mTemplates_def template_built_multisig [OF m n assms(4) ne] le_u8 Let_def)
  obtain k ks where k: "keys = k # ks" using ne by (cases keys) auto
  have len: "33 \<le> length k" "length k \<le> 65" using assms(4) k by (simp_all add: is_key_def)
  have u: "unat (of_nat (length k) :: u8) = length k" using len by (simp add: unat_of_nat)
  have s: "?s = small_op m # of_nat (length k) # k @ concat (map push_data ks) @ [small_op ?n, OP_CHECKMULTISIG]"
    using len by (simp add: k push_data_def)
  have "unat (small_op m) = 80 + m" by (rule small_op_value [OF m])
  then have first: "small_op m \<noteq> OP_HASH160" "small_op m \<noteq> OP_RETURN" "small_op m \<noteq> OP_BUYTICKET" using m by (auto simp: word_unat_eq_iff)
  have "IsWitnessProgram ?s = None" unfolding s using u by (simp add: IsWitnessProgram_def)
  moreover have "\<not> IsPayToScriptHash ?s" using first by (simp add: IsPayToScriptHash_def)
  ultimately have "Solver past cc t ?s = (True, TX_MULTISIG, [of_nat m] # keys @ [[of_nat ?n]])"
    using scan first by (simp add: Solver_def HasOpSStx_def)
  then show ?thesis using small_op_value [OF m] small_op_value [OF n] by (simp add: GetScriptForMultisig_def)
qed

text \<open>C40. The script built for a destination is recognised as that destination again: for a key hash and a script hash of 20
  bytes, for a valid raw key (whose destination is its hash), and for a multisignature script of at most 16 valid keys, where
  the destinations are the hashes of all its keys in order, together with the required number.\<close>
theorem destination_roundtrip:
  assumes "length h = 20" "pubkey_IsValid pk" "list_all pubkey_IsValid keys" "1 \<le> m" "m \<le> length keys" "length keys \<le> 16"
  shows "ExtractDestination past (GetScriptForDestination (CKeyID h)) = (Some (CKeyID h), Some TX_PUBKEYHASH) \<and>
    ExtractDestination past (GetScriptForDestination (CScriptID h)) = (Some (CScriptID h), Some TX_SCRIPTHASH) \<and>
    ExtractDestination past (GetScriptForRawPubKey pk) = (Some (CKeyID (Hash160 pk)), Some TX_PUBKEY) \<and>
    map_option (ExtractDestinations past k) (GetScriptForMultisig m keys) =
      Some (True, TX_MULTISIG, map (CKeyID \<circ> Hash160) keys, m)"
proof (intro conjI)
  show "ExtractDestination past (GetScriptForDestination (CKeyID h)) = (Some (CKeyID h), Some TX_PUBKEYHASH)"
    using assms(1) by (simp add: ExtractDestination_def Solver_keyhash)
  show "ExtractDestination past (GetScriptForDestination (CScriptID h)) = (Some (CScriptID h), Some TX_SCRIPTHASH)"
    using assms(1) by (simp add: ExtractDestination_def Solver_scripthash)
  show "ExtractDestination past (GetScriptForRawPubKey pk) = (Some (CKeyID (Hash160 pk)), Some TX_PUBKEY)"
    using assms(2) by (simp add: ExtractDestination_def Solver_raw pubkey_is_key)
  have keys: "list_all is_key keys" "filter pubkey_IsValid keys = keys"
    using assms(3) by (auto simp: list_all_iff pubkey_is_key filter_id_conv)
  obtain s where "GetScriptForMultisig m keys = Some s"
    "Solver past False TX_NONSTANDARD s = (True, TX_MULTISIG, [of_nat m] # keys @ [[of_nat (length keys)]])"
    using Solver_multisig [OF assms(4-6) keys(1)] by blast
  moreover have "unat (of_nat m :: u8) = m" "keys \<noteq> []" using assms(4-6) by (auto simp: unat_of_nat)
  ultimately show "map_option (ExtractDestinations past k) (GetScriptForMultisig m keys) =
      Some (True, TX_MULTISIG, map (CKeyID \<circ> Hash160) keys, m)"
    using keys(2) by (simp add: ExtractDestinations_def comp_def Let_def)
qed

theorem destination_roundtrip_witness:
  "let pk = 2 # replicate 32 9 in
     fst (ExtractDestination 0 (GetScriptForRawPubKey pk)) = Some (CKeyID (Hash160 pk)) \<and>
     fst (ExtractDestination 0 (GetScriptForDestination (CKeyID (replicate 20 7)))) = Some (CKeyID (replicate 20 7)) \<and>
     map_option (ExtractDestinations 0 0) (GetScriptForMultisig 1 [pk, pk]) =
       Some (True, TX_MULTISIG, [CKeyID (Hash160 pk), CKeyID (Hash160 pk)], 1)"
proof -
  let ?pk = "2 # replicate 32 9 :: bytes"
  have "pubkey_IsValid ?pk" by (simp add: pubkey_IsValid_def pubkey_GetLen_def)
  then show ?thesis using destination_roundtrip [of "replicate 20 7" ?pk "[?pk, ?pk]" 1 0 0] by (simp add: Let_def)
qed

end
