(* ===== verification/Big_Uint.thy ===== *)
theory Big_Uint
  imports Prelude
begin

text \<open>
  The contract of the 256-bit integers towards their clients (proof of work, chain work, stake
  kernels): every operator acts on values modulo \<open>2 ^ 256\<close>, division fails exactly on a zero
  divisor. The clients' numeric facts are proved here once, from the contract alone.
\<close>

locale big_uint =
  fixes wf :: "'a \<Rightarrow> bool"
    and val :: "'a \<Rightarrow> nat"
    and of64 :: "u64 \<Rightarrow> 'a"
    and cpl :: "'a \<Rightarrow> 'a"
    and add :: "'a \<Rightarrow> 'a \<Rightarrow> 'a"
    and sub :: "'a \<Rightarrow> 'a \<Rightarrow> 'a"
    and mul :: "'a \<Rightarrow> 'a \<Rightarrow> 'a"
    and mul32 :: "'a \<Rightarrow> u32 \<Rightarrow> 'a"
    and quot :: "'a \<Rightarrow> 'a \<Rightarrow> 'e + 'a"
    and gt :: "'a \<Rightarrow> 'a \<Rightarrow> bool"
  assumes val_less: "wf a \<Longrightarrow> val a < 2 ^ 256"
    and val_inj: "wf a \<Longrightarrow> wf b \<Longrightarrow> val a = val b \<Longrightarrow> a = b"
    and of64_wf: "wf (of64 n)"
    and of64_val: "val (of64 n) = unat n"
    and cpl_wf: "wf a \<Longrightarrow> wf (cpl a)"
    and cpl_val: "wf a \<Longrightarrow> val (cpl a) = 2 ^ 256 - 1 - val a"
    and add_wf: "wf a \<Longrightarrow> wf b \<Longrightarrow> wf (add a b)"
    and add_val: "wf a \<Longrightarrow> wf b \<Longrightarrow> val (add a b) = (val a + val b) mod 2 ^ 256"
    and sub_wf: "wf a \<Longrightarrow> wf b \<Longrightarrow> wf (sub a b)"
    and sub_val: "wf a \<Longrightarrow> wf b \<Longrightarrow> val b \<le> val a \<Longrightarrow> val (sub a b) = val a - val b"
    and mul_wf: "wf a \<Longrightarrow> wf b \<Longrightarrow> wf (mul a b)"
    and mul_val: "wf a \<Longrightarrow> wf b \<Longrightarrow> val (mul a b) = (val a * val b) mod 2 ^ 256"
    and mul32_wf: "wf a \<Longrightarrow> wf (mul32 a m)"
    and mul32_val: "wf a \<Longrightarrow> val (mul32 a m) = (val a * unat m) mod 2 ^ 256"
    and quot_val: "wf a \<Longrightarrow> wf b \<Longrightarrow> val b \<noteq> 0 \<Longrightarrow> \<exists>q. quot a b = Inr q \<and> wf q \<and> val q = val a div val b"
    and gt_val: "wf a \<Longrightarrow> wf b \<Longrightarrow> gt a b \<longleftrightarrow> val a > val b"
begin

lemmas ops_wf = of64_wf cpl_wf add_wf sub_wf mul_wf mul32_wf

lemma add_sub_cancel:
  assumes "wf a" "wf b" "val a + val b < 2 ^ 256"
  shows "sub (add a b) b = a"
  by (rule val_inj) (use assms in \<open>simp_all add: ops_wf add_val sub_val\<close>)

text \<open>
  \<open>\<sim>t / (t + 1) + 1\<close> is \<open>2 ^ 256 div (t + 1)\<close> although \<open>2 ^ 256\<close> itself is not representable.
\<close>

lemma inverse_target:
  assumes t: "wf t" "val t \<noteq> 0" "val t + 1 < 2 ^ 256"
  shows "\<exists>q. quot (cpl t) (add t (of64 1)) = Inr q \<and> wf (add q (of64 1)) \<and>
    val (add q (of64 1)) = 2 ^ 256 div (val t + 1)"
proof -
  have d: "val (add t (of64 1)) = val t + 1" using t by (simp add: add_val ops_wf of64_val)
  obtain q where q: "quot (cpl t) (add t (of64 1)) = Inr q" "wf q"
      "val q = (2 ^ 256 - 1 - val t) div (val t + 1)"
    using quot_val [of "cpl t" "add t (of64 1)"] t d by (auto simp: ops_wf cpl_val)
  have "(2 ^ 256 - 1 - val t) div (val t + 1) + 1 = (2 ^ 256 - 1 - val t + (val t + 1)) div (val t + 1)"
    by (rule div_add_self2 [symmetric]) simp
  also have "2 ^ 256 - 1 - val t + (val t + 1) = 2 ^ 256" using t(3) by linarith
  finally have s: "val q + 1 = 2 ^ 256 div (val t + 1)" by (simp only: q(3))
  have "2 ^ 256 div (val t + 1) \<le> 2 ^ 256 div 2" using t(2) by (intro div_le_mono2) simp_all
  then have "val (add q (of64 1)) = 2 ^ 256 div (val t + 1)"
    using q(2) s by (simp add: add_val ops_wf of64_val)
  with q show ?thesis by (auto simp: ops_wf)
qed

text \<open>
  Scaling by \<open>m / d\<close> and capping at \<open>lim\<close>: as long as the product fits into 256 bits the result
  is the exact quotient, and it lies in \<open>(0, lim]\<close>.
\<close>

lemma scale_target:
  assumes "wf t" "wf d" "val d \<noteq> 0" "val t * unat m < 2 ^ 256"
  shows "\<exists>q. quot (mul32 t m) d = Inr q \<and> wf q \<and> val q = val t * unat m div val d"
  using quot_val [of "mul32 t m" d] assms by (auto simp: ops_wf mul32_val)

end

end
