(* ===== verification/Arith256.thy ===== *)
theory Arith256
  imports Endian Big_Uint
begin

text \<open>
  The 256-bit unsigned integers of \<^verbatim>\<open>src/src/arith_uint256.h\<close> and \<^verbatim>\<open>src/src/arith_uint256.cpp\<close>.
  A \<^verbatim>\<open>base_uint<256>\<close> is its array \<^verbatim>\<open>pn\<close> of eight 32-bit limbs, least significant first; every
  operator is the limb loop of the source, with the 64-bit intermediate results of the source.
  \<^const>\<open>le_val\<close> is the number a limb array stands for, and the lemmas show that each loop
  computes the corresponding operation on numbers modulo \<open>2 ^ 256\<close>. The compact difficulty
  encoding (\<^verbatim>\<open>SetCompact\<close>, \<^verbatim>\<open>GetCompact\<close>) and the conversions to and from the byte array
  \<^verbatim>\<open>uint256\<close> follow.
\<close>

subsection \<open>Data and limb-wise operators\<close>

type_synonym base_uint = "u32 list"

(* src/src/arith_uint256.h:28-28 base_uint::WIDTH *)
definition WIDTH :: nat where
  "WIDTH = 8"

definition uint_wf :: "base_uint \<Rightarrow> bool" where
  "uint_wf a \<longleftrightarrow> length a = WIDTH"

(* src/src/arith_uint256.h:18-21 uint_error *)
datatype uint_error = DivisionByZero | AssertionFailed

(* src/src/arith_uint256.h:32-38 base_uint::base_uint() *)
definition uint_zero :: base_uint where
  "uint_zero = replicate WIDTH 0"

(* src/src/arith_uint256.h:55-63 base_uint::base_uint(uint64_t) *)
definition uint_of_u64 :: "u64 \<Rightarrow> base_uint" where
  "uint_of_u64 b = ucast b # ucast (drop_bit 32 b) # replicate (WIDTH - 2) 0"

(* src/src/arith_uint256.h:67-73 base_uint::operator! *)
definition uint_is_zero :: "base_uint \<Rightarrow> bool" where
  "uint_is_zero a \<longleftrightarrow> list_all (\<lambda>p. p = 0) a"

(* src/src/arith_uint256.h:75-81 base_uint::operator~ *)
definition uint_not :: "base_uint \<Rightarrow> base_uint" where
  "uint_not a = map NOT a"

(* src/src/arith_uint256.h:103-108 base_uint::operator^= *)
definition uint_xor :: "base_uint \<Rightarrow> base_uint \<Rightarrow> base_uint" where
  "uint_xor a b = map2 (XOR) a b"

(* src/src/arith_uint256.h:110-115 base_uint::operator&= *)
definition uint_and :: "base_uint \<Rightarrow> base_uint \<Rightarrow> base_uint" where
  "uint_and a b = map2 (AND) a b"

(* src/src/arith_uint256.h:117-122 base_uint::operator|= *)
definition uint_or :: "base_uint \<Rightarrow> base_uint \<Rightarrow> base_uint" where
  "uint_or a b = map2 (OR) a b"

(* src/src/arith_uint256.h:179-186 base_uint::operator++ *)
fun uint_inc :: "base_uint \<Rightarrow> base_uint" where
  "uint_inc [] = []"
| "uint_inc (p # ps) = (if p + 1 = 0 then (p + 1) # uint_inc ps else (p + 1) # ps)"

(* src/src/arith_uint256.h:196-203 base_uint::operator-- *)
fun uint_dec :: "base_uint \<Rightarrow> base_uint" where
  "uint_dec [] = []"
| "uint_dec (p # ps) = (if p - 1 = - 1 then (p - 1) # uint_dec ps else (p - 1) # ps)"

(* src/src/arith_uint256.h:83-90 base_uint::operator- *)
definition uint_neg :: "base_uint \<Rightarrow> base_uint" where
  "uint_neg a = uint_inc (uint_not a)"

(* src/src/arith_uint256.h:144-149 base_uint::operator+= *)
fun add_loop :: "u64 \<Rightarrow> base_uint \<Rightarrow> base_uint \<Rightarrow> base_uint" where
  "add_loop carry (p # ps) (q # qs) =
     (let n = carry + ucast p + ucast q
      in ucast (n AND 0xffffffff) # add_loop (drop_bit 32 n) ps qs)"
| "add_loop carry ps qs = []"

(* src/src/arith_uint256.h:141-151 base_uint::operator+= *)
definition uint_add :: "base_uint \<Rightarrow> base_uint \<Rightarrow> base_uint" where
  "uint_add a b = add_loop 0 a b"

(* src/src/arith_uint256.h:153-157 base_uint::operator-= *)
definition uint_sub :: "base_uint \<Rightarrow> base_uint \<Rightarrow> base_uint" where
  "uint_sub a b = uint_add a (uint_neg b)"

(* src/src/arith_uint256.h:159-165 base_uint::operator+=(uint64_t) *)
definition uint_add_u64 :: "base_uint \<Rightarrow> u64 \<Rightarrow> base_uint" where
  "uint_add_u64 a b64 = uint_add a (uint_of_u64 b64)"

(* src/src/arith_uint256.h:167-173 base_uint::operator-=(uint64_t) *)
definition uint_sub_u64 :: "base_uint \<Rightarrow> u64 \<Rightarrow> base_uint" where
  "uint_sub_u64 a b64 = uint_add a (uint_neg (uint_of_u64 b64))"

(* src/src/arith_uint256.cpp:61-65 base_uint::operator*=(uint32_t) *)
fun mul32_loop :: "u64 \<Rightarrow> u32 \<Rightarrow> base_uint \<Rightarrow> base_uint" where
  "mul32_loop carry b32 [] = []"
| "mul32_loop carry b32 (p # ps) =
     (let n = carry + ucast b32 * ucast p
      in ucast (n AND 0xffffffff) # mul32_loop (drop_bit 32 n) b32 ps)"

(* src/src/arith_uint256.cpp:58-67 base_uint::operator*=(uint32_t) *)
definition uint_mul32 :: "base_uint \<Rightarrow> u32 \<Rightarrow> base_uint" where
  "uint_mul32 a b32 = mul32_loop 0 b32 a"

text \<open>
  The product loop. \<open>mul_row\<close> is the inner loop for one \<open>j\<close>: it runs over the limbs
  \<open>pn[j], pn[j+1], \<dots>\<close> while \<open>i + j < WIDTH\<close>.
\<close>

(* src/src/arith_uint256.cpp:75-79 base_uint::operator*= *)
fun mul_row :: "u64 \<Rightarrow> u32 \<Rightarrow> base_uint \<Rightarrow> base_uint \<Rightarrow> base_uint" where
  "mul_row carry aj (p # ps) (q # qs) =
     (let n = carry + ucast p + ucast aj * ucast q
      in ucast (n AND 0xffffffff) # mul_row (drop_bit 32 n) aj ps qs)"
| "mul_row carry aj [] qs = []"
| "mul_row carry aj ps [] = ps"

(* src/src/arith_uint256.cpp:74-80 base_uint::operator*= *)
definition mul_step :: "base_uint \<Rightarrow> base_uint \<Rightarrow> base_uint \<Rightarrow> nat \<Rightarrow> base_uint" where
  "mul_step a b pn j = take j pn @ mul_row 0 (a ! j) (drop j pn) b"

(* src/src/arith_uint256.cpp:70-83 base_uint::operator*= *)
definition uint_mul :: "base_uint \<Rightarrow> base_uint \<Rightarrow> base_uint" where
  "uint_mul a b = foldl (mul_step a b) uint_zero [0..<WIDTH]"

subsection \<open>Shifts, comparison, bit length\<close>

(* src/src/arith_uint256.cpp:31-36 base_uint::operator<<= *)
definition shl_step :: "base_uint \<Rightarrow> nat \<Rightarrow> nat \<Rightarrow> base_uint \<Rightarrow> nat \<Rightarrow> base_uint" where
  "shl_step a k shift pn i =
     (let pn1 = (if i + k + 1 < WIDTH \<and> shift \<noteq> 0
                 then pn[i + k + 1 := pn ! (i + k + 1) OR drop_bit (32 - shift) (a ! i)] else pn)
      in (if i + k < WIDTH then pn1[i + k := pn1 ! (i + k) OR push_bit shift (a ! i)] else pn1))"

(* src/src/arith_uint256.cpp:24-38 base_uint::operator<<= *)
definition uint_shl :: "base_uint \<Rightarrow> nat \<Rightarrow> base_uint" where
  "uint_shl a shift = foldl (shl_step a (shift div 32) (shift mod 32)) uint_zero [0..<WIDTH]"

(* src/src/arith_uint256.cpp:48-53 base_uint::operator>>= *)
definition shr_step :: "base_uint \<Rightarrow> nat \<Rightarrow> nat \<Rightarrow> base_uint \<Rightarrow> nat \<Rightarrow> base_uint" where
  "shr_step a k shift pn i =
     (let pn1 = (if int i - int k - 1 \<ge> 0 \<and> shift \<noteq> 0
                 then pn[i - k - 1 := pn ! (i - k - 1) OR push_bit (32 - shift) (a ! i)] else pn)
      in (if int i - int k \<ge> 0 then pn1[i - k := pn1 ! (i - k) OR drop_bit shift (a ! i)] else pn1))"

(* src/src/arith_uint256.cpp:41-55 base_uint::operator>>= *)
definition uint_shr :: "base_uint \<Rightarrow> nat \<Rightarrow> base_uint" where
  "uint_shr a shift = foldl (shr_step a (shift div 32) (shift mod 32)) uint_zero [0..<WIDTH]"

(* src/src/arith_uint256.cpp:114-119 base_uint::CompareTo *)
fun cmp_loop :: "nat \<Rightarrow> base_uint \<Rightarrow> base_uint \<Rightarrow> int" where
  "cmp_loop 0 a b = 0"
| "cmp_loop (Suc i) a b =
     (if a ! i < b ! i then - 1 else if a ! i > b ! i then 1 else cmp_loop i a b)"

(* src/src/arith_uint256.cpp:112-121 base_uint::CompareTo *)
definition CompareTo :: "base_uint \<Rightarrow> base_uint \<Rightarrow> int" where
  "CompareTo a b = cmp_loop WIDTH a b"

(* src/src/arith_uint256.h:228-228 operator> *)
definition uint_gt :: "base_uint \<Rightarrow> base_uint \<Rightarrow> bool" where
  "uint_gt a b \<longleftrightarrow> CompareTo a b > 0"

(* src/src/arith_uint256.h:230-230 operator>= *)
definition uint_ge :: "base_uint \<Rightarrow> base_uint \<Rightarrow> bool" where
  "uint_ge a b \<longleftrightarrow> CompareTo a b \<ge> 0"

(* src/src/arith_uint256.h:231-231 operator<= *)
definition uint_le :: "base_uint \<Rightarrow> base_uint \<Rightarrow> bool" where
  "uint_le a b \<longleftrightarrow> CompareTo a b \<le> 0"

(* src/src/arith_uint256.cpp:124-135 base_uint::EqualTo *)
definition EqualTo :: "base_uint \<Rightarrow> u64 \<Rightarrow> bool" where
  "EqualTo a b \<longleftrightarrow>
     list_all (\<lambda>p. p = 0) (drop 2 a) \<and> ucast (a ! 1) = drop_bit 32 b \<and> ucast (a ! 0) = b AND 0xffffffff"

(* src/src/arith_uint256.cpp:198-201 base_uint::bits *)
fun bits_limb :: "nat \<Rightarrow> u32 \<Rightarrow> nat" where
  "bits_limb 0 p = 1"
| "bits_limb (Suc nbits) p = (if p AND push_bit (Suc nbits) 1 \<noteq> 0 then Suc nbits + 1 else bits_limb nbits p)"

(* src/src/arith_uint256.cpp:196-204 base_uint::bits *)
fun bits_loop :: "nat \<Rightarrow> base_uint \<Rightarrow> nat" where
  "bits_loop 0 a = 0"
| "bits_loop (Suc pos) a = (if a ! pos \<noteq> 0 then 32 * pos + bits_limb 31 (a ! pos) else bits_loop pos a)"

(* src/src/arith_uint256.cpp:194-206 base_uint::bits *)
definition uint_bits :: "base_uint \<Rightarrow> nat" where
  "uint_bits a = bits_loop WIDTH a"

(* src/src/arith_uint256.h:254-258 base_uint::GetLow64 *)
definition GetLow64 :: "base_uint \<Rightarrow> u64" where
  "GetLow64 a = ucast (a ! 0) OR push_bit 32 (ucast (a ! 1))"

subsection \<open>Division\<close>

text \<open>
  The schoolbook loop of \<^verbatim>\<open>operator/=\<close>: \<open>div_loop (Suc shift) num dv pn\<close> is the state at the
  test \<open>shift >= 0\<close>; the loop ends when \<open>shift\<close> has become \<open>-1\<close>.
\<close>

(* src/src/arith_uint256.cpp:99-106 base_uint::operator/= *)
fun div_loop :: "nat \<Rightarrow> base_uint \<Rightarrow> base_uint \<Rightarrow> base_uint \<Rightarrow> base_uint" where
  "div_loop 0 num dv pn = pn"
| "div_loop (Suc shift) num dv pn =
     (let (num', pn') =
        (if uint_ge num dv
         then (uint_sub num dv, pn[shift div 32 := pn ! (shift div 32) OR push_bit (shift mod 32) 1])
         else (num, pn))
      in div_loop shift num' (uint_shr dv 1) pn')"

(* src/src/arith_uint256.cpp:86-109 base_uint::operator/= *)
definition uint_div :: "base_uint \<Rightarrow> base_uint \<Rightarrow> uint_error + base_uint" where
  "uint_div a b =
     (let num_bits = uint_bits a; div_bits = uint_bits b
      in if div_bits = 0 then Inl DivisionByZero
         else if div_bits > num_bits then Inr uint_zero
         else let shift = num_bits - div_bits
              in Inr (div_loop (Suc shift) a (uint_shl b shift) uint_zero))"

subsection \<open>Compact encoding\<close>

(* src/src/arith_uint256.cpp:229-248 arith_uint256::SetCompact *)
definition SetCompact :: "u32 \<Rightarrow> base_uint \<times> bool \<times> bool" where
  "SetCompact nCompact =
     (let nSize = unat (drop_bit 24 nCompact);
          nWord0 = nCompact AND 0x007fffff;
          nWord = (if nSize \<le> 3 then drop_bit (8 * (3 - nSize)) nWord0 else nWord0);
          r = (if nSize \<le> 3 then uint_of_u64 (ucast nWord)
               else uint_shl (uint_of_u64 (ucast nWord)) (8 * (nSize - 3)));
          fNegative = (nWord \<noteq> 0 \<and> nCompact AND 0x00800000 \<noteq> 0);
          fOverflow = (nWord \<noteq> 0 \<and> (nSize > 34 \<or> (nWord > 0xff \<and> nSize > 33) \<or> (nWord > 0xffff \<and> nSize > 32)))
      in (r, fNegative, fOverflow))"

(* src/src/arith_uint256.cpp:250-271 arith_uint256::GetCompact *)
definition GetCompact :: "base_uint \<Rightarrow> bool \<Rightarrow> uint_error + u32" where
  "GetCompact a fNegative =
     (let nSize0 = (uint_bits a + 7) div 8;
          nCompact0 = (if nSize0 \<le> 3 then (ucast (push_bit (8 * (3 - nSize0)) (GetLow64 a)) :: u32)
                       else ucast (GetLow64 (uint_shr a (8 * (nSize0 - 3)))));
          nCompact1 = (if nCompact0 AND 0x00800000 \<noteq> 0 then drop_bit 8 nCompact0 else nCompact0);
          nSize = (if nCompact0 AND 0x00800000 \<noteq> 0 then nSize0 + 1 else nSize0)
      in if nCompact1 AND NOT 0x007fffff \<noteq> 0 \<or> \<not> nSize < 256 then Inl AssertionFailed
         else let nCompact2 = nCompact1 OR push_bit 24 (of_nat nSize)
              in Inr (nCompact2 OR (if fNegative \<and> nCompact2 AND 0x007fffff \<noteq> 0 then 0x00800000 else 0)))"

subsection \<open>Conversion to and from the byte array \<open>uint256\<close>\<close>

(* src/src/arith_uint256.cpp:273-279 ArithToUint256 *)
definition ArithToUint256 :: "base_uint \<Rightarrow> bytes" where
  "ArithToUint256 a = concat (map WriteLE32 a)"

(* src/src/arith_uint256.cpp:280-286 UintToArith256 *)
definition UintToArith256 :: "bytes \<Rightarrow> base_uint" where
  "UintToArith256 a = map (\<lambda>x. ReadLE32 (drop (x * 4) a)) [0..<WIDTH]"

subsection \<open>Addition, negation, subtraction\<close>

lemma uint_wfI: "length a = 8 \<Longrightarrow> uint_wf a"
  by (simp add: uint_wf_def WIDTH_def)

lemma uint_wf_bound: "uint_wf a \<Longrightarrow> le_val a < 2 ^ 256"
  using le_val_bound [of a] by (simp add: uint_wf_def WIDTH_def)

lemma unat_and_low32: "unat (n AND 0xffffffff :: u64) = unat n mod 2 ^ 32"
proof -
  have m: "n AND 0xffffffff = take_bit 32 n"
    by (simp add: take_bit_eq_mask mask_eq_exp_minus_1)
  show ?thesis unfolding m unsigned_take_bit_eq by (rule take_bit_eq_mod)
qed

lemma low32: "unat (ucast (n AND 0xffffffff :: u64) :: u32) = unat n mod 2 ^ 32"
  by (simp add: unat_ucast unat_and_low32)

lemma limb64_step:
  assumes "unat (n :: u64) = N"
  shows "unat (ucast (n AND 0xffffffff) :: u32) + 2 ^ 32 * ((unat (drop_bit 32 n) + m) mod 2 ^ k)
           = (N + 2 ^ 32 * m) mod 2 ^ (32 + k)"
proof -
  have "N mod 2 ^ 32 + 2 ^ 32 * ((N div 2 ^ 32 + m) mod 2 ^ k) = (N mod 2 ^ 32 + 2 ^ 32 * (N div 2 ^ 32 + m)) mod 2 ^ (32 + k)"
    by (rule limb_step_mod) simp
  also have "N mod 2 ^ 32 + 2 ^ 32 * (N div 2 ^ 32 + m) = N + 2 ^ 32 * m"
    by (simp add: algebra_simps)
  finally show ?thesis by (simp only: low32 unat_drop_bit assms)
qed

lemma unat_ucast_32_64: "unat (ucast (p :: u32) :: u64) = unat p"
  using unat_bound [of p] by (simp add: unat_ucast)

lemma length_add_loop [limb_simps]: "length a = length b \<Longrightarrow> length (add_loop c a b) = length a"
  by (induction c a b rule: add_loop.induct) (auto simp: Let_def)

lemma add_loop_val:
  "length a = length b \<Longrightarrow> unat c \<le> 1 \<Longrightarrow>
     le_val (add_loop c a b) = (unat c + le_val a + le_val b) mod 2 ^ (32 * length a)"
proof (induction c a b rule: add_loop.induct)
  case (1 carry p ps q qs)
  let ?n = "carry + ucast p + ucast q :: u64"
  let ?N = "unat carry + unat p + unat q"
  have pq: "unat p < 2 ^ 32" "unat q < 2 ^ 32" using unat_bound [of p] unat_bound [of q] by simp_all
  have n: "unat ?n = ?N"
    using pq "1.prems" by (simp add: unat_word_ariths unat_ucast_32_64)
  have "unat (drop_bit 32 ?n) \<le> 1"
    using pq "1.prems" unfolding unat_drop_bit n by simp
  then have "le_val (add_loop (drop_bit 32 ?n) ps qs) = (unat (drop_bit 32 ?n) + (le_val ps + le_val qs)) mod 2 ^ (32 * length ps)"
    using "1.IH" "1.prems" by (simp add: add.assoc)
  then have "le_val (add_loop carry (p # ps) (q # qs)) = (?N + 2 ^ 32 * (le_val ps + le_val qs)) mod 2 ^ (32 + 32 * length ps)"
    using limb64_step [OF n, of "le_val ps + le_val qs" "32 * length ps"] by (simp add: Let_def)
  moreover have "unat carry + le_val (p # ps) + le_val (q # qs) = ?N + 2 ^ 32 * (le_val ps + le_val qs)"
    by simp
  ultimately show ?case by (simp only: length_Cons mult_Suc_right)
qed auto

lemma uint_wf_add [limb_simps]: "uint_wf a \<Longrightarrow> uint_wf b \<Longrightarrow> uint_wf (uint_add a b)"
  by (simp add: uint_wf_def uint_add_def length_add_loop)

lemma uint_add_val: "uint_wf a \<Longrightarrow> uint_wf b \<Longrightarrow> le_val (uint_add a b) = (le_val a + le_val b) mod 2 ^ 256"
  using add_loop_val [of a b 0] by (simp add: uint_wf_def uint_add_def WIDTH_def)

lemma length_uint_inc [limb_simps]: "length (uint_inc a) = length a"
  by (induction a) auto

lemma uint_inc_val: "le_val (uint_inc a) = (le_val a + 1) mod 2 ^ (32 * length a)"
proof (induction a)
  case Nil
  then show ?case by simp
next
  case (Cons p ps)
  have b: "le_val (p # ps) < 2 ^ (32 + 32 * length ps)" using le_val_bound [of "p # ps"] by simp
  have p: "unat p < 2 ^ 32" using unat_bound [of p] by simp
  have s: "unat (p + 1) = (unat p + 1) mod 2 ^ 32" by (simp add: unat_word_ariths)
  show ?case
  proof (cases "p + 1 = 0")
    case True
    with s p have "unat p + 1 = 2 ^ 32" by (metis Suc_eq_plus1 Suc_leI le_neq_implies_less mod_less nat.distinct(1) unsigned_0)
    then have "le_val (p # ps) + 1 = 0 + 2 ^ 32 * (le_val ps + 1)" by simp
    then show ?thesis
      using True Cons.IH limb_step_mod [of 0 32 "le_val ps + 1" "32 * length ps"] by simp
  next
    case False
    then have "unat (p + 1) = unat p + 1"
      using s p by (metis Suc_eq_plus1 Suc_leI le_neq_implies_less mod_less mod_self unat_eq_zero)
    moreover from this have "unat p + 1 + 2 ^ 32 * le_val ps < 2 ^ (32 + 32 * length ps)"
      using le_val_bound [of "(p + 1) # ps"] by simp
    ultimately show ?thesis using False by simp
  qed
qed

lemma length_uint_not [limb_simps]: "length (uint_not a) = length a"
  by (simp add: uint_not_def)

lemma unat_not32: "unat (NOT (p :: u32)) = 2 ^ 32 - 1 - unat p"
proof -
  have "NOT p = - 1 - p" by (simp add: not_eq_complement)
  then have "unat (NOT p) = unat (- 1 :: u32) - unat p" by (simp add: unat_sub)
  then show ?thesis by (simp add: unsigned_minus_1_eq_mask mask_eq_exp_minus_1)
qed

lemma uint_not_val: "le_val (uint_not a) = 2 ^ (32 * length a) - 1 - le_val a"
proof (induction a)
  case Nil
  then show ?case by (simp add: uint_not_def)
next
  case (Cons p ps)
  have b: "le_val ps < 2 ^ (32 * length ps)" using le_val_bound [of ps] by simp
  have p: "unat p < 2 ^ 32" using unat_bound [of p] by simp
  have "le_val (uint_not (p # ps)) = (2 ^ 32 - 1 - unat p) + 2 ^ 32 * (2 ^ (32 * length ps) - 1 - le_val ps)"
    using Cons.IH by (simp add: uint_not_def unat_not32)
  also have "\<dots> = 2 ^ (32 + 32 * length ps) - 1 - (unat p + 2 ^ 32 * le_val ps)"
    using b p by (simp add: power_add algebra_simps diff_mult_distrib2)
  finally show ?case by simp
qed

lemma uint_neg_val:
  "le_val (uint_neg a) = (2 ^ (32 * length a) - le_val a) mod 2 ^ (32 * length a)"
proof -
  have "le_val a < 2 ^ (32 * length a)" using le_val_bound [of a] by simp
  then have "2 ^ (32 * length a) - 1 - le_val a + 1 = 2 ^ (32 * length a) - le_val a" by linarith
  then show ?thesis by (simp only: uint_neg_def uint_inc_val uint_not_val length_uint_not)
qed

lemma uint_wf_not [limb_simps]: "uint_wf a \<Longrightarrow> uint_wf (uint_not a)"
  by (simp add: uint_wf_def limb_simps)

lemma uint_wf_neg [limb_simps]: "uint_wf a \<Longrightarrow> uint_wf (uint_neg a)"
  by (simp add: uint_wf_def uint_neg_def limb_simps)

lemma uint_wf_sub [limb_simps]: "uint_wf a \<Longrightarrow> uint_wf b \<Longrightarrow> uint_wf (uint_sub a b)"
  by (simp add: uint_sub_def limb_simps)

lemma uint_sub_val_wrap:
  "uint_wf a \<Longrightarrow> uint_wf b \<Longrightarrow> le_val (uint_sub a b) = (le_val a + (2 ^ 256 - le_val b)) mod 2 ^ 256"
  by (simp add: uint_sub_def uint_add_val limb_simps uint_neg_val mod_add_right_eq)
     (simp add: uint_wf_def WIDTH_def mod_add_right_eq)

lemma uint_sub_val:
  assumes "uint_wf a" "uint_wf b" "le_val b \<le> le_val a"
  shows "le_val (uint_sub a b) = le_val a - le_val b"
proof -
  have "le_val a + (2 ^ 256 - le_val b) = 2 ^ 256 + (le_val a - le_val b)"
    using assms uint_wf_bound [of b] by linarith
  then show ?thesis
    using assms uint_wf_bound [of a] by (simp only: uint_sub_val_wrap mod_add_self1) (simp add: less_imp_diff_less)
qed

lemma uint_wf_of_u64 [limb_simps]: "uint_wf (uint_of_u64 b)"
  by (simp add: uint_wf_def uint_of_u64_def WIDTH_def)

lemma uint_of_u64_val: "le_val (uint_of_u64 b) = unat b"
proof -
  have "unat b div 2 ^ 32 < 2 ^ 32"
    using unat_bound [of b] by (simp add: less_mult_imp_div_less)
  then have "le_val (uint_of_u64 b) = unat b mod 2 ^ 32 + 2 ^ 32 * (unat b div 2 ^ 32)"
    by (simp add: uint_of_u64_def unat_ucast unat_drop_bit)
  then show ?thesis by simp
qed

lemma uint_wf_zero [limb_simps]: "uint_wf uint_zero"
  by (simp add: uint_wf_def uint_zero_def)

lemma uint_zero_val [simp]: "le_val uint_zero = 0"
  by (simp add: uint_zero_def)

subsection \<open>Multiplication\<close>

lemma mul_carry_bound: "c < 2 ^ 32 \<Longrightarrow> p < 2 ^ 32 \<Longrightarrow> x < 2 ^ 32 \<Longrightarrow> y < 2 ^ 32 \<Longrightarrow> c + p + x * y < (2 ^ 64 :: nat)"
proof -
  assume a: "c < 2 ^ 32" "p < 2 ^ 32" "x < 2 ^ 32" "y < 2 ^ 32"
  then have "x * y \<le> (2 ^ 32 - 1) * (2 ^ 32 - 1)" by (intro mult_le_mono) simp_all
  with a show ?thesis by simp
qed

lemma mul_limb_val:
  fixes c :: u64 and p x y :: u32
  assumes "unat c < 2 ^ 32"
  shows "unat (c + ucast p + ucast x * ucast y) = unat c + unat p + unat x * unat y"
    and "unat (drop_bit 32 (c + ucast p + ucast x * ucast y)) < 2 ^ 32"
proof -
  have b: "unat c + unat p + unat x * unat y < 2 ^ 64"
    using mul_carry_bound [of "unat c" "unat p" "unat x" "unat y"] assms
      unat_bound [of p] unat_bound [of x] unat_bound [of y] by simp
  then show v: "unat (c + ucast p + ucast x * ucast y) = unat c + unat p + unat x * unat y"
    by (simp add: unat_word_ariths unat_ucast_32_64 mod_simps)
  show "unat (drop_bit 32 (c + ucast p + ucast x * ucast y)) < 2 ^ 32"
    unfolding unat_drop_bit v using b by (simp add: less_mult_imp_div_less)
qed

lemma length_mul32_loop [limb_simps]: "length (mul32_loop c b a) = length a"
  by (induction c b a rule: mul32_loop.induct) (auto simp: Let_def)

lemma mul32_loop_val:
  "unat c < 2 ^ 32 \<Longrightarrow> le_val (mul32_loop c b a) = (unat c + unat b * le_val a) mod 2 ^ (32 * length a)"
proof (induction c b a rule: mul32_loop.induct)
  case (1 carry b32)
  then show ?case by simp
next
  case (2 carry b32 p ps)
  let ?n = "carry + ucast b32 * ucast p :: u64"
  note m = mul_limb_val [OF "2.prems", of 0 b32 p, simplified]
  have "le_val (mul32_loop (drop_bit 32 ?n) b32 ps) = (unat (drop_bit 32 ?n) + unat b32 * le_val ps) mod 2 ^ (32 * length ps)"
    using "2.IH" m(2) by simp
  then have "le_val (mul32_loop carry b32 (p # ps)) = (unat carry + unat b32 * unat p + 2 ^ 32 * (unat b32 * le_val ps)) mod 2 ^ (32 + 32 * length ps)"
    using limb64_step [OF m(1), of "unat b32 * le_val ps" "32 * length ps"] by (simp add: Let_def)
  moreover have "unat carry + unat b32 * le_val (p # ps) = unat carry + unat b32 * unat p + 2 ^ 32 * (unat b32 * le_val ps)"
    by (simp add: add_mult_distrib2)
  ultimately show ?case by (simp only: length_Cons mult_Suc_right)
qed

lemma uint_wf_mul32 [limb_simps]: "uint_wf a \<Longrightarrow> uint_wf (uint_mul32 a b)"
  by (simp add: uint_wf_def uint_mul32_def limb_simps)

lemma uint_mul32_val: "uint_wf a \<Longrightarrow> le_val (uint_mul32 a b) = (le_val a * unat b) mod 2 ^ 256"
  using mul32_loop_val [of 0 b a] by (simp add: uint_wf_def uint_mul32_def WIDTH_def mult.commute)

lemma length_mul_row [limb_simps]: "length (mul_row c x ps qs) = length ps"
  by (induction c x ps qs rule: mul_row.induct) (auto simp: Let_def)

lemma mul_row_val:
  "length ps \<le> length qs \<Longrightarrow> unat c < 2 ^ 32 \<Longrightarrow>
     le_val (mul_row c x ps qs) = (unat c + le_val ps + unat x * le_val qs) mod 2 ^ (32 * length ps)"
proof (induction c x ps qs rule: mul_row.induct)
  case (1 carry aj p ps q qs)
  let ?n = "carry + ucast p + ucast aj * ucast q :: u64"
  note m = mul_limb_val [OF "1.prems"(2), of p aj q]
  have "le_val (mul_row (drop_bit 32 ?n) aj ps qs) = (unat (drop_bit 32 ?n) + (le_val ps + unat aj * le_val qs)) mod 2 ^ (32 * length ps)"
    using "1.IH" "1.prems"(1) m(2) by (simp add: add.assoc)
  then have "le_val (mul_row carry aj (p # ps) (q # qs)) =
      (unat carry + unat p + unat aj * unat q + 2 ^ 32 * (le_val ps + unat aj * le_val qs)) mod 2 ^ (32 + 32 * length ps)"
    using limb64_step [OF m(1), of "le_val ps + unat aj * le_val qs" "32 * length ps"] by (simp add: Let_def)
  moreover have "unat carry + le_val (p # ps) + unat aj * le_val (q # qs) =
      unat carry + unat p + unat aj * unat q + 2 ^ 32 * (le_val ps + unat aj * le_val qs)"
    by (simp add: add_mult_distrib2)
  ultimately show ?case by (simp only: length_Cons mult_Suc_right)
qed auto

lemma uint_wf_mul_step [limb_simps]: "uint_wf pn \<Longrightarrow> j < WIDTH \<Longrightarrow> uint_wf (mul_step a b pn j)"
  by (simp add: uint_wf_def mul_step_def limb_simps)

lemma mul_step_val:
  assumes "uint_wf pn" "uint_wf b" "j < WIDTH"
  shows "le_val (mul_step a b pn j) = (le_val pn + 2 ^ (32 * j) * (unat (a ! j) * le_val b)) mod 2 ^ 256"
proof -
  let ?r = "mul_row 0 (a ! j) (drop j pn) b"
  have l: "length pn = 8" "length b = 8" "j < 8" using assms by (simp_all add: uint_wf_def WIDTH_def)
  have e: "32 * j + 32 * (8 - j) = 256" using l(3) by simp
  have "le_val ?r = (le_val (drop j pn) + unat (a ! j) * le_val b) mod 2 ^ (32 * (8 - j))"
    using mul_row_val [of "drop j pn" b 0 "a ! j"] l by simp
  moreover have t: "le_val (take j pn) < 2 ^ (32 * j)"
    using le_val_bound [of "take j pn"] l by simp
  ultimately have "le_val (mul_step a b pn j) =
      (le_val (take j pn) + 2 ^ (32 * j) * (le_val (drop j pn) + unat (a ! j) * le_val b)) mod 2 ^ (32 * j + 32 * (8 - j))"
    using limb_step_mod [OF t, of "le_val (drop j pn) + unat (a ! j) * le_val b" "32 * (8 - j)"] l
    by (simp add: mul_step_def le_val_append)
  moreover have "le_val pn = le_val (take j pn) + 2 ^ (32 * j) * le_val (drop j pn)"
    using le_val_append [of "take j pn" "drop j pn"] l by simp
  ultimately show ?thesis unfolding e by (simp add: algebra_simps)
qed

lemma mul_fold:
  assumes "uint_wf a" "uint_wf b" "n \<le> WIDTH"
  shows "uint_wf (foldl (mul_step a b) uint_zero [0..<n]) \<and>
    le_val (foldl (mul_step a b) uint_zero [0..<n]) = (le_val (take n a) * le_val b) mod 2 ^ 256"
  using assms(3)
proof (induction n)
  case 0
  then show ?case by (simp add: limb_simps)
next
  case (Suc n)
  then have n: "n < length a" "n < WIDTH" using assms(1) by (simp_all add: uint_wf_def)
  have t: "le_val (take (Suc n) a) = le_val (take n a) + 2 ^ (32 * n) * unat (a ! n)"
    using n by (simp add: take_Suc_conv_app_nth le_val_append)
  show ?case
    using Suc n assms(2)
    by (simp add: limb_simps mul_step_val t algebra_simps mod_simps)
qed

lemma uint_wf_mul [limb_simps]: "uint_wf a \<Longrightarrow> uint_wf b \<Longrightarrow> uint_wf (uint_mul a b)"
  using mul_fold [of a b WIDTH] by (simp add: uint_mul_def)

lemma uint_mul_val: "uint_wf a \<Longrightarrow> uint_wf b \<Longrightarrow> le_val (uint_mul a b) = (le_val a * le_val b) mod 2 ^ 256"
  using mul_fold [of a b WIDTH] by (simp add: uint_mul_def uint_wf_def)

subsection \<open>Shifts\<close>

definition shl_limb :: "base_uint \<Rightarrow> nat \<Rightarrow> nat \<Rightarrow> nat \<Rightarrow> nat \<Rightarrow> u32" where
  "shl_limb a k s n j =
     (if k \<le> j \<and> j - k < n then push_bit s (a ! (j - k)) else 0) OR
     (if s \<noteq> 0 \<and> Suc k \<le> j \<and> j - k - 1 < n then drop_bit (32 - s) (a ! (j - k - 1)) else 0)"

definition shr_limb :: "base_uint \<Rightarrow> nat \<Rightarrow> nat \<Rightarrow> nat \<Rightarrow> nat \<Rightarrow> u32" where
  "shr_limb a k s n j =
     (if j + k < n then drop_bit s (a ! (j + k)) else 0) OR
     (if s \<noteq> 0 \<and> j + k + 1 < n then push_bit (32 - s) (a ! (j + k + 1)) else 0)"

lemma shl_fold:
  "n \<le> WIDTH \<Longrightarrow> foldl (shl_step a k s) uint_zero [0..<n] = map (shl_limb a k s n) [0..<WIDTH]"
proof (induction n)
  case 0
  then show ?case by (intro nth_equalityI) (simp_all add: uint_zero_def shl_limb_def)
next
  case (Suc n)
  let ?pn = "map (shl_limb a k s n) [0..<WIDTH]"
  have "shl_step a k s ?pn n = map (shl_limb a k s (Suc n)) [0..<WIDTH]"
  proof (intro nth_equalityI)
    fix j
    assume "j < length (shl_step a k s ?pn n)"
    then have j: "j < WIDTH" by (simp add: shl_step_def Let_def split: if_splits)
    consider "j = n + k" | "j = n + k + 1" | "j \<noteq> n + k" "j \<noteq> n + k + 1" by blast
    then show "shl_step a k s ?pn n ! j = map (shl_limb a k s (Suc n)) [0..<WIDTH] ! j"
    proof cases
      case 1
      with j show ?thesis by (simp add: shl_step_def shl_limb_def Let_def nth_list_update or.commute)
    next
      case 2
      with j show ?thesis by (simp add: shl_step_def shl_limb_def Let_def nth_list_update)
    next
      case 3
      then have "(k \<le> j \<and> j - k < Suc n) = (k \<le> j \<and> j - k < n)"
        and "(Suc k \<le> j \<and> j - k - 1 < Suc n) = (Suc k \<le> j \<and> j - k - 1 < n)" by auto
      then have "shl_limb a k s (Suc n) j = shl_limb a k s n j" by (simp only: shl_limb_def)
      with 3 j show ?thesis by (simp add: shl_step_def Let_def)
    qed
  qed (simp add: shl_step_def Let_def)
  with Suc show ?case by simp
qed

lemma shr_fold:
  "n \<le> WIDTH \<Longrightarrow> foldl (shr_step a k s) uint_zero [0..<n] = map (shr_limb a k s n) [0..<WIDTH]"
proof (induction n)
  case 0
  then show ?case by (intro nth_equalityI) (simp_all add: uint_zero_def shr_limb_def)
next
  case (Suc n)
  let ?pn = "map (shr_limb a k s n) [0..<WIDTH]"
  have "shr_step a k s ?pn n = map (shr_limb a k s (Suc n)) [0..<WIDTH]"
  proof (intro nth_equalityI)
    fix j
    assume "j < length (shr_step a k s ?pn n)"
    then have j: "j < WIDTH" by (simp add: shr_step_def Let_def split: if_splits)
    consider "n = j + k" | "n = j + k + 1" | "n \<noteq> j + k" "n \<noteq> j + k + 1" by blast
    then show "shr_step a k s ?pn n ! j = map (shr_limb a k s (Suc n)) [0..<WIDTH] ! j"
    proof cases
      case 1
      with j Suc.prems show ?thesis by (auto simp: shr_step_def shr_limb_def Let_def nth_list_update or.commute)
    next
      case 2
      with j Suc.prems show ?thesis by (simp add: shr_step_def shr_limb_def Let_def nth_list_update)
    next
      case 3
      then have "(j + k < Suc n) = (j + k < n)" and "(j + k + 1 < Suc n) = (j + k + 1 < n)" by auto
      then have "shr_limb a k s (Suc n) j = shr_limb a k s n j" by (simp only: shr_limb_def)
      with 3 j show ?thesis by (auto simp add: shr_step_def Let_def nth_list_update)
    qed
  qed (simp add: shr_step_def Let_def)
  with Suc show ?case by simp
qed

lemma uint_shl_limbs: "uint_shl a sh = map (shl_limb a (sh div 32) (sh mod 32) WIDTH) [0..<WIDTH]"
  by (simp add: uint_shl_def shl_fold)

lemma uint_shr_limbs: "uint_shr a sh = map (shr_limb a (sh div 32) (sh mod 32) WIDTH) [0..<WIDTH]"
  by (simp add: uint_shr_def shr_fold)

lemma uint_shl_nth: "m < 256 \<Longrightarrow> uint_shl a sh ! (m div 32) = shl_limb a (sh div 32) (sh mod 32) WIDTH (m div 32)"
  by (simp add: uint_shl_limbs WIDTH_def nth_map [of _ "[0..<8]"] less_mult_imp_div_less del: upt_Suc upt_rec_numeral)

lemma uint_shr_nth: "m < 256 \<Longrightarrow> uint_shr a sh ! (m div 32) = shr_limb a (sh div 32) (sh mod 32) WIDTH (m div 32)"
  by (simp add: uint_shr_limbs WIDTH_def nth_map [of _ "[0..<8]"] less_mult_imp_div_less del: upt_Suc upt_rec_numeral)

lemma uint_wf_shl [limb_simps]: "uint_wf (uint_shl a sh)"
  by (simp add: uint_shl_limbs uint_wf_def)

lemma uint_wf_shr [limb_simps]: "uint_wf (uint_shr a sh)"
  by (simp add: uint_shr_limbs uint_wf_def)

lemma bit_uint: "uint_wf a \<Longrightarrow> bit (le_val a) m \<longleftrightarrow> m < 256 \<and> bit (a ! (m div 32)) (m mod 32)"
  by (auto simp: bit_le_val uint_wf_def WIDTH_def)

lemma split_sub_ge:
  "32 * k + s \<le> 32 * q + (r::nat) \<Longrightarrow> s \<le> r \<Longrightarrow> r < 32 \<Longrightarrow>
     k \<le> q \<and> 32 * q + r - (32 * k + s) = 32 * (q - k) + (r - s)"
  by auto

lemma split_sub_lt:
  "32 * k + s \<le> 32 * q + (r::nat) \<Longrightarrow> r < s \<Longrightarrow> s < 32 \<Longrightarrow>
     Suc k \<le> q \<and> 32 * q + r - (32 * k + s) = 32 * (q - k - 1) + (r + (32 - s))"
  by auto

lemma div_mod_32: "x = 32 * q + (r::nat) \<Longrightarrow> r < 32 \<Longrightarrow> x div 32 = q \<and> x mod 32 = r"
  by simp

lemma div_mod_sub_ge:
  assumes "sh \<le> (m::nat)" "sh mod 32 \<le> m mod 32"
  shows "(m - sh) div 32 = m div 32 - sh div 32" "(m - sh) mod 32 = m mod 32 - sh mod 32"
    "sh div 32 \<le> m div 32"
proof -
  note e = split_sub_ge [of "sh div 32" "sh mod 32" "m div 32" "m mod 32", unfolded mult_div_mod_eq]
  have "m - sh = 32 * (m div 32 - sh div 32) + (m mod 32 - sh mod 32)"
    using e assms by simp
  moreover have "m mod 32 - sh mod 32 < 32" by (simp add: less_imp_diff_less)
  ultimately show "(m - sh) div 32 = m div 32 - sh div 32" "(m - sh) mod 32 = m mod 32 - sh mod 32"
    by simp_all
  show "sh div 32 \<le> m div 32" using assms(1) by (rule div_le_mono)
qed

lemma div_mod_sub_lt:
  assumes "sh \<le> (m::nat)" "m mod 32 < sh mod 32"
  shows "(m - sh) div 32 = m div 32 - sh div 32 - 1" "(m - sh) mod 32 = m mod 32 + (32 - sh mod 32)"
    "Suc (sh div 32) \<le> m div 32"
proof -
  note e = split_sub_lt [of "sh div 32" "sh mod 32" "m div 32" "m mod 32", unfolded mult_div_mod_eq]
  show "Suc (sh div 32) \<le> m div 32" using e assms by simp
  have "m - sh = 32 * (m div 32 - sh div 32 - 1) + (m mod 32 + (32 - sh mod 32))"
    using e assms by simp
  moreover have "m mod 32 + (32 - sh mod 32) < 32"
    using assms(2) mod_less_divisor [of 32 sh] by linarith
  ultimately have "(m - sh) div 32 = m div 32 - sh div 32 - 1 \<and> (m - sh) mod 32 = m mod 32 + (32 - sh mod 32)"
    by (rule div_mod_32)
  then show "(m - sh) div 32 = m div 32 - sh div 32 - 1" "(m - sh) mod 32 = m mod 32 + (32 - sh mod 32)"
    by blast+
qed

lemma not_le_div_mod:
  assumes "(m::nat) < sh"
  shows "m div 32 < sh div 32 \<or> m div 32 = sh div 32 \<and> m mod 32 < sh mod 32"
proof -
  have "m div 32 \<le> sh div 32" using assms by (simp add: div_le_mono)
  moreover have "m mod 32 < sh mod 32" if "m div 32 = sh div 32"
  proof -
    have "32 * (m div 32) + m mod 32 < 32 * (sh div 32) + sh mod 32"
      using assms by (simp only: mult_div_mod_eq)
    with that show ?thesis by (metis add_less_cancel_left)
  qed
  ultimately show ?thesis by (metis le_neq_implies_less)
qed

lemma bit_shl_limb_aux:
  assumes "r < 32" "s < 32" "q < WIDTH"
  shows "bit (shl_limb a k s WIDTH q) r \<longleftrightarrow>
    (if s \<le> r then k \<le> q \<and> bit (a ! (q - k)) (r - s) else Suc k \<le> q \<and> bit (a ! (q - k - 1)) (r + (32 - s)))"
proof (cases "s \<le> r")
  case True
  then have "\<not> bit (a ! i) (32 - s + r)" for i using assms(1,2) by (auto dest: bit_imp_le_length)
  moreover have "q - k < WIDTH" "q - k - 1 < WIDTH" using assms(3) by simp_all
  ultimately show ?thesis using True assms by (auto simp: shl_limb_def bit_simps)
next
  case False
  moreover have "q - k - 1 < WIDTH" using assms(3) by simp
  ultimately show ?thesis using assms by (auto simp: shl_limb_def bit_simps add.commute)
qed

lemma bit_shl_limb:
  assumes "m < 256"
  shows "bit (shl_limb a (sh div 32) (sh mod 32) WIDTH (m div 32)) (m mod 32) \<longleftrightarrow>
    sh \<le> m \<and> bit (a ! ((m - sh) div 32)) ((m - sh) mod 32)"
proof -
  have w: "m div 32 < WIDTH" using assms by (simp add: WIDTH_def)
  note aux = bit_shl_limb_aux [OF _ _ w, of "m mod 32" "sh mod 32" a "sh div 32", simplified]
  show ?thesis
  proof (cases "sh \<le> m")
    case True
    then show ?thesis
      unfolding aux by (cases "sh mod 32 \<le> m mod 32") (simp_all add: div_mod_sub_ge div_mod_sub_lt)
  next
    case False
    then have "m < sh" by simp
    from not_le_div_mod [OF this] False show ?thesis unfolding aux by auto
  qed
qed

lemma uint_shl_val:
  assumes "uint_wf a"
  shows "le_val (uint_shl a sh) = (le_val a * 2 ^ sh) mod 2 ^ 256"
proof -
  have "le_val (uint_shl a sh) = take_bit 256 (push_bit sh (le_val a))"
  proof (rule bit_eqI)
    fix m
    show "bit (le_val (uint_shl a sh)) m \<longleftrightarrow> bit (take_bit 256 (push_bit sh (le_val a))) m"
      using bit_shl_limb [of m a sh]
      by (auto simp: bit_uint [OF uint_wf_shl] bit_uint [OF assms] bit_simps uint_shl_nth)
  qed
  then show ?thesis by (simp only: take_bit_eq_mod push_bit_eq_mult)
qed

lemma div_mod_add:
  "((m::nat) + sh) div 32 = m div 32 + sh div 32 + (if m mod 32 + sh mod 32 < 32 then 0 else 1) \<and>
   (m + sh) mod 32 = (if m mod 32 + sh mod 32 < 32 then m mod 32 + sh mod 32 else m mod 32 + sh mod 32 - 32)"
proof (rule div_mod_32)
  have "m mod 32 < 32" "sh mod 32 < 32" by simp_all
  then show "(if m mod 32 + sh mod 32 < 32 then m mod 32 + sh mod 32 else m mod 32 + sh mod 32 - 32) < 32"
    by (auto split: if_splits)
  have "32 * q + r + (32 * k + s) = 32 * (q + k + (if r + s < 32 then 0 else 1)) + (if r + s < 32 then r + s else r + s - 32)"
    for q r k s :: nat by simp
  from this [of "m div 32" "m mod 32" "sh div 32" "sh mod 32", unfolded mult_div_mod_eq]
  show "m + sh = 32 * (m div 32 + sh div 32 + (if m mod 32 + sh mod 32 < 32 then 0 else 1)) +
      (if m mod 32 + sh mod 32 < 32 then m mod 32 + sh mod 32 else m mod 32 + sh mod 32 - 32)" .
qed

lemma bit_shr_limb_aux:
  assumes "r < 32" "s < 32"
  shows "bit (shr_limb a k s WIDTH q) r \<longleftrightarrow>
    (if r + s < 32 then q + k < WIDTH \<and> bit (a ! (q + k)) (r + s)
     else q + k + 1 < WIDTH \<and> bit (a ! (q + k + 1)) (r + s - 32))"
proof (cases "r + s < 32")
  case True
  then have "s \<noteq> 0 \<Longrightarrow> \<not> 32 - s \<le> r" by linarith
  with True show ?thesis by (auto simp: shr_limb_def bit_simps add.commute)
next
  case False
  then have "\<not> bit (a ! i) (s + r)" for i by (auto dest: bit_imp_le_length)
  moreover have "s \<noteq> 0" "r - (32 - s) = r + s - 32" "32 - s \<le> r" using False assms by linarith+
  ultimately show ?thesis using False assms by (simp add: shr_limb_def bit_simps)
qed

lemma bit_shr_limb:
  "bit (shr_limb a (sh div 32) (sh mod 32) WIDTH (m div 32)) (m mod 32) \<longleftrightarrow>
    (m + sh) div 32 < WIDTH \<and> bit (a ! ((m + sh) div 32)) ((m + sh) mod 32)"
  using div_mod_add [of m sh] by (simp add: bit_shr_limb_aux)

lemma uint_shr_val:
  assumes "uint_wf a"
  shows "le_val (uint_shr a sh) = le_val a div 2 ^ sh"
proof -
  have "le_val (uint_shr a sh) = drop_bit sh (le_val a)"
  proof (rule bit_eqI)
    fix m
    show "bit (le_val (uint_shr a sh)) m \<longleftrightarrow> bit (drop_bit sh (le_val a)) m"
      using bit_shr_limb [of a sh m]
      by (auto simp: bit_uint [OF uint_wf_shr] bit_uint [OF assms] bit_simps uint_shr_nth WIDTH_def add.commute)
  qed
  then show ?thesis by (simp only: drop_bit_eq_div)
qed

subsection \<open>Comparison and bit length\<close>

lemma le_val_take_Suc:
  "i < length a \<Longrightarrow> le_val (take (Suc i) a) = le_val (take i a) + 2 ^ (32 * i) * unat (a ! i :: u32)"
  by (simp add: take_Suc_conv_app_nth le_val_append)

lemma limb_less_imp:
  assumes "x < (M::nat)" "p < q"
  shows "x + M * p < y + M * q"
proof -
  have "x + M * p < M * Suc p" using assms(1) by simp
  also have "\<dots> \<le> M * q" using assms(2) by (intro mult_le_mono2) simp
  finally show ?thesis by simp
qed

lemma cmp_loop_val:
  "n \<le> length a \<Longrightarrow> n \<le> length b \<Longrightarrow>
     cmp_loop n a b = (if le_val (take n a) < le_val (take n b) then - 1
                       else if le_val (take n a) > le_val (take n b) then 1 else 0)"
proof (induction n)
  case 0
  then show ?case by simp
next
  case (Suc n)
  have ba: "le_val (take n a) < 2 ^ (32 * n)" and bb: "le_val (take n b) < 2 ^ (32 * n)"
    using le_val_bound [of "take n a"] le_val_bound [of "take n b"] Suc.prems by simp_all
  have ta: "le_val (take (Suc n) a) = le_val (take n a) + 2 ^ (32 * n) * unat (a ! n)"
    and tb: "le_val (take (Suc n) b) = le_val (take n b) + 2 ^ (32 * n) * unat (b ! n)"
    using Suc.prems by (simp_all add: le_val_take_Suc)
  consider "a ! n < b ! n" | "b ! n < a ! n" | "a ! n = b ! n" by (meson linorder_neqE)
  then show ?case
  proof cases
    case 1
    then have "le_val (take (Suc n) a) < le_val (take (Suc n) b)"
      unfolding ta tb by (intro limb_less_imp [OF ba]) (simp add: word_less_nat_alt)
    with 1 show ?thesis by simp
  next
    case 2
    then have "le_val (take (Suc n) b) < le_val (take (Suc n) a)"
      unfolding ta tb by (intro limb_less_imp [OF bb]) (simp add: word_less_nat_alt)
    with 2 show ?thesis by auto
  next
    case 3
    with Suc show ?thesis unfolding ta tb by simp
  qed
qed

lemma CompareTo_val:
  "uint_wf a \<Longrightarrow> uint_wf b \<Longrightarrow>
     CompareTo a b = (if le_val a < le_val b then - 1 else if le_val a > le_val b then 1 else 0)"
  by (simp add: CompareTo_def cmp_loop_val uint_wf_def)

lemma uint_ge_val: "uint_wf a \<Longrightarrow> uint_wf b \<Longrightarrow> uint_ge a b \<longleftrightarrow> le_val a \<ge> le_val b"
  by (simp add: uint_ge_def CompareTo_val)

lemma uint_gt_val: "uint_wf a \<Longrightarrow> uint_wf b \<Longrightarrow> uint_gt a b \<longleftrightarrow> le_val a > le_val b"
  by (auto simp add: uint_gt_def CompareTo_val)

lemma uint_le_val: "uint_wf a \<Longrightarrow> uint_wf b \<Longrightarrow> uint_le a b \<longleftrightarrow> le_val a \<le> le_val b"
  by (auto simp add: uint_le_def CompareTo_val)

lemma bit_top:
  assumes "(x::nat) < 2 ^ Suc n"
  shows "bit x n \<longleftrightarrow> 2 ^ n \<le> x"
proof (cases "2 ^ n \<le> x")
  case True
  then have "x div 2 ^ n = 1" using assms by (intro div_nat_eqI) simp_all
  with True show ?thesis by (simp add: bit_iff_odd)
next
  case False
  then show ?thesis by (simp add: bit_iff_odd)
qed

lemma bits_limb_spec:
  "p \<noteq> 0 \<Longrightarrow> unat p < 2 ^ Suc n \<Longrightarrow> n < 32 \<Longrightarrow>
     unat p < 2 ^ bits_limb n p \<and> 2 ^ (bits_limb n p - 1) \<le> unat p \<and> 0 < bits_limb n p"
proof (induction n)
  case 0
  then have "unat p \<noteq> 0" by (simp add: unat_eq_zero)
  with 0 show ?case by auto
next
  case (Suc n)
  have b: "p AND push_bit (Suc n) 1 \<noteq> 0 \<longleftrightarrow> bit p (Suc n)"
    using and_exp_eq_0_iff_not_bit [of p "Suc n"] by (simp add: push_bit_eq_mult)
  have "bit p (Suc n) \<longleftrightarrow> 2 ^ Suc n \<le> unat p"
    using bit_top [OF Suc.prems(2)] by (simp add: bit_unsigned_iff)
  with Suc b show ?case by (cases "bit p (Suc n)") auto
qed

lemma bits_loop_spec:
  "n \<le> length a \<Longrightarrow> le_val (take n a) < 2 ^ bits_loop n a \<and>
     (0 < bits_loop n a \<longrightarrow> 2 ^ (bits_loop n a - 1) \<le> le_val (take n a)) \<and> bits_loop n a \<le> 32 * n"
proof (induction n)
  case 0
  then show ?case by simp
next
  case (Suc n)
  have t: "le_val (take (Suc n) a) = le_val (take n a) + 2 ^ (32 * n) * unat (a ! n)"
    using Suc.prems by (simp add: le_val_take_Suc)
  have b: "le_val (take n a) < 2 ^ (32 * n)" using le_val_bound [of "take n a"] Suc.prems by simp
  show ?case
  proof (cases "a ! n = 0")
    case True
    with Suc t show ?thesis by simp
  next
    case False
    let ?k = "bits_limb 31 (a ! n)"
    have k: "unat (a ! n) < 2 ^ ?k" "2 ^ (?k - 1) \<le> unat (a ! n)" "0 < ?k"
      using bits_limb_spec [OF False, of 31] unat_bound [of "a ! n"] by simp_all
    have "?k \<le> 32"
    proof (rule ccontr)
      assume "\<not> ?k \<le> 32"
      then have "(2::nat) ^ 32 \<le> 2 ^ (?k - 1)" by (intro power_increasing) simp_all
      with k(2) unat_bound [of "a ! n"] show False by simp
    qed
    moreover have "le_val (take n a) + 2 ^ (32 * n) * unat (a ! n) < 0 + 2 ^ (32 * n) * 2 ^ ?k"
      using k(1) by (rule limb_less_imp [OF b])
    moreover have "2 ^ (32 * n) * 2 ^ (?k - 1) \<le> 2 ^ (32 * n) * unat (a ! n)"
      using k(2) by (rule mult_le_mono2)
    ultimately show ?thesis
      using False k(3) unfolding t by (simp add: power_add [symmetric])
  qed
qed

lemma uint_bits_spec:
  assumes "uint_wf a"
  shows "le_val a < 2 ^ uint_bits a"
    and "0 < uint_bits a \<Longrightarrow> 2 ^ (uint_bits a - 1) \<le> le_val a"
    and "uint_bits a \<le> 256"
  using bits_loop_spec [of WIDTH a] assms by (simp_all add: uint_bits_def uint_wf_def WIDTH_def)

lemma uint_bits_eq_0: "uint_wf a \<Longrightarrow> uint_bits a = 0 \<longleftrightarrow> le_val a = 0"
  using uint_bits_spec [of a] by (metis gr0I less_one not_less_zero power_0 zero_less_numeral zero_less_power le_zero_eq)

lemma uint_bits_mono:
  assumes "uint_wf a" "uint_wf b" "uint_bits a < uint_bits b"
  shows "le_val a < le_val b"
proof -
  have "le_val a < 2 ^ uint_bits a" using uint_bits_spec assms by blast
  also have "\<dots> \<le> 2 ^ (uint_bits b - 1)" using assms(3) by (intro power_increasing) simp_all
  also have "\<dots> \<le> le_val b" using uint_bits_spec assms by simp
  finally show ?thesis .
qed

subsection \<open>Division\<close>

definition uint_set_bit :: "base_uint \<Rightarrow> nat \<Rightarrow> base_uint" where
  "uint_set_bit pn n = pn[n div 32 := pn ! (n div 32) OR push_bit (n mod 32) 1]"

lemma uint_wf_set_bit [limb_simps]: "uint_wf pn \<Longrightarrow> uint_wf (uint_set_bit pn n)"
  by (simp add: uint_wf_def uint_set_bit_def)

lemma eq_iff_div_mod: "(m::nat) = n \<longleftrightarrow> m div 32 = n div 32 \<and> m mod 32 = n mod 32"
  by (metis mult_div_mod_eq)

lemma uint_set_bit_val:
  assumes "uint_wf pn" "n < 256"
  shows "le_val (uint_set_bit pn n) = le_val pn OR 2 ^ n"
proof (rule bit_eqI)
  fix m
  have l: "length pn = 8" using assms(1) by (simp add: uint_wf_def WIDTH_def)
  have n: "n div 32 < 8" using assms(2) by simp
  have "bit (uint_set_bit pn n ! (m div 32)) (m mod 32) \<longleftrightarrow> bit (pn ! (m div 32)) (m mod 32) \<or> m = n"
  proof (cases "m div 32 = n div 32")
    case True
    then have "m = n \<longleftrightarrow> m mod 32 = n mod 32" using eq_iff_div_mod [of m n] by blast
    with True n l show ?thesis
      by (auto simp: uint_set_bit_def bit_or_iff bit_exp_iff)
  next
    case False
    with l show ?thesis by (auto simp: uint_set_bit_def)
  qed
  then show "bit (le_val (uint_set_bit pn n)) m \<longleftrightarrow> bit (le_val pn OR 2 ^ n) m"
    using assms by (auto simp: bit_uint limb_simps bit_or_iff bit_exp_iff)
qed

lemma or_exp_dvd: "2 ^ Suc n dvd (q::nat) \<Longrightarrow> q OR 2 ^ n = q + 2 ^ n"
proof -
  assume "2 ^ Suc n dvd q"
  then obtain r where "q = 2 ^ n * (2 * r)" by (metis dvd_def mult.assoc power_Suc2)
  then have "\<not> bit q n" by (simp add: bit_iff_odd)
  then show ?thesis
    using disjunctive_add_eq_or [of q "2 ^ n"] by (simp add: and_exp_eq_0_iff_not_bit)
qed

definition div_inv :: "base_uint \<Rightarrow> base_uint \<Rightarrow> nat \<Rightarrow> base_uint \<Rightarrow> base_uint \<Rightarrow> base_uint \<Rightarrow> bool" where
  "div_inv a b shift num dv pn \<longleftrightarrow>
     uint_wf num \<and> uint_wf dv \<and> uint_wf pn \<and> shift < 256 \<and> le_val dv = le_val b * 2 ^ shift \<and>
     le_val num < le_val b * 2 ^ Suc shift \<and> 2 ^ Suc shift dvd le_val pn \<and>
     le_val a = le_val pn * le_val b + le_val num"

lemma div_round:
  assumes "div_inv a b shift num dv pn"
  defines "num' \<equiv> if uint_ge num dv then uint_sub num dv else num"
    and "pn' \<equiv> if uint_ge num dv then uint_set_bit pn shift else pn"
  shows "uint_wf num'" "uint_wf pn'" "le_val num' < le_val b * 2 ^ shift" "2 ^ shift dvd le_val pn'"
    "le_val a = le_val pn' * le_val b + le_val num'"
proof -
  have inv: "uint_wf num" "uint_wf dv" "uint_wf pn" "shift < 256" "le_val dv = le_val b * 2 ^ shift"
    "le_val num < le_val b * 2 ^ Suc shift" "2 ^ Suc shift dvd le_val pn"
    "le_val a = le_val pn * le_val b + le_val num"
    using assms(1) by (simp_all add: div_inv_def)
  show "uint_wf num'" "uint_wf pn'" using inv by (simp_all add: num'_def pn'_def limb_simps)
  have d: "2 ^ shift dvd le_val pn" using inv(7) by (meson dvd_trans le_imp_power_dvd lessI less_imp_le)
  have "le_val num' < le_val b * 2 ^ shift \<and> 2 ^ shift dvd le_val pn' \<and> le_val a = le_val pn' * le_val b + le_val num'"
  proof (cases "uint_ge num dv")
    case True
    then have ge: "le_val dv \<le> le_val num" using inv by (simp add: uint_ge_val)
    have "le_val num' = le_val num - le_val dv"
      using True ge inv by (simp add: num'_def uint_sub_val)
    moreover have "le_val pn' = le_val pn + 2 ^ shift"
      using True inv by (simp add: pn'_def uint_set_bit_val or_exp_dvd)
    ultimately show ?thesis
      using ge inv(5,6,8) d by (auto simp: algebra_simps)
  next
    case False
    then have "le_val num < le_val dv" using inv by (simp add: uint_ge_val)
    with False inv(5,8) d show ?thesis by (simp add: num'_def pn'_def)
  qed
  then show "le_val num' < le_val b * 2 ^ shift" "2 ^ shift dvd le_val pn'"
    "le_val a = le_val pn' * le_val b + le_val num'" by blast+
qed

lemma div_loop_unfold:
  "div_loop (Suc shift) num dv pn =
     div_loop shift (if uint_ge num dv then uint_sub num dv else num) (uint_shr dv 1)
       (if uint_ge num dv then uint_set_bit pn shift else pn)"
  by (simp add: uint_set_bit_def)

lemma div_loop_spec:
  "div_inv a b shift num dv pn \<Longrightarrow>
     uint_wf (div_loop (Suc shift) num dv pn) \<and> le_val (div_loop (Suc shift) num dv pn) = le_val a div le_val b"
proof (induction shift arbitrary: num dv pn)
  case 0
  note r = div_round [OF "0"]
  have "le_val a div le_val b = le_val (if uint_ge num dv then uint_set_bit pn 0 else pn)"
    using r(3,5) by (intro div_nat_eqI) (simp_all add: mult.commute)
  with r(2) show ?case by (simp only: div_loop_unfold div_loop.simps(1))
next
  case (Suc shift)
  note r = div_round [OF Suc.prems]
  have "div_inv a b shift (if uint_ge num dv then uint_sub num dv else num) (uint_shr dv 1)
      (if uint_ge num dv then uint_set_bit pn (Suc shift) else pn)"
    using r Suc.prems by (simp add: div_inv_def limb_simps uint_shr_val)
  from Suc.IH [OF this] show ?case by (subst (1 2) div_loop_unfold)
qed

lemma uint_div_by_zero: "uint_wf b \<Longrightarrow> le_val b = 0 \<Longrightarrow> uint_div a b = Inl DivisionByZero"
  by (simp add: uint_div_def uint_bits_eq_0)

lemma uint_div_val:
  assumes "uint_wf a" "uint_wf b" "le_val b \<noteq> 0"
  shows "\<exists>q. uint_div a b = Inr q \<and> uint_wf q \<and> le_val q = le_val a div le_val b"
proof -
  have nz: "uint_bits b \<noteq> 0" using assms by (simp add: uint_bits_eq_0)
  show ?thesis
  proof (cases "uint_bits a < uint_bits b")
    case True
    with assms have "le_val a div le_val b = 0" using uint_bits_mono by simp
    with True nz show ?thesis by (simp add: uint_div_def Let_def limb_simps)
  next
    case False
    let ?s = "uint_bits a - uint_bits b"
    have a: "le_val a < 2 ^ uint_bits a" "uint_bits a \<le> 256" and b: "le_val b < 2 ^ uint_bits b"
        "2 ^ (uint_bits b - 1) \<le> le_val b"
      using uint_bits_spec assms nz by blast+
    have "le_val b * 2 ^ ?s < 2 ^ uint_bits b * 2 ^ ?s" using b(1) by simp
    also have "\<dots> = 2 ^ uint_bits a" using False by (simp flip: power_add)
    also have "\<dots> \<le> 2 ^ 256" using a(2) by (intro power_increasing) simp_all
    finally have shl: "le_val (uint_shl b ?s) = le_val b * 2 ^ ?s"
      using assms(2) by (simp add: uint_shl_val)
    have "uint_bits a = uint_bits b - 1 + Suc ?s" using False nz by simp
    then have "le_val a < 2 ^ (uint_bits b - 1) * 2 ^ Suc ?s" using a(1) by (metis power_add)
    also have "\<dots> \<le> le_val b * 2 ^ Suc ?s" using b(2) by (intro mult_le_mono1)
    finally have "div_inv a b ?s a (uint_shl b ?s) uint_zero"
      using assms shl nz a(2) by (simp add: div_inv_def limb_simps)
    from div_loop_spec [OF this] False nz show ?thesis
      by (simp add: uint_div_def Let_def del: div_loop.simps)
  qed
qed

subsection \<open>The compact encoding\<close>

text \<open>Exponent and mantissa of a compact word, as numbers.\<close>

definition compact_size :: "u32 \<Rightarrow> nat" where
  "compact_size c = unat c div 2 ^ 24"

definition compact_mantissa :: "u32 \<Rightarrow> nat" where
  "compact_mantissa c = unat c mod 2 ^ 23"

lemma compact_size_word: "unat (drop_bit 24 c) = compact_size c"
  by (simp only: compact_size_def unat_drop_bit)

lemma compact_mantissa_word: "unat (c AND 0x007fffff) = compact_mantissa c"
proof -
  have m: "c AND 0x007fffff = take_bit 23 c"
    by (simp add: take_bit_eq_mask mask_eq_exp_minus_1)
  show ?thesis
    unfolding m compact_mantissa_def unsigned_take_bit_eq by (rule take_bit_eq_mod)
qed

lemma compact_size_less: "compact_size c < 256"
  using unat_bound [of c] by (simp add: compact_size_def less_mult_imp_div_less)

lemma compact_mantissa_less: "compact_mantissa c < 2 ^ 23"
  by (simp add: compact_mantissa_def)

definition compact_target :: "u32 \<Rightarrow> nat" where
  "compact_target c =
     (if compact_size c \<le> 3 then compact_mantissa c div 256 ^ (3 - compact_size c)
      else compact_mantissa c * 256 ^ (compact_size c - 3))"

lemma pow256: "(256::nat) ^ k = 2 ^ (8 * k)"
  by (simp add: power_mult)

lemma SetCompact_val:
  "SetCompact c = (r, neg, ovf) \<Longrightarrow> uint_wf r \<and> le_val r = compact_target c mod 2 ^ 256"
proof -
  assume a: "SetCompact c = (r, neg, ovf)"
  have b: "compact_mantissa c < 2 ^ 64" using compact_mantissa_less [of c] by simp
  show ?thesis
  proof (cases "compact_size c \<le> 3")
    case True
    then have "r = uint_of_u64 (ucast (drop_bit (8 * (3 - compact_size c)) (c AND 0x007fffff)))"
      using a by (simp add: SetCompact_def Let_def compact_size_word del: drop_bit_and)
    moreover have d: "compact_mantissa c div 2 ^ (8 * (3 - compact_size c)) \<le> compact_mantissa c" by simp
    ultimately have "uint_wf r \<and> le_val r = compact_mantissa c div 2 ^ (8 * (3 - compact_size c))"
      using b by (simp add: limb_simps uint_of_u64_val unat_ucast unat_drop_bit compact_mantissa_word
          le_less_trans [OF d] del: drop_bit_and)
    moreover have "compact_mantissa c div 2 ^ (8 * (3 - compact_size c)) < 2 ^ 256"
      by (rule le_less_trans [OF d]) (use compact_mantissa_less [of c] in simp)
    ultimately show ?thesis using True by (simp add: compact_target_def pow256)
  next
    case False
    then have "r = uint_shl (uint_of_u64 (ucast (c AND 0x007fffff))) (8 * (compact_size c - 3))"
      using a by (simp add: SetCompact_def Let_def compact_size_word)
    then show ?thesis
      using False b by (simp add: limb_simps uint_shl_val uint_of_u64_val unat_ucast compact_mantissa_word compact_target_def pow256)
  qed
qed

lemma mant_gt: "(c AND 0x007fffff > 0xff) = (compact_mantissa c > 0xff)"
    "(c AND 0x007fffff > 0xffff) = (compact_mantissa c > 0xffff)"
    "(c AND 0x007fffff = 0) = (compact_mantissa c = 0)"
  by (simp_all add: word_less_nat_alt compact_mantissa_word unat_eq_zero flip: unat_0_iff)

lemma compact_overflow_iff:
  assumes "3 < n" "m < 2 ^ 23"
  shows "(2::nat) ^ 256 \<le> m * 256 ^ (n - 3) \<longleftrightarrow>
    m \<noteq> 0 \<and> (n > 34 \<or> (m > 0xff \<and> n > 33) \<or> (m > 0xffff \<and> n > 32))"
proof -
  have e: "m * 256 ^ (n - 3) = m * 2 ^ (8 * (n - 3))" by (simp add: pow256)
  consider "n \<le> 32" | "n = 33" | "n = 34" | "n \<ge> 35" using assms(1) by linarith
  then show ?thesis
  proof cases
    case 1
    then have "(2::nat) ^ (8 * (n - 3)) \<le> 2 ^ 232" by (intro power_increasing) simp_all
    with assms(2) have "m * 2 ^ (8 * (n - 3)) < 2 ^ 23 * 2 ^ 232"
      by (intro mult_less_le_imp_less) simp_all
    with 1 show ?thesis unfolding e by simp
  next
    case 2
    then show ?thesis by auto
  next
    case 3
    then show ?thesis by auto
  next
    case 4
    then have p: "(2::nat) ^ 256 \<le> 2 ^ (8 * (n - 3))" by (intro power_increasing) simp_all
    show ?thesis
    proof (cases "m = 0")
      case False
      then have "2 ^ 256 * 1 \<le> 2 ^ (8 * (n - 3)) * m" using p by (intro mult_le_mono) simp_all
      with 4 False show ?thesis unfolding e by (simp add: mult.commute)
    qed simp
  qed
qed

lemma SetCompact_overflow:
  assumes "SetCompact c = (r, neg, ovf)"
  shows "ovf \<longleftrightarrow> 2 ^ 256 \<le> compact_target c"
proof (cases "compact_size c \<le> 3")
  case True
  then have "compact_target c \<le> compact_mantissa c" by (simp add: compact_target_def)
  with compact_mantissa_less [of c] have "\<not> 2 ^ 256 \<le> compact_target c" by simp
  with True show ?thesis
    using assms by (auto simp: SetCompact_def Let_def compact_size_word)
next
  case False
  then show ?thesis
    using assms compact_overflow_iff [of "compact_size c" "compact_mantissa c"] compact_mantissa_less [of c]
    by (auto simp: SetCompact_def Let_def compact_size_word mant_gt compact_target_def)
qed

lemma SetCompact_exact:
  "SetCompact c = (r, neg, False) \<Longrightarrow> uint_wf r \<and> le_val r = compact_target c"
  using SetCompact_val [of c r neg False] SetCompact_overflow [of c r neg False] by simp

lemma GetLow64_val: "uint_wf a \<Longrightarrow> unat (GetLow64 a) = le_val a mod 2 ^ 64"
proof -
  assume "uint_wf a"
  then obtain x y zs where a: "a = x # y # zs"
    by (cases a; cases "tl a"; simp add: uint_wf_def WIDTH_def)
  have x: "unat x < 2 ^ 32" and y: "unat y < 2 ^ 32" using unat_bound [of x] unat_bound [of y] by simp_all
  have "(ucast x :: u64) AND push_bit 32 (ucast y) = 0"
    by (rule bit_eqI) (auto simp: bit_simps dest: bit_imp_le_length)
  then have "GetLow64 a = ucast x + push_bit 32 (ucast y)"
    using disjunctive_add_eq_or [of "ucast x :: u64" "push_bit 32 (ucast y)"] by (simp add: GetLow64_def a)
  moreover have "unat (push_bit 32 (ucast y) :: u64) = 2 ^ 32 * unat y"
    using y by (simp add: push_bit_eq_mult unat_word_ariths unat_ucast_32_64)
  ultimately have "unat (GetLow64 a) = (unat x + 2 ^ 32 * unat y) mod 2 ^ 64"
    using x y by (simp only: unat_word_ariths(1) unat_ucast_32_64) simp
  moreover have "le_val a = unat x + 2 ^ 32 * unat y + 2 ^ 64 * le_val zs" by (simp add: a)
  ultimately show ?thesis by simp
qed

lemma compact_word_val:
  assumes "unat (m::u32) < 2 ^ 23" "k < 256"
  shows "compact_mantissa (m OR push_bit 24 (of_nat k)) = unat m"
    and "compact_size (m OR push_bit 24 (of_nat k)) = k"
    and "\<not> bit (m OR push_bit 24 (of_nat k)) 23"
proof -
  have nb: "\<not> bit m i" if "23 \<le> i" for i
  proof -
    have "unat m < 2 ^ i" using assms(1) power_increasing [OF that, of "2::nat"] by simp
    then have "\<not> bit (unat m) i" by (simp add: bit_iff_odd)
    then show ?thesis by (auto simp: bit_unsigned_iff)
  qed
  then have "m AND push_bit 24 (of_nat k) = 0"
    by (intro bit_eqI) (auto simp: bit_simps)
  then have "m OR push_bit 24 (of_nat k) = m + push_bit 24 (of_nat k)"
    using disjunctive_add_eq_or [of m "push_bit 24 (of_nat k)"] by simp
  moreover have "unat m + k * 2 ^ 24 < 2 ^ 32" using assms by simp
  ultimately have v: "unat (m OR push_bit 24 (of_nat k)) = unat m + k * 2 ^ 24"
    using assms by (simp add: push_bit_eq_mult unat_word_ariths unat_of_nat)
  have "unat m + k * 2 ^ 24 = unat m + 2 ^ 23 * (2 * k)" by simp
  then show "compact_mantissa (m OR push_bit 24 (of_nat k)) = unat m"
    unfolding compact_mantissa_def v using assms(1) by (simp only: mod_mult_self2 mod_less)
  show "compact_size (m OR push_bit 24 (of_nat k)) = k"
    unfolding compact_size_def v using assms(1) by simp
  show "\<not> bit (m OR push_bit 24 (of_nat k)) 23"
    using nb [of 23] by (simp add: bit_simps)
qed

text \<open>
  The mantissa and exponent that \<^verbatim>\<open>GetCompact\<close> computes for a value of \<open>n\<close> significant bytes,
  and their size.
\<close>

definition compact_m0 :: "nat \<Rightarrow> nat \<Rightarrow> nat" where
  "compact_m0 n v = (if n \<le> 3 then v * 256 ^ (3 - n) else v div 256 ^ (n - 3))"

lemma compact_m0_bounds:
  assumes "v < 256 ^ n" "0 < n \<Longrightarrow> 256 ^ (n - 1) \<le> v"
  shows "compact_m0 n v < 2 ^ 24" and "0 < n \<Longrightarrow> 2 ^ 16 \<le> compact_m0 n v"
proof -
  show "compact_m0 n v < 2 ^ 24"
  proof (cases "n \<le> 3")
    case True
    then have "v * 256 ^ (3 - n) < 256 ^ n * 256 ^ (3 - n)" using assms(1) by simp
    also have "\<dots> = (2::nat) ^ 24" using True by (simp flip: power_add)
    finally show ?thesis using True by (simp add: compact_m0_def)
  next
    case False
    then have "(256::nat) ^ n = 2 ^ 24 * 256 ^ (n - 3)"
      using power_add [of "256::nat" 3 "n - 3"] by simp
    with assms(1) False show ?thesis by (simp add: compact_m0_def less_mult_imp_div_less)
  qed
  show "2 ^ 16 \<le> compact_m0 n v" if n: "0 < n"
  proof (cases "n \<le> 3")
    case True
    have "(2::nat) ^ 16 = 256 ^ (n - 1) * 256 ^ (3 - n)" using True n by (simp flip: power_add)
    also have "\<dots> \<le> v * 256 ^ (3 - n)" using assms(2) [OF n] by simp
    finally show ?thesis using True by (simp add: compact_m0_def)
  next
    case False
    then have "n - 1 = 2 + (n - 3)" by simp
    then have "(256::nat) ^ (n - 1) = 2 ^ 16 * 256 ^ (n - 3)" by (simp add: power_add)
    with assms(2) [OF n] have "2 ^ 16 * 256 ^ (n - 3) div 256 ^ (n - 3) \<le> v div 256 ^ (n - 3)"
      by (intro div_le_mono) simp
    with False show ?thesis by (simp add: compact_m0_def)
  qed
qed

lemma uint_bytes_bounds:
  assumes "uint_wf a" defines "n \<equiv> (uint_bits a + 7) div 8"
  shows "le_val a < 256 ^ n" "0 < n \<Longrightarrow> 256 ^ (n - 1) \<le> le_val a" "n \<le> 32"
proof -
  have "le_val a < 2 ^ uint_bits a" using uint_bits_spec(1) [OF assms(1)] .
  also have "\<dots> \<le> 2 ^ (8 * n)" unfolding n_def by (intro power_increasing) simp_all
  finally show "le_val a < 256 ^ n" by (simp add: pow256)
  show "256 ^ (n - 1) \<le> le_val a" if "0 < n"
  proof -
    have b: "0 < uint_bits a" using that unfolding n_def by (cases "uint_bits a") simp_all
    have "(2::nat) ^ (8 * (n - 1)) \<le> 2 ^ (uint_bits a - 1)"
      using b unfolding n_def by (intro power_increasing) auto
    also have "\<dots> \<le> le_val a" using uint_bits_spec(2) [OF assms(1) b] .
    finally show ?thesis by (simp add: pow256)
  qed
  show "n \<le> 32" using uint_bits_spec(3) [OF assms(1)] unfolding n_def by simp
qed

lemma GetCompact_m0:
  assumes "uint_wf a" defines "n \<equiv> (uint_bits a + 7) div 8"
  shows "unat (if n \<le> 3 then (ucast (push_bit (8 * (3 - n)) (GetLow64 a)) :: u32)
               else ucast (GetLow64 (uint_shr a (8 * (n - 3))))) = compact_m0 n (le_val a)"
proof -
  note b = uint_bytes_bounds [OF assms(1), folded n_def]
  note m = compact_m0_bounds(1) [OF b(1,2)]
  show ?thesis
  proof (cases "n \<le> 3")
    case True
    then have "(256::nat) ^ n \<le> 256 ^ 3" by (intro power_increasing) simp_all
    with b(1) have v: "unat (GetLow64 a) = le_val a" using GetLow64_val [OF assms(1)] by simp
    have "unat (push_bit (8 * (3 - n)) (GetLow64 a)) = (2 ^ (8 * (3 - n)) * le_val a) mod 2 ^ 64"
      unfolding unsigned_push_bit_eq v by (simp add: take_bit_eq_mod push_bit_eq_mult mult.commute)
    then have "unat (push_bit (8 * (3 - n)) (GetLow64 a)) = compact_m0 n (le_val a)"
      using m True by (simp add: compact_m0_def pow256 mult.commute)
    with True m show ?thesis by (simp add: unat_ucast)
  next
    case False
    have "le_val (uint_shr a (8 * (n - 3))) = compact_m0 n (le_val a)"
      using False assms(1) by (simp add: uint_shr_val compact_m0_def pow256)
    then have "unat (GetLow64 (uint_shr a (8 * (n - 3)))) = compact_m0 n (le_val a)"
      using m by (simp add: GetLow64_val limb_simps)
    with False m show ?thesis by (simp add: unat_ucast)
  qed
qed

lemma sign_bit_iff: "(w AND 0x00800000 \<noteq> 0) \<longleftrightarrow> bit (w::u32) 23"
  using and_exp_eq_0_iff_not_bit [of w 23] by simp

lemma not_bit_ge: "unat (w::u32) < 2 ^ n \<Longrightarrow> n \<le> i \<Longrightarrow> \<not> bit w i"
proof -
  assume a: "unat w < 2 ^ n" "n \<le> i"
  then have "unat w < 2 ^ i" by (meson less_le_trans one_le_numeral power_increasing)
  then have "\<not> bit (unat w) i" by (simp add: bit_iff_odd)
  then show ?thesis by (auto simp: bit_unsigned_iff)
qed

lemma mask_clear: "unat (w::u32) < 2 ^ 23 \<Longrightarrow> w AND NOT 0x007fffff = 0"
proof -
  assume a: "unat w < 2 ^ 23"
  have m: "(0x007fffff :: u32) = mask 23" by (simp add: mask_eq_exp_minus_1)
  show ?thesis
    unfolding m by (rule bit_eqI) (use not_bit_ge [OF a] in \<open>auto simp: bit_simps not_less\<close>)
qed

definition compact_enc :: "nat \<Rightarrow> nat \<Rightarrow> nat \<times> nat" where
  "compact_enc n v = (if 2 ^ 23 \<le> compact_m0 n v then (compact_m0 n v div 256, n + 1) else (compact_m0 n v, n))"

definition compact_dec :: "nat \<Rightarrow> nat \<Rightarrow> nat" where
  "compact_dec m n = (if n \<le> 3 then m div 256 ^ (3 - n) else m * 256 ^ (n - 3))"

lemma compact_dec_enc:
  assumes "v < 256 ^ n" "256 ^ (n - 1) \<le> v" "0 < n" "compact_enc n v = (m, sz)"
  shows "m < 2 ^ 23 \<and> 2 ^ 15 \<le> m \<and> sz \<le> n + 1 \<and>
    (\<exists>k. compact_dec m sz = v div 256 ^ k * 256 ^ k \<and> (k = 0 \<or> 2 ^ 15 * 256 ^ k \<le> v))"
proof -
  note b = compact_m0_bounds [OF assms(1) assms(2)]
  have div: "q * 256 ^ k \<le> v" if "q \<le> v div 256 ^ k" for q k
    by (rule order_trans [OF mult_le_mono1 [OF that]]) (rule div_times_less_eq_dividend)
  show ?thesis
  proof (cases "2 ^ 23 \<le> compact_m0 n v")
    case False
    then have e: "m = compact_m0 n v" "sz = n" using assms(4) by (auto simp: compact_enc_def)
    have "compact_dec m sz = v div 256 ^ (n - 3) * 256 ^ (n - 3)"
      unfolding e by (simp add: compact_dec_def compact_m0_def)
    moreover have "n - 3 = 0 \<or> 2 ^ 15 * 256 ^ (n - 3) \<le> v"
      using b(2) [OF assms(3)] div [of "2 ^ 15" "n - 3"] by (auto simp: compact_m0_def split: if_splits)
    ultimately show ?thesis using False b(2) [OF assms(3)] e by fastforce
  next
    case True
    then have e: "m = compact_m0 n v div 256" "sz = n + 1" using assms(4) by (auto simp: compact_enc_def)
    have m: "m < 2 ^ 23" "2 ^ 15 \<le> m" using True b(1) unfolding e(1) by simp_all
    have "compact_dec m sz = v div 256 ^ (n - 2) * 256 ^ (n - 2)"
    proof (cases "n \<le> 2")
      case n: True
      then have "(256::nat) ^ (3 - n) = 256 * 256 ^ (2 - n)" by (simp flip: power_Suc add: Suc_diff_le)
      with n show ?thesis unfolding e by (simp add: compact_dec_def compact_m0_def)
    next
      case n: False
      then have "n - 2 = Suc (n - 3)" by simp
      moreover have "v div 256 ^ (n - 3) div 256 = v div (256 * 256 ^ (n - 3))"
        by (metis div_mult2_eq mult.commute)
      ultimately show ?thesis unfolding e using n by (auto simp: compact_dec_def compact_m0_def)
    qed
    moreover have "n - 2 = 0 \<or> 2 ^ 15 * 256 ^ (n - 2) \<le> v"
    proof (cases "n \<le> 2")
      case n: False
      then have "n - 2 = Suc (n - 3)" by simp
      moreover have "2 ^ 23 * 256 ^ (n - 3) \<le> v"
        using True n div [of "2 ^ 23" "n - 3"] by (auto simp: compact_m0_def split: if_splits)
      ultimately show ?thesis by simp
    qed simp
    ultimately show ?thesis using m e by fastforce
  qed
qed

lemma GetCompact_enc:
  assumes "uint_wf a" "compact_enc ((uint_bits a + 7) div 8) (le_val a) = (m, sz)" "m < 2 ^ 23" "sz < 256"
  shows "\<exists>c. GetCompact a False = Inr c \<and> compact_mantissa c = m \<and> compact_size c = sz \<and> \<not> bit c 23"
proof -
  define n where "n = (uint_bits a + 7) div 8"
  define w0 where "w0 = (if n \<le> 3 then (ucast (push_bit (8 * (3 - n)) (GetLow64 a)) :: u32)
               else ucast (GetLow64 (uint_shr a (8 * (n - 3)))))"
  define w1 where "w1 = (if bit w0 23 then drop_bit 8 w0 else w0)"
  have w0: "unat w0 = compact_m0 n (le_val a)"
    unfolding w0_def n_def by (rule GetCompact_m0 [OF assms(1)])
  have "compact_m0 n (le_val a) < 2 ^ 24"
    unfolding n_def by (rule compact_m0_bounds(1) [OF uint_bytes_bounds(1,2) [OF assms(1)]])
  then have bit: "bit w0 23 \<longleftrightarrow> 2 ^ 23 \<le> compact_m0 n (le_val a)"
    using bit_top [of "unat w0" 23] w0 bit_unsigned_iff [where 'a = nat, of w0 23] by auto
  have w1: "unat w1 = m" and sz: "sz = (if bit w0 23 then n + 1 else n)"
    using assms(2) w0 bit unfolding w1_def n_def [symmetric]
    by (auto simp: compact_enc_def unat_drop_bit split: if_splits)
  have "GetCompact a False = Inr (w1 OR push_bit 24 (of_nat sz))"
    using assms(3,4) mask_clear [of w1] w1 sz
    by (simp add: GetCompact_def Let_def sign_bit_iff flip: n_def w0_def) (simp add: w1_def split: if_splits)
  moreover have "unat w1 < 2 ^ 23" using w1 assms(3) by simp
  ultimately show ?thesis using compact_word_val [OF _ assms(4), of w1] w1 by auto
qed

lemma compact_target_dec: "compact_target c = compact_dec (compact_mantissa c) (compact_size c)"
  by (simp add: compact_target_def compact_dec_def)

lemma GetCompact_spec:
  assumes "uint_wf a"
  shows "\<exists>c k. GetCompact a False = Inr c \<and> \<not> bit c 23 \<and>
    compact_target c = le_val a div 256 ^ k * 256 ^ k \<and> (k = 0 \<or> 2 ^ 15 * 256 ^ k \<le> le_val a)"
proof -
  define n where "n = (uint_bits a + 7) div 8"
  note b = uint_bytes_bounds [OF assms, folded n_def]
  obtain m sz where e: "compact_enc n (le_val a) = (m, sz)" by (cases "compact_enc n (le_val a)")
  have "m < 2 ^ 23 \<and> sz < 256 \<and>
    (\<exists>k. compact_dec m sz = le_val a div 256 ^ k * 256 ^ k \<and> (k = 0 \<or> 2 ^ 15 * 256 ^ k \<le> le_val a))"
  proof (cases "n = 0")
    case True
    then have "le_val a = 0" using b(1) by simp
    then have "m = 0 \<and> sz = 0" using e True by (simp add: compact_enc_def compact_m0_def)
    with \<open>le_val a = 0\<close> show ?thesis by (auto simp: compact_dec_def)
  next
    case False
    then show ?thesis using compact_dec_enc [OF b(1) b(2) _ e] b(3) by auto
  qed
  with GetCompact_enc [OF assms e [unfolded n_def]] show ?thesis
    unfolding compact_target_dec by auto
qed

lemma GetCompact_precision:
  assumes "uint_wf a" "GetCompact a False = Inr c"
  shows "compact_target c \<le> le_val a" "(le_val a - compact_target c) * 2 ^ 15 \<le> le_val a" "\<not> bit c 23"
proof -
  obtain k where c: "compact_target c = le_val a div 256 ^ k * 256 ^ k" "k = 0 \<or> 2 ^ 15 * 256 ^ k \<le> le_val a" "\<not> bit c 23"
    using GetCompact_spec [OF assms(1)] assms(2) by auto
  show "\<not> bit c 23" by (rule c(3))
  show "compact_target c \<le> le_val a" unfolding c(1) by (rule div_times_less_eq_dividend)
  have m: "le_val a - compact_target c = le_val a mod 256 ^ k"
    unfolding c(1) by (simp add: minus_div_mult_eq_mod)
  show "(le_val a - compact_target c) * 2 ^ 15 \<le> le_val a"
  proof (cases "k = 0")
    case True
    then show ?thesis using m by simp
  next
    case False
    have "le_val a mod 256 ^ k * 2 ^ 15 \<le> 256 ^ k * 2 ^ 15" by (intro mult_le_mono1) simp
    also have "\<dots> \<le> le_val a" using False c(2) by (simp add: mult.commute)
    finally show ?thesis unfolding m .
  qed
qed

lemma SetCompact_cases: obtains r neg ovf where "SetCompact c = (r, neg, ovf)"
  by (cases "SetCompact c") auto

lemma compact_target_not_max: "compact_target c \<noteq> 2 ^ 256 - 1"
proof (cases "compact_size c \<le> 3")
  case True
  then have "compact_target c \<le> compact_mantissa c" by (simp add: compact_target_def)
  with compact_mantissa_less [of c] show ?thesis by simp
next
  case False
  then have "compact_size c - 3 = Suc (compact_size c - 4)" by simp
  then have "even (compact_target c)" using False by (simp add: compact_target_def)
  moreover have "odd ((2::nat) ^ 256 - 1)" by simp
  ultimately show ?thesis by metis
qed

subsection \<open>Conversion to and from \<open>uint256\<close>\<close>

lemma EqualTo_val: "uint_wf a \<Longrightarrow> EqualTo a b \<longleftrightarrow> le_val a = unat b"
proof -
  assume wf: "uint_wf a"
  then obtain x y zs where a: "a = x # y # zs"
    by (cases a; cases "tl a"; simp add: uint_wf_def WIDTH_def)
  have "a = uint_of_u64 b \<longleftrightarrow> le_val a = unat b"
    using le_val_inj [of a "uint_of_u64 b"] wf uint_wf_of_u64 [of b] uint_of_u64_val [of b]
    by (auto simp: uint_wf_def)
  moreover have "(list_all (\<lambda>p. p = 0) zs) = (zs = replicate (length zs) 0)"
    by (induction zs) auto
  moreover have "length zs = WIDTH - 2" using wf a by (simp add: uint_wf_def)
  moreover have "(ucast y = drop_bit 32 b) = (y = ucast (drop_bit 32 b))"
    using unat_bound [of b]
    by (simp add: word_unat_eq_iff unat_ucast_32_64 unat_ucast unat_drop_bit less_mult_imp_div_less)
  moreover have "(ucast x = b AND 0xffffffff) = (x = ucast b)"
    by (simp add: word_unat_eq_iff unat_ucast_32_64 unat_ucast unat_and_low32)
  ultimately show ?thesis by (simp add: EqualTo_def a uint_of_u64_def) blast
qed

lemma length_concat_WriteLE32 [simp]: "length (concat (map WriteLE32 a)) = 4 * length a"
  by (induction a) simp_all

lemma length_ArithToUint256: "uint_wf a \<Longrightarrow> length (ArithToUint256 a) = 32"
  by (simp add: ArithToUint256_def uint_wf_def WIDTH_def)

lemma le_val_concat_WriteLE32: "le_val (concat (map WriteLE32 a)) = le_val a"
proof (induction a)
  case (Cons p ps)
  have "le_val (WriteLE32 p) = unat p" using unat_bound [of p] by (simp add: WriteLE32_def le_val_le_bytes)
  with Cons show ?case by (simp add: le_val_append)
qed simp

lemma ArithToUint256_val: "le_val (ArithToUint256 a) = le_val a"
  by (simp add: ArithToUint256_def le_val_concat_WriteLE32)

lemma uint_wf_UintToArith256 [limb_simps]: "uint_wf (UintToArith256 b)"
  by (simp add: UintToArith256_def uint_wf_def)

lemma chunks_val:
  "length b = 4 * n \<Longrightarrow> le_val (map (\<lambda>x. ReadLE32 (drop (x * 4) b)) [0..<n]) = le_val b"
proof (induction n arbitrary: b)
  case 0
  then show ?case by simp
next
  case (Suc n)
  have "[0..<Suc n] = 0 # map Suc [0..<n]"
    by (simp add: map_Suc_upt upt_conv_Cons del: upt_Suc)
  then have "le_val (map (\<lambda>x. ReadLE32 (drop (x * 4) b)) [0..<Suc n])
      = unat (ReadLE32 b) + 2 ^ 32 * le_val (map (\<lambda>x. ReadLE32 (drop (x * 4) (drop 4 b))) [0..<n])"
    by (simp add: comp_def add.commute [of 4] del: upt_Suc)
  also have "\<dots> = unat (ReadLE32 b) + 2 ^ 32 * le_val (drop 4 b)"
    using Suc.IH [of "drop 4 b"] Suc.prems by (simp del: drop_drop)
  also have "unat (ReadLE32 b) = le_val (take 4 b)"
    using le_val_bound [of "take 4 b"] Suc.prems by (simp add: ReadLE32_def le_word_def unat_of_nat)
  also have "le_val (take 4 b) + 2 ^ 32 * le_val (drop 4 b) = le_val b"
    using le_val_append [of "take 4 b" "drop 4 b"] Suc.prems by simp
  finally show ?case .
qed

lemma UintToArith256_val: "length b = 32 \<Longrightarrow> le_val (UintToArith256 b) = le_val b"
  using chunks_val [of b WIDTH] by (simp add: UintToArith256_def WIDTH_def)

lemma UintToArith256_ArithToUint256: "uint_wf a \<Longrightarrow> UintToArith256 (ArithToUint256 a) = a"
  by (rule le_val_inj)
     (simp_all add: UintToArith256_val length_ArithToUint256 ArithToUint256_val uint_wf_UintToArith256 [unfolded uint_wf_def] uint_wf_def)

lemma ArithToUint256_UintToArith256: "length b = 32 \<Longrightarrow> ArithToUint256 (UintToArith256 b) = b"
  by (rule le_val_inj)
     (simp_all add: length_ArithToUint256 uint_wf_UintToArith256 ArithToUint256_val UintToArith256_val)

subsection \<open>The contract\<close>

lemma uint_not_val256: "uint_wf a \<Longrightarrow> le_val (uint_not a) = 2 ^ 256 - 1 - le_val a"
  using uint_not_val [of a] by (simp add: uint_wf_def WIDTH_def)

interpretation a256: big_uint uint_wf le_val uint_of_u64 uint_not uint_add uint_sub uint_mul
  uint_mul32 uint_div uint_gt
proof unfold_locales
  show "a = b" if "uint_wf a" "uint_wf b" "le_val a = le_val b" for a b
    using that le_val_inj [of a b] by (simp add: uint_wf_def)
qed (simp_all add: limb_simps uint_wf_bound [simplified] uint_of_u64_val uint_not_val256 uint_add_val uint_sub_val
    uint_mul_val uint_mul32_val uint_gt_val uint_div_val)

subsection \<open>Re-encoding a decoded target\<close>

lemma round_down_ge: "w \<le> v \<Longrightarrow> B dvd w \<Longrightarrow> w \<le> v div B * (B::nat)"
  using mult_le_mono1 [OF div_le_mono, of w v B B] by simp

lemma compact_enc_idem:
  assumes "v < 256 ^ n" "256 ^ (n - 1) \<le> v" "0 < n" "compact_enc n v = (m, sz)"
  shows "256 ^ (n - 1) \<le> compact_dec m sz" "compact_dec m sz < 256 ^ n" "compact_enc n (compact_dec m sz) = (m, sz)"
proof -
  have low: "256 ^ (n - 1) \<le> v div 256 ^ k * 256 ^ k" if "k \<le> n - 1" for k
    by (rule round_down_ge [OF assms(2)]) (rule le_imp_power_dvd [OF that])
  have high: "v div 256 ^ k * 256 ^ k < 256 ^ n" for k
    by (rule le_less_trans [OF div_times_less_eq_dividend assms(1)])
  have "256 ^ (n - 1) \<le> compact_dec m sz \<and> compact_dec m sz < 256 ^ n \<and> compact_enc n (compact_dec m sz) = (m, sz)"
  proof (cases "2 ^ 23 \<le> compact_m0 n v")
    case False
    then have e: "m = compact_m0 n v" "sz = n" using assms(4) by (auto simp: compact_enc_def)
    have r: "compact_dec m sz = v div 256 ^ (n - 3) * 256 ^ (n - 3)"
      unfolding e by (simp add: compact_dec_def compact_m0_def)
    have "compact_m0 n (v div 256 ^ (n - 3) * 256 ^ (n - 3)) = compact_m0 n v" by (simp add: compact_m0_def)
    then have "compact_m0 n (compact_dec m sz) = m" using r e(1) by simp
    then have "compact_enc n (compact_dec m sz) = (m, sz)" using False e unfolding compact_enc_def by simp
    then show ?thesis using low [of "n - 3"] high [of "n - 3"] unfolding r by simp
  next
    case True
    then have e: "m = compact_m0 n v div 256" "sz = n + 1" using assms(4) by (auto simp: compact_enc_def)
    have m: "2 ^ 23 \<le> m * 256" using True unfolding e(1) by simp
    show ?thesis
    proof (cases "n \<le> 2")
      case n: True
      then have p: "(256::nat) ^ (3 - n) = 256 * 256 ^ (2 - n)" by (simp flip: power_Suc add: Suc_diff_le)
      have "compact_dec m sz = v" using n p unfolding e by (simp add: compact_dec_def compact_m0_def)
      then show ?thesis using assms by simp
    next
      case n: False
      then have p: "(256::nat) ^ (n - 2) = 256 * 256 ^ (n - 3)" by (simp flip: power_Suc add: Suc_diff_le)
      have r: "compact_dec m sz = m * 256 * 256 ^ (n - 3)" using n p unfolding e(2) by (simp add: compact_dec_def)
      have "m = v div 256 ^ (n - 2)"
        unfolding e(1) p mult.commute [of 256] div_mult2_eq using n by (auto simp: compact_m0_def)
      then have rv: "compact_dec m sz = v div 256 ^ (n - 2) * 256 ^ (n - 2)" unfolding r p by simp
      have "compact_m0 n (compact_dec m sz) = m * 256" unfolding r using n by (auto simp: compact_m0_def)
      then have "compact_enc n (compact_dec m sz) = (m, sz)" using m e(2) unfolding compact_enc_def by simp
      then show ?thesis using low [of "n - 2"] high [of "n - 2"] unfolding rv by simp
    qed
  qed
  then show "256 ^ (n - 1) \<le> compact_dec m sz" "compact_dec m sz < 256 ^ n" "compact_enc n (compact_dec m sz) = (m, sz)"
    by blast+
qed

lemma byte_length_unique:
  assumes "v < 256 ^ n" "0 < n \<Longrightarrow> 256 ^ (n - 1) \<le> v" "v < 256 ^ k" "0 < k \<Longrightarrow> 256 ^ (k - 1) \<le> (v::nat)"
  shows "n = k"
proof -
  have "i \<le> j" if "v < 256 ^ j" "0 < i \<Longrightarrow> 256 ^ (i - 1) \<le> v" for i j
  proof (rule ccontr)
    assume "\<not> i \<le> j"
    then have "256 ^ j \<le> (256::nat) ^ (i - 1)" by (intro power_increasing) auto
    also have "\<dots> \<le> v" using that(2) \<open>\<not> i \<le> j\<close> by simp
    finally show False using that(1) by simp
  qed
  from this [of k n] this [of n k] assms show ?thesis by simp
qed

lemma compact_word_eq:
  assumes "compact_mantissa c = compact_mantissa d" "compact_size c = compact_size d" "\<not> bit c 23" "\<not> bit d 23"
  shows "c = d"
proof (rule bit_word_eqI)
  fix i
  assume "i < LENGTH(32)"
  consider "i < 23" | "i = 23" | "24 \<le> i" by linarith
  then show "bit c i = bit d i"
  proof cases
    case 1
    have "bit (take_bit 23 (unat c)) i = bit (take_bit 23 (unat d)) i"
      using assms(1) by (simp add: compact_mantissa_def take_bit_eq_mod)
    with 1 show ?thesis by (simp add: bit_simps)
  next
    case 2
    with assms show ?thesis by simp
  next
    case 3
    have "bit (drop_bit 24 (unat c)) (i - 24) = bit (drop_bit 24 (unat d)) (i - 24)"
      using assms(2) by (simp add: compact_size_def drop_bit_eq_div)
    with 3 show ?thesis by (simp add: bit_simps)
  qed
qed

lemma GetCompact_idem:
  assumes "uint_wf a" "GetCompact a False = Inr c" "uint_wf r" "le_val r = compact_target c"
  shows "GetCompact r False = Inr c"
proof -
  define n where "n = (uint_bits a + 7) div 8"
  define k where "k = (uint_bits r + 7) div 8"
  note b = uint_bytes_bounds [OF assms(1), folded n_def]
  note br = uint_bytes_bounds [OF assms(3), folded k_def]
  obtain m sz where e: "compact_enc n (le_val a) = (m, sz)" by (cases "compact_enc n (le_val a)")
  have *: "m < 2 ^ 23 \<and> sz < 256 \<and> (compact_target c = compact_dec m sz \<longrightarrow> k = n \<and> compact_enc n (le_val r) = (m, sz))"
  proof (cases "n = 0")
    case True
    then have "le_val a = 0" using b(1) by simp
    then have "m = 0 \<and> sz = 0" using e True by (simp add: compact_enc_def compact_m0_def)
    moreover have "k = 0" if "le_val r = 0" using br(2) that by (cases k) auto
    ultimately show ?thesis using True assms(4) by (auto simp: compact_dec_def compact_enc_def compact_m0_def)
  next
    case False
    then have n0: "0 < n" by simp
    note i = compact_enc_idem [OF b(1) b(2) [OF n0] n0 e]
    have "k = n" if "compact_target c = compact_dec m sz"
      by (rule byte_length_unique [OF br(1,2)]) (use i assms(4) that in auto)
    with i compact_dec_enc [OF b(1) b(2) [OF n0] n0 e] b(3) assms(4) show ?thesis by auto
  qed
  obtain c' where c': "GetCompact a False = Inr c'" "compact_mantissa c' = m" "compact_size c' = sz" "\<not> bit c' 23"
    using GetCompact_enc [OF assms(1) e [unfolded n_def]] * by blast
  with assms(2) have cc: "c' = c" by simp
  then have "k = n \<and> compact_enc n (le_val r) = (m, sz)" using * c' compact_target_dec [of c] by simp
  then obtain d where "GetCompact r False = Inr d" "compact_mantissa d = m" "compact_size d = sz" "\<not> bit d 23"
    using GetCompact_enc [OF assms(3), of m sz] * unfolding k_def by auto
  then show ?thesis using compact_word_eq [of d c] c' cc by simp
qed

subsection \<open>Properties\<close>

text \<open>
  The operators of \<^verbatim>\<open>base_uint<256>\<close> compute on the values of their operands modulo \<open>2 ^ 256\<close>:
  sum, difference, product, product with a 32-bit factor, left shift, and the right shift is
  division by a power of two. Each result again has eight limbs.
\<close>

theorem uint_ring_ops:
  assumes "uint_wf a" "uint_wf b"
  shows "(uint_wf (uint_add a b) \<and> le_val (uint_add a b) = (le_val a + le_val b) mod 2 ^ 256) \<and>
    (uint_wf (uint_sub a b) \<and> le_val (uint_sub a b) = (le_val a + (2 ^ 256 - le_val b)) mod 2 ^ 256) \<and>
    (uint_wf (uint_mul a b) \<and> le_val (uint_mul a b) = (le_val a * le_val b) mod 2 ^ 256) \<and>
    (uint_wf (uint_mul32 a m) \<and> le_val (uint_mul32 a m) = (le_val a * unat m) mod 2 ^ 256) \<and>
    (uint_wf (uint_shl a sh) \<and> le_val (uint_shl a sh) = (le_val a * 2 ^ sh) mod 2 ^ 256) \<and>
    (uint_wf (uint_shr a sh) \<and> le_val (uint_shr a sh) = le_val a div 2 ^ sh)"
  using assms by (simp only: limb_simps uint_add_val uint_sub_val_wrap uint_mul_val uint_mul32_val
      uint_shl_val uint_shr_val simp_thms)

theorem uint_ring_ops_witness:
  "le_val (uint_mul (uint_of_u64 3) (uint_of_u64 5)) = 15"
  using uint_ring_ops [of "uint_of_u64 3" "uint_of_u64 5"] by (simp add: limb_simps uint_of_u64_val)

text \<open>
  C7. Long division returns the integer quotient of the values for every nonzero divisor and throws
  \<^verbatim>\<open>uint_error("Division by zero")\<close> for a zero divisor; no other outcome exists.
\<close>

theorem uint_div_correct:
  assumes "uint_wf a" "uint_wf b"
  shows "if le_val b = 0 then uint_div a b = Inl DivisionByZero
    else \<exists>q. uint_div a b = Inr q \<and> uint_wf q \<and> le_val q = le_val a div le_val b"
  using uint_div_val [OF assms] uint_div_by_zero [OF assms(2), of a] by simp

theorem uint_div_correct_witness:
  "\<exists>q. uint_div (uint_of_u64 100) (uint_of_u64 7) = Inr q \<and> uint_wf q \<and> le_val q = 14"
  using uint_div_correct [of "uint_of_u64 100" "uint_of_u64 7"] by (simp add: limb_simps uint_of_u64_val)

text \<open>
  Decoding a compact word yields exactly mantissa times \<open>256 ^ (size - 3)\<close> (or the mantissa
  shifted down) modulo \<open>2 ^ 256\<close>, and the overflow flag is raised exactly when that number does
  not fit into 256 bits.
\<close>

theorem SetCompact_decodes:
  "\<exists>r neg. SetCompact c = (r, neg, 2 ^ 256 \<le> compact_target c) \<and> uint_wf r \<and>
     le_val r = compact_target c mod 2 ^ 256"
proof -
  obtain r neg ovf where s: "SetCompact c = (r, neg, ovf)" by (rule SetCompact_cases)
  show ?thesis
    by (rule exI [of _ r], rule exI [of _ neg])
       (simp only: s SetCompact_overflow [OF s] SetCompact_val [OF s] simp_thms)
qed

text \<open>
  C9. Encoding a target and decoding it again loses at most one part in \<open>2 ^ 15\<close>, never increases
  the target and raises neither flag; encoding the decoded target gives the same compact word, so
  difficulty words are stable under re-encoding.
\<close>

theorem compact_roundtrip:
  assumes "uint_wf a"
  shows "\<exists>c r. GetCompact a False = Inr c \<and> SetCompact c = (r, False, False) \<and> uint_wf r \<and>
    le_val r \<le> le_val a \<and> (le_val a - le_val r) * 2 ^ 15 \<le> le_val a \<and> GetCompact r False = Inr c"
proof -
  obtain c where c: "GetCompact a False = Inr c" "\<not> bit c 23" using GetCompact_spec [OF assms] by blast
  note p = GetCompact_precision [OF assms c(1)]
  obtain r neg ovf where s: "SetCompact c = (r, neg, ovf)" by (rule SetCompact_cases)
  have ovf: "\<not> ovf" using SetCompact_overflow [OF s] p(1) uint_wf_bound [OF assms] by linarith
  have neg: "\<not> neg" using s c(2) unfolding SetCompact_def Let_def Pair_inject sign_bit_iff by blast
  have r: "uint_wf r" "le_val r = compact_target c" using SetCompact_exact [of c r neg] s ovf by simp_all
  have "GetCompact r False = Inr c" by (rule GetCompact_idem [OF assms c(1) r])
  then show ?thesis using c(1) s ovf neg p r by auto
qed

theorem compact_roundtrip_witness:
  "\<exists>c r. GetCompact (uint_of_u64 0x123456789) False = Inr c \<and> SetCompact c = (r, False, False) \<and>
    le_val r \<le> 0x123456789 \<and> (0x123456789 - le_val r) * 2 ^ 15 \<le> 0x123456789"
  using compact_roundtrip [of "uint_of_u64 0x123456789"] by (auto simp: limb_simps uint_of_u64_val)

text \<open>
  Converting between the arithmetic type and the byte array \<^verbatim>\<open>uint256\<close> is lossless in both
  directions and keeps the value.
\<close>

theorem uint256_roundtrip:
  assumes "uint_wf a" "length b = 32"
  shows "UintToArith256 (ArithToUint256 a) = a \<and> le_val (ArithToUint256 a) = le_val a \<and>
    ArithToUint256 (UintToArith256 b) = b \<and> le_val (UintToArith256 b) = le_val b"
  using assms by (simp only: UintToArith256_ArithToUint256 ArithToUint256_val ArithToUint256_UintToArith256
      UintToArith256_val simp_thms)

theorem uint256_roundtrip_witness:
  "UintToArith256 (ArithToUint256 (uint_of_u64 5)) = uint_of_u64 5 \<and>
   ArithToUint256 (UintToArith256 (replicate 32 1)) = replicate 32 1"
  using uint256_roundtrip [of "uint_of_u64 5" "replicate 32 1"] by (simp add: limb_simps)

end
