(* ===== verification/Chain.thy ===== *)
theory Chain
  imports Arith256
begin

text \<open>
  The block index of \<^verbatim>\<open>src/src/chain.h\<close> and \<^verbatim>\<open>src/src/chain.cpp\<close>. Block index entries live in a heap
  from addresses to records, because the code links them by pointers (\<^verbatim>\<open>pprev\<close>, \<^verbatim>\<open>pskip\<close>) and
  compares pointers; a null pointer is \<^term>\<open>None\<close>. Following a dangling pointer, indexing
  \<^verbatim>\<open>vChain\<close> out of range or failing an \<^verbatim>\<open>assert\<close> is an error value. The lemmas show that the skip
  list agrees with walking \<^verbatim>\<open>pprev\<close>, that the active chain kept by \<^verbatim>\<open>CChain\<close> is the list of
  ancestors of its tip, and what chain work a block adds.
\<close>

subsection \<open>Data\<close>

type_synonym ptr = nat

(* src/src/chain.h:170-241 CBlockIndex *)
record CBlockIndex =
  phashBlock :: bytes
  pprev :: "ptr option"
  pnext :: "ptr option"
  pskip :: "ptr option"
  nHeight :: int
  nFile :: int
  nDataPos :: u32
  nUndoPos :: u32
  nChainWork :: base_uint
  nTx :: u32
  nChainTx :: u32
  nStatus :: u32
  nVersion :: u32
  hashMerkleRoot :: bytes
  nTime :: u32
  nBits :: u32
  hashStateRoot :: bytes
  hashUTXORoot :: bytes
  seed :: u32
  nNonce :: u64
  nNonce_ex :: u64
  sig1 :: bytes
  sig2 :: bytes
  sig3 :: bytes
  sig4 :: bytes
  sig5 :: bytes
  nStakeModifier :: bytes
  hashProof :: bytes
  nMoneySupply :: u64
  nSequenceId :: int
  nTimeMax :: u32

type_synonym heap = "ptr \<rightharpoonup> CBlockIndex"

datatype chain_error = NullDeref | OutOfRange | AssertFail | OutOfFuel | UintError uint_error

type_synonym 'a chain_result = "chain_error + 'a"

text \<open>\<^verbatim>\<open>phashBlock\<close> points to the key of the block map; the model keeps the hash itself, empty for null.\<close>

(* src/src/chain.h:243-280 CBlockIndex::SetNull *)
definition CBlockIndex_SetNull :: CBlockIndex where
  "CBlockIndex_SetNull =
     \<lparr>phashBlock = [], pprev = None, pnext = None, pskip = None, nHeight = 0, nFile = 0, nDataPos = 0,
      nUndoPos = 0, nChainWork = uint_zero, nTx = 0, nChainTx = 0, nStatus = 0, nVersion = 0,
      hashMerkleRoot = replicate 32 0, nTime = 0, nBits = 0, hashStateRoot = replicate 32 0,
      hashUTXORoot = replicate 32 0, seed = 0, nNonce = 0, nNonce_ex = 0, sig1 = [], sig2 = [],
      sig3 = [], sig4 = [], sig5 = [], nStakeModifier = replicate 32 0, hashProof = replicate 32 0,
      nMoneySupply = 0, nSequenceId = 0, nTimeMax = 0\<rparr>"

subsection \<open>Skip heights and ancestors\<close>

(* src/src/chain.cpp:70-70 InvertLowestOne *)
definition InvertLowestOne :: "int \<Rightarrow> int" where
  "InvertLowestOne n = n AND (n - 1)"

(* src/src/chain.cpp:73-81 GetSkipHeight *)
definition GetSkipHeight :: "int \<Rightarrow> int" where
  "GetSkipHeight height =
     (if height < 2 then 0
      else if height AND 1 \<noteq> 0 then InvertLowestOne (InvertLowestOne (height - 1)) + 1
      else InvertLowestOne height)"

lemma InvertLowestOne_bounds: "0 \<le> n \<Longrightarrow> 0 \<le> InvertLowestOne n \<and> InvertLowestOne n \<le> n \<and> (0 < n \<longrightarrow> InvertLowestOne n < n)"
proof -
  assume n: "0 \<le> n"
  have "0 \<le> InvertLowestOne n" using n by (simp add: InvertLowestOne_def)
  moreover have "InvertLowestOne n \<le> n"
    unfolding InvertLowestOne_def by (rule AND_upper1) (rule n)
  moreover have "InvertLowestOne n < n" if "0 < n"
    using AND_upper2 [of "n - 1" n] that by (simp add: InvertLowestOne_def)
  ultimately show ?thesis by blast
qed

lemma GetSkipHeight_bounds: "0 \<le> GetSkipHeight h \<and> (0 < h \<longrightarrow> GetSkipHeight h < h)"
proof (cases "h < 2")
  case True
  then show ?thesis by (simp add: GetSkipHeight_def)
next
  case False
  show ?thesis
  proof (cases "h AND 1 \<noteq> 0")
    case True
    have a: "0 \<le> InvertLowestOne (h - 1)" "InvertLowestOne (h - 1) < h - 1"
      using InvertLowestOne_bounds [of "h - 1"] False by auto
    then have "0 \<le> InvertLowestOne (InvertLowestOne (h - 1))" "InvertLowestOne (InvertLowestOne (h - 1)) < h - 1"
      using InvertLowestOne_bounds [of "InvertLowestOne (h - 1)"] by auto
    with True False show ?thesis by (simp add: GetSkipHeight_def)
  next
    case odd: False
    with False show ?thesis using InvertLowestOne_bounds [of h] by (simp add: GetSkipHeight_def)
  qed
qed

text \<open>
  The loop of \<^verbatim>\<open>GetAncestor\<close>. The source enters it only with \<open>height >= 0\<close>; the test for a negative
  \<open>height\<close> here is never taken and only makes the recursion well-founded.
\<close>

(* src/src/chain.cpp:90-104 CBlockIndex::GetAncestor *)
function GetAncestor_loop :: "heap \<Rightarrow> int \<Rightarrow> ptr \<Rightarrow> int \<Rightarrow> ptr chain_result" where
  "GetAncestor_loop h height pindexWalk heightWalk =
     (if \<not> heightWalk > height \<or> height < 0 then Inr pindexWalk
      else case h pindexWalk of None \<Rightarrow> Inl NullDeref
        | Some b \<Rightarrow>
            let heightSkip = GetSkipHeight heightWalk; heightSkipPrev = GetSkipHeight (heightWalk - 1)
            in if pskip b \<noteq> None \<and>
                  (heightSkip = height \<or>
                   (heightSkip > height \<and> \<not> (heightSkipPrev < heightSkip - 2 \<and> heightSkipPrev \<ge> height)))
               then GetAncestor_loop h height (the (pskip b)) heightSkip
               else case pprev b of None \<Rightarrow> Inl AssertFail
                      | Some q \<Rightarrow> GetAncestor_loop h height q (heightWalk - 1))"
  by pat_completeness auto
termination
  by (relation "measure (\<lambda>(h, height, p, hw). nat hw)") (use GetSkipHeight_bounds in auto)

declare GetAncestor_loop.simps [simp del]

(* src/src/chain.cpp:83-112 CBlockIndex::GetAncestor *)
definition GetAncestor :: "heap \<Rightarrow> ptr \<Rightarrow> int \<Rightarrow> ptr option chain_result" where
  "GetAncestor h this height =
     (case h this of None \<Rightarrow> Inl NullDeref
      | Some b \<Rightarrow>
          if height > nHeight b \<or> height < 0 then Inr None
          else map_sum id Some (GetAncestor_loop h height this (nHeight b)))"

(* src/src/chain.cpp:114-118 CBlockIndex::BuildSkip *)
definition BuildSkip :: "heap \<Rightarrow> ptr \<Rightarrow> heap chain_result" where
  "BuildSkip h this =
     (case h this of None \<Rightarrow> Inl NullDeref
      | Some b \<Rightarrow>
          (case pprev b of None \<Rightarrow> Inr h
           | Some q \<Rightarrow> map_sum id (\<lambda>a. h(this \<mapsto> b\<lparr>pskip := a\<rparr>)) (GetAncestor h q (GetSkipHeight (nHeight b)))))"

subsection \<open>Ancestors along \<open>pprev\<close>\<close>

fun pwalk :: "heap \<Rightarrow> ptr \<Rightarrow> nat \<Rightarrow> ptr option" where
  "pwalk h p 0 = Some p"
| "pwalk h p (Suc n) = (case h p of None \<Rightarrow> None | Some b \<Rightarrow>
     (case pprev b of None \<Rightarrow> None | Some q \<Rightarrow> pwalk h q n))"

definition ancestor_at :: "heap \<Rightarrow> ptr \<Rightarrow> int \<Rightarrow> ptr option" where
  "ancestor_at h p k = (case h p of None \<Rightarrow> None | Some b \<Rightarrow>
     if 0 \<le> k \<and> k \<le> nHeight b then pwalk h p (nat (nHeight b - k)) else None)"

text \<open>Well-formed block trees: heights count the steps to a root.\<close>

definition tree_ok :: "heap \<Rightarrow> bool" where
  "tree_ok h \<longleftrightarrow> (\<forall>p b. h p = Some b \<longrightarrow> 0 \<le> nHeight b \<and>
     (case pprev b of None \<Rightarrow> nHeight b = 0
      | Some q \<Rightarrow> \<exists>c. h q = Some c \<and> nHeight c = nHeight b - 1))"

definition skip_ok :: "heap \<Rightarrow> bool" where
  "skip_ok h \<longleftrightarrow> (\<forall>p b s. h p = Some b \<longrightarrow> pskip b = Some s \<longrightarrow>
     ancestor_at h p (GetSkipHeight (nHeight b)) = Some s)"

lemma tree_okD:
  assumes "tree_ok h" "h p = Some b"
  shows "0 \<le> nHeight b" "pprev b = None \<Longrightarrow> nHeight b = 0"
    "pprev b = Some q \<Longrightarrow> \<exists>c. h q = Some c \<and> nHeight c = nHeight b - 1"
  using assms(1) [unfolded tree_ok_def, rule_format, OF assms(2)] by (auto split: option.splits)

lemma pwalk_add: "pwalk h p (m + n) = Option.bind (pwalk h p m) (\<lambda>q. pwalk h q n)"
  by (induction m arbitrary: p) (auto split: option.splits)

lemma pwalk_height:
  "tree_ok h \<Longrightarrow> h p = Some b \<Longrightarrow> int n \<le> nHeight b \<Longrightarrow>
     \<exists>q c. pwalk h p n = Some q \<and> h q = Some c \<and> nHeight c = nHeight b - int n"
proof (induction n arbitrary: p b)
  case 0
  then show ?case by simp
next
  case (Suc n)
  then obtain q where q: "pprev b = Some q" using tree_okD(2) [OF Suc.prems(1,2)] by (cases "pprev b") auto
  then obtain c where c: "h q = Some c" "nHeight c = nHeight b - 1"
    using tree_okD(3) [OF Suc.prems(1,2)] by blast
  with Suc.IH [OF Suc.prems(1) c(1)] Suc.prems q show ?case by auto
qed

lemma ancestor_at_height:
  assumes "tree_ok h" "h p = Some b" "0 \<le> k" "k \<le> nHeight b"
  obtains q c where "ancestor_at h p k = Some q" "h q = Some c" "nHeight c = k"
  using pwalk_height [OF assms(1,2), of "nat (nHeight b - k)"] assms that
  by (auto simp: ancestor_at_def)

lemma ancestor_at_self: "h p = Some b \<Longrightarrow> 0 \<le> nHeight b \<Longrightarrow> ancestor_at h p (nHeight b) = Some p"
  by (simp add: ancestor_at_def)

lemma ancestor_at_trans:
  assumes "tree_ok h" "h p = Some b" "ancestor_at h p j = Some q" "0 \<le> k" "k \<le> j"
  shows "ancestor_at h q k = ancestor_at h p k"
proof -
  have j: "0 \<le> j" "j \<le> nHeight b" "pwalk h p (nat (nHeight b - j)) = Some q"
    using assms by (auto simp: ancestor_at_def split: if_splits)
  obtain c where c: "h q = Some c" "nHeight c = j"
    using ancestor_at_height [OF assms(1,2) j(1,2)] assms(3) by auto
  have "nat (nHeight b - k) = nat (nHeight b - j) + nat (j - k)" using j assms by simp
  then show ?thesis using assms(2,4,5) j c by (simp add: ancestor_at_def pwalk_add)
qed

lemma ancestor_at_pprev:
  assumes "tree_ok h" "h p = Some b" "pprev b = Some q" "k < nHeight b"
  shows "ancestor_at h p k = ancestor_at h q k"
proof -
  obtain c where c: "h q = Some c" "nHeight c = nHeight b - 1" using tree_okD(3) [OF assms(1-3)] by blast
  have "nat (nHeight b - k) = Suc (nat (nHeight b - 1 - k))" using assms(4) by simp
  with assms c show ?thesis by (auto simp: ancestor_at_def)
qed

lemma GetAncestor_loop_spec:
  "tree_ok h \<Longrightarrow> skip_ok h \<Longrightarrow> h p = Some b \<Longrightarrow> nHeight b = hw \<Longrightarrow> 0 \<le> height \<Longrightarrow> height \<le> hw \<Longrightarrow>
     ancestor_at h p height = Some q \<Longrightarrow> GetAncestor_loop h height p hw = Inr q"
proof (induction h height p hw arbitrary: b rule: GetAncestor_loop.induct)
  case (1 h height p hw)
  show ?case
  proof (cases "height = hw")
    case True
    then show ?thesis
      using "1.prems" ancestor_at_self [of h p b] by (subst GetAncestor_loop.simps) simp
  next
    case False
    then have lt: "height < hw" using "1.prems"(6) by simp
    define sk where "sk = GetSkipHeight hw"
    define cond where "cond \<longleftrightarrow> pskip b \<noteq> None \<and> (sk = height \<or>
      (sk > height \<and> \<not> (GetSkipHeight (hw - 1) < sk - 2 \<and> GetSkipHeight (hw - 1) \<ge> height)))"
    have unf: "GetAncestor_loop h height p hw =
        (if cond then GetAncestor_loop h height (the (pskip b)) sk
         else case pprev b of None \<Rightarrow> Inl AssertFail | Some q \<Rightarrow> GetAncestor_loop h height q (hw - 1))"
      using lt "1.prems" by (subst GetAncestor_loop.simps) (auto simp: Let_def cond_def sk_def)
    show ?thesis
    proof (cases cond)
      case True
      then obtain s where s: "pskip b = Some s" by (auto simp: cond_def)
      have sk: "ancestor_at h p sk = Some s" using "1.prems" s by (auto simp: skip_ok_def sk_def)
      have le: "height \<le> sk" "sk \<le> hw" "0 \<le> sk"
        using True GetSkipHeight_bounds [of hw] lt "1.prems"(5) by (auto simp: cond_def sk_def)
      obtain c where c: "h s = Some c" "nHeight c = sk"
        using ancestor_at_height [OF "1.prems"(1,3), of sk] sk le "1.prems"(4) by auto
      have "GetAncestor_loop h height s sk = Inr q"
        using "1.IH"(1) [of b sk "GetSkipHeight (hw - 1)" c] "1.prems" lt True s c le
          ancestor_at_trans [OF "1.prems"(1,3) sk, of height]
        by (auto simp: cond_def sk_def)
      with True s unf show ?thesis by simp
    next
      case no: False
      obtain r where r: "pprev b = Some r"
        using tree_okD(2) [OF "1.prems"(1,3)] lt "1.prems"(4,5) by (cases "pprev b") auto
      then obtain c where c: "h r = Some c" "nHeight c = hw - 1"
        using tree_okD(3) [OF "1.prems"(1,3)] "1.prems"(4) by blast
      have "GetAncestor_loop h height r (hw - 1) = Inr q"
        using "1.IH"(2) [of b sk "GetSkipHeight (hw - 1)" r c] "1.prems" lt no r c
          ancestor_at_pprev [OF "1.prems"(1,3) r, of height]
        by (auto simp: cond_def sk_def)
      with no r unf show ?thesis by simp
    qed
  qed
qed

lemma GetAncestor_spec:
  assumes "tree_ok h" "skip_ok h" "h p = Some b"
  shows "GetAncestor h p k = Inr (ancestor_at h p k)"
proof (cases "0 \<le> k \<and> k \<le> nHeight b")
  case True
  then obtain q where "ancestor_at h p k = Some q"
    using ancestor_at_height [OF assms(1,3)] by blast
  with True GetAncestor_loop_spec [OF assms refl] assms(3) show ?thesis
    by (simp add: GetAncestor_def)
next
  case False
  with assms(3) show ?thesis by (auto simp: GetAncestor_def ancestor_at_def)
qed

text \<open>Ancestors depend only on the \<open>pprev\<close> links and heights.\<close>

lemma pwalk_pskip: "h p = Some b \<Longrightarrow> pwalk (h(p \<mapsto> b\<lparr>pskip := a\<rparr>)) r n = pwalk h r n"
  by (induction n arbitrary: r) (auto split: option.splits)

lemma ancestor_at_pskip: "h p = Some b \<Longrightarrow> ancestor_at (h(p \<mapsto> b\<lparr>pskip := a\<rparr>)) r k = ancestor_at h r k"
  by (auto simp: ancestor_at_def pwalk_pskip split: option.splits)

lemma tree_ok_pskip: "tree_ok h \<Longrightarrow> h p = Some b \<Longrightarrow> tree_ok (h(p \<mapsto> b\<lparr>pskip := a\<rparr>))"
  unfolding tree_ok_def by (fastforce split: option.splits if_splits)

lemma BuildSkip_spec:
  assumes "tree_ok h" "skip_ok h" "h p = Some b"
  shows "\<exists>h'. BuildSkip h p = Inr h' \<and> tree_ok h' \<and> skip_ok h' \<and>
    (pprev b \<noteq> None \<longrightarrow> h' = h(p \<mapsto> b\<lparr>pskip := ancestor_at h p (GetSkipHeight (nHeight b))\<rparr>))"
proof (cases "pprev b")
  case None
  with assms show ?thesis by (auto simp: BuildSkip_def)
next
  case (Some q)
  then obtain c where c: "h q = Some c" "nHeight c = nHeight b - 1"
    using tree_okD(3) [OF assms(1,3)] by blast
  have pos: "0 < nHeight b" using tree_okD(1) [OF assms(1) c(1)] c(2) by simp
  let ?a = "ancestor_at h p (GetSkipHeight (nHeight b))"
  have "GetAncestor h q (GetSkipHeight (nHeight b)) = Inr ?a"
    using GetAncestor_spec [OF assms(1,2) c(1)] ancestor_at_pprev [OF assms(1,3) Some]
      GetSkipHeight_bounds [of "nHeight b"] pos by simp
  then have "BuildSkip h p = Inr (h(p \<mapsto> b\<lparr>pskip := ?a\<rparr>))"
    using assms(3) Some by (simp add: BuildSkip_def)
  moreover have "skip_ok (h(p \<mapsto> b\<lparr>pskip := ?a\<rparr>))"
    using assms(2,3) by (auto simp: skip_ok_def ancestor_at_pskip)
  ultimately show ?thesis using tree_ok_pskip [OF assms(1,3)] by auto
qed

subsection \<open>The active chain\<close>

text \<open>\<^verbatim>\<open>vChain\<close> is a vector of pointers; \<^verbatim>\<open>resize\<close> fills new slots with null.\<close>

(* src/src/chain.h:535-537 CChain *)
type_synonym CChain = "ptr option list"

(* src/src/chain.cpp:16-16 CChain::SetTip *)
definition resize :: "nat \<Rightarrow> CChain \<Rightarrow> CChain" where
  "resize n xs = take n xs @ replicate (n - length xs) None"

(* src/src/chain.h:551-555 CChain::operator[] *)
definition chain_at :: "CChain \<Rightarrow> int \<Rightarrow> ptr option" where
  "chain_at vChain height = (if height < 0 \<or> height \<ge> int (length vChain) then None else vChain ! nat height)"

(* src/src/chain.h:541-543 CChain::Genesis *)
definition Genesis :: "CChain \<Rightarrow> ptr option" where
  "Genesis vChain = (if length vChain > 0 then vChain ! 0 else None)"

(* src/src/chain.h:546-548 CChain::Tip *)
definition Tip :: "CChain \<Rightarrow> ptr option" where
  "Tip vChain = (if length vChain > 0 then vChain ! (length vChain - 1) else None)"

(* src/src/chain.h:577-579 CChain::Height *)
definition Height :: "CChain \<Rightarrow> int" where
  "Height vChain = int (length vChain) - 1"

(* src/src/chain.h:558-561 CChain::operator== *)
definition chain_eq :: "CChain \<Rightarrow> CChain \<Rightarrow> bool chain_result" where
  "chain_eq a b =
     (if length a \<noteq> length b then Inr False
      else if a = [] then Inl OutOfRange
      else Inr (a ! (length a - 1) = b ! (length b - 1)))"

(* src/src/chain.h:564-566 CChain::Contains *)
definition Contains :: "heap \<Rightarrow> CChain \<Rightarrow> ptr \<Rightarrow> bool chain_result" where
  "Contains h vChain pindex =
     (case h pindex of None \<Rightarrow> Inl NullDeref | Some b \<Rightarrow> Inr (chain_at vChain (nHeight b) = Some pindex))"

(* src/src/chain.h:569-574 CChain::Next *)
definition Next :: "heap \<Rightarrow> CChain \<Rightarrow> ptr \<Rightarrow> ptr option chain_result" where
  "Next h vChain pindex =
     (case h pindex of None \<Rightarrow> Inl NullDeref
      | Some b \<Rightarrow> Inr (if chain_at vChain (nHeight b) = Some pindex then chain_at vChain (nHeight b + 1) else None))"

(* src/src/chain.cpp:17-20 CChain::SetTip *)
fun SetTip_loop :: "nat \<Rightarrow> heap \<Rightarrow> CChain \<Rightarrow> ptr option \<Rightarrow> CChain chain_result" where
  "SetTip_loop fuel h vChain None = Inr vChain"
| "SetTip_loop 0 h vChain (Some p) = Inl OutOfFuel"
| "SetTip_loop (Suc fuel) h vChain (Some p) =
     (case h p of None \<Rightarrow> Inl NullDeref
      | Some b \<Rightarrow>
          if nHeight b < 0 \<or> nHeight b \<ge> int (length vChain) then Inl OutOfRange
          else if vChain ! nat (nHeight b) \<noteq> Some p
          then SetTip_loop fuel h (vChain[nat (nHeight b) := Some p]) (pprev b)
          else Inr vChain)"

(* src/src/chain.cpp:11-21 CChain::SetTip *)
definition SetTip :: "heap \<Rightarrow> CChain \<Rightarrow> ptr option \<Rightarrow> CChain chain_result" where
  "SetTip h vChain pindex =
     (case pindex of None \<Rightarrow> Inr []
      | Some p \<Rightarrow>
          (case h p of None \<Rightarrow> Inl NullDeref
           | Some b \<Rightarrow>
               let v = resize (nat (nHeight b + 1)) vChain
               in SetTip_loop (Suc (length v)) h v (Some p)))"

text \<open>The chain invariant: slot \<open>i\<close> holds a block of height \<open>i\<close> whose parent is in slot \<open>i - 1\<close>.\<close>

definition chain_ok :: "heap \<Rightarrow> CChain \<Rightarrow> bool" where
  "chain_ok h vChain \<longleftrightarrow> (\<forall>i < length vChain. \<exists>p b. vChain ! i = Some p \<and> h p = Some b \<and> nHeight b = int i \<and>
     pprev b = (if i = 0 then None else vChain ! (i - 1)))"

definition ancestors :: "heap \<Rightarrow> ptr \<Rightarrow> CChain" where
  "ancestors h p = (case h p of None \<Rightarrow> [] | Some b \<Rightarrow> map (\<lambda>i. ancestor_at h p (int i)) [0..<nat (nHeight b + 1)])"

lemma length_resize [simp]: "length (resize n xs) = n"
  by (simp add: resize_def)

lemma nth_resize: "i < n \<Longrightarrow> resize n xs ! i = (if i < length xs then xs ! i else None)"
  by (auto simp: resize_def nth_append)

lemma length_ancestors: "h p = Some b \<Longrightarrow> 0 \<le> nHeight b \<Longrightarrow> length (ancestors h p) = nat (nHeight b) + 1"
  by (simp add: ancestors_def)

lemma nth_ancestors: "h p = Some b \<Longrightarrow> i < nat (nHeight b + 1) \<Longrightarrow> ancestors h p ! i = ancestor_at h p (int i)"
  by (simp add: ancestors_def)

lemma chain_okE:
  assumes "chain_ok h v" "i < length v"
  obtains p b where "v ! i = Some p" "h p = Some b" "nHeight b = int i"
    "pprev b = (if i = 0 then None else v ! (i - 1))"
  using assms unfolding chain_ok_def by blast

lemma chain_ok_ancestor:
  "tree_ok h \<Longrightarrow> chain_ok h v \<Longrightarrow> i < length v \<Longrightarrow> v ! i = Some p \<Longrightarrow> j \<le> i \<Longrightarrow> v ! j = ancestor_at h p (int j)"
proof (induction "i - j" arbitrary: i p)
  case 0
  obtain b where "h p = Some b" "nHeight b = int i" by (rule chain_okE [OF "0.prems"(2,3)]) (use "0.prems" in auto)
  with 0 ancestor_at_self [of h p b] show ?case by simp
next
  case (Suc n)
  have i0: "i \<noteq> 0" using Suc.hyps(2) by simp
  obtain b where b: "h p = Some b" "nHeight b = int i" "pprev b = v ! (i - 1)"
    by (rule chain_okE [OF Suc.prems(2,3)]) (use Suc.prems i0 in auto)
  have i: "i - 1 < length v" using Suc.prems by simp
  obtain q where q: "v ! (i - 1) = Some q" by (rule chain_okE [OF Suc.prems(2) i])
  have "v ! j = ancestor_at h q (int j)"
    using Suc.hyps(1) [of "i - 1" q] Suc.hyps(2) Suc.prems q by simp
  also have "\<dots> = ancestor_at h p (int j)"
    using ancestor_at_pprev [OF Suc.prems(1) b(1), of q "int j"] b q Suc.hyps(2) by simp
  finally show ?case .
qed

lemma ancestors_eqI:
  assumes "h p = Some b" "length v = nat (nHeight b + 1)" "\<And>i. i < length v \<Longrightarrow> v ! i = ancestor_at h p (int i)"
  shows "v = ancestors h p"
  using assms by (intro nth_equalityI) (simp_all add: ancestors_def)

lemma SetTip_loop_spec:
  assumes "tree_ok h" "chain_ok h v0" "h p = Some b"
  shows "length v = nat (nHeight b + 1) \<Longrightarrow> k < length v \<Longrightarrow> k < fuel \<Longrightarrow>
     ancestor_at h p (int k) = Some cur \<Longrightarrow>
     (\<And>i. k < i \<Longrightarrow> i < length v \<Longrightarrow> v ! i = ancestor_at h p (int i)) \<Longrightarrow>
     (\<And>i. i \<le> k \<Longrightarrow> v ! i = (if i < length v0 then v0 ! i else None)) \<Longrightarrow>
     SetTip_loop fuel h v (Some cur) = Inr (ancestors h p)"
proof (induction k arbitrary: fuel v cur)
  case k: 0
  then obtain f where f: "fuel = Suc f" by (cases fuel) auto
  obtain c where c: "h cur = Some c" "nHeight c = 0"
    using ancestor_at_height [OF assms(1,3), of 0] k(2,4) k(1) by auto
  have none: "pprev c = None" using tree_okD(1,3) [OF assms(1)] c by (metis option.exhaust diff_0 neg_equal_0_iff_equal not_one_le_zero zero_le_one zle_diff1_eq less_irrefl diff_ge_0_iff_ge)
  have "v[0 := Some cur] = ancestors h p"
    by (rule ancestors_eqI [of h p b, OF assms(3)]) (use k in \<open>auto simp: nth_list_update\<close>)
  moreover have "v[0 := Some cur] = v" if "v ! 0 = Some cur" using that by (metis list_update_id)
  ultimately show ?case using k(2) c none by (cases "v ! 0 = Some cur") (simp_all add: f)
next
  case (Suc k)
  then obtain f where f: "fuel = Suc f" by (cases fuel) auto
  have kb: "int (Suc k) \<le> nHeight b" using Suc.prems(1,2) by simp
  obtain c where c: "h cur = Some c" "nHeight c = int (Suc k)"
    using ancestor_at_height [OF assms(1,3), of "int (Suc k)"] Suc.prems(4) kb by auto
  then obtain q where q: "pprev c = Some q" using tree_okD(2) [OF assms(1) c(1)] by (cases "pprev c") auto
  show ?case
  proof (cases "v ! Suc k = Some cur")
    case True
    then have v0: "Suc k < length v0" "v0 ! Suc k = Some cur" using Suc.prems(6) [of "Suc k"] by (auto split: if_splits)
    have "v = ancestors h p"
    proof (rule ancestors_eqI [of h p b, OF assms(3) Suc.prems(1)])
      fix i
      assume i: "i < length v"
      show "v ! i = ancestor_at h p (int i)"
      proof (cases "Suc k < i")
        case False
        then have "v ! i = v0 ! i" using Suc.prems(6) [of i] v0(1) by simp
        also have "\<dots> = ancestor_at h cur (int i)" using chain_ok_ancestor [OF assms(1,2) v0] False by simp
        also have "\<dots> = ancestor_at h p (int i)" using ancestor_at_trans [OF assms(1,3) Suc.prems(4)] False by simp
        finally show ?thesis .
      qed (use Suc.prems(5) i in blast)
    qed
    with True c Suc.prems(2) show ?thesis by (simp add: f nat_add_distrib)
  next
    case False
    have "ancestor_at h p (int k) = ancestor_at h cur (int k)"
      using ancestor_at_trans [OF assms(1,3) Suc.prems(4), of "int k"] by simp
    also have "\<dots> = ancestor_at h q (int k)" using ancestor_at_pprev [OF assms(1) c(1) q] c(2) by simp
    also have "\<dots> = Some q"
      using tree_okD(3) [OF assms(1) c(1) q] c(2) ancestor_at_self [of h q] by auto
    finally have "SetTip_loop f h (v[Suc k := Some cur]) (Some q) = Inr (ancestors h p)"
      using Suc.prems f by (intro Suc.IH) (auto simp: nth_list_update)
    with False c q Suc.prems(2) show ?thesis by (simp add: f nat_add_distrib)
  qed
qed

lemma SetTip_spec:
  assumes "tree_ok h" "chain_ok h v" "h p = Some b"
  shows "SetTip h v (Some p) = Inr (ancestors h p)"
proof -
  let ?n = "nat (nHeight b)"
  have n: "0 \<le> nHeight b" using tree_okD(1) [OF assms(1,3)] .
  then have "SetTip_loop (Suc (Suc ?n)) h (resize (Suc ?n) v) (Some p) = Inr (ancestors h p)"
    using ancestor_at_self [of h p b] assms(3)
    by (intro SetTip_loop_spec [OF assms, where k = ?n]) (auto simp: nth_resize)
  with n assms(3) show ?thesis by (simp add: SetTip_def Let_def nat_add_distrib del: SetTip_loop.simps)
qed

lemma chain_ok_ancestors:
  assumes "tree_ok h" "h p = Some b"
  shows "chain_ok h (ancestors h p)" "Tip (ancestors h p) = Some p" "Height (ancestors h p) = nHeight b"
proof -
  have n: "0 \<le> nHeight b" using tree_okD(1) [OF assms] .
  show "Tip (ancestors h p) = Some p" "Height (ancestors h p) = nHeight b"
    using n assms(2) ancestor_at_self [of h p b] by (simp_all add: Tip_def Height_def ancestors_def nat_add_distrib nth_append)
  show "chain_ok h (ancestors h p)"
    unfolding chain_ok_def
  proof (intro allI impI)
    fix i
    assume "i < length (ancestors h p)"
    then have i: "int i \<le> nHeight b" using n assms(2) by (simp add: ancestors_def)
    obtain q c where q: "ancestor_at h p (int i) = Some q" "h q = Some c" "nHeight c = int i"
      using ancestor_at_height [OF assms, of "int i"] i by auto
    have "pprev c = (if i = 0 then None else ancestors h p ! (i - 1))"
    proof (cases "i = 0")
      case True
      then show ?thesis using tree_okD(1,3) [OF assms(1)] q by (cases "pprev c") fastforce+
    next
      case False
      then obtain r where r: "pprev c = Some r" using tree_okD(2) [OF assms(1) q(2)] q(3) by (cases "pprev c") auto
      have "ancestors h p ! (i - 1) = ancestor_at h p (int i - 1)"
        using False i nth_ancestors [of h p b "i - 1"] assms(2) by (simp add: of_nat_diff)
      also have "\<dots> = ancestor_at h q (int i - 1)"
        using ancestor_at_trans [OF assms q(1), of "int i - 1"] False by simp
      also have "\<dots> = Some r"
        using ancestor_at_pprev [OF assms(1) q(2) r, of "int i - 1"] tree_okD(3) [OF assms(1) q(2) r] q(3)
          ancestor_at_self [of h r] False by auto
      finally show ?thesis using False r by simp
    qed
    moreover have "ancestors h p ! i = ancestor_at h p (int i)" using i nth_ancestors [of h p b i] assms(2) by simp
    ultimately show "\<exists>p' b'. ancestors h p ! i = Some p' \<and> h p' = Some b' \<and> nHeight b' = int i \<and>
        pprev b' = (if i = 0 then None else ancestors h p ! (i - 1))"
      using q by auto
  qed
qed

subsection \<open>Forks, common ancestors, locators\<close>

(* src/src/chain.cpp:57-58 CChain::FindFork *)
fun FindFork_loop :: "nat \<Rightarrow> heap \<Rightarrow> CChain \<Rightarrow> ptr option \<Rightarrow> ptr option chain_result" where
  "FindFork_loop fuel h vChain None = Inr None"
| "FindFork_loop 0 h vChain (Some p) = Inl OutOfFuel"
| "FindFork_loop (Suc fuel) h vChain (Some p) =
     (case h p of None \<Rightarrow> Inl NullDeref
      | Some b \<Rightarrow> if chain_at vChain (nHeight b) = Some p then Inr (Some p)
                  else FindFork_loop fuel h vChain (pprev b))"

(* src/src/chain.cpp:51-60 CChain::FindFork *)
definition FindFork :: "heap \<Rightarrow> CChain \<Rightarrow> ptr option \<Rightarrow> ptr option chain_result" where
  "FindFork h vChain pindex =
     (case pindex of None \<Rightarrow> Inr None
      | Some p \<Rightarrow>
          (case h p of None \<Rightarrow> Inl NullDeref
           | Some b \<Rightarrow>
               (case (if nHeight b > Height vChain then GetAncestor h p (Height vChain) else Inr (Some p)) of
                  Inl e \<Rightarrow> Inl e
                | Inr q \<Rightarrow> FindFork_loop (nat (nHeight b) + 2) h vChain q)))"

(* src/src/chain.cpp:161-164 LastCommonAncestor *)
fun LastCommonAncestor_loop :: "nat \<Rightarrow> heap \<Rightarrow> ptr option \<Rightarrow> ptr option \<Rightarrow> (ptr option \<times> ptr option) chain_result" where
  "LastCommonAncestor_loop fuel h pa pb =
     (if pa = pb then Inr (pa, pb)
      else case (pa, pb) of
        (Some a, Some b) \<Rightarrow>
          (case fuel of 0 \<Rightarrow> Inl OutOfFuel
           | Suc f \<Rightarrow>
               (case (h a, h b) of
                  (Some ba, Some bb) \<Rightarrow> LastCommonAncestor_loop f h (pprev ba) (pprev bb)
                | _ \<Rightarrow> Inl NullDeref))
      | _ \<Rightarrow> Inr (pa, pb))"

declare LastCommonAncestor_loop.simps [simp del]

(* src/src/chain.cpp:154-169 LastCommonAncestor *)
definition LastCommonAncestor :: "heap \<Rightarrow> ptr \<Rightarrow> ptr \<Rightarrow> ptr option chain_result" where
  "LastCommonAncestor h pa pb =
     (case (h pa, h pb) of
        (Some a, Some b) \<Rightarrow>
          (let ra = (if nHeight a > nHeight b then GetAncestor h pa (nHeight b) else Inr (Some pa));
               rb = (if nHeight a > nHeight b then Inr (Some pb)
                     else if nHeight b > nHeight a then GetAncestor h pb (nHeight a) else Inr (Some pb))
           in case (ra, rb) of
                (Inl e, _) \<Rightarrow> Inl e
              | (_, Inl e) \<Rightarrow> Inl e
              | (Inr qa, Inr qb) \<Rightarrow>
                  (case LastCommonAncestor_loop (nat (min (nHeight a) (nHeight b)) + 1) h qa qb of
                     Inl e \<Rightarrow> Inl e
                   | Inr (ra, rb) \<Rightarrow> if ra = rb then Inr ra else Inl AssertFail))
      | _ \<Rightarrow> Inl NullDeref)"

(* src/src/chain.cpp:30-46 CChain::GetLocator *)
fun GetLocator_loop :: "nat \<Rightarrow> heap \<Rightarrow> CChain \<Rightarrow> int \<Rightarrow> bytes list \<Rightarrow> ptr option \<Rightarrow> bytes list chain_result" where
  "GetLocator_loop fuel h vChain nStep vHave None = Inr vHave"
| "GetLocator_loop 0 h vChain nStep vHave (Some p) = Inl OutOfFuel"
| "GetLocator_loop (Suc fuel) h vChain nStep vHave (Some p) =
     (case h p of None \<Rightarrow> Inl NullDeref
      | Some b \<Rightarrow>
          let vHave' = vHave @ [phashBlock b]
          in if nHeight b = 0 then Inr vHave'
             else let height = max (nHeight b - nStep) 0;
                      nxt = (if chain_at vChain (nHeight b) = Some p then Inr (chain_at vChain height)
                             else GetAncestor h p height);
                      nStep' = (if length vHave' > 10 then nStep * 2 else nStep)
                  in case nxt of Inl e \<Rightarrow> Inl e | Inr q \<Rightarrow> GetLocator_loop fuel h vChain nStep' vHave' q)"

(* src/src/chain.cpp:23-49 CChain::GetLocator *)
definition GetLocator :: "heap \<Rightarrow> CChain \<Rightarrow> ptr option \<Rightarrow> bytes list chain_result" where
  "GetLocator h vChain pindex =
     (let p = (if pindex = None then Tip vChain else pindex)
      in GetLocator_loop (case p of None \<Rightarrow> 0 | Some q \<Rightarrow> (case h q of None \<Rightarrow> 1 | Some b \<Rightarrow> nat (nHeight b) + 1)) h vChain 1 [] p)"

(* src/src/chain.cpp:64-65 CChain::FindEarliestAtLeast *)
fun lower_bound_loop :: "nat \<Rightarrow> heap \<Rightarrow> CChain \<Rightarrow> int \<Rightarrow> nat \<Rightarrow> nat \<Rightarrow> nat chain_result" where
  "lower_bound_loop 0 h vChain time first len = (if len = 0 then Inr first else Inl OutOfFuel)"
| "lower_bound_loop (Suc fuel) h vChain time first len =
     (if len = 0 then Inr first
      else let half = len div 2; middle = first + half
           in case Option.bind (vChain ! middle) h of None \<Rightarrow> Inl NullDeref
              | Some b \<Rightarrow> if uint (nTimeMax b) < time
                          then lower_bound_loop fuel h vChain time (middle + 1) (len - half - 1)
                          else lower_bound_loop fuel h vChain time first half)"

(* src/src/chain.cpp:62-67 CChain::FindEarliestAtLeast *)
definition FindEarliestAtLeast :: "heap \<Rightarrow> CChain \<Rightarrow> int \<Rightarrow> ptr option chain_result" where
  "FindEarliestAtLeast h vChain time =
     (case lower_bound_loop (length vChain) h vChain time 0 (length vChain) of Inl e \<Rightarrow> Inl e
      | Inr lower \<Rightarrow> Inr (if lower = length vChain then None else vChain ! lower))"

text \<open>
  Two height-indexed views of a chain agree last at the entry they share at the greatest height.
  On a well-formed heap \<^verbatim>\<open>FindFork\<close> returns the last agreement of a block's ancestors with the
  active chain, and \<^verbatim>\<open>LastCommonAncestor\<close> that of the ancestors of two blocks.
\<close>

definition last_agree :: "(int \<Rightarrow> ptr option) \<Rightarrow> (int \<Rightarrow> ptr option) \<Rightarrow> ptr option \<Rightarrow> bool" where
  "last_agree f g r \<longleftrightarrow>
     (case r of None \<Rightarrow> \<forall>j. f j = None \<or> g j \<noteq> f j
      | Some q \<Rightarrow> \<exists>k. f k = Some q \<and> g k = Some q \<and> (\<forall>j > k. f j = None \<or> g j \<noteq> f j))"

lemma ancestor_at_range: "ancestor_at h p k = Some q \<Longrightarrow> \<exists>b. h p = Some b \<and> 0 \<le> k \<and> k \<le> nHeight b"
  by (auto simp: ancestor_at_def split: option.splits if_splits)

lemma ancestor_at_entry:
  assumes "tree_ok h" "ancestor_at h p k = Some q"
  obtains c where "h q = Some c" "nHeight c = k"
  using ancestor_at_range [OF assms(2)] ancestor_at_height [OF assms(1)] assms(2) by (metis option.inject)

lemma ancestor_at_parent:
  assumes "tree_ok h" "ancestor_at h p k = Some q" "h q = Some c"
  shows "pprev c = ancestor_at h p (k - 1)"
proof -
  obtain b where b: "h p = Some b" "0 \<le> k" "k \<le> nHeight b" using ancestor_at_range [OF assms(2)] by blast
  have k: "nHeight c = k" using ancestor_at_entry [OF assms(1,2)] assms(3) by auto
  show ?thesis
  proof (cases "pprev c")
    case None
    then show ?thesis using tree_okD(2) [OF assms(1,3)] k b(1) by (simp add: ancestor_at_def)
  next
    case (Some r)
    then obtain d where d': "h r = Some d" "nHeight d = k - 1" using tree_okD(3) [OF assms(1,3) Some] k by auto
    note d = this tree_okD(1) [OF assms(1) d'(1)]
    have "ancestor_at h p (k - 1) = ancestor_at h q (k - 1)"
      using ancestor_at_trans [OF assms(1) b(1) assms(2), of "k - 1"] d by simp
    also have "\<dots> = ancestor_at h r (nHeight d)"
      using ancestor_at_pprev [OF assms(1,3) Some, of "k - 1"] k d by simp
    finally show ?thesis using ancestor_at_self [of h r d] d Some by simp
  qed
qed

lemma last_agree_step:
  fixes k j :: int
  assumes "\<And>j. k < j \<Longrightarrow> f j = None \<or> g j \<noteq> f j" "g k \<noteq> f k" "k - 1 < j"
  shows "f j = None \<or> g j \<noteq> f j"
proof (cases "j = k")
  case False
  then have "k < j" using assms(3) by simp
  then show ?thesis by (rule assms(1))
qed (use assms(2) in simp)

lemma FindFork_loop_spec:
  assumes "tree_ok h" "h p = Some b"
  shows "ancestor_at h p (int k) = Some cur \<Longrightarrow> k < fuel \<Longrightarrow>
     (\<And>j. int k < j \<Longrightarrow> ancestor_at h p j = None \<or> chain_at v j \<noteq> ancestor_at h p j) \<Longrightarrow>
     \<exists>r. FindFork_loop fuel h v (Some cur) = Inr r \<and> last_agree (ancestor_at h p) (chain_at v) r"
proof (induction k arbitrary: fuel cur)
  case k: 0
  then obtain f where f: "fuel = Suc f" by (cases fuel) auto
  obtain c where c: "h cur = Some c" "nHeight c = 0" using ancestor_at_entry [OF assms(1) k(1)] by auto
  have none: "pprev c = None" using ancestor_at_parent [OF assms(1) k(1) c(1)] assms(2) by (simp add: ancestor_at_def)
  show ?case
  proof (cases "chain_at v 0 = Some cur")
    case True
    with k c show ?thesis by (auto simp: f last_agree_def)
  next
    case False
    have "ancestor_at h p j = None \<or> chain_at v j \<noteq> ancestor_at h p j" for j
    proof (cases "0 \<le> j")
      case True
      then show ?thesis using last_agree_step [of 0 "ancestor_at h p" "chain_at v" j] k False by auto
    qed (simp add: ancestor_at_def assms(2))
    with False c none show ?thesis by (simp add: f last_agree_def)
  qed
next
  case (Suc k)
  then obtain f where f: "fuel = Suc f" by (cases fuel) auto
  obtain c where c: "h cur = Some c" "nHeight c = int (Suc k)" using ancestor_at_entry [OF assms(1) Suc.prems(1)] by auto
  then obtain q where q: "pprev c = Some q" using tree_okD(2) [OF assms(1) c(1)] by (cases "pprev c") auto
  show ?case
  proof (cases "chain_at v (int (Suc k)) = Some cur")
    case True
    then have "last_agree (ancestor_at h p) (chain_at v) (Some cur)"
      using Suc.prems(1,3) unfolding last_agree_def option.case by (intro exI [of _ "int (Suc k)"]) simp
    with True c show ?thesis by (simp add: f)
  next
    case False
    have a: "ancestor_at h p (int k) = Some q" using ancestor_at_parent [OF assms(1) Suc.prems(1) c(1)] q by simp
    have "ancestor_at h p j = None \<or> chain_at v j \<noteq> ancestor_at h p j" if "int k < j" for j
      using last_agree_step [of "int (Suc k)" "ancestor_at h p" "chain_at v" j] Suc.prems(1,3) False that by simp
    from Suc.IH [OF a _ this, of f] False c q Suc.prems(2) show ?thesis by (simp add: f)
  qed
qed

lemma FindFork_spec:
  assumes "tree_ok h" "skip_ok h" "h p = Some b"
  shows "\<exists>r. FindFork h v (Some p) = Inr r \<and> last_agree (ancestor_at h p) (chain_at v) r"
proof -
  have b: "0 \<le> nHeight b" using tree_okD(1) [OF assms(1,3)] .
  show ?thesis
  proof (cases "nHeight b > Height v")
    case False
    have "ancestor_at h p (int (nat (nHeight b))) = Some p" using ancestor_at_self [of h p b] assms(3) b by simp
    moreover have "ancestor_at h p j = None" if "int (nat (nHeight b)) < j" for j
      using that b assms(3) by (simp add: ancestor_at_def)
    ultimately show ?thesis
      using FindFork_loop_spec [OF assms(1,3), of "nat (nHeight b)" p "nat (nHeight b) + 2" v] False assms(3)
      by (simp add: FindFork_def del: FindFork_loop.simps)
  next
    case True
    note g = GetAncestor_spec [OF assms, of "Height v"]
    show ?thesis
    proof (cases "v = []")
      case empty: True
      then have "ancestor_at h p (Height v) = None" by (simp add: ancestor_at_def Height_def split: option.splits)
      with empty True g assms(3) show ?thesis by (auto simp: FindFork_def chain_at_def last_agree_def)
    next
      case False
      then have hv: "0 \<le> Height v" by (cases v) (simp_all add: Height_def)
      obtain q where q: "ancestor_at h p (int (nat (Height v))) = Some q"
        using ancestor_at_height [OF assms(1,3), of "Height v"] hv True by auto
      have "chain_at v j = None" if "int (nat (Height v)) < j" for j
        using that hv by (simp add: chain_at_def Height_def)
      then have "ancestor_at h p j = None \<or> chain_at v j \<noteq> ancestor_at h p j" if "int (nat (Height v)) < j" for j
        using that by (cases "ancestor_at h p j") auto
      from FindFork_loop_spec [OF assms(1,3) q _ this, of "nat (nHeight b) + 2"]
      show ?thesis using True g q hv assms(3) by (simp add: FindFork_def del: FindFork_loop.simps)
    qed
  qed
qed

lemma LastCommonAncestor_loop_spec:
  assumes "tree_ok h"
  shows "ancestor_at h p (int k) = Some a \<Longrightarrow> ancestor_at h q (int k) = Some b \<Longrightarrow> k < fuel \<Longrightarrow>
     (\<And>j. int k < j \<Longrightarrow> ancestor_at h p j = None \<or> ancestor_at h q j \<noteq> ancestor_at h p j) \<Longrightarrow>
     \<exists>r. LastCommonAncestor_loop fuel h (Some a) (Some b) = Inr (r, r) \<and> last_agree (ancestor_at h p) (ancestor_at h q) r"
proof (induction k arbitrary: fuel a b)
  case k: 0
  then obtain f where f: "fuel = Suc f" by (cases fuel) auto
  obtain c d where c: "h a = Some c" "h b = Some d"
    using ancestor_at_entry [OF assms k(1)] ancestor_at_entry [OF assms k(2)] by metis
  have none: "pprev c = None" "pprev d = None"
    using ancestor_at_parent [OF assms k(1) c(1)] ancestor_at_parent [OF assms k(2) c(2)]
    by (simp_all add: ancestor_at_def split: option.splits)
  show ?case
  proof (cases "a = b")
    case True
    with k show ?thesis by (auto simp: LastCommonAncestor_loop.simps last_agree_def)
  next
    case False
    have "ancestor_at h p j = None \<or> ancestor_at h q j \<noteq> ancestor_at h p j" for j
    proof (cases "0 \<le> j")
      case True
      then show ?thesis using last_agree_step [of 0 "ancestor_at h p" "ancestor_at h q" j] k False by auto
    qed (simp add: ancestor_at_def split: option.splits)
    with False c none show ?thesis by (simp add: f last_agree_def LastCommonAncestor_loop.simps)
  qed
next
  case (Suc k)
  then obtain f where f: "fuel = Suc f" by (cases fuel) auto
  obtain c where c: "h a = Some c" "nHeight c = int (Suc k)" using ancestor_at_entry [OF assms Suc.prems(1)] by auto
  obtain d where d: "h b = Some d" "nHeight d = int (Suc k)" using ancestor_at_entry [OF assms Suc.prems(2)] by auto
  obtain a' b' where p: "pprev c = Some a'" "pprev d = Some b'"
    using tree_okD(2) [OF assms c(1)] tree_okD(2) [OF assms d(1)] c(2) d(2) by (cases "pprev c"; cases "pprev d") auto
  show ?case
  proof (cases "a = b")
    case True
    then have "last_agree (ancestor_at h p) (ancestor_at h q) (Some a)"
      using Suc.prems unfolding last_agree_def option.case by (intro exI [of _ "int (Suc k)"]) simp
    with True show ?thesis by (simp add: LastCommonAncestor_loop.simps)
  next
    case False
    have a: "ancestor_at h p (int k) = Some a'" "ancestor_at h q (int k) = Some b'"
      using ancestor_at_parent [OF assms Suc.prems(1) c(1)] ancestor_at_parent [OF assms Suc.prems(2) d(1)] p by simp_all
    have "ancestor_at h p j = None \<or> ancestor_at h q j \<noteq> ancestor_at h p j" if "int k < j" for j
      using last_agree_step [of "int (Suc k)" "ancestor_at h p" "ancestor_at h q" j] Suc.prems(1,2,4) False that by simp
    from Suc.IH [OF a _ this, of f] False c(1) d(1) p Suc.prems(3)
    show ?thesis by (simp add: f LastCommonAncestor_loop.simps [of "Suc f"])
  qed
qed

lemma LastCommonAncestor_spec:
  assumes "tree_ok h" "skip_ok h" "h p = Some b" "h q = Some c"
  shows "\<exists>r. LastCommonAncestor h p q = Inr r \<and> last_agree (ancestor_at h p) (ancestor_at h q) r"
proof -
  let ?k = "min (nHeight b) (nHeight c)"
  have k: "0 \<le> ?k" using tree_okD(1) [OF assms(1,3)] tree_okD(1) [OF assms(1,4)] by simp
  obtain p' where p: "ancestor_at h p ?k = Some p'" using ancestor_at_height [OF assms(1,3), of ?k] k by auto
  obtain q' where q: "ancestor_at h q ?k = Some q'" using ancestor_at_height [OF assms(1,4), of ?k] k by auto
  have above: "ancestor_at h p j = None \<or> ancestor_at h q j \<noteq> ancestor_at h p j" if "int (nat ?k) < j" for j
    using that k assms(3,4) by (auto simp: ancestor_at_def min_def split: if_splits)
  have gp: "(if nHeight b > nHeight c then GetAncestor h p (nHeight c) else Inr (Some p)) = Inr (Some p')"
    using GetAncestor_spec [OF assms(1-3)] p ancestor_at_self [of h p b] assms(3) k by (auto simp: min_def split: if_splits)
  have gq: "(if nHeight b > nHeight c then Inr (Some q) else if nHeight c > nHeight b then GetAncestor h q (nHeight b) else Inr (Some q))
      = Inr (Some q')"
    using GetAncestor_spec [OF assms(1,2,4)] q ancestor_at_self [of h q c] assms(4) k by (auto simp: min_def split: if_splits)
  from LastCommonAncestor_loop_spec [OF assms(1), of p "nat ?k" p' q q' "nat ?k + 1"] p q k above
  obtain r where "LastCommonAncestor_loop (nat ?k + 1) h (Some p') (Some q') = Inr (r, r)"
      "last_agree (ancestor_at h p) (ancestor_at h q) r" by auto
  then show ?thesis using assms(3,4) by (simp add: LastCommonAncestor_def gp gq)
qed

text \<open>
  A locator lists hashes of ancestors at strictly decreasing heights from the block down to the
  root, and its length grows with the logarithm of the height: 32 entries cover \<open>2 ^ 20\<close> blocks.
\<close>

definition hash_at :: "heap \<Rightarrow> ptr \<Rightarrow> int \<Rightarrow> bytes" where
  "hash_at h p k = (case Option.bind (ancestor_at h p k) h of None \<Rightarrow> [] | Some b \<Rightarrow> phashBlock b)"

definition locator_heights :: "int \<Rightarrow> int list \<Rightarrow> bool" where
  "locator_heights k hs \<longleftrightarrow> hs \<noteq> [] \<and> hd hs = k \<and> last hs = 0 \<and> sorted_wrt (>) hs \<and> set hs \<subseteq> {0..}"

lemma locator_heights_Cons:
  assumes "locator_heights j hs" "0 \<le> j" "j < k"
  shows "locator_heights k (k # hs)"
proof -
  have "x < k" if x: "x \<in> set hs" for x
  proof -
    have "x \<le> j" using assms(1) x by (cases hs) (auto simp: locator_heights_def)
    with assms(3) show ?thesis by simp
  qed
  with assms show ?thesis by (auto simp: locator_heights_def)
qed

lemma GetLocator_loop_spec:
  assumes "tree_ok h" "skip_ok h" "chain_ok h v"
  shows "ancestor_at h p (int k) = Some cur \<Longrightarrow> k < fuel \<Longrightarrow> 1 \<le> nStep \<Longrightarrow>
     \<exists>hs. GetLocator_loop fuel h v nStep vHave (Some cur) = Inr (vHave @ map (hash_at h p) hs) \<and> locator_heights (int k) hs"
proof (induction k arbitrary: fuel cur nStep vHave rule: less_induct)
  case (less k)
  then obtain f where f: "fuel = Suc f" by (cases fuel) auto
  obtain c where c: "h cur = Some c" "nHeight c = int k" using ancestor_at_entry [OF assms(1) less.prems(1)] by auto
  obtain b where b: "h p = Some b" "int k \<le> nHeight b" using ancestor_at_range [OF less.prems(1)] by auto
  have hash: "hash_at h p (int k) = phashBlock c" using less.prems(1) c by (simp add: hash_at_def)
  show ?case
  proof (cases "k = 0")
    case True
    then show ?thesis using c hash by (auto simp: f locator_heights_def intro!: exI [of _ "[0]"])
  next
    case False
    define j where "j = nat (max (int k - nStep) 0)"
    have j: "j < k" "max (int k - nStep) 0 = int j" using less.prems(3) False by (auto simp: j_def)
    have anc: "ancestor_at h cur (int j) = ancestor_at h p (int j)"
      using ancestor_at_trans [OF assms(1) b(1) less.prems(1)] j by simp
    have at: "chain_at v (int j) = ancestor_at h cur (int j)" if "chain_at v (int k) = Some cur"
      using chain_ok_ancestor [OF assms(1,3), of k cur j] that j by (auto simp: chain_at_def split: if_splits)
    obtain q where q: "ancestor_at h p (int j) = Some q" using ancestor_at_height [OF assms(1) b(1), of "int j"] b(2) j by auto
    have nxt: "(if chain_at v (int k) = Some cur then Inr (chain_at v (int j)) else GetAncestor h cur (int j)) = Inr (Some q)"
      using at anc q GetAncestor_spec [OF assms(1,2) c(1)] by simp
    obtain hs where "GetLocator_loop f h v (if 10 < length (vHave @ [phashBlock c]) then nStep * 2 else nStep)
        (vHave @ [phashBlock c]) (Some q) = Inr ((vHave @ [phashBlock c]) @ map (hash_at h p) hs)" "locator_heights (int j) hs"
      using less.IH [OF j(1) q, of f "if 10 < length (vHave @ [phashBlock c]) then nStep * 2 else nStep" "vHave @ [phashBlock c]"]
        less.prems(2,3) j(1) by (fastforce simp: f split: if_splits)
    then show ?thesis using c False j hash locator_heights_Cons [of "int j" hs "int k"] nxt
      by (intro exI [of _ "int k # hs"]) (simp add: f Let_def)
  qed
qed

lemma GetLocator_spec:
  assumes "tree_ok h" "skip_ok h" "chain_ok h v" "h p = Some b"
  shows "\<exists>hs. GetLocator h v (Some p) = Inr (map (hash_at h p) hs) \<and> locator_heights (nHeight b) hs"
  using GetLocator_loop_spec [OF assms(1-3), of p "nat (nHeight b)" p "nat (nHeight b) + 1" 1 "[]"]
    ancestor_at_self [of h p b] tree_okD(1) [OF assms(1,4)] assms(4)
  by (simp add: GetLocator_def del: GetLocator_loop.simps)

lemma GetLocator_loop_length:
  "tree_ok h \<Longrightarrow> skip_ok h \<Longrightarrow> chain_ok h v \<Longrightarrow> h p = Some b \<Longrightarrow> nHeight b < 2 ^ j \<Longrightarrow>
   m = length vHave - 10 \<Longrightarrow> nStep = 2 ^ m \<Longrightarrow>
   GetLocator_loop fuel h v nStep vHave (Some p) = Inr r \<Longrightarrow>
   length r \<le> length vHave + 2 + (10 - length vHave) + (j - m)"
proof (induction fuel arbitrary: p b nStep vHave m)
  case (Suc f)
  show ?case
  proof (cases "nHeight b = 0")
    case True
    then show ?thesis using Suc.prems(4,8) by auto
  next
    case False
    have b0: "0 \<le> nHeight b" using tree_okD(1) [OF Suc.prems(1,4)] .
    have n1: "1 \<le> nStep" using Suc.prems(7) by simp
    define k where "k = max (nHeight b - nStep) 0"
    have k: "0 \<le> k" "k < nHeight b" using n1 b0 False by (auto simp: k_def)
    have at: "chain_at v k = ancestor_at h p k" if "chain_at v (nHeight b) = Some p"
      using chain_ok_ancestor [OF Suc.prems(1,3), of "nat (nHeight b)" p "nat k"] that k by (auto simp: chain_at_def split: if_splits)
    obtain q c where q: "ancestor_at h p k = Some q" "h q = Some c" "nHeight c = k"
      using ancestor_at_height [OF Suc.prems(1,4), of k] k by auto
    have nxt: "(if chain_at v (nHeight b) = Some p then Inr (chain_at v k) else GetAncestor h p k) = Inr (Some q)"
      using at q GetAncestor_spec [OF Suc.prems(1,2,4)] by simp
    let ?V = "vHave @ [phashBlock b]"
    let ?m = "length ?V - 10"
    have st: "(if 10 < length ?V then nStep * 2 else nStep) = 2 ^ ?m"
      using Suc.prems(6,7) power_Suc2 [of "2::int" m] by (cases "length vHave \<ge> 10") (auto simp flip: Suc_diff_le)
    have "GetLocator_loop f h v (if 10 < length ?V then nStep * 2 else nStep) ?V (Some q) = Inr r"
      using Suc.prems(4,8) False nxt by (simp add: Let_def flip: k_def)
    then have run: "GetLocator_loop f h v (2 ^ ?m) ?V (Some q) = Inr r" unfolding st .
    show ?thesis
    proof (cases "k = 0")
      case True
      then obtain f' where "f = Suc f'" using run by (cases f) auto
      then have "length r = length vHave + 2" using run q True by auto
      then show ?thesis by simp
    next
      case kpos: False
      then have kk: "k = nHeight b - 2 ^ m" using Suc.prems(7) by (simp add: k_def max_def split: if_splits)
      have "length r \<le> length ?V + 2 + (10 - length ?V) + (j - ?m)"
        by (rule Suc.IH [OF Suc.prems(1-3) q(2) _ refl refl run]) (use q(3) k Suc.prems(5) in simp)
      moreover have "m < j"
      proof (rule ccontr)
        assume "\<not> m < j"
        then have "(2::int) ^ j \<le> 2 ^ m" by (intro power_increasing) simp_all
        with kk k Suc.prems(5) kpos show False by simp
      qed
      ultimately show ?thesis using Suc.prems(6) by (cases "10 \<le> length vHave") auto
    qed
  qed
qed simp

lemma GetLocator_length:
  assumes "tree_ok h" "skip_ok h" "chain_ok h v" "h p = Some b" "nHeight b < 2 ^ j" "GetLocator h v (Some p) = Inr r"
  shows "length r \<le> 12 + j"
  using GetLocator_loop_length [OF assms(1-5), of 0 "[]" 1] assms(4,6)
  by (simp add: GetLocator_def del: GetLocator_loop.simps)

text \<open>
  The binary search of \<^verbatim>\<open>FindEarliestAtLeast\<close>. The greatest timestamp up to a block never decreases
  along the chain, so the search finds the first block whose \<^verbatim>\<open>nTimeMax\<close> reaches the given time.
\<close>

definition time_max_at :: "heap \<Rightarrow> CChain \<Rightarrow> nat \<Rightarrow> int" where
  "time_max_at h v i = (case Option.bind (v ! i) h of None \<Rightarrow> 0 | Some b \<Rightarrow> uint (nTimeMax b))"

definition times_sorted :: "heap \<Rightarrow> CChain \<Rightarrow> bool" where
  "times_sorted h v \<longleftrightarrow> sorted (map (time_max_at h v) [0..<length v])"

lemma times_sortedD: "times_sorted h v \<Longrightarrow> i \<le> j \<Longrightarrow> j < length v \<Longrightarrow> time_max_at h v i \<le> time_max_at h v j"
  using sorted_nth_mono [of "map (time_max_at h v) [0..<length v]" i j] by (simp add: times_sorted_def)

lemma lower_bound_loop_spec:
  assumes "chain_ok h v" "times_sorted h v"
  shows "first + len \<le> length v \<Longrightarrow> len \<le> fuel \<Longrightarrow>
    (\<And>i. i < first \<Longrightarrow> time_max_at h v i < time) \<Longrightarrow>
    (\<And>i. first + len \<le> i \<Longrightarrow> i < length v \<Longrightarrow> time \<le> time_max_at h v i) \<Longrightarrow>
    \<exists>r. lower_bound_loop fuel h v time first len = Inr r \<and> r \<le> length v \<and>
      (\<forall>i < r. time_max_at h v i < time) \<and> (\<forall>i. r \<le> i \<and> i < length v \<longrightarrow> time \<le> time_max_at h v i)"
proof (induction fuel arbitrary: first len)
  case (Suc fuel)
  show ?case
  proof (cases "len = 0")
    case True
    then show ?thesis using Suc.prems by auto
  next
    case False
    let ?mid = "first + len div 2"
    have mid: "?mid < length v" using False Suc.prems(1) by linarith
    obtain q c where q: "v ! ?mid = Some q" "h q = Some c" by (rule chain_okE [OF assms(1) mid])
    then have t: "time_max_at h v ?mid = uint (nTimeMax c)" by (simp add: time_max_at_def)
    show ?thesis
    proof (cases "uint (nTimeMax c) < time")
      case True
      have "time_max_at h v i < time" if "i < ?mid + 1" for i
        using times_sortedD [OF assms(2), of i ?mid] that mid t True by linarith
      then have "\<exists>r. lower_bound_loop fuel h v time (?mid + 1) (len - len div 2 - 1) = Inr r \<and> r \<le> length v \<and>
          (\<forall>i < r. time_max_at h v i < time) \<and> (\<forall>i. r \<le> i \<and> i < length v \<longrightarrow> time \<le> time_max_at h v i)"
        using False Suc.prems by (intro Suc.IH) auto
      with False q True show ?thesis by (simp add: Let_def)
    next
      case ge: False
      have "time \<le> time_max_at h v i" if "?mid \<le> i" "i < length v" for i
        using times_sortedD [OF assms(2), of ?mid i] that t ge by linarith
      then have "\<exists>r. lower_bound_loop fuel h v time first (len div 2) = Inr r \<and> r \<le> length v \<and>
          (\<forall>i < r. time_max_at h v i < time) \<and> (\<forall>i. r \<le> i \<and> i < length v \<longrightarrow> time \<le> time_max_at h v i)"
        using False Suc.prems by (intro Suc.IH) auto
      with False q ge show ?thesis by (simp add: Let_def)
    qed
  qed
qed auto

lemma FindEarliestAtLeast_spec:
  assumes "chain_ok h v" "times_sorted h v"
  obtains "FindEarliestAtLeast h v time = Inr None" "\<forall>i < length v. time_max_at h v i < time"
  | i where "i < length v" "FindEarliestAtLeast h v time = Inr (v ! i)" "time \<le> time_max_at h v i"
      "\<forall>j < i. time_max_at h v j < time"
proof -
  obtain r where r: "lower_bound_loop (length v) h v time 0 (length v) = Inr r" "r \<le> length v"
      "\<forall>i < r. time_max_at h v i < time" "\<forall>i. r \<le> i \<and> i < length v \<longrightarrow> time \<le> time_max_at h v i"
    using lower_bound_loop_spec [OF assms, of 0 "length v" "length v" time] by auto
  show thesis
  proof (cases "r = length v")
    case True
    with r that(1) show ?thesis by (simp add: FindEarliestAtLeast_def)
  next
    case False
    with r that(2) [of r] show ?thesis by (simp add: FindEarliestAtLeast_def)
  qed
qed

subsection \<open>Comparing chains by their tips\<close>

lemma chain_ok_tip_eq:
  assumes "tree_ok h" "chain_ok h v" "v \<noteq> []"
  obtains p where "v ! (length v - 1) = Some p" "v = ancestors h p"
proof -
  have n: "length v - 1 < length v" using assms(3) by (cases v) simp_all
  obtain p b where p: "v ! (length v - 1) = Some p" "h p = Some b" "nHeight b = int (length v - 1)"
    by (rule chain_okE [OF assms(2) n])
  have "v = ancestors h p"
  proof (rule nth_equalityI)
    show "length v = length (ancestors h p)" using p n length_ancestors [of h p b] by (cases "length v") auto
    fix i
    assume "i < length v"
    then show "v ! i = ancestors h p ! i"
      using chain_ok_ancestor [OF assms(1,2) n p(1), of i] nth_ancestors [of h p b i] p by simp
  qed
  with p(1) that show thesis by blast
qed

subsection \<open>A small block tree\<close>

text \<open>Two blocks on top of a common parent: \<open>0 \<leftarrow> 1 \<leftarrow> 2\<close> and \<open>1 \<leftarrow> 3\<close>.\<close>

definition sample_heap :: heap where
  "sample_heap = map_of
     [(0, CBlockIndex_SetNull\<lparr>phashBlock := [0], nTime := 10, nTimeMax := 10\<rparr>),
      (1, CBlockIndex_SetNull\<lparr>phashBlock := [1], pprev := Some 0, pskip := Some 0, nHeight := 1, nTime := 20, nTimeMax := 20\<rparr>),
      (2, CBlockIndex_SetNull\<lparr>phashBlock := [2], pprev := Some 1, pskip := Some 0, nHeight := 2, nTime := 30, nTimeMax := 30\<rparr>),
      (3, CBlockIndex_SetNull\<lparr>phashBlock := [3], pprev := Some 1, nHeight := 2, nTime := 25, nTimeMax := 25\<rparr>)]"

definition sample_chain :: CChain where
  "sample_chain = [Some 0, Some 1, Some 2]"

lemma sample_heap_at:
  "sample_heap 0 = Some (CBlockIndex_SetNull\<lparr>phashBlock := [0], nTime := 10, nTimeMax := 10\<rparr>)"
  "sample_heap (Suc 0) = Some (CBlockIndex_SetNull\<lparr>phashBlock := [1], pprev := Some 0, pskip := Some 0, nHeight := 1, nTime := 20, nTimeMax := 20\<rparr>)"
  "sample_heap 2 = Some (CBlockIndex_SetNull\<lparr>phashBlock := [2], pprev := Some 1, pskip := Some 0, nHeight := 2, nTime := 30, nTimeMax := 30\<rparr>)"
  "sample_heap 3 = Some (CBlockIndex_SetNull\<lparr>phashBlock := [3], pprev := Some 1, nHeight := 2, nTime := 25, nTimeMax := 25\<rparr>)"
  by (simp_all add: sample_heap_def)

lemma sample_heap_dom: "sample_heap p = Some b \<Longrightarrow> p = 0 \<or> p = Suc 0 \<or> p = 2 \<or> p = 3"
  by (auto simp: sample_heap_def split: if_splits)

lemma sample_skip: "GetSkipHeight 0 = 0" "GetSkipHeight 1 = 0" "GetSkipHeight 2 = 0"
  by (simp_all add: GetSkipHeight_def InvertLowestOne_def)

lemma pwalk_numeral: "pwalk h p (numeral k) = (case h p of None \<Rightarrow> None | Some b \<Rightarrow>
     (case pprev b of None \<Rightarrow> None | Some q \<Rightarrow> pwalk h q (pred_numeral k)))"
  by (simp add: numeral_eq_Suc)

lemma sample_ancestor_at:
  "ancestor_at sample_heap (Suc 0) 0 = Some 0" "ancestor_at sample_heap 2 0 = Some 0" "ancestor_at sample_heap 3 0 = Some 0"
  "ancestor_at sample_heap 2 1 = Some 1" "ancestor_at sample_heap 3 1 = Some 1"
  by (simp_all add: ancestor_at_def sample_heap_at CBlockIndex_SetNull_def pwalk_numeral)

lemma sample_tree_ok: "tree_ok sample_heap"
  unfolding tree_ok_def
proof (intro allI impI)
  fix p b
  assume "sample_heap p = Some b"
  with sample_heap_dom [OF this] show "0 \<le> nHeight b \<and> (case pprev b of None \<Rightarrow> nHeight b = 0
      | Some q \<Rightarrow> \<exists>c. sample_heap q = Some c \<and> nHeight c = nHeight b - 1)"
    by (elim disjE) (auto simp: sample_heap_at CBlockIndex_SetNull_def)
qed

lemma sample_skip_ok: "skip_ok sample_heap"
  unfolding skip_ok_def
proof (intro allI impI)
  fix p b s
  assume "sample_heap p = Some b" "pskip b = Some s"
  with sample_heap_dom [OF this(1)] show "ancestor_at sample_heap p (GetSkipHeight (nHeight b)) = Some s"
    by (elim disjE) (auto simp: sample_heap_at CBlockIndex_SetNull_def sample_skip sample_ancestor_at)
qed

lemma sample_chain_ok: "chain_ok sample_heap sample_chain"
  unfolding chain_ok_def
proof (intro allI impI)
  fix i
  assume "i < length sample_chain"
  then have "i = 0 \<or> i = 1 \<or> i = 2" by (auto simp: sample_chain_def)
  then show "\<exists>p b. sample_chain ! i = Some p \<and> sample_heap p = Some b \<and> nHeight b = int i \<and>
      pprev b = (if i = 0 then None else sample_chain ! (i - 1))"
    by (elim disjE) (auto simp: sample_chain_def sample_heap_at CBlockIndex_SetNull_def)
qed

lemma sample_times_sorted: "times_sorted sample_heap sample_chain"
  by (simp add: times_sorted_def sample_chain_def time_max_at_def sample_heap_at CBlockIndex_SetNull_def upt_rec)

lemmas sample_ok = sample_tree_ok sample_skip_ok sample_chain_ok sample_times_sorted

subsection \<open>Properties\<close>

text \<open>
  C6. On a well-formed block tree, \<^verbatim>\<open>CBlockIndex::GetAncestor\<close> with its skip pointers returns exactly
  the block that walking \<^verbatim>\<open>pprev\<close> step by step reaches at the requested height, and null outside the
  range; the assertion in the loop never fails and no null pointer is followed.
\<close>

theorem GetAncestor_walks_pprev:
  assumes "tree_ok h" "skip_ok h" "h p = Some b"
  shows "GetAncestor h p k = Inr (ancestor_at h p k)"
  by (rule GetAncestor_spec [OF assms])

theorem GetAncestor_walks_pprev_witness: "GetAncestor sample_heap 2 0 = Inr (Some 0)"
  using GetAncestor_walks_pprev [OF sample_tree_ok sample_skip_ok sample_heap_at(3)] sample_ancestor_at by simp

text \<open>
  C11. \<^verbatim>\<open>BuildSkip\<close> never fails on a well-formed tree, keeps the tree and the skip-list invariant, and
  sets \<^verbatim>\<open>pskip\<close> to the ancestor at the block's skip height (a root keeps its entry).
\<close>

theorem BuildSkip_keeps_skip_list:
  assumes "tree_ok h" "skip_ok h" "h p = Some b"
  shows "\<exists>h'. BuildSkip h p = Inr h' \<and> tree_ok h' \<and> skip_ok h' \<and>
    (pprev b \<noteq> None \<longrightarrow> h' = h(p \<mapsto> b\<lparr>pskip := ancestor_at h p (GetSkipHeight (nHeight b))\<rparr>))"
  by (rule BuildSkip_spec [OF assms])

theorem BuildSkip_keeps_skip_list_witness:
  "\<exists>h'. BuildSkip sample_heap 3 = Inr h' \<and> skip_ok h' \<and> map_option pskip (h' 3) = Some (Some 0)"
  using BuildSkip_keeps_skip_list [OF sample_tree_ok sample_skip_ok sample_heap_at(4)] sample_ancestor_at sample_skip
  by (auto simp: CBlockIndex_SetNull_def)

text \<open>
  C5. \<^verbatim>\<open>CChain::SetTip\<close> on a consistent chain makes the vector exactly the list of ancestors of the
  new tip, although its loop stops at the first slot that is already right; afterwards the chain
  invariant holds again, \<^verbatim>\<open>Tip()\<close> is the given block and \<^verbatim>\<open>Height()\<close> its height.
\<close>

theorem SetTip_is_ancestors:
  assumes "tree_ok h" "chain_ok h v" "h p = Some b"
  shows "SetTip h v (Some p) = Inr (ancestors h p) \<and> chain_ok h (ancestors h p) \<and>
    Tip (ancestors h p) = Some p \<and> Height (ancestors h p) = nHeight b"
  using SetTip_spec [OF assms] chain_ok_ancestors [OF assms(1,3)] by simp

theorem SetTip_is_ancestors_witness:
  "\<exists>v. SetTip sample_heap sample_chain (Some 3) = Inr v \<and> chain_ok sample_heap v \<and> Tip v = Some 3 \<and> Height v = 2"
  using SetTip_is_ancestors [OF sample_tree_ok sample_chain_ok sample_heap_at(4)] by (auto simp: CBlockIndex_SetNull_def)

text \<open>
  C10. \<^verbatim>\<open>FindFork\<close> returns the highest block of the active chain that is the given block or one of its
  ancestors, and null when there is none. It terminates and follows no null pointer.
\<close>

theorem FindFork_last_common:
  assumes "tree_ok h" "skip_ok h" "h p = Some b"
  shows "\<exists>r. FindFork h v (Some p) = Inr r \<and> last_agree (ancestor_at h p) (chain_at v) r"
  by (rule FindFork_spec [OF assms])

theorem FindFork_last_common_witness:
  "\<exists>r. FindFork sample_heap sample_chain (Some 3) = Inr r \<and> last_agree (ancestor_at sample_heap 3) (chain_at sample_chain) r"
  by (rule FindFork_last_common [OF sample_tree_ok sample_skip_ok sample_heap_at(4)])

text \<open>
  \<^verbatim>\<open>LastCommonAncestor\<close> returns the highest block that both arguments descend from, and its
  assertion \<open>pa == pb\<close> never fails, whatever the shape of the tree.
\<close>

theorem LastCommonAncestor_highest:
  assumes "tree_ok h" "skip_ok h" "h p = Some b" "h q = Some c"
  shows "\<exists>r. LastCommonAncestor h p q = Inr r \<and> last_agree (ancestor_at h p) (ancestor_at h q) r"
  by (rule LastCommonAncestor_spec [OF assms])

theorem LastCommonAncestor_highest_witness:
  "\<exists>r. LastCommonAncestor sample_heap 2 3 = Inr r \<and> last_agree (ancestor_at sample_heap 2) (ancestor_at sample_heap 3) r"
  by (rule LastCommonAncestor_highest [OF sample_tree_ok sample_skip_ok sample_heap_at(3,4)])

text \<open>
  \<^verbatim>\<open>GetLocator\<close> lists the hashes of ancestors at strictly decreasing heights, starting with the
  block itself and ending with the root, and has at most \<open>12 + j\<close> entries for heights below
  \<open>2 ^ j\<close>; so the 32 entries the code reserves suffice below height \<open>2 ^ 20\<close>.
\<close>

theorem GetLocator_shape:
  assumes "tree_ok h" "skip_ok h" "chain_ok h v" "h p = Some b" "nHeight b < 2 ^ j"
  shows "\<exists>hs. GetLocator h v (Some p) = Inr (map (hash_at h p) hs) \<and> locator_heights (nHeight b) hs \<and> length hs \<le> 12 + j"
  using GetLocator_spec [OF assms(1-4)] GetLocator_length [OF assms] by fastforce

theorem GetLocator_shape_witness:
  "\<exists>hs. GetLocator sample_heap sample_chain (Some 3) = Inr (map (hash_at sample_heap 3) hs) \<and>
     locator_heights 2 hs \<and> length hs \<le> 14"
  using GetLocator_shape [OF sample_tree_ok sample_skip_ok sample_chain_ok sample_heap_at(4), of 2]
  by (simp add: CBlockIndex_SetNull_def)

text \<open>
  The binary search of \<^verbatim>\<open>FindEarliestAtLeast\<close> finds the first block of the chain whose greatest
  timestamp so far reaches the given time, or null when no block does.
\<close>

theorem FindEarliestAtLeast_first:
  assumes "chain_ok h v" "times_sorted h v"
  shows "(FindEarliestAtLeast h v time = Inr None \<and> (\<forall>i < length v. time_max_at h v i < time)) \<or>
    (\<exists>i < length v. FindEarliestAtLeast h v time = Inr (v ! i) \<and> time \<le> time_max_at h v i \<and>
       (\<forall>j < i. time_max_at h v j < time))"
  by (rule FindEarliestAtLeast_spec [OF assms, of time]) blast+

theorem FindEarliestAtLeast_first_witness:
  "(FindEarliestAtLeast sample_heap sample_chain 15 = Inr None \<and>
      (\<forall>i < length sample_chain. time_max_at sample_heap sample_chain i < 15)) \<or>
   (\<exists>i < length sample_chain. FindEarliestAtLeast sample_heap sample_chain 15 = Inr (sample_chain ! i) \<and>
      15 \<le> time_max_at sample_heap sample_chain i \<and> (\<forall>j < i. time_max_at sample_heap sample_chain j < 15))"
  by (rule FindEarliestAtLeast_first [OF sample_chain_ok sample_times_sorted])

text \<open>
  C12. Comparing chains by size and last entry is sound: on consistent chains over the same tree the
  comparison succeeds with true exactly for equal chains, except that two empty chains make the
  code index an empty vector at \<open>size() - 1\<close>.
\<close>

theorem chain_eq_sound:
  assumes "tree_ok h" "chain_ok h v" "chain_ok h w"
  shows "chain_eq v w = (if v = [] \<and> w = [] then Inl OutOfRange else Inr (v = w))"
proof (cases "length v = length w \<and> v \<noteq> []")
  case True
  then have w: "w \<noteq> []" by auto
  obtain p where p: "v ! (length v - 1) = Some p" "v = ancestors h p" using chain_ok_tip_eq [OF assms(1,2)] True by blast
  obtain q where q: "w ! (length w - 1) = Some q" "w = ancestors h q" using chain_ok_tip_eq [OF assms(1,3) w] by blast
  from True p(1) q(1) have "chain_eq v w = Inr (Some p = Some q)" by (simp add: chain_eq_def)
  moreover have "p = q \<longleftrightarrow> v = w"
  proof
    show "v = w" if "p = q" using p(2) q(2) unfolding that by (rule trans [OF _ sym])
    show "p = q" if "v = w" using p(1) q(1) that by simp
  qed
  ultimately show ?thesis using True by simp
qed (auto simp: chain_eq_def)

theorem chain_eq_sound_witness: "chain_eq sample_chain sample_chain = Inr True"
  using chain_eq_sound [OF sample_tree_ok sample_chain_ok sample_chain_ok] by (simp add: sample_chain_def)

end
