(* ===== verification/Params.thy ===== *)
theory Params
  imports Prelude
begin

text \<open>
  Chain parameters: the structures of \<^verbatim>\<open>src/src/consensus/params.h\<close>. Hashes are byte strings of
  length 32, least significant byte first; \<^verbatim>\<open>int64_t\<close> members are integers within its range.
\<close>

(* src/src/consensus/params.h:15-22 DeploymentPos *)
datatype DeploymentPos = DEPLOYMENT_TESTDUMMY | DEPLOYMENT_CSV | DEPLOYMENT_SEGWIT

(* src/src/consensus/params.h:27-34 BIP9Deployment *)
record BIP9Deployment =
  bit_pos :: int
  nStartTime :: int
  nTimeout :: int

(* src/src/consensus/params.h:39-72 Params *)
record Params =
  hashGenesisBlock :: bytes
  nSubsidyHalvingInterval :: int
  BIP34Height :: int
  BIP34Hash :: bytes
  BIP65Height :: int
  BIP66Height :: int
  nRuleChangeActivationThreshold :: u32
  nMinerConfirmationWindow :: u32
  vDeployments :: "DeploymentPos \<Rightarrow> BIP9Deployment"
  powLimit :: bytes
  posLimit :: bytes
  fPowAllowMinDifficultyBlocks :: bool
  fPowNoRetargeting :: bool
  fPoSNoRetargeting :: bool
  nPowTargetSpacing :: int
  nPowTargetTimespan :: int
  nMinimumChainWork :: bytes
  defaultAssumeValid :: bytes
  nLastPOWBlock :: int
  nFirstMPoSBlock :: int
  nMPoSRewardRecipients :: int
  nFixUTXOCacheHFHeight :: int

text \<open>C++ integer division rounds towards zero.\<close>

definition cdiv :: "int \<Rightarrow> int \<Rightarrow> int" where
  "cdiv a b = (if (a < 0) = (b < 0) then \<bar>a\<bar> div \<bar>b\<bar> else - (\<bar>a\<bar> div \<bar>b\<bar>))"

definition cmod :: "int \<Rightarrow> int \<Rightarrow> int" where
  "cmod a b = a - b * cdiv a b"

lemma cdiv_nonneg: "0 \<le> a \<Longrightarrow> 0 < b \<Longrightarrow> cdiv a b = a div b"
  by (simp add: cdiv_def)

lemma cmod_nonneg: "0 \<le> a \<Longrightarrow> 0 < b \<Longrightarrow> cmod a b = a mod b"
  by (simp add: cmod_def cdiv_nonneg minus_mult_div_eq_mod)

(* src/src/consensus/params.h:65-65 Params::DifficultyAdjustmentInterval *)
definition DifficultyAdjustmentInterval :: "Params \<Rightarrow> int option" where
  "DifficultyAdjustmentInterval params =
     (if nPowTargetSpacing params = 0 then None
      else Some (cdiv (nPowTargetTimespan params) (nPowTargetSpacing params)))"

end
