(* ===== verification/Chain_Work.thy ===== *)
theory Chain_Work
  imports Chain Params
begin

text \<open>
  The rest of \<^verbatim>\<open>src/src/chain.h\<close> and \<^verbatim>\<open>src/src/chain.cpp\<close>: the work a block adds to the chain, the
  median of the last timestamps, and the validity bits of an index entry. The work of a block is
  the integer part of \<open>2 ^ 256 / (target + 1)\<close>; the median time never decreases along a chain whose
  blocks respect the timestamp rule; raising validity is monotone.
\<close>

subsection \<open>Work\<close>

(* src/src/chain.cpp:120-133 GetBlockProof *)
definition GetBlockProof :: "CBlockIndex \<Rightarrow> base_uint chain_result" where
  "GetBlockProof block =
     (let (bnTarget, fNegative, fOverflow) = SetCompact (nBits block)
      in if fNegative \<or> fOverflow \<or> EqualTo bnTarget 0 then Inr (uint_of_u64 0)
         else case uint_div (uint_not bnTarget) (uint_add bnTarget (uint_of_u64 1)) of
                Inl e \<Rightarrow> Inl (UintError e)
              | Inr q \<Rightarrow> Inr (uint_add q (uint_of_u64 1)))"

(* src/src/chain.cpp:135-150 GetBlockProofEquivalentTime *)
definition GetBlockProofEquivalentTime :: "CBlockIndex \<Rightarrow> CBlockIndex \<Rightarrow> CBlockIndex \<Rightarrow> Params \<Rightarrow> int chain_result" where
  "GetBlockProofEquivalentTime to from tip params =
     (let (r, sign) = (if uint_gt (nChainWork to) (nChainWork from)
                       then (uint_sub (nChainWork to) (nChainWork from), 1)
                       else (uint_sub (nChainWork from) (nChainWork to), - 1))
      in case GetBlockProof tip of Inl e \<Rightarrow> Inl e
         | Inr proof \<Rightarrow>
             (case uint_div (uint_mul r (uint_of_u64 (word_of_int (nPowTargetSpacing params)))) proof of
                Inl e \<Rightarrow> Inl (UintError e)
              | Inr r \<Rightarrow> if uint_bits r > 63 then Inr (sign * (2 ^ 63 - 1))
                         else Inr (sint (word_of_int sign * GetLow64 r))))"

subsection \<open>Median time\<close>

(* src/src/chain.h:373-373 CBlockIndex::nMedianTimeSpan *)
definition nMedianTimeSpan :: nat where
  "nMedianTimeSpan = 11"

(* src/src/chain.h:381-383 CBlockIndex::GetMedianTimePast *)
fun median_times :: "heap \<Rightarrow> nat \<Rightarrow> ptr option \<Rightarrow> int list chain_result" where
  "median_times h 0 pindex = Inr []"
| "median_times h (Suc n) None = Inr []"
| "median_times h (Suc n) (Some p) =
     (case h p of None \<Rightarrow> Inl NullDeref
      | Some b \<Rightarrow> map_sum id (\<lambda>ts. uint (nTime b) # ts) (median_times h n (pprev b)))"

(* src/src/chain.h:375-387 CBlockIndex::GetMedianTimePast *)
definition GetMedianTimePast :: "heap \<Rightarrow> ptr \<Rightarrow> int chain_result" where
  "GetMedianTimePast h p = map_sum id (\<lambda>ts. sort ts ! (length ts div 2)) (median_times h nMedianTimeSpan (Some p))"

subsection \<open>Validity bits\<close>

(* src/src/chain.h:130-130 BlockStatus *)
definition BLOCK_VALID_HEADER :: u32 where
  "BLOCK_VALID_HEADER = 1"

(* src/src/chain.h:134-134 BlockStatus *)
definition BLOCK_VALID_TREE :: u32 where
  "BLOCK_VALID_TREE = 2"

(* src/src/chain.h:141-141 BlockStatus *)
definition BLOCK_VALID_TRANSACTIONS :: u32 where
  "BLOCK_VALID_TRANSACTIONS = 3"

(* src/src/chain.h:145-145 BlockStatus *)
definition BLOCK_VALID_CHAIN :: u32 where
  "BLOCK_VALID_CHAIN = 4"

(* src/src/chain.h:148-148 BlockStatus *)
definition BLOCK_VALID_SCRIPTS :: u32 where
  "BLOCK_VALID_SCRIPTS = 5"

(* src/src/chain.h:151-152 BlockStatus *)
definition BLOCK_VALID_MASK :: u32 where
  "BLOCK_VALID_MASK = BLOCK_VALID_HEADER OR BLOCK_VALID_TREE OR BLOCK_VALID_TRANSACTIONS OR
     BLOCK_VALID_CHAIN OR BLOCK_VALID_SCRIPTS"

(* src/src/chain.h:154-154 BlockStatus *)
definition BLOCK_HAVE_DATA :: u32 where
  "BLOCK_HAVE_DATA = 8"

(* src/src/chain.h:155-155 BlockStatus *)
definition BLOCK_HAVE_UNDO :: u32 where
  "BLOCK_HAVE_UNDO = 16"

(* src/src/chain.h:158-158 BlockStatus *)
definition BLOCK_FAILED_VALID :: u32 where
  "BLOCK_FAILED_VALID = 32"

(* src/src/chain.h:159-159 BlockStatus *)
definition BLOCK_FAILED_CHILD :: u32 where
  "BLOCK_FAILED_CHILD = 64"

(* src/src/chain.h:160-160 BlockStatus *)
definition BLOCK_FAILED_MASK :: u32 where
  "BLOCK_FAILED_MASK = BLOCK_FAILED_VALID OR BLOCK_FAILED_CHILD"

lemmas block_status_defs = BLOCK_VALID_HEADER_def BLOCK_VALID_TREE_def BLOCK_VALID_TRANSACTIONS_def
  BLOCK_VALID_CHAIN_def BLOCK_VALID_SCRIPTS_def BLOCK_VALID_MASK_def BLOCK_HAVE_DATA_def
  BLOCK_HAVE_UNDO_def BLOCK_FAILED_VALID_def BLOCK_FAILED_CHILD_def BLOCK_FAILED_MASK_def

(* src/src/chain.h:410-416 CBlockIndex::IsValid *)
definition IsValid :: "CBlockIndex \<Rightarrow> u32 \<Rightarrow> bool chain_result" where
  "IsValid b nUpTo =
     (if nUpTo AND NOT BLOCK_VALID_MASK \<noteq> 0 then Inl AssertFail
      else if nStatus b AND BLOCK_FAILED_MASK \<noteq> 0 then Inr False
      else Inr (nUpTo \<le> nStatus b AND BLOCK_VALID_MASK))"

(* src/src/chain.h:420-430 CBlockIndex::RaiseValidity *)
definition RaiseValidity :: "CBlockIndex \<Rightarrow> u32 \<Rightarrow> (CBlockIndex \<times> bool) chain_result" where
  "RaiseValidity b nUpTo =
     (if nUpTo AND NOT BLOCK_VALID_MASK \<noteq> 0 then Inl AssertFail
      else if nStatus b AND BLOCK_FAILED_MASK \<noteq> 0 then Inr (b, False)
      else if nStatus b AND BLOCK_VALID_MASK < nUpTo
      then Inr (b\<lparr>nStatus := (nStatus b AND NOT BLOCK_VALID_MASK) OR nUpTo\<rparr>, True)
      else Inr (b, False))"

subsection \<open>Work is the inverse of the target\<close>

text \<open>The target a compact word denotes, or 0 when the code refuses it.\<close>

definition valid_target :: "u32 \<Rightarrow> nat" where
  "valid_target c = (let (t, neg, ovf) = SetCompact c in if neg \<or> ovf then 0 else le_val t)"

definition block_work :: "u32 \<Rightarrow> nat" where
  "block_work c = (if valid_target c = 0 then 0 else 2 ^ 256 div (valid_target c + 1))"

lemma valid_target_less: "valid_target c + 1 < 2 ^ 256"
proof -
  obtain r neg ovf where s: "SetCompact c = (r, neg, ovf)" by (rule SetCompact_cases)
  show ?thesis
  proof (cases "neg \<or> ovf")
    case False
    then have "valid_target c = compact_target c" "compact_target c < 2 ^ 256"
      using SetCompact_exact [of c r neg] SetCompact_overflow [OF s] s by (auto simp: valid_target_def)
    with compact_target_not_max [of c] show ?thesis by linarith
  qed (auto simp: valid_target_def s)
qed

lemma GetBlockProof_spec:
  "\<exists>w. GetBlockProof b = Inr w \<and> uint_wf w \<and> le_val w = block_work (nBits b)"
proof -
  obtain t neg ovf where s: "SetCompact (nBits b) = (t, neg, ovf)" by (rule SetCompact_cases)
  have wf: "uint_wf t" using SetCompact_val [OF s] by simp
  show ?thesis
  proof (cases "neg \<or> ovf \<or> EqualTo t 0")
    case True
    then have "valid_target (nBits b) = 0" using EqualTo_val [OF wf, of 0] s by (auto simp: valid_target_def)
    with True s show ?thesis by (auto simp: GetBlockProof_def block_work_def a256.of64_wf a256.of64_val)
  next
    case False
    then have t: "valid_target (nBits b) = le_val t" "le_val t \<noteq> 0"
      using EqualTo_val [OF wf, of 0] s by (auto simp: valid_target_def)
    have lt: "le_val t + 1 < 2 ^ 256" using valid_target_less [of "nBits b"] unfolding t(1) .
    obtain q where "uint_div (uint_not t) (uint_add t (uint_of_u64 1)) = Inr q" "uint_wf (uint_add q (uint_of_u64 1))"
        "le_val (uint_add q (uint_of_u64 1)) = block_work (nBits b)"
      using a256.inverse_target [OF wf t(2) lt] t unfolding block_work_def by (metis (no_types))
    with False s show ?thesis by (simp add: GetBlockProof_def)
  qed
qed

lemma block_work_mono:
  assumes "valid_target c \<noteq> 0" "valid_target c \<le> valid_target d"
  shows "block_work d \<le> block_work c"
  using assms by (simp add: block_work_def div_le_mono2)

lemma block_work_pos: "valid_target c \<noteq> 0 \<Longrightarrow> 0 < block_work c"
  using valid_target_less [of c] by (simp add: block_work_def div_greater_zero_iff)

subsection \<open>The median and its monotonicity\<close>

lemma median_times_length: "median_times h n p = Inr ts \<Longrightarrow> length ts \<le> n"
  by (induction h n p arbitrary: ts rule: median_times.induct) (auto split: option.splits sum.splits simp: map_sum_def)

lemma median_times_total:
  "tree_ok h \<Longrightarrow> h p = Some b \<Longrightarrow> \<exists>ts. median_times h (Suc n) (Some p) = Inr (uint (nTime b) # ts)"
proof (induction n arbitrary: p b)
  case (Suc n)
  show ?case
  proof (cases "pprev b")
    case (Some q)
    then obtain c where "h q = Some c" using tree_okD(3) [OF Suc.prems] by blast
    from Suc.IH [OF Suc.prems(1) this] Some Suc.prems(2) show ?thesis by auto
  qed (use Suc.prems in simp)
qed simp

lemma median_times_take:
  "median_times h n p = Inr ts \<Longrightarrow> m \<le> n \<Longrightarrow> median_times h m p = Inr (take m ts)"
proof (induction h n p arbitrary: ts m rule: median_times.induct)
  case (2 h n)
  then show ?case by (cases m) auto
next
  case (3 h n p)
  show ?case
  proof (cases m)
    case (Suc m')
    obtain b ts' where b: "h p = Some b" "median_times h n (pprev b) = Inr ts'" "ts = uint (nTime b) # ts'"
      using "3.prems"(1) by (auto simp: map_sum_def split: option.splits sum.splits)
    with "3.IH" [OF b(1,2), of m'] "3.prems"(2) Suc show ?thesis by simp
  qed simp
qed auto

text \<open>The element at index \<open>k\<close> of the sorted list, by counting.\<close>

lemma sorted_nth_ge_iff:
  fixes ys :: "'a::linorder list"
  shows "sorted ys \<Longrightarrow> k < length ys \<Longrightarrow> m \<le> ys ! k \<longleftrightarrow> length (filter (\<lambda>x. x < m) ys) \<le> k"
proof (induction ys arbitrary: k)
  case (Cons y ys)
  show ?case
  proof (cases "y < m")
    case True
    with Cons show ?thesis by (cases k) auto
  next
    case False
    then have "filter (\<lambda>x. x < m) (y # ys) = []" using Cons.prems(1) by (auto simp: filter_empty_conv)
    moreover have "y \<le> (y # ys) ! k" using sorted_nth_mono [OF Cons.prems(1), of 0 k] Cons.prems(2) by simp
    ultimately show ?thesis using False by simp
  qed
qed simp

lemma sort_nth_ge_iff:
  fixes xs :: "'a::linorder list"
  assumes "k < length xs"
  shows "m \<le> sort xs ! k \<longleftrightarrow> length (filter (\<lambda>x. x < m) xs) \<le> k"
proof -
  have "length (filter (\<lambda>x. x < m) (sort xs)) = length (filter (\<lambda>x. x < m) xs)"
    by (metis filter_sort length_sort)
  with sorted_nth_ge_iff [of "sort xs" k m] assms show ?thesis by simp
qed

lemma GetMedianTimePast_total:
  assumes "tree_ok h" "h p = Some b"
  shows "\<exists>t. GetMedianTimePast h p = Inr t"
  using median_times_total [OF assms, of 10] by (auto simp: GetMedianTimePast_def nMedianTimeSpan_def eval_nat_numeral)

lemma GetMedianTimePast_mono:
  assumes "tree_ok h" "h p = Some b" "pprev b = Some q" "GetMedianTimePast h q = Inr m" "m < uint (nTime b)"
  shows "\<exists>m'. GetMedianTimePast h p = Inr m' \<and> m \<le> m'"
proof -
  obtain xs where xs: "median_times h 11 (Some q) = Inr xs" "m = sort xs ! (length xs div 2)"
    using assms(4) by (auto simp: GetMedianTimePast_def nMedianTimeSpan_def map_sum_def split: sum.splits)
  obtain c where "h q = Some c" using tree_okD(3) [OF assms(1-3)] by blast
  then have ne: "xs \<noteq> []" using xs(1) median_times_total [OF assms(1), of q c 10] by (auto simp: eval_nat_numeral)
  let ?ys = "uint (nTime b) # take 10 xs"
  have "median_times h 10 (Some q) = Inr (take 10 xs)" by (rule median_times_take [OF xs(1)]) simp
  then have ys: "median_times h 11 (Some p) = Inr ?ys"
    using assms(2,3) by (simp add: eval_nat_numeral)
  have len: "length xs \<le> 11" using median_times_length [OF xs(1)] .
  then have "length xs \<le> length ?ys" by (simp add: min_def)
  then have k: "length xs div 2 \<le> length ?ys div 2" by (rule div_le_mono)
  have "length (filter (\<lambda>x. x < m) ?ys) = length (filter (\<lambda>x. x < m) (take 10 xs))" using assms(5) by simp
  also have "\<dots> \<le> length (filter (\<lambda>x. x < m) (take 10 xs)) + length (filter (\<lambda>x. x < m) (drop 10 xs))" by simp
  also have "\<dots> = length (filter (\<lambda>x. x < m) xs)" by (metis append_take_drop_id filter_append length_append)
  also have "\<dots> \<le> length xs div 2" using sort_nth_ge_iff [of "length xs div 2" xs m] ne xs(2) by simp
  finally have "length (filter (\<lambda>x. x < m) ?ys) \<le> length ?ys div 2" using k by (rule order_trans)
  moreover have "length ?ys div 2 < length ?ys" by simp
  ultimately have "m \<le> sort ?ys ! (length ?ys div 2)" by (simp only: sort_nth_ge_iff)
  with ys show ?thesis unfolding GetMedianTimePast_def nMedianTimeSpan_def by (simp only: map_sum.simps) blast
qed

subsection \<open>Raising validity\<close>

lemma BLOCK_VALID_MASK_eq: "BLOCK_VALID_MASK = 7" "NOT BLOCK_VALID_MASK AND BLOCK_VALID_MASK = 0"
  by (simp_all add: block_status_defs)

lemma mask_or_low: "u AND NOT k = 0 \<Longrightarrow> ((s AND NOT k) OR u) AND k = (u :: u32)"
  by (rule bit_eqI) (auto simp: bit_simps bit_eq_iff)

lemma mask_or_high: "u AND NOT k = 0 \<Longrightarrow> ((s AND NOT k) OR u) AND NOT k = (s :: u32) AND NOT k"
  by (rule bit_eqI) (auto simp: bit_simps bit_eq_iff)

lemma mask_disjoint: "s AND NOT k = t AND NOT k \<Longrightarrow> f AND k = 0 \<Longrightarrow> s AND f = (t :: u32) AND f"
  by (rule bit_eqI) (auto simp: bit_simps bit_eq_iff)

lemma RaiseValidity_spec:
  assumes "RaiseValidity b n = Inr (b', changed)"
  shows "nStatus b' AND NOT BLOCK_VALID_MASK = nStatus b AND NOT BLOCK_VALID_MASK"
    and "nStatus b' AND BLOCK_VALID_MASK = (if changed then n else nStatus b AND BLOCK_VALID_MASK)"
    and "changed \<longleftrightarrow> nStatus b AND BLOCK_FAILED_MASK = 0 \<and> nStatus b AND BLOCK_VALID_MASK < n"
    and "IsValid b' n = Inr (nStatus b AND BLOCK_FAILED_MASK = 0)"
proof -
  have n: "n AND NOT BLOCK_VALID_MASK = 0" using assms by (simp add: RaiseValidity_def split: if_splits)
  show high: "nStatus b' AND NOT BLOCK_VALID_MASK = nStatus b AND NOT BLOCK_VALID_MASK"
    and low: "nStatus b' AND BLOCK_VALID_MASK = (if changed then n else nStatus b AND BLOCK_VALID_MASK)"
    and ch: "changed \<longleftrightarrow> nStatus b AND BLOCK_FAILED_MASK = 0 \<and> nStatus b AND BLOCK_VALID_MASK < n"
    using assms mask_or_low [OF n] mask_or_high [OF n] by (auto simp: RaiseValidity_def split: if_splits)
  have "nStatus b' AND BLOCK_FAILED_MASK = nStatus b AND BLOCK_FAILED_MASK"
    using high by (rule mask_disjoint) (simp add: block_status_defs)
  then show "IsValid b' n = Inr (nStatus b AND BLOCK_FAILED_MASK = 0)"
    using n low ch by (auto simp: IsValid_def)
qed

subsection \<open>Properties\<close>

text \<open>
  C8. \<^verbatim>\<open>GetBlockProof\<close> never divides by zero and returns the integer part of
  \<open>2 ^ 256 / (target + 1)\<close> although \<open>2 ^ 256\<close> does not fit into the type, and 0 for a negative,
  overflowing or zero target.
\<close>

theorem GetBlockProof_value:
  "\<exists>w. GetBlockProof b = Inr w \<and> uint_wf w \<and>
     le_val w = (if valid_target (nBits b) = 0 then 0 else 2 ^ 256 div (valid_target (nBits b) + 1))"
  using GetBlockProof_spec [of b] unfolding block_work_def .

text \<open>
  \<^verbatim>\<open>GetMedianTimePast\<close> never decreases along a chain whose blocks obey the timestamp rule of
  \<^verbatim>\<open>ContextualCheckBlockHeader\<close> (a block's time is greater than the median time of its parent).
\<close>

theorem GetMedianTimePast_never_decreases:
  assumes "tree_ok h" "h p = Some b" "pprev b = Some q" "GetMedianTimePast h q = Inr m" "m < uint (nTime b)"
  shows "\<exists>m'. GetMedianTimePast h p = Inr m' \<and> m \<le> m'"
  by (rule GetMedianTimePast_mono [OF assms])

lemma median_times_numeral:
  "median_times h (numeral k) (Some p) =
     (case h p of None \<Rightarrow> Inl NullDeref
      | Some b \<Rightarrow> map_sum id (\<lambda>ts. uint (nTime b) # ts) (median_times h (pred_numeral k) (pprev b)))"
  "median_times h (numeral k) None = Inr []"
  by (simp_all add: numeral_eq_Suc)

theorem GetMedianTimePast_never_decreases_witness:
  "\<exists>m'. GetMedianTimePast sample_heap 2 = Inr m' \<and> 20 \<le> m'"
proof (rule GetMedianTimePast_never_decreases [OF sample_tree_ok sample_heap_at(3)])
  show "GetMedianTimePast sample_heap (Suc 0) = Inr 20"
    by (simp add: GetMedianTimePast_def nMedianTimeSpan_def median_times_numeral sample_heap_at CBlockIndex_SetNull_def)
qed (simp_all add: CBlockIndex_SetNull_def)

text \<open>
  \<^verbatim>\<open>RaiseValidity\<close> only ever raises the validity level: it keeps every bit outside the validity
  mask, sets the level exactly when it was lower and the block has not failed, and afterwards
  \<^verbatim>\<open>IsValid\<close> holds for that level unless a failure bit is set.
\<close>

theorem RaiseValidity_monotone:
  assumes "RaiseValidity b n = Inr (b', changed)"
  shows "nStatus b' AND NOT BLOCK_VALID_MASK = nStatus b AND NOT BLOCK_VALID_MASK \<and>
    nStatus b AND BLOCK_VALID_MASK \<le> nStatus b' AND BLOCK_VALID_MASK \<and>
    (changed \<longleftrightarrow> nStatus b AND BLOCK_FAILED_MASK = 0 \<and> nStatus b AND BLOCK_VALID_MASK < n) \<and>
    IsValid b' n = Inr (nStatus b AND BLOCK_FAILED_MASK = 0)"
proof -
  note r = RaiseValidity_spec [OF assms]
  have "nStatus b AND BLOCK_VALID_MASK \<le> nStatus b' AND BLOCK_VALID_MASK"
    using r(2,3) by (cases changed) (simp_all add: less_imp_le)
  with r(1,3,4) show ?thesis by blast
qed

theorem RaiseValidity_monotone_witness:
  "\<exists>b'. RaiseValidity CBlockIndex_SetNull 3 = Inr (b', True) \<and> IsValid b' 3 = Inr True"
proof -
  let ?b = "CBlockIndex_SetNull\<lparr>nStatus := 3\<rparr>"
  have r: "RaiseValidity CBlockIndex_SetNull 3 = Inr (?b, True)"
    by (simp add: RaiseValidity_def block_status_defs CBlockIndex_SetNull_def)
  show ?thesis using RaiseValidity_monotone [OF r] r by (auto simp: CBlockIndex_SetNull_def)
qed

end
