(* ===== verification/Block.thy ===== *)
theory Block
  imports Chain_Work Transaction
begin

text \<open>
  Block headers, blocks and locators (\<^verbatim>\<open>src/src/primitives/block.h\<close>, \<^verbatim>\<open>block.cpp\<close>), and the conversions between a header, an
  index entry and its disk form (\<^verbatim>\<open>src/src/chain.h\<close>). A header serializes without its nonces for hashing; the block hash is
  a second hash over that digest and the nonces, so the five ticket signatures of a header do not enter it.
\<close>

subsection \<open>Headers\<close>

(* src/src/primitives/block.h:24-47 CBlockOldHeader *)
record CBlockOldHeader =
  bh_nVersion :: u32
  bh_hashPrevBlock :: bytes
  bh_hashMerkleRoot :: bytes
  bh_nTime :: u32
  bh_nBits :: u32
  bh_hashStateRoot :: bytes
  bh_hashUTXORoot :: bytes
  bh_seed :: u32
  bh_nNonce :: u64
  bh_nNonce_ex :: u64

(* src/src/primitives/block.h:147-159 CBlockHeader *)
record CBlockHeader = CBlockOldHeader +
  bh_sig1 :: bytes
  bh_sig2 :: bytes
  bh_sig3 :: bytes
  bh_sig4 :: bytes
  bh_sig5 :: bytes

(* src/src/primitives/block.h:238-250 CBlock *)
record CBlock = CBlockHeader +
  vtx :: "CTransaction list"
  fChecked :: bool

(* src/src/primitives/block.h:71-86 CBlockOldHeader::SetNull *)
definition CBlockOldHeader_SetNull :: CBlockOldHeader where
  "CBlockOldHeader_SetNull =
     \<lparr>bh_nVersion = 0, bh_hashPrevBlock = replicate 32 0, bh_hashMerkleRoot = replicate 32 0, bh_nTime = 0, bh_nBits = 0,
      bh_hashStateRoot = replicate 32 0, bh_hashUTXORoot = replicate 32 0, bh_seed = 0, bh_nNonce = 0, bh_nNonce_ex = 0\<rparr>"

(* src/src/primitives/block.h:173-181 CBlockHeader::SetNull *)
definition CBlockHeader_SetNull :: CBlockHeader where
  "CBlockHeader_SetNull =
     CBlockOldHeader.extend CBlockOldHeader_SetNull (CBlockHeader.fields [] [] [] [] [])"

(* src/src/primitives/block.h:88-91 CBlockOldHeader::IsNull *)
definition header_IsNull :: "'a CBlockOldHeader_scheme \<Rightarrow> bool" where
  "header_IsNull b \<longleftrightarrow> bh_nBits b = 0"

(* src/src/primitives/block.h:98-101 CBlockOldHeader::GetBlockTime *)
definition GetBlockTime :: "'a CBlockOldHeader_scheme \<Rightarrow> int" where
  "GetBlockTime b = uint (bh_nTime b)"

(* src/src/primitives/block.cpp:35-48 CBlockHeader::index *)
definition header_index :: "'a CBlockHeader_scheme \<Rightarrow> nat" where
  "header_index b =
     (if bh_sig1 b = [] then 0 else if bh_sig2 b = [] then 1 else if bh_sig3 b = [] then 2
      else if bh_sig4 b = [] then 3 else if bh_sig5 b = [] then 4 else 5)"

subsection \<open>Serialization\<close>

(* src/src/primitives/block.h:53-60 CBlockOldHeader::SerializationOp *)
definition header_fields :: "'a CBlockOldHeader_scheme \<Rightarrow> bytes" where
  "header_fields b =
     ser_writedata32 (bh_nVersion b) @ bh_hashPrevBlock b @ bh_hashMerkleRoot b @ ser_writedata32 (bh_nTime b)
     @ ser_writedata32 (bh_nBits b) @ bh_hashStateRoot b @ bh_hashUTXORoot b @ ser_writedata32 (bh_seed b)"

(* src/src/primitives/block.h:51-69 CBlockOldHeader::SerializationOp *)
definition Serialize_CBlockOldHeader :: "nat \<Rightarrow> 'a CBlockOldHeader_scheme \<Rightarrow> bytes" where
  "Serialize_CBlockOldHeader nType b =
     header_fields b @ (if nType AND SER_GETHASH = 0 then ser_writedata64 (bh_nNonce b) @ ser_writedata64 (bh_nNonce_ex b) else [])"

(* src/src/primitives/block.h:51-69 CBlockOldHeader::SerializationOp *)
definition Unserialize_CBlockOldHeader :: "CBlockOldHeader reader" where
  "Unserialize_CBlockOldHeader =
     rd_bind ser_readdata32 (\<lambda>v. rd_bind (stream_read 32) (\<lambda>prev. rd_bind (stream_read 32) (\<lambda>merkle.
     rd_bind ser_readdata32 (\<lambda>time. rd_bind ser_readdata32 (\<lambda>bits. rd_bind (stream_read 32) (\<lambda>state. rd_bind (stream_read 32) (\<lambda>utxo.
     rd_bind ser_readdata32 (\<lambda>sd. rd_bind ser_readdata64 (\<lambda>nonce. rd_bind ser_readdata64 (\<lambda>nonce_ex.
       rd_return \<lparr>bh_nVersion = v, bh_hashPrevBlock = prev, bh_hashMerkleRoot = merkle, bh_nTime = time, bh_nBits = bits,
         bh_hashStateRoot = state, bh_hashUTXORoot = utxo, bh_seed = sd, bh_nNonce = nonce, bh_nNonce_ex = nonce_ex\<rparr>))))))))))"

(* src/src/primitives/block.h:163-171 CBlockHeader::SerializationOp *)
definition Serialize_CBlockHeader :: "nat \<Rightarrow> 'a CBlockHeader_scheme \<Rightarrow> bytes" where
  "Serialize_CBlockHeader nType b =
     Serialize_CBlockOldHeader nType b @ Serialize_string (bh_sig1 b) @ Serialize_string (bh_sig2 b) @ Serialize_string (bh_sig3 b)
     @ Serialize_string (bh_sig4 b) @ Serialize_string (bh_sig5 b)"

(* src/src/primitives/block.h:163-171 CBlockHeader::SerializationOp *)
definition Unserialize_CBlockHeader :: "CBlockHeader reader" where
  "Unserialize_CBlockHeader =
     rd_bind Unserialize_CBlockOldHeader (\<lambda>b. rd_bind Unserialize_string (\<lambda>s1. rd_bind Unserialize_string (\<lambda>s2.
     rd_bind Unserialize_string (\<lambda>s3. rd_bind Unserialize_string (\<lambda>s4. rd_bind Unserialize_string (\<lambda>s5.
       rd_return (CBlockOldHeader.extend b (CBlockHeader.fields s1 s2 s3 s4 s5))))))))"

(* src/src/primitives/block.h:260-264 CBlock::SerializationOp *)
definition Serialize_CBlock :: "nat \<Rightarrow> nat \<Rightarrow> CBlock \<Rightarrow> bytes" where
  "Serialize_CBlock nType nVer b = Serialize_CBlockHeader nType b @ Serialize_vec (SerializeTransaction nVer) (vtx b)"

text \<open>Reading fills a fresh block, whose \<^verbatim>\<open>fChecked\<close> is false.\<close>

(* src/src/primitives/block.h:260-264 CBlock::SerializationOp *)
definition Unserialize_CBlock :: "nat \<Rightarrow> portions \<Rightarrow> nat \<Rightarrow> CBlock reader" where
  "Unserialize_CBlock step k nVer =
     rd_bind Unserialize_CBlockHeader (\<lambda>b. rd_bind (Unserialize_vec step (UnserializeTransaction k nVer)) (\<lambda>txs.
       rd_return (CBlockHeader.extend b (CBlock.fields txs False))))"

(* src/src/primitives/block.h:303-328 CBlock::GetBlockHeader *)
definition block_GetBlockHeader :: "CBlock \<Rightarrow> CBlockHeader" where
  "block_GetBlockHeader b = CBlockHeader.truncate b"

(* src/src/primitives/block.h:191-207 CBlockHeader::GetBlockOldHeader *)
definition GetBlockOldHeader :: "'a CBlockHeader_scheme \<Rightarrow> CBlockOldHeader" where
  "GetBlockOldHeader b = CBlockOldHeader.truncate b"

(* src/src/primitives/block.h:252-256 CBlock::CBlock *)
definition CBlock_of_header :: "CBlockHeader \<Rightarrow> CBlock" where
  "CBlock_of_header header = CBlockHeader.extend header (CBlock.fields [] False)"

(* src/src/primitives/block.h:266-286 CBlock::ChangeHeader *)
definition ChangeHeader :: "CBlockHeader \<Rightarrow> CBlock \<Rightarrow> CBlock" where
  "ChangeHeader header b = CBlockHeader.extend header (CBlock.fields (vtx b) (fChecked b))"

text \<open>Locators are preceded by the stream version, which a reader ignores.\<close>

(* src/src/primitives/block.h:347-353 CBlockLocator::SerializationOp *)
definition Serialize_CBlockLocator :: "nat \<Rightarrow> u32 \<Rightarrow> bytes list \<Rightarrow> bytes" where
  "Serialize_CBlockLocator nType nVer vHave =
     (if nType AND SER_GETHASH = 0 then ser_writedata32 nVer else []) @ Serialize_vec (\<lambda>h. h) vHave"

(* src/src/primitives/block.h:347-353 CBlockLocator::SerializationOp *)
definition Unserialize_CBlockLocator :: "nat \<Rightarrow> nat \<Rightarrow> bytes list reader" where
  "Unserialize_CBlockLocator step nType =
     rd_bind (if nType AND SER_GETHASH = 0 then ser_readdata32 else rd_return 0) (\<lambda>_. Unserialize_vec step (stream_read 32))"

subsection \<open>Hashes\<close>

(* src/src/version.h:12-12 PROTOCOL_VERSION *)
definition PROTOCOL_VERSION :: nat where
  "PROTOCOL_VERSION = 70016"

(* src/src/primitives/block.h:15-15 SER_WITHOUT_SIGNATURE *)
definition SER_WITHOUT_SIGNATURE :: nat where
  "SER_WITHOUT_SIGNATURE = push_bit 3 1"

(* src/src/primitives/block.cpp:14-21 CBlockOldHeader::GetHash2 *)
definition GetHash2 :: "'a CBlockOldHeader_scheme \<Rightarrow> bytes \<Rightarrow> nat \<Rightarrow> nat \<Rightarrow> bytes option" where
  "GetHash2 b hash nType nVer =
     SerializeHash [hash, ser_writedata64 (bh_nNonce b), ser_writedata64 (bh_nNonce_ex b)] nType nVer"

(* src/src/primitives/block.cpp:23-27 CBlockOldHeader::GetHash *)
definition block_GetHash :: "'a CBlockOldHeader_scheme \<Rightarrow> bytes option" where
  "block_GetHash b =
     Option.bind (SerializeHash [Serialize_CBlockOldHeader SER_GETHASH b] SER_GETHASH PROTOCOL_VERSION)
       (\<lambda>hash. GetHash2 b hash SER_GETHASH PROTOCOL_VERSION)"

(* src/src/primitives/block.cpp:29-33 CBlockOldHeader::GetHashWithoutSign *)
definition GetHashWithoutSign :: "'a CBlockOldHeader_scheme \<Rightarrow> bytes option" where
  "GetHashWithoutSign b =
     (let t = SER_GETHASH OR SER_WITHOUT_SIGNATURE
      in Option.bind (SerializeHash [Serialize_CBlockOldHeader t b] t PROTOCOL_VERSION) (\<lambda>hash. GetHash2 b hash t PROTOCOL_VERSION))"

subsection \<open>Headers, index entries and their disk form\<close>

(* src/src/chain.h:287-312 CBlockIndex::CBlockIndex(const CBlockHeader&) *)
definition CBlockIndex_of_header :: "'a CBlockHeader_scheme \<Rightarrow> CBlockIndex" where
  "CBlockIndex_of_header b =
     CBlockIndex_SetNull
       \<lparr>nVersion := bh_nVersion b, hashMerkleRoot := bh_hashMerkleRoot b, nTime := bh_nTime b, nBits := bh_nBits b,
        nNonce := bh_nNonce b, nNonce_ex := bh_nNonce_ex b, hashStateRoot := bh_hashStateRoot b, hashUTXORoot := bh_hashUTXORoot b,
        seed := bh_seed b, sig1 := bh_sig1 b, sig2 := bh_sig2 b, sig3 := bh_sig3 b, sig4 := bh_sig4 b, sig5 := bh_sig5 b\<rparr>"

definition header_of :: "'a CBlockIndex_scheme \<Rightarrow> bytes \<Rightarrow> CBlockHeader" where
  "header_of b prev =
     \<lparr>bh_nVersion = nVersion b, bh_hashPrevBlock = prev, bh_hashMerkleRoot = hashMerkleRoot b, bh_nTime = nTime b,
      bh_nBits = nBits b, bh_hashStateRoot = hashStateRoot b, bh_hashUTXORoot = hashUTXORoot b, bh_seed = seed b,
      bh_nNonce = nNonce b, bh_nNonce_ex = nNonce_ex b,
      bh_sig1 = sig1 b, bh_sig2 = sig2 b, bh_sig3 = sig3 b, bh_sig4 = sig4 b, bh_sig5 = sig5 b\<rparr>"

(* src/src/chain.h:458-458 CDiskBlockIndex::CDiskBlockIndex *)
definition prev_hash :: "heap \<Rightarrow> 'a CBlockIndex_scheme \<Rightarrow> bytes chain_result" where
  "prev_hash h b =
     (case pprev b of None \<Rightarrow> Inr (replicate 32 0)
      | Some q \<Rightarrow> (case h q of None \<Rightarrow> Inl NullDeref | Some c \<Rightarrow> Inr (phashBlock c)))"

(* src/src/chain.h:332-356 CBlockIndex::GetBlockHeader *)
definition index_GetBlockHeader :: "heap \<Rightarrow> CBlockIndex \<Rightarrow> CBlockHeader chain_result" where
  "index_GetBlockHeader h b = map_sum id (header_of b) (prev_hash h b)"

(* src/src/chain.h:448-451 CDiskBlockIndex *)
record CDiskBlockIndex = CBlockIndex +
  hashPrev :: bytes

(* src/src/chain.h:457-459 CDiskBlockIndex::CDiskBlockIndex *)
definition CDiskBlockIndex_of :: "heap \<Rightarrow> CBlockIndex \<Rightarrow> CDiskBlockIndex chain_result" where
  "CDiskBlockIndex_of h b = map_sum id (\<lambda>prev. CBlockIndex.extend b (CDiskBlockIndex.fields prev)) (prev_hash h b)"

(* src/src/chain.h:465-478 CDiskBlockIndex::SerializationOp *)
definition disk_position :: "nat \<Rightarrow> nat \<Rightarrow> CDiskBlockIndex \<Rightarrow> bytes" where
  "disk_position nType streamVersion d =
     (if nType AND SER_GETHASH = 0 then WriteVarInt streamVersion else [])
     @ WriteVarInt (nat (nHeight d)) @ WriteVarInt (unat (nStatus d)) @ WriteVarInt (unat (nTx d))
     @ (if nStatus d AND (BLOCK_HAVE_DATA OR BLOCK_HAVE_UNDO) \<noteq> 0 then WriteVarInt (nat (nFile d)) else [])
     @ (if nStatus d AND BLOCK_HAVE_DATA \<noteq> 0 then WriteVarInt (unat (nDataPos d)) else [])
     @ (if nStatus d AND BLOCK_HAVE_UNDO \<noteq> 0 then WriteVarInt (unat (nUndoPos d)) else [])
     @ WriteVarInt (unat (nMoneySupply d))"

(* src/src/chain.h:480-500 CDiskBlockIndex::SerializationOp *)
definition disk_header :: "CDiskBlockIndex \<Rightarrow> bytes" where
  "disk_header d =
     ser_writedata32 (nVersion d) @ hashPrev d @ hashMerkleRoot d @ ser_writedata32 (nTime d) @ ser_writedata32 (nBits d)
     @ hashStateRoot d @ hashUTXORoot d @ ser_writedata64 (nNonce d) @ ser_writedata64 (nNonce_ex d)
     @ nStakeModifier d @ hashProof d @ ser_writedata32 (seed d)
     @ Serialize_string (sig1 d) @ Serialize_string (sig2 d) @ Serialize_string (sig3 d) @ Serialize_string (sig4 d) @ Serialize_string (sig5 d)"

(* src/src/chain.h:463-501 CDiskBlockIndex::SerializationOp *)
definition Serialize_CDiskBlockIndex :: "nat \<Rightarrow> nat \<Rightarrow> CDiskBlockIndex \<Rightarrow> bytes" where
  "Serialize_CDiskBlockIndex nType streamVersion d = disk_position nType streamVersion d @ disk_header d"

(* src/src/chain.h:453-455 CDiskBlockIndex::CDiskBlockIndex *)
definition CDiskBlockIndex_null :: CDiskBlockIndex where
  "CDiskBlockIndex_null = CBlockIndex.extend CBlockIndex_SetNull (CDiskBlockIndex.fields (replicate 32 0))"

(* src/src/chain.h:465-478 CDiskBlockIndex::SerializationOp *)
definition read_disk_position :: "nat \<Rightarrow> CDiskBlockIndex reader" where
  "read_disk_position nType =
     rd_bind (if nType AND SER_GETHASH = 0 then ReadVarInt (2 ^ 31 - 1) else rd_return 0) (\<lambda>_.
     rd_bind (ReadVarInt (2 ^ 31 - 1)) (\<lambda>height. rd_bind (ReadVarInt (2 ^ 32 - 1)) (\<lambda>st0. rd_bind (ReadVarInt (2 ^ 32 - 1)) (\<lambda>ntx.
     let st = of_nat st0 in
     rd_bind (if st AND (BLOCK_HAVE_DATA OR BLOCK_HAVE_UNDO) \<noteq> 0 then ReadVarInt (2 ^ 31 - 1) else rd_return 0) (\<lambda>file.
     rd_bind (if st AND BLOCK_HAVE_DATA \<noteq> 0 then ReadVarInt (2 ^ 32 - 1) else rd_return 0) (\<lambda>dpos.
     rd_bind (if st AND BLOCK_HAVE_UNDO \<noteq> 0 then ReadVarInt (2 ^ 32 - 1) else rd_return 0) (\<lambda>upos.
     rd_bind (ReadVarInt (2 ^ 63 - 1)) (\<lambda>supply.
       rd_return (CDiskBlockIndex_null\<lparr>nHeight := int height, nStatus := st, nTx := of_nat ntx, nFile := int file,
         nDataPos := of_nat dpos, nUndoPos := of_nat upos, nMoneySupply := of_nat supply\<rparr>)))))))))"

(* src/src/chain.h:480-500 CDiskBlockIndex::SerializationOp *)
definition read_disk_header :: "CDiskBlockIndex \<Rightarrow> CDiskBlockIndex reader" where
  "read_disk_header d =
     rd_bind ser_readdata32 (\<lambda>v. rd_bind (stream_read 32) (\<lambda>prev. rd_bind (stream_read 32) (\<lambda>merkle.
     rd_bind ser_readdata32 (\<lambda>time. rd_bind ser_readdata32 (\<lambda>bits. rd_bind (stream_read 32) (\<lambda>state. rd_bind (stream_read 32) (\<lambda>utxo.
     rd_bind ser_readdata64 (\<lambda>nonce. rd_bind ser_readdata64 (\<lambda>nonce_ex. rd_bind (stream_read 32) (\<lambda>modifier. rd_bind (stream_read 32) (\<lambda>prf.
     rd_bind ser_readdata32 (\<lambda>sd. rd_bind Unserialize_string (\<lambda>s1. rd_bind Unserialize_string (\<lambda>s2. rd_bind Unserialize_string (\<lambda>s3.
     rd_bind Unserialize_string (\<lambda>s4. rd_bind Unserialize_string (\<lambda>s5.
       rd_return (d\<lparr>nVersion := v, hashPrev := prev, hashMerkleRoot := merkle, nTime := time, nBits := bits, hashStateRoot := state,
         hashUTXORoot := utxo, nNonce := nonce, nNonce_ex := nonce_ex, nStakeModifier := modifier, hashProof := prf, seed := sd,
         sig1 := s1, sig2 := s2, sig3 := s3, sig4 := s4, sig5 := s5\<rparr>))))))))))))))))))"

(* src/src/chain.h:463-501 CDiskBlockIndex::SerializationOp *)
definition Unserialize_CDiskBlockIndex :: "nat \<Rightarrow> CDiskBlockIndex reader" where
  "Unserialize_CDiskBlockIndex nType = rd_bind (read_disk_position nType) read_disk_header"

text \<open>The header built for the hash leaves its signatures empty.\<close>

(* src/src/chain.h:503-520 CDiskBlockIndex::GetBlockHash *)
definition disk_GetBlockHash :: "CDiskBlockIndex \<Rightarrow> bytes option" where
  "disk_GetBlockHash d =
     block_GetHash ((header_of d (hashPrev d))\<lparr>bh_sig1 := [], bh_sig2 := [], bh_sig3 := [], bh_sig4 := [], bh_sig5 := []\<rparr>)"

subsection \<open>Codecs\<close>

definition old_header_ok :: "'a CBlockOldHeader_scheme \<Rightarrow> bool" where
  "old_header_ok b \<longleftrightarrow> length (bh_hashPrevBlock b) = 32 \<and> length (bh_hashMerkleRoot b) = 32 \<and>
     length (bh_hashStateRoot b) = 32 \<and> length (bh_hashUTXORoot b) = 32"

definition header_ok :: "'a CBlockHeader_scheme \<Rightarrow> bool" where
  "header_ok b \<longleftrightarrow> old_header_ok b \<and> list_all (\<lambda>s. length s \<le> MAX_SIZE) [bh_sig1 b, bh_sig2 b, bh_sig3 b, bh_sig4 b, bh_sig5 b]"

lemma SER_GETHASH_bit: "SER_GETHASH AND SER_GETHASH \<noteq> 0" "0 AND SER_GETHASH = 0" "(SER_GETHASH OR SER_WITHOUT_SIGNATURE) AND SER_GETHASH \<noteq> 0"
  by (simp_all add: SER_GETHASH_def SER_WITHOUT_SIGNATURE_def)

interpretation old_header: canonical_codec old_header_ok "Serialize_CBlockOldHeader 0" Unserialize_CBlockOldHeader
  by unfold_locales
    (auto simp: Serialize_CBlockOldHeader_def header_fields_def Unserialize_CBlockOldHeader_def old_header_ok_def SER_GETHASH_bit rd_round rd_canon)

lemma header_extend:
  "Serialize_CBlockOldHeader t (CBlockOldHeader.extend b m) = Serialize_CBlockOldHeader t b"
  "old_header_ok (CBlockOldHeader.extend b m) = old_header_ok b"
  by (simp_all add: Serialize_CBlockOldHeader_def header_fields_def old_header_ok_def CBlockOldHeader.defs)

lemma header_truncate:
  "Serialize_CBlockOldHeader t (CBlockOldHeader.truncate b) = Serialize_CBlockOldHeader t b"
  "old_header_ok (CBlockOldHeader.truncate b) = old_header_ok b"
  by (simp_all add: Serialize_CBlockOldHeader_def header_fields_def old_header_ok_def CBlockOldHeader.defs)

interpretation header: canonical_codec header_ok "Serialize_CBlockHeader 0" Unserialize_CBlockHeader
proof unfold_locales
  show "Unserialize_CBlockHeader (Serialize_CBlockHeader 0 b @ r) = Inr (b, r)" if "header_ok b" for b :: CBlockHeader and r
  proof -
    have "Unserialize_CBlockOldHeader (Serialize_CBlockOldHeader 0 b @ r') = Inr (CBlockOldHeader.truncate b, r')" for r'
      using old_header.round [of "CBlockOldHeader.truncate b"] that by (simp add: header_ok_def header_truncate)
    then show ?thesis using that
      by (simp add: Unserialize_CBlockHeader_def Serialize_CBlockHeader_def rd_round str.round header_ok_def CBlockOldHeader.defs CBlockHeader.defs)
  qed
  show "header_ok b \<and> bs = Serialize_CBlockHeader 0 b @ r" if "Unserialize_CBlockHeader bs = Inr (b, r)" for b :: CBlockHeader and bs r
    using that
    by (auto simp: Unserialize_CBlockHeader_def Serialize_CBlockHeader_def rd_canon old_header.accepts_iff str.accepts_iff header_ok_def
        header_extend) (auto simp: CBlockOldHeader.defs CBlockHeader.defs)
qed

subsection \<open>The disk form of an index entry\<close>

interpretation varint63: canonical_codec "\<lambda>n. n \<le> 2 ^ 63 - 1" WriteVarInt "ReadVarInt (2 ^ 63 - 1)"
  by (rule canonical_codec_varint) simp

definition disk_ok :: "CDiskBlockIndex \<Rightarrow> bool" where
  "disk_ok d \<longleftrightarrow> 0 \<le> nHeight d \<and> nHeight d < 2 ^ 31 \<and> 0 \<le> nFile d \<and> nFile d < 2 ^ 31 \<and> unat (nMoneySupply d) < 2 ^ 63 \<and>
     list_all (\<lambda>x. length x = 32) [hashPrev d, hashMerkleRoot d, hashStateRoot d, hashUTXORoot d, nStakeModifier d, hashProof d] \<and>
     list_all (\<lambda>x. length x \<le> MAX_SIZE) [sig1 d, sig2 d, sig3 d, sig4 d, sig5 d]"

text \<open>What is stored of an entry: the links, the chain work and the other values that are rebuilt on loading are dropped, and so
  are file positions that the status does not announce.\<close>

definition stored :: "CDiskBlockIndex \<Rightarrow> CDiskBlockIndex" where
  "stored d = CDiskBlockIndex_null
     \<lparr>nHeight := nHeight d, nStatus := nStatus d, nTx := nTx d,
      nFile := (if nStatus d AND (BLOCK_HAVE_DATA OR BLOCK_HAVE_UNDO) \<noteq> 0 then nFile d else 0),
      nDataPos := (if nStatus d AND BLOCK_HAVE_DATA \<noteq> 0 then nDataPos d else 0),
      nUndoPos := (if nStatus d AND BLOCK_HAVE_UNDO \<noteq> 0 then nUndoPos d else 0),
      nMoneySupply := nMoneySupply d,
      nVersion := nVersion d, hashPrev := hashPrev d, hashMerkleRoot := hashMerkleRoot d, nTime := nTime d, nBits := nBits d,
      hashStateRoot := hashStateRoot d, hashUTXORoot := hashUTXORoot d, nNonce := nNonce d, nNonce_ex := nNonce_ex d,
      nStakeModifier := nStakeModifier d, hashProof := hashProof d, seed := seed d,
      sig1 := sig1 d, sig2 := sig2 d, sig3 := sig3 d, sig4 := sig4 d, sig5 := sig5 d\<rparr>"

lemma read_varints:
  "n < 2 ^ 31 \<Longrightarrow> ReadVarInt (2 ^ 31 - 1) (WriteVarInt n @ r) = Inr (n, r)"
  "ReadVarInt (2 ^ 32 - 1) (WriteVarInt (unat (w :: u32)) @ r) = Inr (unat w, r)"
  "n < 2 ^ 63 \<Longrightarrow> ReadVarInt (2 ^ 63 - 1) (WriteVarInt n @ r) = Inr (n, r)"
  using unat_bound [of w] by (simp_all add: ReadVarInt_Write)

lemma disk_position_round:
  assumes "disk_ok d" "streamVersion < 2 ^ 31"
  shows "read_disk_position 0 (disk_position 0 streamVersion d @ r) =
    Inr (CDiskBlockIndex_null
     \<lparr>nHeight := nHeight d, nStatus := nStatus d, nTx := nTx d,
      nFile := (if nStatus d AND (BLOCK_HAVE_DATA OR BLOCK_HAVE_UNDO) \<noteq> 0 then nFile d else 0),
      nDataPos := (if nStatus d AND BLOCK_HAVE_DATA \<noteq> 0 then nDataPos d else 0),
      nUndoPos := (if nStatus d AND BLOCK_HAVE_UNDO \<noteq> 0 then nUndoPos d else 0),
      nMoneySupply := nMoneySupply d\<rparr>, r)"
proof -
  let ?cond = "\<lambda>c m f w r. rd_bind (if c then ReadVarInt m else rd_return 0) f ((if c then WriteVarInt w else []) @ r)"
  have opt31: "?cond c (2 ^ 31 - 1) f n r = f (if c then n else 0) r" if "n < 2 ^ 31" for c and f :: "nat \<Rightarrow> CDiskBlockIndex reader" and n r
    using read_varints(1) [OF that, of r] by (cases c) (simp_all only: if_True if_False append_Nil rd_bind_def rd_return_def sum.case prod.case)
  have opt32: "?cond c (2 ^ 32 - 1) f (unat w) r = f (if c then unat w else 0) r" for c and f :: "nat \<Rightarrow> CDiskBlockIndex reader" and w :: u32 and r
    using read_varints(2) [of w r] by (cases c) (simp_all only: if_True if_False append_Nil rd_bind_def rd_return_def sum.case prod.case)
  have b: "nat (nHeight d) < 2 ^ 31" "nat (nFile d) < 2 ^ 31" "unat (nMoneySupply d) < 2 ^ 63"
    using assms(1) by (auto simp: disk_ok_def nat_less_iff)
  show ?thesis using assms(1)
    unfolding read_disk_position_def disk_position_def append_assoc opt31 [OF assms(2)]
    by (simp only: rd_bind_step read_varints b Let_def of_nat_unat ucast_id opt31 [OF b(2)] opt32)
       (simp add: rd_return_def disk_ok_def if_distrib [of int] if_distrib [of word_of_nat] cong: if_cong)
qed

lemma disk_header_round:
  assumes "disk_ok d"
  shows "read_disk_header e (disk_header d @ r) =
    Inr (e\<lparr>nVersion := nVersion d, hashPrev := hashPrev d, hashMerkleRoot := hashMerkleRoot d, nTime := nTime d, nBits := nBits d,
      hashStateRoot := hashStateRoot d, hashUTXORoot := hashUTXORoot d, nNonce := nNonce d, nNonce_ex := nNonce_ex d,
      nStakeModifier := nStakeModifier d, hashProof := hashProof d, seed := seed d,
      sig1 := sig1 d, sig2 := sig2 d, sig3 := sig3 d, sig4 := sig4 d, sig5 := sig5 d\<rparr>, r)"
  using assms by (simp add: read_disk_header_def disk_header_def disk_ok_def rd_round str.round)

lemma disk_round:
  assumes "disk_ok d" "streamVersion < 2 ^ 31"
  shows "Unserialize_CDiskBlockIndex 0 (Serialize_CDiskBlockIndex 0 streamVersion d @ r) = Inr (stored d, r)"
  unfolding Unserialize_CDiskBlockIndex_def Serialize_CDiskBlockIndex_def append_assoc
    rd_bind_step [of "read_disk_position 0", OF disk_position_round [OF assms]]
  by (simp add: disk_header_round [OF assms(1)] stored_def)

lemma block_hash_value: "block_GetHash b = Some (fips_sha3_256 (fips_sha3_256 (header_fields b) @ ser_writedata64 (bh_nNonce b) @ ser_writedata64 (bh_nNonce_ex b)))"
  by (simp add: block_GetHash_def GetHash2_def SerializeHash_sha3 Serialize_CBlockOldHeader_def) (simp add: SER_GETHASH_def)

lemma header_fields_inj:
  assumes "old_header_ok b" "old_header_ok b'"
    "header_fields b @ ser_writedata64 (bh_nNonce b) @ ser_writedata64 (bh_nNonce_ex b) =
     header_fields b' @ ser_writedata64 (bh_nNonce b') @ ser_writedata64 (bh_nNonce_ex b')"
  shows "CBlockOldHeader.truncate b = CBlockOldHeader.truncate b'"
proof -
  have s: "Serialize_CBlockOldHeader 0 (CBlockOldHeader.truncate c) =
      header_fields c @ ser_writedata64 (bh_nNonce c) @ ser_writedata64 (bh_nNonce_ex c)" for c :: "'c CBlockOldHeader_scheme"
    by (simp add: header_truncate(1)) (simp add: Serialize_CBlockOldHeader_def SER_GETHASH_bit)
  show ?thesis
    using old_header.prefix_free [of "CBlockOldHeader.truncate b" "CBlockOldHeader.truncate b'" "[]" "[]"] assms
    by (simp add: header_truncate(2)) (simp add: s)
qed

subsection \<open>Properties\<close>

text \<open>C30. A block is read back as it was written: all header fields with both nonces and the five signatures, and every
  transaction with its witnesses, in chunks of any positive size.\<close>
theorem block_roundtrip:
  assumes "0 < step" "portions_ok k" "header_ok b" "\<not> fChecked b" "length (vtx b) \<le> MAX_SIZE"
    and txs: "list_all (\<lambda>tx. tx_ok tx \<and> (if fAllowWitness v then vin tx \<noteq> [] \<or> vout tx = [] else \<not> HasWitness tx)) (vtx b)"
  shows "Unserialize_CBlock step k v (Serialize_CBlock 0 v b @ r) = Inr (b, r)"
proof -
  have "header_ok (CBlockHeader.truncate b)" "Serialize_CBlockHeader 0 (CBlockHeader.truncate b) = Serialize_CBlockHeader 0 b"
    using assms(3)
    by (simp_all add: header_ok_def old_header_ok_def Serialize_CBlockHeader_def Serialize_CBlockOldHeader_def header_fields_def CBlockHeader.defs)
  then have "Unserialize_CBlockHeader (Serialize_CBlockHeader 0 b @ r') = Inr (CBlockHeader.truncate b, r')" for r'
    using header.round [of "CBlockHeader.truncate b" r'] by simp
  moreover have "Unserialize_vec step (UnserializeTransaction k v) (Serialize_vec (SerializeTransaction v) (vtx b) @ r) = Inr (vtx b, r)"
    using codec.round [OF codec_vec [OF codec_transaction [OF assms(2)] assms(1)]] txs assms(5) by blast
  ultimately show ?thesis using assms(4)
    by (simp add: Unserialize_CBlock_def Serialize_CBlock_def rd_bind_step rd_return_def CBlockHeader.defs CBlock.defs)
qed

definition sample_header :: CBlockHeader where
  "sample_header = CBlockHeader_SetNull\<lparr>bh_nTime := 1542793196, bh_nBits := 0x1f00ffff, bh_nNonce := 17707, bh_sig1 := [1, 2]\<rparr>"

lemma sample_header_ok: "header_ok sample_header"
  by (simp add: sample_header_def header_ok_def old_header_ok_def CBlockHeader_SetNull_def CBlockOldHeader_SetNull_def
      CBlockOldHeader.defs CBlockHeader.defs MAX_SIZE_def)

theorem block_roundtrip_witness:
  "Unserialize_CBlock 5 \<lparr>por_in = 1, por_out = 2, por_stack = 3\<rparr> 0
     (Serialize_CBlock 0 0 ((CBlock_of_header sample_header)\<lparr>vtx := [sample_tx]\<rparr>) @ [7]) =
   Inr ((CBlock_of_header sample_header)\<lparr>vtx := [sample_tx]\<rparr>, [7])"
proof (rule block_roundtrip)
  show "header_ok ((CBlock_of_header sample_header)\<lparr>vtx := [sample_tx]\<rparr>)"
    using sample_header_ok by (simp add: header_ok_def old_header_ok_def CBlock_of_header_def CBlockHeader.defs CBlock.defs)
qed (simp_all add: portions_ok_def CBlock_of_header_def CBlockHeader.defs CBlock.defs MAX_SIZE_def fAllowWitness_versions sample_tx_ok)

text \<open>C31. The block hash is SHA3-256 applied twice, the second time to the digest of the header fields and both nonces. Equal
  inputs of both hashes mean equal headers up to the ticket signatures, and the signatures never change the hash.\<close>
theorem block_hash_commits:
  assumes "old_header_ok b" "old_header_ok b'"
  shows "block_GetHash b = Some (fips_sha3_256 (fips_sha3_256 (header_fields b) @ ser_writedata64 (bh_nNonce b) @ ser_writedata64 (bh_nNonce_ex b))) \<and>
    GetHashWithoutSign b = block_GetHash b \<and> block_GetHash (GetBlockOldHeader b) = block_GetHash b \<and>
    (header_fields b @ ser_writedata64 (bh_nNonce b) @ ser_writedata64 (bh_nNonce_ex b) =
     header_fields b' @ ser_writedata64 (bh_nNonce b') @ ser_writedata64 (bh_nNonce_ex b') \<longleftrightarrow> GetBlockOldHeader b = GetBlockOldHeader b')"
proof -
  have f: "header_fields (GetBlockOldHeader c) = header_fields c" "bh_nNonce (GetBlockOldHeader c) = bh_nNonce c"
    "bh_nNonce_ex (GetBlockOldHeader c) = bh_nNonce_ex c" for c :: "'c CBlockHeader_scheme"
    by (simp_all add: header_fields_def GetBlockOldHeader_def CBlockOldHeader.defs)
  have "GetHashWithoutSign b = block_GetHash b"
    unfolding block_hash_value
    by (simp add: GetHashWithoutSign_def Let_def GetHash2_def SerializeHash_sha3 Serialize_CBlockOldHeader_def)
       (simp add: SER_GETHASH_def SER_WITHOUT_SIGNATURE_def)
  moreover have "header_fields b @ ser_writedata64 (bh_nNonce b) @ ser_writedata64 (bh_nNonce_ex b) =
     header_fields b' @ ser_writedata64 (bh_nNonce b') @ ser_writedata64 (bh_nNonce_ex b') \<longleftrightarrow> GetBlockOldHeader b = GetBlockOldHeader b'"
    using header_fields_inj [OF assms] by (metis f GetBlockOldHeader_def)
  ultimately show ?thesis by (simp add: block_hash_value f)
qed

theorem block_hash_commits_witness:
  "block_GetHash (GetBlockOldHeader sample_header) = block_GetHash sample_header \<and>
   header_fields sample_header @ ser_writedata64 17707 @ ser_writedata64 0 =
     header_fields (sample_header\<lparr>bh_sig1 := []\<rparr>) @ ser_writedata64 17707 @ ser_writedata64 0"
  using block_hash_commits [of sample_header "sample_header\<lparr>bh_sig1 := []\<rparr>"] sample_header_ok
  by (simp add: header_ok_def old_header_ok_def GetBlockOldHeader_def CBlockOldHeader.defs)

text \<open>An index entry made from a header, linked to the entry of its predecessor, gives the header back, and after being written
  to disk and read again it still has the block hash of that header.\<close>
theorem disk_index_keeps_hash:
  assumes e: "e = (CBlockIndex_of_header b)\<lparr>pprev := q, nHeight := n, pskip := s\<rparr>"
    and prev: "prev_hash h e = Inr (bh_hashPrevBlock b)"
    and d: "CDiskBlockIndex_of h e = Inr d" "header_ok b" "0 \<le> n" "n < 2 ^ 31" "v < 2 ^ 31"
  shows "index_GetBlockHeader h e = Inr (CBlockHeader.truncate b) \<and>
    (\<exists>d'. Unserialize_CDiskBlockIndex 0 (Serialize_CDiskBlockIndex 0 v d @ r) = Inr (d', r) \<and>
      disk_GetBlockHash d' = block_GetHash b \<and> nHeight d' = n)"
proof -
  have f: "header_of e (bh_hashPrevBlock b) = CBlockHeader.truncate b"
    by (simp add: e header_of_def CBlockIndex_of_header_def CBlockHeader.defs)
  have "d = CBlockIndex.extend e (CDiskBlockIndex.fields (bh_hashPrevBlock b))"
    using d(1) prev by (simp add: CDiskBlockIndex_of_def)
  then have dd: "header_of d (hashPrev d) = CBlockHeader.truncate b" "nHeight d = n" and ok: "disk_ok d"
    using f d(2-4) by (simp_all add: header_of_def CBlockIndex.defs CDiskBlockIndex.defs disk_ok_def e
      CBlockIndex_of_header_def CBlockIndex_SetNull_def header_ok_def old_header_ok_def)
  have "disk_GetBlockHash (stored d) = block_GetHash b"
    using arg_cong [OF dd(1), of bh_nVersion] dd(1)
    by (simp add: disk_GetBlockHash_def stored_def block_hash_value header_of_def header_fields_def CBlockHeader.defs)
  moreover have "nHeight (stored d) = n" using dd(2) by (simp add: stored_def)
  ultimately show ?thesis using disk_round [OF ok d(5)] prev f by (auto simp: index_GetBlockHeader_def)
qed

theorem disk_index_keeps_hash_witness:
  "\<exists>d d'. CDiskBlockIndex_of Map.empty (CBlockIndex_of_header sample_header) = Inr d \<and>
     Unserialize_CDiskBlockIndex 0 (Serialize_CDiskBlockIndex 0 70016 d @ [3]) = Inr (d', [3]) \<and> disk_GetBlockHash d' = block_GetHash sample_header"
proof -
  let ?e = "CBlockIndex_of_header sample_header"
  have e: "?e = ?e\<lparr>pprev := None, nHeight := 0, pskip := None\<rparr>" by (simp add: CBlockIndex_of_header_def CBlockIndex_SetNull_def)
  have p: "prev_hash Map.empty ?e = Inr (bh_hashPrevBlock sample_header)"
    by (simp add: prev_hash_def CBlockIndex_of_header_def CBlockIndex_SetNull_def sample_header_def CBlockHeader_SetNull_def
        CBlockOldHeader_SetNull_def CBlockOldHeader.defs)
  then obtain d where d: "CDiskBlockIndex_of Map.empty ?e = Inr d" by (simp add: CDiskBlockIndex_of_def)
  from disk_index_keeps_hash [OF e p d sample_header_ok, of 70016 "[3]"] d show ?thesis by auto
qed

end
