(* ===== verification/Pow.thy ===== *)
theory Pow
  imports Block
begin

text \<open>
  Proof of work (\<^verbatim>\<open>src/src/pow.cpp\<close>) and the consensus parameters of the networks (\<^verbatim>\<open>src/src/chainparams.cpp\<close>). The required
  difficulty always exists and can be met; a retarget is exact while the product of target and time span fits into 256
  bits, and on the main network it may not fit.
\<close>

subsection \<open>Networks\<close>

definition uint256_of :: "nat \<Rightarrow> bytes" where
  "uint256_of n = map (\<lambda>i. of_nat (n div 256 ^ i)) [0..<32]"

(* src/src/consensus/consensus.h:27-27 COINBASE_MATURITY *)
definition COINBASE_MATURITY :: int where
  "COINBASE_MATURITY = 500"

(* src/src/chainparams.cpp:104-116 CMainParams::CMainParams *)
definition main_deployments :: "DeploymentPos \<Rightarrow> BIP9Deployment" where
  "main_deployments d =
     (case d of DEPLOYMENT_TESTDUMMY \<Rightarrow> \<lparr>bit_pos = 28, nStartTime = 1199145601, nTimeout = 1230767999\<rparr>
      | DEPLOYMENT_CSV \<Rightarrow> \<lparr>bit_pos = 0, nStartTime = 0, nTimeout = 999999999999\<rparr>
      | DEPLOYMENT_SEGWIT \<Rightarrow> \<lparr>bit_pos = 1, nStartTime = 0, nTimeout = 999999999999\<rparr>)"

text \<open>The main network leaves \<^verbatim>\<open>fPoSNoRetargeting\<close> unset, so its value is an argument.\<close>

(* src/src/chainparams.cpp:85-122 CMainParams::CMainParams *)
definition CMainParams :: "bool \<Rightarrow> Params" where
  "CMainParams unset =
     \<lparr>hashGenesisBlock = uint256_of 0x000018234c5e94f9df19e2f85b6354c0b9eff3d4b4a4a45418bc9712999d1dfc,
      nSubsidyHalvingInterval = 985500, BIP34Height = 0,
      BIP34Hash = uint256_of 0x000018234c5e94f9df19e2f85b6354c0b9eff3d4b4a4a45418bc9712999d1dfc,
      BIP65Height = 0, BIP66Height = 0, nRuleChangeActivationThreshold = 1916, nMinerConfirmationWindow = 2016,
      vDeployments = main_deployments,
      powLimit = uint256_of 0x0000ffffffffffffffffffffffffffffffffffffffffffffffffffffffffffff,
      posLimit = uint256_of 0x00000000ffffffffffffffffffffffffffffffffffffffffffffffffffffffff,
      fPowAllowMinDifficultyBlocks = False, fPowNoRetargeting = False, fPoSNoRetargeting = unset,
      nPowTargetSpacing = 2 * 5, nPowTargetTimespan = 2 * 5 * 2016,
      nMinimumChainWork = uint256_of 0xc5,
      defaultAssumeValid = uint256_of 0xbfbbfc2c3be3d4e085082aff2e4e73a4e21dbf6205bc41b84b38ffac0a8bc114,
      nLastPOWBlock = 5000, nFirstMPoSBlock = 5000 + 10 + COINBASE_MATURITY, nMPoSRewardRecipients = 10,
      nFixUTXOCacheHFHeight = 100000\<rparr>"

(* src/src/chainparams.cpp:228-263 CTestNetParams::CTestNetParams *)
definition CTestNetParams :: Params where
  "CTestNetParams = (CMainParams False)
     \<lparr>posLimit := uint256_of 0x0000ffffffffffffffffffffffffffffffffffffffffffffffffffffffffffff,
      nPowTargetTimespan := 16 * 60, nPowTargetSpacing := 2 * 64, fPowNoRetargeting := True,
      nRuleChangeActivationThreshold := 1512,
      defaultAssumeValid := uint256_of 0x39ffa0c5924550db0e75030ff8513c3145d491dff2e17b8e3ea1cea7b4662ff0,
      nFixUTXOCacheHFHeight := 84500\<rparr>"

(* src/src/chainparams.cpp:336-367 CRegTestParams::CRegTestParams *)
definition CRegTestParams :: Params where
  "CRegTestParams = CTestNetParams
     \<lparr>nSubsidyHalvingInterval := 150,
      powLimit := uint256_of 0x7fffffffffffffffffffffffffffffffffffffffffffffffffffffffffffffff,
      posLimit := uint256_of 0x7fffffffffffffffffffffffffffffffffffffffffffffffffffffffffffffff,
      fPowAllowMinDifficultyBlocks := True, fPoSNoRetargeting := True,
      nRuleChangeActivationThreshold := 108, nMinerConfirmationWindow := 144,
      vDeployments := main_deployments(DEPLOYMENT_TESTDUMMY := \<lparr>bit_pos = 28, nStartTime = 0, nTimeout = 999999999999\<rparr>),
      nMinimumChainWork := uint256_of 0, defaultAssumeValid := uint256_of 0,
      nLastPOWBlock := 0x7fffffff, nFirstMPoSBlock := 5000, nFixUTXOCacheHFHeight := 0\<rparr>"

(* src/src/chainparams.cpp:430-441 CUnitTestParams::CUnitTestParams *)
definition CUnitTestParams :: Params where
  "CUnitTestParams = CRegTestParams
     \<lparr>BIP34Height := 100000000, BIP65Height := 1351, BIP66Height := 1251, nSubsidyHalvingInterval := 750,
      nRuleChangeActivationThreshold := 558, nMinerConfirmationWindow := 744\<rparr>"

(* src/src/chainparams.cpp:451-462 CreateChainParams *)
definition CreateChainParams :: "bool \<Rightarrow> string \<Rightarrow> Params option" where
  "CreateChainParams unset chain =
     (if chain = ''main'' then Some (CMainParams unset)
      else if chain = ''test'' then Some CTestNetParams
      else if chain = ''regtest'' then Some CRegTestParams
      else if chain = ''unittest'' then Some CUnitTestParams
      else None)"

(* src/src/chainparams.cpp:66-70 CChainParams::UpdateVersionBitsParameters *)
definition UpdateVersionBitsParameters :: "DeploymentPos \<Rightarrow> int \<Rightarrow> int \<Rightarrow> Params \<Rightarrow> Params" where
  "UpdateVersionBitsParameters d start timeout p =
     p\<lparr>vDeployments := (vDeployments p)(d := (vDeployments p d)\<lparr>nStartTime := start, nTimeout := timeout\<rparr>)\<rparr>"

subsection \<open>Required work\<close>

(* src/src/chain.h:395-399 CBlockIndex::IsProofOfStake *)
definition index_IsProofOfStake :: "CBlockIndex \<Rightarrow> bool" where
  "index_IsProofOfStake b = False"

(* src/src/chain.h:389-393 CBlockIndex::IsProofOfWork *)
definition index_IsProofOfWork :: "CBlockIndex \<Rightarrow> bool" where
  "index_IsProofOfWork b = (\<not> index_IsProofOfStake b)"

(* src/src/pow.cpp:14-20 GetLastBlockIndex *)
fun GetLastBlockIndex :: "nat \<Rightarrow> heap \<Rightarrow> ptr option \<Rightarrow> bool \<Rightarrow> ptr option chain_result" where
  "GetLastBlockIndex fuel h None fProofOfStake = Inr None"
| "GetLastBlockIndex 0 h (Some p) fProofOfStake = Inl OutOfFuel"
| "GetLastBlockIndex (Suc fuel) h (Some p) fProofOfStake =
     (case h p of None \<Rightarrow> Inl NullDeref
      | Some b \<Rightarrow> if pprev b \<noteq> None \<and> index_IsProofOfStake b \<noteq> fProofOfStake
                  then GetLastBlockIndex fuel h (pprev b) fProofOfStake else Inr (Some p))"

(* src/src/pow.cpp:22-25 GetLimit *)
definition GetLimit :: "Params \<Rightarrow> bool \<Rightarrow> base_uint" where
  "GetLimit params fProofOfStake = (if fProofOfStake then UintToArith256 (posLimit params) else UintToArith256 (powLimit params))"

(* src/src/pow.cpp:75-80 CalculateNextWorkRequired *)
definition actual_spacing :: "int \<Rightarrow> int \<Rightarrow> int" where
  "actual_spacing T span =
     (let a = (if span < cdiv T 4 then cdiv T 4 else span) in if a > T * 4 then T * 4 else a)"

text \<open>The time span is a 64-bit integer; multiplying a target by it selects the 32-bit operator and truncates.\<close>

(* src/src/pow.cpp:67-92 CalculateNextWorkRequired *)
definition CalculateNextWorkRequired :: "CBlockIndex \<Rightarrow> int \<Rightarrow> Params \<Rightarrow> u32 chain_result" where
  "CalculateNextWorkRequired pindexLast nFirstBlockTime params =
     (if fPowNoRetargeting params then Inr (nBits pindexLast)
      else let nTargetTimeSpacing = nPowTargetTimespan params;
               nActualTimeSpacing = actual_spacing nTargetTimeSpacing (uint (nTime pindexLast) - nFirstBlockTime);
               bnTargetLimit = UintToArith256 (powLimit params);
               bnNew = uint_mul32 (fst (SetCompact (nBits pindexLast))) (word_of_int nActualTimeSpacing)
           in case uint_div bnNew (uint_of_u64 (word_of_int nTargetTimeSpacing)) of
                Inl e \<Rightarrow> Inl (UintError e)
              | Inr bn \<Rightarrow> map_sum UintError id
                  (GetCompact (if uint_le bn (uint_of_u64 0) \<or> uint_gt bn bnTargetLimit then bnTargetLimit else bn) False))"

(* src/src/pow.cpp:49-52 GetNextWorkRequired *)
fun last_regular_bits :: "nat \<Rightarrow> heap \<Rightarrow> int \<Rightarrow> u32 \<Rightarrow> ptr \<Rightarrow> u32 chain_result" where
  "last_regular_bits 0 h interval nTargetLimit p = Inl OutOfFuel"
| "last_regular_bits (Suc fuel) h interval nTargetLimit p =
     (case h p of None \<Rightarrow> Inl NullDeref
      | Some b \<Rightarrow> (case pprev b of
           Some q \<Rightarrow> if cmod (nHeight b) interval \<noteq> 0 \<and> nBits b = nTargetLimit then last_regular_bits fuel h interval nTargetLimit q
                     else Inr (nBits b)
         | None \<Rightarrow> Inr (nBits b)))"

text \<open>A zero interval divides by zero.\<close>

(* src/src/pow.cpp:29-64 GetNextWorkRequired *)
definition GetNextWorkRequired :: "heap \<Rightarrow> ptr \<Rightarrow> 'a CBlockOldHeader_scheme \<Rightarrow> Params \<Rightarrow> u32 chain_result" where
  "GetNextWorkRequired h pindexLast pblock params =
     (case h pindexLast of None \<Rightarrow> Inl NullDeref
      | Some b \<Rightarrow>
     (case GetCompact (UintToArith256 (powLimit params)) False of Inl e \<Rightarrow> Inl (UintError e)
      | Inr nTargetLimit \<Rightarrow>
     (case DifficultyAdjustmentInterval params of None \<Rightarrow> Inl (UintError DivisionByZero)
      | Some interval \<Rightarrow>
          if interval = 0 then Inl (UintError DivisionByZero)
          else if cmod (nHeight b + 1) interval \<noteq> 0
          then if fPowAllowMinDifficultyBlocks params
               then if GetBlockTime pblock > uint (nTime b) + nPowTargetSpacing params * 2 then Inr nTargetLimit
                    else last_regular_bits (nat (nHeight b) + 1) h interval nTargetLimit pindexLast
               else Inr (nBits b)
          else let nChangeFirst = nHeight b - (interval - 1)
               in if nChangeFirst < 0 then Inl AssertFail
                  else (case GetAncestor h pindexLast nChangeFirst of Inl e \<Rightarrow> Inl e
                        | Inr None \<Rightarrow> Inl AssertFail
                        | Inr (Some first) \<Rightarrow>
                            (case h first of None \<Rightarrow> Inl NullDeref
                             | Some f \<Rightarrow> CalculateNextWorkRequired b (uint (nTime f)) params)))))"

(* src/src/pow.cpp:94-115 CheckProofOfWork *)
definition CheckProofOfWork :: "bytes \<Rightarrow> u32 \<Rightarrow> Params \<Rightarrow> bool \<Rightarrow> bool" where
  "CheckProofOfWork hash bits params fProofOfStake =
     (let (bnTarget, fNegative, fOverflow) = SetCompact bits
      in if fNegative \<or> EqualTo bnTarget 0 \<or> fOverflow \<or> uint_gt bnTarget (UintToArith256 (powLimit params)) then False
         else if uint_gt (UintToArith256 hash) bnTarget then False
         else True)"

subsection \<open>Acceptable targets\<close>

definition bits_ok :: "Params \<Rightarrow> u32 \<Rightarrow> bool" where
  "bits_ok params c \<longleftrightarrow> 0 < valid_target c \<and> valid_target c \<le> le_val (powLimit params)"

lemma GetCompact_valid:
  assumes "uint_wf a"
  obtains c where "GetCompact a False = Inr c" "valid_target c \<le> le_val a" "(le_val a - valid_target c) * 2 ^ 15 \<le> le_val a"
proof -
  obtain c where c: "GetCompact a False = Inr c" "\<not> bit c 23" using GetCompact_spec [OF assms] by blast
  note p = GetCompact_precision [OF assms c(1)]
  obtain r neg ovf where s: "SetCompact c = (r, neg, ovf)" by (rule SetCompact_cases)
  have ovf: "\<not> ovf" using SetCompact_overflow [OF s] p(1) uint_wf_bound [OF assms] by linarith
  have neg: "\<not> neg" using s c(2) unfolding SetCompact_def Let_def Pair_inject sign_bit_iff by blast
  have "valid_target c = compact_target c" using SetCompact_exact [of c r neg] s ovf neg by (simp add: valid_target_def)
  then show ?thesis using that c(1) p by simp
qed

lemma precise_pos: "(q - v) * 2 ^ 15 \<le> q \<Longrightarrow> 0 < q \<Longrightarrow> 0 < (v :: nat)"
  by (cases "v = 0") simp_all

lemma GetCompact_bits_ok:
  assumes "length (powLimit params) = 32" "uint_wf a" "0 < le_val a" "le_val a \<le> le_val (powLimit params)"
  shows "\<exists>c. GetCompact a False = Inr c \<and> bits_ok params c"
proof -
  obtain c where "GetCompact a False = Inr c" "valid_target c \<le> le_val a" "(le_val a - valid_target c) * 2 ^ 15 \<le> le_val a"
    by (rule GetCompact_valid [OF assms(2)])
  with precise_pos [OF this(3) assms(3)] assms(4) show ?thesis by (auto simp: bits_ok_def)
qed

lemma CheckProofOfWork_bits:
  assumes "length (powLimit params) = 32" "length hash = 32"
  shows "CheckProofOfWork hash c params pos \<longleftrightarrow> bits_ok params c \<and> le_val hash \<le> valid_target c"
proof -
  obtain t neg ovf where s: "SetCompact c = (t, neg, ovf)" by (rule SetCompact_cases)
  have wf: "uint_wf t" using SetCompact_val [OF s] by simp
  show ?thesis using s wf assms
    by (auto simp: CheckProofOfWork_def bits_ok_def valid_target_def EqualTo_val uint_gt_val uint_wf_UintToArith256 UintToArith256_val)
qed

subsection \<open>Retargeting\<close>

lemma actual_spacing_range: "0 < T \<Longrightarrow> T div 4 \<le> actual_spacing T span \<and> actual_spacing T span \<le> 4 * T \<and>
    actual_spacing T span = min (4 * T) (max (T div 4) span)"
  by (auto simp: actual_spacing_def cdiv_nonneg Let_def)

text \<open>The new target before it is put into compact form, on integers.\<close>

definition new_target :: "Params \<Rightarrow> nat \<Rightarrow> nat \<Rightarrow> nat" where
  "new_target params product T =
     (let q = product div T in if q = 0 \<or> q > le_val (powLimit params) then le_val (powLimit params) else q)"

lemma CalculateNextWorkRequired_wrapped:
  assumes "length (powLimit params) = 32" "\<not> fPowNoRetargeting params" "0 < nPowTargetTimespan params" "4 * nPowTargetTimespan params < 2 ^ 32"
    and t: "t = le_val (fst (SetCompact (nBits b)))" and a: "a = nat (actual_spacing (nPowTargetTimespan params) (uint (nTime b) - first))"
  shows "\<exists>c q. CalculateNextWorkRequired b first params = Inr c \<and>
    q = new_target params (t * a mod 2 ^ 256) (nat (nPowTargetTimespan params)) \<and>
    valid_target c \<le> q \<and> (q - valid_target c) * 2 ^ 15 \<le> q"
proof -
  let ?T = "nPowTargetTimespan params" and ?lim = "UintToArith256 (powLimit params)"
  let ?a = "actual_spacing ?T (uint (nTime b) - first)"
  define n where "n = fst (SetCompact (nBits b))"
  have wf: "uint_wf n" using SetCompact_val [of "nBits b"] by (cases "SetCompact (nBits b)") (auto simp: n_def)
  have ra: "0 \<le> ?a" "?a < 2 ^ 32" using actual_spacing_range [OF assms(3), of "uint (nTime b) - first"] assms(3,4) by auto
  then have m: "unat (word_of_int ?a :: u32) = a" by (simp add: a unat_eq_nat_uint uint_word_of_int)
  have d: "le_val (uint_of_u64 (word_of_int ?T)) = nat ?T" using assms(3,4)
    by (simp add: a256.of64_val unat_eq_nat_uint uint_word_of_int)
  have mul: "le_val (uint_mul32 n (word_of_int ?a)) = t * a mod 2 ^ 256" "uint_wf (uint_mul32 n (word_of_int ?a))"
    using uint_mul32_val [OF wf] uint_wf_mul32 [OF wf] m t by (simp_all add: n_def)
  obtain bn where bn: "uint_div (uint_mul32 n (word_of_int ?a)) (uint_of_u64 (word_of_int ?T)) = Inr bn" "uint_wf bn"
      "le_val bn = (t * a mod 2 ^ 256) div nat ?T"
    using a256.quot_val [OF mul(2) a256.of64_wf, of "word_of_int ?T"] d mul(1) assms(3) by auto
  define r where "r = (if uint_le bn (uint_of_u64 0) \<or> uint_gt bn ?lim then ?lim else bn)"
  have r: "uint_wf r" "le_val r = new_target params (t * a mod 2 ^ 256) (nat ?T)"
    using bn(2,3) assms(1) a256.of64_wf [of 0] a256.of64_val [of 0]
    by (auto simp: r_def new_target_def Let_def uint_wf_UintToArith256 uint_le_val uint_gt_val UintToArith256_val)
  obtain c where "GetCompact r False = Inr c" "valid_target c \<le> le_val r" "(le_val r - valid_target c) * 2 ^ 15 \<le> le_val r"
    by (rule GetCompact_valid [OF r(1)])
  then show ?thesis using assms(2) bn(1) r(2) unfolding CalculateNextWorkRequired_def Let_def n_def [symmetric] r_def by auto
qed

lemma new_target_range: "0 < le_val (powLimit params) \<Longrightarrow> 0 < new_target params m T \<and> new_target params m T \<le> le_val (powLimit params)"
  by (simp add: new_target_def Let_def)

definition params_ok :: "Params \<Rightarrow> bool" where
  "params_ok params \<longleftrightarrow> length (powLimit params) = 32 \<and> 0 < le_val (powLimit params) \<and> 0 < nPowTargetSpacing params \<and>
     nPowTargetSpacing params \<le> nPowTargetTimespan params \<and> 4 * nPowTargetTimespan params < 2 ^ 32"

lemma params_okD:
  assumes "params_ok params"
  shows "length (powLimit params) = 32" "0 < le_val (powLimit params)" "0 < nPowTargetTimespan params" "4 * nPowTargetTimespan params < 2 ^ 32"
    "\<exists>k. DifficultyAdjustmentInterval params = Some k \<and> 0 < k"
  using assms by (auto simp: params_ok_def DifficultyAdjustmentInterval_def cdiv_nonneg pos_imp_zdiv_pos_iff)

lemma CalculateNextWorkRequired_bits_ok:
  assumes "params_ok params" "bits_ok params (nBits b)"
  shows "\<exists>c. CalculateNextWorkRequired b first params = Inr c \<and> bits_ok params c"
proof (cases "fPowNoRetargeting params")
  case False
  let ?a = "nat (actual_spacing (nPowTargetTimespan params) (uint (nTime b) - first))"
  from CalculateNextWorkRequired_wrapped [OF params_okD(1) [OF assms(1)] False params_okD(3,4) [OF assms(1)] refl refl, of b first]
  obtain c q where c: "CalculateNextWorkRequired b first params = Inr c"
    "q = new_target params (le_val (fst (SetCompact (nBits b))) * ?a mod 2 ^ 256) (nat (nPowTargetTimespan params))"
    "valid_target c \<le> q" "(q - valid_target c) * 2 ^ 15 \<le> q" by blast
  have "0 < q \<and> q \<le> le_val (powLimit params)" unfolding c(2) by (rule new_target_range [OF params_okD(2) [OF assms(1)]])
  then show ?thesis using c(1,3) precise_pos [OF c(4)] by (auto simp: bits_ok_def)
qed (use assms in \<open>simp add: CalculateNextWorkRequired_def\<close>)

lemma last_regular_bits_ok:
  assumes "tree_ok h" "\<forall>p b. h p = Some b \<longrightarrow> bits_ok params (nBits b)"
  shows "h p = Some b \<Longrightarrow> nHeight b < int fuel \<Longrightarrow> \<exists>c. last_regular_bits fuel h k limit p = Inr c \<and> bits_ok params c"
proof (induction fuel arbitrary: p b)
  case 0
  then show ?case using tree_okD(1) [OF assms(1)] by fastforce
next
  case (Suc fuel)
  show ?case
  proof (cases "pprev b")
    case None
    then show ?thesis using Suc.prems assms(2) by auto
  next
    case (Some q)
    obtain c where c: "h q = Some c" "nHeight c = nHeight b - 1" using tree_okD(3) [OF assms(1) Suc.prems(1) Some] by blast
    then show ?thesis using Suc.IH [OF c(1)] Suc.prems Some assms(2) by auto
  qed
qed

subsection \<open>Properties\<close>

text \<open>C24. \<^verbatim>\<open>CheckProofOfWork\<close> accepts a hash exactly when the compact target is neither negative nor overflowing nor zero, does not
  exceed the limit of the network, and the hash as a number does not exceed the target; the proof-of-stake argument plays no role.\<close>
theorem CheckProofOfWork_iff:
  assumes "length (powLimit params) = 32" "length hash = 32"
  shows "CheckProofOfWork hash c params pos \<longleftrightarrow>
    0 < valid_target c \<and> valid_target c \<le> le_val (powLimit params) \<and> le_val hash \<le> valid_target c"
  using CheckProofOfWork_bits [OF assms] by (simp add: bits_ok_def)

lemma le_val_uint256_of: "n < 2 ^ 256 \<Longrightarrow> le_val (uint256_of n) = n"
proof -
  have "le_val (map (\<lambda>i. of_nat (n div 256 ^ i) :: u8) [0..<k]) = n mod 256 ^ k" for k
  proof (induction k)
    case (Suc k)
    have "unat (of_nat (n div 256 ^ k) :: u8) = n div 256 ^ k mod 256" by (simp add: unat_of_nat)
    then show ?case using Suc mod_mult2_eq [of n "256 ^ k" 256] by (simp add: le_val_snoc mult.commute)
  qed simp
  moreover have "(256 :: nat) ^ 32 = 2 ^ 256" by (simp add: pow256)
  ultimately show "n < 2 ^ 256 \<Longrightarrow> le_val (uint256_of n) = n" unfolding uint256_of_def by simp
qed

lemma main_params:
  "params_ok (CMainParams u)" "le_val (powLimit (CMainParams u)) = 2 ^ 240 - 1" "length (powLimit (CMainParams u)) = 32"
  "\<not> fPowNoRetargeting (CMainParams u)" "nPowTargetTimespan (CMainParams u) = 20160"
proof -
  show l: "le_val (powLimit (CMainParams u)) = 2 ^ 240 - 1" by (simp add: CMainParams_def le_val_uint256_of)
  show "params_ok (CMainParams u)" unfolding params_ok_def l by (simp add: CMainParams_def uint256_of_def)
qed (simp_all add: CMainParams_def uint256_of_def)

lemma genesis_target: "valid_target 0x1f00ffff = 0xffff * 2 ^ 224" "le_val (fst (SetCompact 0x1f00ffff)) = 0xffff * 2 ^ 224"
proof -
  obtain t neg ovf where s: "SetCompact 0x1f00ffff = (t, neg, ovf)" by (rule SetCompact_cases)
  have c: "compact_target 0x1f00ffff = 0xffff * 2 ^ 224" by (simp add: compact_target_def compact_size_def compact_mantissa_def)
  then have "\<not> ovf" using SetCompact_overflow [OF s] by simp
  moreover have "\<not> neg" using s by (auto simp: SetCompact_def Let_def)
  moreover have "le_val t = 0xffff * 2 ^ 224" using SetCompact_val [OF s] unfolding c by simp
  ultimately show "valid_target 0x1f00ffff = 0xffff * 2 ^ 224" "le_val (fst (SetCompact 0x1f00ffff)) = 0xffff * 2 ^ 224"
    by (simp_all add: valid_target_def s)
qed

theorem CheckProofOfWork_iff_witness:
  "CheckProofOfWork (uint256_of 5) 0x1f00ffff (CMainParams False) False \<and> \<not> CheckProofOfWork (uint256_of (2 ^ 240)) 0x1f00ffff (CMainParams False) False"
  using CheckProofOfWork_iff [OF main_params(3) [of False], of "uint256_of 5" "0x1f00ffff" False]
    CheckProofOfWork_iff [OF main_params(3) [of False], of "uint256_of (2 ^ 240)" "0x1f00ffff" False]
  unfolding main_params(2) genesis_target(1) by (simp add: le_val_uint256_of) (simp add: uint256_of_def)

text \<open>C26. The required work always exists and can be met: if the bits of all indexed blocks are in range, so are the bits required
  of the next block, whatever its time, so no assertion fails, the loop for minimum-difficulty blocks ends, and a sufficiently
  small hash passes the check.\<close>
theorem GetNextWorkRequired_attainable:
  assumes "tree_ok h" "skip_ok h" "params_ok params" "\<forall>p b. h p = Some b \<longrightarrow> bits_ok params (nBits b)" "h p = Some b"
  shows "\<exists>c. GetNextWorkRequired h p block params = Inr c \<and> bits_ok params c \<and> CheckProofOfWork (replicate 32 0) c params False"
proof -
  obtain limit where l: "GetCompact (UintToArith256 (powLimit params)) False = Inr limit" "bits_ok params limit"
    using GetCompact_bits_ok [OF params_okD(1) [OF assms(3)] uint_wf_UintToArith256 [of "powLimit params"]]
      params_okD(1,2) [OF assms(3)]
    by (auto simp: UintToArith256_val)
  obtain k where k: "DifficultyAdjustmentInterval params = Some k" "0 < k" using params_okD(5) [OF assms(3)] by blast
  have h: "0 \<le> nHeight b" by (rule tree_okD(1) [OF assms(1,5)])
  have "\<exists>c. GetNextWorkRequired h p block params = Inr c \<and> bits_ok params c"
  proof (cases "cmod (nHeight b + 1) k = 0")
    case False
    then show ?thesis using l k assms(4,5) last_regular_bits_ok [OF assms(1,4,5), of "nat (nHeight b) + 1" k limit] h
      by (auto simp: GetNextWorkRequired_def)
  next
    case True
    then have "k dvd nHeight b + 1" using h k by (simp add: cmod_nonneg mod_eq_0_iff_dvd)
    then have le: "0 \<le> nHeight b - (k - 1)" using zdvd_imp_le [of k "nHeight b + 1"] h by simp
    obtain q f where q: "ancestor_at h p (nHeight b - (k - 1)) = Some q" "h q = Some f"
      by (rule ancestor_at_height [OF assms(1,5) le]) (use k(2) in \<open>auto intro: that\<close>)
    show ?thesis
      using True l k le q assms(5) CalculateNextWorkRequired_bits_ok [OF assms(3), of b "uint (nTime f)"] assms(4)
        GetAncestor_spec [OF assms(1,2,5), of "nHeight b - (k - 1)"]
      by (auto simp: GetNextWorkRequired_def)
  qed
  moreover have "le_val (replicate 32 (0 :: u8)) = 0" by (simp add: le_val_replicate_0)
  ultimately show ?thesis using CheckProofOfWork_bits [OF params_okD(1) [OF assms(3)], of "replicate 32 0"] by auto
qed

theorem GetNextWorkRequired_attainable_witness:
  "\<exists>c. GetNextWorkRequired [0 \<mapsto> CBlockIndex_of_header sample_header] 0 sample_header (CMainParams False) = Inr c \<and>
     CheckProofOfWork (replicate 32 0) c (CMainParams False) False"
proof -
  let ?h = "[0 \<mapsto> CBlockIndex_of_header sample_header]"
  have b: "nBits (CBlockIndex_of_header sample_header) = 0x1f00ffff" "pprev (CBlockIndex_of_header sample_header) = None"
    "pskip (CBlockIndex_of_header sample_header) = None" "nHeight (CBlockIndex_of_header sample_header) = 0"
    by (simp_all add: CBlockIndex_of_header_def CBlockIndex_SetNull_def sample_header_def)
  have "tree_ok ?h" "skip_ok ?h" using b by (auto simp: tree_ok_def skip_ok_def)
  moreover have "\<forall>p b. ?h p = Some b \<longrightarrow> bits_ok (CMainParams False) (nBits b)"
    using b(1) by (simp add: bits_ok_def genesis_target(1) main_params(2))
  ultimately show ?thesis
    using GetNextWorkRequired_attainable [of ?h "CMainParams False" 0 "CBlockIndex_of_header sample_header" sample_header] main_params(1)
    by auto
qed

text \<open>A retarget scales the old target by the actual time span, clamped to a quarter and four times the intended one, and caps
  it at the limit, up to the precision of the compact form, as long as the product fits into 256 bits.\<close>
theorem retarget_exact:
  assumes "params_ok params" "\<not> fPowNoRetargeting params" "bits_ok params (nBits b)"
    and T: "T = nat (nPowTargetTimespan params)"
    and a: "a = nat (min (4 * nPowTargetTimespan params) (max (nPowTargetTimespan params div 4) (uint (nTime b) - first)))"
    and fits: "valid_target (nBits b) * a < 2 ^ 256"
    and q: "q = (let x = valid_target (nBits b) * a div T in if x = 0 then le_val (powLimit params) else min x (le_val (powLimit params)))"
  shows "\<exists>c. CalculateNextWorkRequired b first params = Inr c \<and> valid_target c \<le> q \<and> (q - valid_target c) * 2 ^ 15 \<le> q"
proof -
  note p = params_okD [OF assms(1)]
  obtain t neg ovf where s: "SetCompact (nBits b) = (t, neg, ovf)" by (rule SetCompact_cases)
  then have t: "valid_target (nBits b) = le_val (fst (SetCompact (nBits b)))"
    using assms(3) by (auto simp: bits_ok_def valid_target_def split: if_splits)
  have a': "a = nat (actual_spacing (nPowTargetTimespan params) (uint (nTime b) - first))"
    using actual_spacing_range [OF p(3)] a by simp
  have "new_target params (valid_target (nBits b) * a mod 2 ^ 256) T = q"
    using fits by (auto simp: new_target_def q Let_def)
  with CalculateNextWorkRequired_wrapped [OF p(1) assms(2) p(3,4) t a'] show ?thesis unfolding T by auto
qed

theorem retarget_exact_witness:
  "\<exists>c. CalculateNextWorkRequired (CBlockIndex_of_header sample_header) 1542783196 (CMainParams False) = Inr c \<and>
     valid_target c \<le> 0xffff * 2 ^ 224 * 10000 div 20160"
proof -
  have b: "nBits (CBlockIndex_of_header sample_header) = 0x1f00ffff" "nTime (CBlockIndex_of_header sample_header) = 1542793196"
    by (simp_all add: CBlockIndex_of_header_def sample_header_def)
  have "bits_ok (CMainParams False) (nBits (CBlockIndex_of_header sample_header))"
    by (simp add: b(1) bits_ok_def genesis_target(1) main_params(2))
  from retarget_exact [OF main_params(1,4) this refl refl _ refl, of 1542783196]
  show ?thesis unfolding b genesis_target(1) main_params(2) main_params(5) by (auto simp: Let_def)
qed

text \<open>C25. On the main network the product may not fit: from the easiest target, blocks that took at least four times the intended
  time make the next target smaller, that is mining harder.\<close>

theorem retarget_wraps_on_main:
  assumes "nBits b = 0x1f00ffff" "uint (nTime b) - first \<ge> 80640"
  shows "\<exists>c. CalculateNextWorkRequired b first (CMainParams u) = Inr c \<and> valid_target c < valid_target (nBits b)"
proof -
  have a: "nat (actual_spacing (nPowTargetTimespan (CMainParams u)) (uint (nTime b) - first)) = 80640"
    using actual_spacing_range [of 20160 "uint (nTime b) - first"] assms(2) by (simp add: main_params)
  let ?q = "new_target (CMainParams u) (0xffff * 2 ^ 224 * 80640 mod 2 ^ 256) (nat (nPowTargetTimespan (CMainParams u)))"
  obtain c where c: "CalculateNextWorkRequired b first (CMainParams u) = Inr c" "valid_target c \<le> ?q"
    using CalculateNextWorkRequired_wrapped [OF main_params(3,4) params_okD(3,4) [OF main_params(1)] refl refl, of b first u]
    unfolding a assms(1) genesis_target(2) by blast
  have "?q < 0xffff * 2 ^ 224"
    unfolding new_target_def main_params(2) main_params(5) by (simp add: Let_def)
  from le_less_trans [OF c(2) this] c(1) show ?thesis unfolding assms(1) genesis_target(1) by (intro exI conjI)
qed

theorem retarget_wraps_on_main_witness:
  "\<exists>c. CalculateNextWorkRequired (CBlockIndex_of_header sample_header) 1542000000 (CMainParams False) = Inr c \<and> valid_target c < valid_target 0x1f00ffff"
proof -
  have b: "nBits (CBlockIndex_of_header sample_header) = 0x1f00ffff" "nTime (CBlockIndex_of_header sample_header) = 1542793196"
    by (simp_all add: CBlockIndex_of_header_def sample_header_def)
  have "80640 \<le> uint (nTime (CBlockIndex_of_header sample_header)) - 1542000000" unfolding b(2) by simp
  from retarget_wraps_on_main [OF b(1) this, of False] show ?thesis unfolding b(1) .
qed

end
