(* ===== verification/TxVerify.thy ===== *)
theory TxVerify
  imports Coins Standard Pow
begin

text \<open>
  The rules a transaction has to obey (\<^verbatim>\<open>src/src/consensus/tx_verify.cpp\<close>) and the verdict they are reported in
  (\<^verbatim>\<open>src/src/consensus/validation.h\<close>): lock times, signature operation counts, the checks that need no context and the
  checks against the coins a transaction spends. The texts of debug messages are left out.

  An accepted transaction has amounts in the money range and spends existing, mature coins; unless it has the shape of a
  coinstake, its outputs are worth at most its inputs.
\<close>

subsection \<open>Verdicts\<close>

(* src/src/consensus/validation.h:17-17 REJECT_INVALID *)
definition REJECT_INVALID :: u32 where
  "REJECT_INVALID = 0x10"

(* src/src/consensus/validation.h:28-32 mode_state *)
datatype mode_state = MODE_VALID | MODE_INVALID | MODE_ERROR

(* src/src/consensus/validation.h:26-37 CValidationState *)
record CValidationState =
  vs_mode :: mode_state
  nDoS :: int
  strRejectReason :: string
  chRejectCode :: u32
  corruptionPossible :: bool

(* src/src/consensus/validation.h:39-39 CValidationState::CValidationState *)
definition CValidationState_init :: CValidationState where
  "CValidationState_init =
     \<lparr>vs_mode = MODE_VALID, nDoS = 0, strRejectReason = [], chRejectCode = 0, corruptionPossible = False\<rparr>"

(* src/src/consensus/validation.h:40-53 CValidationState::DoS *)
definition state_DoS :: "int \<Rightarrow> bool \<Rightarrow> u32 \<Rightarrow> string \<Rightarrow> bool \<Rightarrow> CValidationState \<Rightarrow> bool \<times> CValidationState" where
  "state_DoS level ret chRejectCodeIn strRejectReasonIn corruptionIn st =
     (let st' = st\<lparr>chRejectCode := chRejectCodeIn, strRejectReason := strRejectReasonIn, corruptionPossible := corruptionIn\<rparr>
      in if vs_mode st = MODE_ERROR then (ret, st')
         else (ret, st'\<lparr>nDoS := nDoS st + level, vs_mode := MODE_INVALID\<rparr>))"

(* src/src/consensus/validation.h:54-58 CValidationState::Invalid *)
definition state_Invalid :: "bool \<Rightarrow> u32 \<Rightarrow> string \<Rightarrow> CValidationState \<Rightarrow> bool \<times> CValidationState" where
  "state_Invalid ret chRejectCodeIn strRejectReasonIn st = state_DoS 0 ret chRejectCodeIn strRejectReasonIn False st"

(* src/src/consensus/validation.h:59-64 CValidationState::Error *)
definition state_Error :: "string \<Rightarrow> CValidationState \<Rightarrow> bool \<times> CValidationState" where
  "state_Error strRejectReasonIn st =
     (False, (if vs_mode st = MODE_VALID then st\<lparr>strRejectReason := strRejectReasonIn\<rparr> else st)\<lparr>vs_mode := MODE_ERROR\<rparr>)"

(* src/src/consensus/validation.h:65-67 CValidationState::IsValid *)
definition state_IsValid :: "CValidationState \<Rightarrow> bool" where
  "state_IsValid st \<longleftrightarrow> vs_mode st = MODE_VALID"

(* src/src/consensus/validation.h:74-80 CValidationState::IsInvalid *)
definition state_IsInvalid :: "CValidationState \<Rightarrow> int option" where
  "state_IsInvalid st = (if vs_mode st = MODE_INVALID then Some (nDoS st) else None)"

(* src/src/consensus/consensus.h:29-29 MAX_TRANSACTION_BASE_SIZE *)
definition MAX_TRANSACTION_BASE_SIZE :: nat where
  "MAX_TRANSACTION_BASE_SIZE = 1000000"

(* src/src/consensus/consensus.h:31-31 WITNESS_SCALE_FACTOR *)
definition WITNESS_SCALE_FACTOR :: nat where
  "WITNESS_SCALE_FACTOR = 4"

(* src/src/consensus/validation.h:92-95 GetTransactionWeight *)
definition GetTransactionWeight :: "CTransaction \<Rightarrow> nat" where
  "GetTransactionWeight tx =
     length (SerializeTransaction (PROTOCOL_VERSION OR SERIALIZE_TRANSACTION_NO_WITNESS) tx) * (WITNESS_SCALE_FACTOR - 1)
     + length (SerializeTransaction PROTOCOL_VERSION tx)"

subsection \<open>Lock times\<close>

(* src/src/consensus/tx_verify.cpp:18-29 IsFinalTx *)
definition IsFinalTx :: "CTransaction \<Rightarrow> int \<Rightarrow> int \<Rightarrow> bool" where
  "IsFinalTx tx nBlockHeight nBlockTime =
     (if tx_nLockTime tx = 0 then True
      else if uint (tx_nLockTime tx) < (if uint (tx_nLockTime tx) < uint LOCKTIME_THRESHOLD then nBlockHeight else nBlockTime) then True
      else list_all (\<lambda>txin. nSequence txin = SEQUENCE_FINAL) (vin tx))"

(* src/src/consensus/consensus.h:39-39 LOCKTIME_VERIFY_SEQUENCE *)
definition LOCKTIME_VERIFY_SEQUENCE :: u32 where
  "LOCKTIME_VERIFY_SEQUENCE = push_bit 0 1"

text \<open>The heights of the spent coins have 30 bits, so that the sums below stay inside their types.\<close>

(* src/src/consensus/tx_verify.cpp:55-88 CalculateSequenceLocks *)
fun sequence_locks_loop :: "heap \<Rightarrow> ptr \<Rightarrow> (CTxIn \<times> int) list \<Rightarrow> int \<Rightarrow> int \<Rightarrow> (int list \<times> int \<times> int) chain_result" where
  "sequence_locks_loop h block [] nMinHeight nMinTime = Inr ([], nMinHeight, nMinTime)"
| "sequence_locks_loop h block ((txin, nCoinHeight) # ins) nMinHeight nMinTime =
     (if nSequence txin AND SEQUENCE_LOCKTIME_DISABLE_FLAG \<noteq> 0
      then map_sum id (\<lambda>(hs, r). (0 # hs, r)) (sequence_locks_loop h block ins nMinHeight nMinTime)
      else if nSequence txin AND SEQUENCE_LOCKTIME_TYPE_FLAG \<noteq> 0
      then case GetAncestor h block (max (nCoinHeight - 1) 0) of Inl e \<Rightarrow> Inl e
           | Inr None \<Rightarrow> Inl NullDeref
           | Inr (Some p) \<Rightarrow>
               (case GetMedianTimePast h p of Inl e \<Rightarrow> Inl e
                | Inr nCoinTime \<Rightarrow>
                    map_sum id (\<lambda>(hs, r). (nCoinHeight # hs, r))
                      (sequence_locks_loop h block ins nMinHeight
                         (max nMinTime (nCoinTime + uint (push_bit SEQUENCE_LOCKTIME_GRANULARITY (nSequence txin AND SEQUENCE_LOCKTIME_MASK)) - 1))))
      else map_sum id (\<lambda>(hs, r). (nCoinHeight # hs, r))
             (sequence_locks_loop h block ins (max nMinHeight (nCoinHeight + uint (nSequence txin AND SEQUENCE_LOCKTIME_MASK) - 1)) nMinTime))"

text \<open>The result holds the updated heights and the pair of locks.\<close>

(* src/src/consensus/tx_verify.cpp:31-91 CalculateSequenceLocks *)
definition CalculateSequenceLocks :: "heap \<Rightarrow> CTransaction \<Rightarrow> u32 \<Rightarrow> int list \<Rightarrow> ptr \<Rightarrow> (int list \<times> int \<times> int) chain_result" where
  "CalculateSequenceLocks h tx flags prevHeights block =
     (if length prevHeights \<noteq> length (vin tx) then Inl AssertFail
      else
        let fEnforceBIP68 = (tx_nVersion tx \<ge> 2 \<and> flags AND LOCKTIME_VERIFY_SEQUENCE \<noteq> 0)
        in if \<not> fEnforceBIP68 then Inr (prevHeights, - 1, - 1)
           else sequence_locks_loop h block (zip (vin tx) prevHeights) (- 1) (- 1))"

(* src/src/consensus/tx_verify.cpp:93-101 EvaluateSequenceLocks *)
definition EvaluateSequenceLocks :: "heap \<Rightarrow> ptr \<Rightarrow> int \<times> int \<Rightarrow> bool chain_result" where
  "EvaluateSequenceLocks h block lockPair =
     (case h block of None \<Rightarrow> Inl NullDeref
      | Some b \<Rightarrow>
          (case pprev b of None \<Rightarrow> Inl AssertFail
           | Some pp \<Rightarrow>
               map_sum id (\<lambda>nBlockTime. \<not> (fst lockPair \<ge> nHeight b \<or> snd lockPair \<ge> nBlockTime)) (GetMedianTimePast h pp)))"

(* src/src/consensus/tx_verify.cpp:103-106 SequenceLocks *)
definition SequenceLocks :: "heap \<Rightarrow> CTransaction \<Rightarrow> u32 \<Rightarrow> int list \<Rightarrow> ptr \<Rightarrow> (int list \<times> bool) chain_result" where
  "SequenceLocks h tx flags prevHeights block =
     (case CalculateSequenceLocks h tx flags prevHeights block of Inl e \<Rightarrow> Inl e
      | Inr (hs, lockPair) \<Rightarrow> map_sum id (Pair hs) (EvaluateSequenceLocks h block lockPair))"

subsection \<open>Signature operations\<close>

datatype txv_error = TxAssert | TxScript verify_error | TxAmount amount_error

(* src/src/consensus/tx_verify.cpp:108-120 GetLegacySigOpCount *)
definition GetLegacySigOpCount :: "CTransaction \<Rightarrow> u32" where
  "GetLegacySigOpCount tx =
     fold (\<lambda>txout nSigOps. nSigOps + GetSigOpCount False (scriptPubKey txout)) (vout tx)
       (fold (\<lambda>txin nSigOps. nSigOps + GetSigOpCount False (scriptSig txin)) (vin tx) 0)"

(* src/src/consensus/tx_verify.cpp:128-135 GetP2SHSigOpCount *)
fun P2SHSigOp_loop :: "'b CCoinsView \<Rightarrow> CTxIn list \<Rightarrow> u32 \<Rightarrow> 'b CCoinsViewCache \<Rightarrow> txv_error + 'b CCoinsViewCache \<times> u32" where
  "P2SHSigOp_loop vw [] nSigOps c = Inr (c, nSigOps)"
| "P2SHSigOp_loop vw (txin # ins) nSigOps c =
     (let (c', coin) = AccessCoin vw c (prevout txin); script = scriptPubKey (coin_out coin)
      in if Coin_IsSpent coin then Inl TxAssert
         else P2SHSigOp_loop vw ins (if IsPayToScriptHash script then nSigOps + GetSigOpCount_P2SH script (scriptSig txin) else nSigOps) c')"

(* src/src/consensus/tx_verify.cpp:122-137 GetP2SHSigOpCount *)
definition GetP2SHSigOpCount :: "'b CCoinsView \<Rightarrow> CTransaction \<Rightarrow> 'b CCoinsViewCache \<Rightarrow> txv_error + 'b CCoinsViewCache \<times> u32" where
  "GetP2SHSigOpCount vw tx c = (if IsCoinBase tx then Inr (c, 0) else P2SHSigOp_loop vw (vin tx) 0 c)"

(* src/src/consensus/tx_verify.cpp:150-156 GetTransactionSigOpCost *)
fun WitnessSigOp_loop :: "'b CCoinsView \<Rightarrow> u32 \<Rightarrow> CTxIn list \<Rightarrow> u64 \<Rightarrow> 'b CCoinsViewCache \<Rightarrow> txv_error + 'b CCoinsViewCache \<times> u64" where
  "WitnessSigOp_loop vw flags [] nSigOps c = Inr (c, nSigOps)"
| "WitnessSigOp_loop vw flags (txin # ins) nSigOps c =
     (let (c', coin) = AccessCoin vw c (prevout txin)
      in if Coin_IsSpent coin then Inl TxAssert
         else case CountWitnessSigOps (scriptSig txin) (scriptPubKey (coin_out coin)) (Some (scriptWitness txin)) flags of
                Inl e \<Rightarrow> Inl (TxScript e)
              | Inr n \<Rightarrow> WitnessSigOp_loop vw flags ins (nSigOps + of_nat n) c')"

(* src/src/consensus/tx_verify.cpp:139-158 GetTransactionSigOpCost *)
definition GetTransactionSigOpCost :: "'b CCoinsView \<Rightarrow> CTransaction \<Rightarrow> u32 \<Rightarrow> 'b CCoinsViewCache \<Rightarrow> txv_error + 'b CCoinsViewCache \<times> int" where
  "GetTransactionSigOpCost vw tx flags c =
     (let legacy = ucast (GetLegacySigOpCount tx * of_nat WITNESS_SCALE_FACTOR) :: u64
      in if IsCoinBase tx then Inr (c, sint legacy)
         else case (if has_flag flags SCRIPT_VERIFY_P2SH
                    then map_sum id (\<lambda>(c', n). (c', legacy + ucast (n * of_nat WITNESS_SCALE_FACTOR))) (GetP2SHSigOpCount vw tx c)
                    else Inr (c, legacy)) of
                Inl e \<Rightarrow> Inl e
              | Inr (c', nSigOps) \<Rightarrow> map_sum id (\<lambda>(c'', n). (c'', sint n)) (WitnessSigOp_loop vw flags (vin tx) nSigOps c'))"

subsection \<open>Checks without context\<close>

text \<open>The sum of the outputs is compared after each addition of two amounts inside the money range, so it never leaves its type.
  Whether the solver succeeds does not depend on the type it is handed; \<open>past\<close> is the byte behind an empty script.\<close>

(* src/src/consensus/tx_verify.cpp:186-222 CheckTransaction *)
fun check_outputs :: "u8 \<Rightarrow> CTransaction \<Rightarrow> CTxOut list \<Rightarrow> int \<Rightarrow> string option" where
  "check_outputs past tx [] nValueOut = None"
| "check_outputs past tx (txout # outs) nValueOut =
     (let v = sint (nValue txout)
      in if CTxOut_IsEmpty txout \<and> \<not> IsCoinBase tx \<and> \<not> IsCoinStake tx then Some ''bad-txns-vout-empty''
         else if v < 0 then Some ''bad-txns-vout-negative''
         else if v > MAX_MONEY then Some ''bad-txns-vout-toolarge''
         else if \<not> MoneyRange (nValueOut + v) then Some ''bad-txns-txouttotal-toolarge''
         else if (HasOpCall (scriptPubKey txout) \<or> HasOpCreate (scriptPubKey txout)) \<and>
                 \<not> fst (Solver past True TX_NONSTANDARD (scriptPubKey txout)) then Some ''bad-txns-contract-nonstandard''
         else check_outputs past tx outs (nValueOut + v))"

(* src/src/consensus/tx_verify.cpp:227-232 CheckTransaction *)
fun duplicate_input :: "COutPoint set \<Rightarrow> CTxIn list \<Rightarrow> bool" where
  "duplicate_input vInOutPoints [] = False"
| "duplicate_input vInOutPoints (txin # ins) =
     (if prevout txin \<in> vInOutPoints then True else duplicate_input (insert (prevout txin) vInOutPoints) ins)"

(* src/src/consensus/tx_verify.cpp:160-253 CheckTransaction *)
definition CheckTransaction :: "u8 \<Rightarrow> nat \<Rightarrow> CTransaction \<Rightarrow> CValidationState \<Rightarrow> bool \<Rightarrow> bool \<times> CValidationState" where
  "CheckTransaction past dgpMaxBlockWeight tx st fCheckDuplicateInputs =
     (let size = length (SerializeTransaction (PROTOCOL_VERSION OR SERIALIZE_TRANSACTION_NO_WITNESS) tx);
          reject = (\<lambda>level reason. state_DoS level False REJECT_INVALID reason False st)
      in if vin tx = [] then reject 10 ''bad-txns-vin-empty''
         else if vout tx = [] then reject 10 ''bad-txns-vout-empty''
         else if size > MAX_TRANSACTION_BASE_SIZE \<or> size * WITNESS_SCALE_FACTOR > dgpMaxBlockWeight then reject 100 ''bad-txns-oversize''
         else case check_outputs past tx (vout tx) 0 of
           Some reason \<Rightarrow> reject 100 reason
         | None \<Rightarrow>
             if fCheckDuplicateInputs \<and> duplicate_input {} (vin tx) then reject 100 ''bad-txns-inputs-duplicate''
             else if IsCoinBase tx
             then if length (scriptSig (vin tx ! 0)) < 2 \<or> length (scriptSig (vin tx ! 0)) > 100 then reject 100 ''bad-cb-length''
                  else (True, st)
             else if list_ex (\<lambda>txin. COutPoint_IsNull (prevout txin)) (vin tx) then reject 10 ''bad-txns-prevout-null''
             else (True, st))"

subsection \<open>Checks against the spent coins\<close>

text \<open>The loop over the inputs gives the sum of the spent values, or the verdict of a rejection.\<close>

(* src/src/consensus/tx_verify.cpp:264-283 CheckTxInputs *)
fun tx_inputs_loop :: "'b CCoinsView \<Rightarrow> CValidationState \<Rightarrow> int \<Rightarrow> CTxIn list \<Rightarrow> int \<Rightarrow> 'b CCoinsViewCache \<Rightarrow>
    txv_error + 'b CCoinsViewCache \<times> (bool \<times> CValidationState + int)" where
  "tx_inputs_loop vw st nSpendHeight [] nValueIn c = Inr (c, Inr nValueIn)"
| "tx_inputs_loop vw st nSpendHeight (txin # ins) nValueIn c =
     (let (c', coin) = AccessCoin vw c (prevout txin); v = sint (nValue (coin_out coin))
      in if Coin_IsSpent coin then Inl TxAssert
         else if (fCoinBase coin \<or> fCoinStake coin) \<and> nSpendHeight - uint (coin_nHeight coin) < COINBASE_MATURITY
         then Inr (c', Inl (state_Invalid False REJECT_INVALID ''bad-txns-premature-spend-of-coinbase'' st))
         else if \<not> int64_range (nValueIn + v) then Inl (TxAmount SignedOverflow)
         else if \<not> MoneyRange v \<or> \<not> MoneyRange (nValueIn + v)
         then Inr (c', Inl (state_DoS 100 False REJECT_INVALID ''bad-txns-inputvalues-outofrange'' False st))
         else tx_inputs_loop vw st nSpendHeight ins (nValueIn + v) c')"

(* src/src/consensus/tx_verify.cpp:255-301 CheckTxInputs *)
definition CheckTxInputs :: "'b CCoinsView \<Rightarrow> CTransaction \<Rightarrow> CValidationState \<Rightarrow> 'b CCoinsViewCache \<Rightarrow> int \<Rightarrow>
    txv_error + 'b CCoinsViewCache \<times> bool \<times> CValidationState" where
  "CheckTxInputs vw tx st inputs nSpendHeight =
     (case HaveInputs vw inputs tx of (c, have_all) \<Rightarrow>
        if \<not> have_all then Inr (c, state_Invalid False 0 [] st)
        else case tx_inputs_loop vw st nSpendHeight (vin tx) 0 c of
          Inl e \<Rightarrow> Inl e
        | Inr (c', Inl verdict) \<Rightarrow> Inr (c', verdict)
        | Inr (c', Inr nValueIn) \<Rightarrow>
            if IsCoinStake tx then Inr (c', True, st)
            else case GetValueOut tx of Inl e \<Rightarrow> Inl (TxAmount e)
              | Inr nValueOut \<Rightarrow>
                  if nValueIn < nValueOut then Inr (c', state_DoS 100 False REJECT_INVALID ''bad-txns-in-belowout'' False st)
                  else let nTxFee = nValueIn - nValueOut
                       in if nTxFee < 0 then Inr (c', state_DoS 100 False REJECT_INVALID ''bad-txns-fee-negative'' False st)
                          else if \<not> MoneyRange (0 + nTxFee) then Inr (c', state_DoS 100 False REJECT_INVALID ''bad-txns-fee-outofrange'' False st)
                          else Inr (c', True, st))"

subsection \<open>Relative lock times\<close>

lemma lock_mask: "uint (push_bit SEQUENCE_LOCKTIME_GRANULARITY (w AND SEQUENCE_LOCKTIME_MASK)) = 512 * uint (w AND SEQUENCE_LOCKTIME_MASK)"
proof -
  have "w AND SEQUENCE_LOCKTIME_MASK \<le> SEQUENCE_LOCKTIME_MASK" by (rule word_and_le1)
  then have "uint (w AND SEQUENCE_LOCKTIME_MASK) \<le> 65535" by (simp add: word_le_def SEQUENCE_LOCKTIME_MASK_def)
  moreover have "0 \<le> uint (w AND SEQUENCE_LOCKTIME_MASK)" by simp
  ultimately have "uint (w AND SEQUENCE_LOCKTIME_MASK) * 512 mod 4294967296 = uint (w AND SEQUENCE_LOCKTIME_MASK) * 512"
    by (intro mod_pos_pos_trivial) linarith+
  then show ?thesis by (simp add: push_bit_eq_mult SEQUENCE_LOCKTIME_GRANULARITY_def uint_word_ariths mult.commute)
qed

definition median_past :: "heap \<Rightarrow> ptr \<Rightarrow> int" where
  "median_past h p = (case GetMedianTimePast h p of Inl _ \<Rightarrow> 0 | Inr m \<Rightarrow> m)"

text \<open>The rule of BIP 68 for one input: so many blocks, or so many units of 512 seconds, after the coin was created.\<close>

definition lock_met :: "heap \<Rightarrow> ptr \<Rightarrow> int \<Rightarrow> int \<Rightarrow> CTxIn \<times> int \<Rightarrow> bool" where
  "lock_met h p height time = (\<lambda>(i, coin_height).
     nSequence i AND SEQUENCE_LOCKTIME_DISABLE_FLAG \<noteq> 0 \<or>
     (if nSequence i AND SEQUENCE_LOCKTIME_TYPE_FLAG \<noteq> 0
      then median_past h (the (ancestor_at h p (max (coin_height - 1) 0))) + 512 * uint (nSequence i AND SEQUENCE_LOCKTIME_MASK) \<le> time
      else coin_height + uint (nSequence i AND SEQUENCE_LOCKTIME_MASK) \<le> height))"

lemma median_past_value:
  assumes "tree_ok h" "h p = Some b"
  shows "GetMedianTimePast h p = Inr (median_past h p)"
  using GetMedianTimePast_total [OF assms] by (auto simp: median_past_def)

lemma median_past_nonneg:
  assumes "tree_ok h" "h p = Some b"
  shows "0 \<le> median_past h p"
proof -
  have nn: "median_times h n q = Inr ts \<Longrightarrow> \<forall>t \<in> set ts. 0 \<le> t" for n q ts
    by (induction h n q arbitrary: ts rule: median_times.induct) (auto split: option.splits sum.splits simp: map_sum_def)
  obtain ts where ts: "median_times h nMedianTimeSpan (Some p) = Inr ts" "ts \<noteq> []"
    using median_times_total [OF assms, of 10] by (auto simp: nMedianTimeSpan_def eval_nat_numeral)
  then have "sort ts ! (length ts div 2) \<in> set (sort ts)" by (intro nth_mem) (simp add: div_less_dividend)
  then show ?thesis using nn [OF ts(1)] ts(1) by (simp add: median_past_def GetMedianTimePast_def)
qed

lemma sequence_locks_loop_spec:
  assumes "tree_ok h" "skip_ok h" "h p = Some b" "\<And>i ch. (i, ch) \<in> set ins \<Longrightarrow> max (ch - 1) 0 \<le> nHeight b"
  shows "\<exists>hs mh mt. sequence_locks_loop h p ins a t = Inr (hs, mh, mt) \<and>
    (\<forall>height time. mh < height \<and> mt < time \<longleftrightarrow> a < height \<and> t < time \<and> (\<forall>x \<in> set ins. lock_met h p height time x))"
  using assms(4)
proof (induction ins arbitrary: a t)
  case (Cons x ins)
  obtain i ch where x: "x = (i, ch)" by (cases x)
  let ?v = "uint (nSequence i AND SEQUENCE_LOCKTIME_MASK)"
  have le: "max (ch - 1) 0 \<le> nHeight b" using Cons.prems [of i ch] x by simp
  obtain q c where q: "ancestor_at h p (max (ch - 1) 0) = Some q" "h q = Some c"
    by (rule ancestor_at_height [OF assms(1,3) _ le]) auto
  have IH: "\<exists>hs mh mt. sequence_locks_loop h p ins a t = Inr (hs, mh, mt) \<and>
    (\<forall>height time. mh < height \<and> mt < time \<longleftrightarrow> a < height \<and> t < time \<and> (\<forall>x \<in> set ins. lock_met h p height time x))" for a t
    by (rule Cons.IH, rule Cons.prems) auto
  let ?t = "max t (median_past h q + 512 * ?v - 1)" and ?a = "max a (ch + ?v - 1)"
  have anc: "GetAncestor h p (max (ch - 1) 0) = Inr (Some q)" using GetAncestor_spec [OF assms(1-3)] q(1) by simp
  show ?case
  proof (cases "nSequence i AND SEQUENCE_LOCKTIME_DISABLE_FLAG = 0")
    case False
    obtain hs mh mt where "sequence_locks_loop h p ins a t = Inr (hs, mh, mt)"
      "\<And>height time. mh < height \<and> mt < time \<longleftrightarrow> a < height \<and> t < time \<and> (\<forall>x \<in> set ins. lock_met h p height time x)"
      using IH [of a t] by auto
    then show ?thesis using False by (simp add: x lock_met_def)
  next
    case enabled: True
    show ?thesis
    proof (cases "nSequence i AND SEQUENCE_LOCKTIME_TYPE_FLAG = 0")
      case True
      obtain hs mh mt where "sequence_locks_loop h p ins ?a t = Inr (hs, mh, mt)"
        "\<And>height time. mh < height \<and> mt < time \<longleftrightarrow> ?a < height \<and> t < time \<and> (\<forall>x \<in> set ins. lock_met h p height time x)"
        using IH [of ?a t] by auto
      moreover have "?a < height \<longleftrightarrow> a < height \<and> lock_met h p height time (i, ch)" for height time
        using True enabled by (auto simp: lock_met_def)
      ultimately show ?thesis using True enabled by (auto simp: x)
    next
      case False
      obtain hs mh mt where "sequence_locks_loop h p ins a ?t = Inr (hs, mh, mt)"
        "\<And>height time. mh < height \<and> mt < time \<longleftrightarrow> a < height \<and> ?t < time \<and> (\<forall>x \<in> set ins. lock_met h p height time x)"
        using IH [of a ?t] by auto
      moreover have "?t < time \<longleftrightarrow> t < time \<and> lock_met h p height time (i, ch)" for height time
        using False enabled q(1) by (auto simp: lock_met_def)
      ultimately show ?thesis using False enabled anc median_past_value [OF assms(1) q(2)]
        by (auto simp: x lock_mask simp del: push_bit_and)
    qed
  qed
qed simp

text \<open>C37. On a well-formed block tree the relative lock times are evaluated without failing, and they are met exactly when, for a
  transaction of version 2 or more under the flag, every input whose sequence number is not disabled comes the required number
  of blocks after its coin, or the required multiple of 512 seconds of median time.\<close>
theorem SequenceLocks_bip68:
  assumes "tree_ok h" "skip_ok h" "h p = Some b" "pprev b = Some q" "length prevHeights = length (vin tx)"
    "list_all (\<lambda>ch. max (ch - 1) 0 \<le> nHeight b) prevHeights"
  shows "\<exists>hs ok. SequenceLocks h tx flags prevHeights p = Inr (hs, ok) \<and>
    (ok \<longleftrightarrow> tx_nVersion tx < 2 \<or> flags AND LOCKTIME_VERIFY_SEQUENCE = 0 \<or>
      (\<forall>x \<in> set (zip (vin tx) prevHeights). lock_met h p (nHeight b) (median_past h q) x))"
proof -
  obtain c where q: "h q = Some c" using tree_okD(3) [OF assms(1,3,4)] by blast
  have b: "0 \<le> nHeight b" using tree_okD(1) [OF assms(1,3)] .
  have ev: "EvaluateSequenceLocks h p (mh, mt) = Inr (mh < nHeight b \<and> mt < median_past h q)" for mh mt
    using median_past_value [OF assms(1) q] assms(3,4) by (auto simp: EvaluateSequenceLocks_def)
  have le: "max (ch - 1) 0 \<le> nHeight b" if "(i, ch) \<in> set (zip (vin tx) prevHeights)" for i ch
    using assms(6) set_zip_rightD [OF that] unfolding list_all_iff by (rule bspec)
  obtain hs mh mt where l: "sequence_locks_loop h p (zip (vin tx) prevHeights) (- 1) (- 1) = Inr (hs, mh, mt)"
    "\<And>height time. mh < height \<and> mt < time \<longleftrightarrow> - 1 < height \<and> - 1 < time \<and> (\<forall>x \<in> set (zip (vin tx) prevHeights). lock_met h p height time x)"
    using sequence_locks_loop_spec [where ins = "zip (vin tx) prevHeights" and a = "- 1" and t = "- 1", OF assms(1-3)] le by metis
  show ?thesis
    using l b median_past_nonneg [OF assms(1) q] assms(5) by (auto simp: SequenceLocks_def CalculateSequenceLocks_def Let_def ev not_le)
qed

theorem SequenceLocks_bip68_witness:
  "let i = \<lparr>prevout = COutPoint_null, scriptSig = [], nSequence = 2, scriptWitness = []\<rparr>;
       tx = \<lparr>tx_nVersion = 2, vin = [i], vout = [], tx_nLockTime = 0\<rparr>
   in \<exists>hs. SequenceLocks sample_heap tx 1 [0] 2 = Inr (hs, True)"
proof -
  let ?i = "\<lparr>prevout = COutPoint_null, scriptSig = [], nSequence = 2, scriptWitness = []\<rparr>"
  let ?tx = "\<lparr>tx_nVersion = 2, vin = [?i], vout = [], tx_nLockTime = 0\<rparr>"
  obtain b q where b: "sample_heap 2 = Some b" "nHeight b = 2" "pprev b = Some q"
    by (auto simp: sample_heap_at CBlockIndex_SetNull_def)
  have "lock_met sample_heap 2 2 t (?i, 0)" for t
    by (simp add: lock_met_def SEQUENCE_LOCKTIME_DISABLE_FLAG_def SEQUENCE_LOCKTIME_TYPE_FLAG_def SEQUENCE_LOCKTIME_MASK_def)
  then show ?thesis
    using SequenceLocks_bip68 [OF sample_tree_ok sample_skip_ok b(1,3), of "[0]" ?tx 1] b(2) by (auto simp: Let_def)
qed

subsection \<open>Accepted transactions\<close>

lemma state_DoS_ret [simp]: "fst (state_DoS l r code reason co st) = r" "fst (state_Invalid r code reason st) = r"
  by (simp_all add: state_DoS_def state_Invalid_def Let_def)

lemma state_DoS_verdict:
  "chRejectCode (snd (state_DoS l r code reason co st)) = code" "\<not> state_IsValid (snd (state_DoS l r code reason co st))"
  by (simp_all add: state_DoS_def state_IsValid_def Let_def)

lemma duplicate_input_iff: "duplicate_input S ins \<longleftrightarrow> \<not> distinct (map prevout ins) \<or> (\<exists>i \<in> set ins. prevout i \<in> S)"
  by (induction ins arbitrary: S) (auto intro: rev_image_eqI)

lemma check_outputs_None:
  "MoneyRange a \<Longrightarrow> check_outputs past tx outs a = None \<longleftrightarrow>
     list_all MoneyRange (amounts outs) \<and> a + sum_list (amounts outs) \<le> MAX_MONEY \<and>
     (IsNormalTx tx \<longrightarrow> \<not> list_ex CTxOut_IsEmpty outs) \<and>
     list_all (\<lambda>out. HasOpCall (scriptPubKey out) \<or> HasOpCreate (scriptPubKey out) \<longrightarrow>
       fst (Solver past True TX_NONSTANDARD (scriptPubKey out))) outs"
proof (induction outs arbitrary: a)
  case (Cons out outs)
  let ?v = "sint (nValue out)"
  have nn: "0 \<le> sum_list (amounts outs)" if "list_all MoneyRange (amounts outs)"
    using that by (intro sum_list_nonneg) (auto simp: list_all_iff MoneyRange_def)
  show ?case
  proof (cases "MoneyRange ?v \<and> MoneyRange (a + ?v)")
    case True
    then show ?thesis using Cons.IH [of "a + ?v"] by (auto simp: Let_def MoneyRange_def IsNormalTx_def add.assoc)
  next
    case False
    then have "check_outputs past tx (out # outs) a \<noteq> None" by (auto simp: Let_def MoneyRange_def)
    moreover have "\<not> (MoneyRange ?v \<and> list_all MoneyRange (amounts outs) \<and> a + (?v + sum_list (amounts outs)) \<le> MAX_MONEY)"
      using False nn Cons.prems by (auto simp: MoneyRange_def)
    ultimately show ?thesis by auto
  qed
qed (auto simp: MoneyRange_def)

definition coin_value :: "Coin \<Rightarrow> int" where
  "coin_value coin = sint (nValue (coin_out coin))"

definition mature :: "int \<Rightarrow> Coin \<Rightarrow> bool" where
  "mature nSpendHeight coin \<longleftrightarrow> (fCoinBase coin \<or> fCoinStake coin \<longrightarrow> nSpendHeight - uint (coin_nHeight coin) \<ge> COINBASE_MATURITY)"

definition coins_in_range :: "(COutPoint \<rightharpoonup> Coin) \<Rightarrow> bool" where
  "coins_in_range u \<longleftrightarrow> (\<forall>p coin. u p = Some coin \<longrightarrow> MoneyRange (coin_value coin))"

definition spent_coins :: "(COutPoint \<rightharpoonup> Coin) \<Rightarrow> CTxIn list \<Rightarrow> Coin list" where
  "spent_coins u ins = map (\<lambda>i. the (u (prevout i))) ins"

text \<open>What the loop over the inputs asks of the spent coins, with the sum of earlier inputs, and a value so large that adding it to
  a sum in the money range can leave the 64-bit integers.\<close>

definition inputs_ok :: "int \<Rightarrow> int \<Rightarrow> Coin list \<Rightarrow> bool" where
  "inputs_ok h a coins \<longleftrightarrow> list_all (mature h) coins \<and> list_all (\<lambda>coin. MoneyRange (coin_value coin)) coins \<and>
     a + sum_list (map coin_value coins) \<le> MAX_MONEY"

definition overflow_value :: "Coin \<Rightarrow> bool" where
  "overflow_value coin \<longleftrightarrow> 2 ^ 63 \<le> MAX_MONEY + coin_value coin"

lemma inputs_ok_Cons:
  assumes "MoneyRange a"
  shows "inputs_ok h a (coin # coins) \<longleftrightarrow>
    mature h coin \<and> MoneyRange (coin_value coin) \<and> MoneyRange (a + coin_value coin) \<and> inputs_ok h (a + coin_value coin) coins"
proof -
  have "0 \<le> sum_list (map coin_value coins)" if "list_all (\<lambda>coin. MoneyRange (coin_value coin)) coins"
    using that by (intro sum_list_nonneg) (auto simp: list_all_iff MoneyRange_def)
  with assms show ?thesis by (auto simp: inputs_ok_def MoneyRange_def add.assoc)
qed

lemma overflow_valueI: "MoneyRange a \<Longrightarrow> \<not> int64_range (a + coin_value coin) \<Longrightarrow> overflow_value coin"
  using sint_greater_eq [of "nValue (coin_out coin)"] by (auto simp: overflow_value_def int64_range_def MoneyRange_def coin_value_def)

text \<open>The effect of reading through a cache: entries may be added, but no coin changes.\<close>

definition same_view :: "('b \<Rightarrow> bool) \<Rightarrow> ('b \<Rightarrow> COutPoint \<Rightarrow> Coin option) \<Rightarrow> ('b \<Rightarrow> bytes) \<Rightarrow> 'b CCoinsViewCache \<Rightarrow> 'b CCoinsViewCache \<Rightarrow> bool" where
  "same_view I u bst c c' \<longleftrightarrow> cache_inv I u c' \<and> cache_utxo u c' = cache_utxo u c \<and> cache_best bst c' = cache_best bst c"

lemma same_view_refl: "cache_inv I u c \<Longrightarrow> same_view I u bst c c"
  by (simp add: same_view_def)

lemma same_view_trans: "same_view I u bst c c1 \<Longrightarrow> same_view I u bst c1 c2 \<Longrightarrow> same_view I u bst c c2"
  by (simp add: same_view_def)

context coins_view
begin

lemma HaveInputs_loop_spec:
  "cache_inv I utxo c \<Longrightarrow> HaveInputs_loop vw ins c = (c', ok) \<Longrightarrow>
     same_view I utxo best c c' \<and> (ok \<longleftrightarrow> (\<forall>i \<in> set ins. cache_utxo utxo c (prevout i) \<noteq> None))"
proof (induction ins arbitrary: c)
  case (Cons i ins)
  obtain c1 ok1 where h: "HaveCoin vw c (prevout i) = (c1, ok1)" by force
  note s = HaveCoin_spec [OF Cons.prems(1) h]
  have c1: "same_view I utxo best c c1" using s by (simp add: same_view_def)
  show ?case
  proof (cases ok1)
    case True
    then have "HaveInputs_loop vw ins c1 = (c', ok)" using Cons.prems(2) h by simp
    from Cons.IH [OF _ this] show ?thesis using s True same_view_trans [OF c1] by simp
  next
    case False
    then show ?thesis using Cons.prems(2) h s c1 by auto
  qed
qed (simp add: same_view_refl)

lemma tx_inputs_loop_spec:
  assumes "cache_inv I utxo c" "\<And>i. i \<in> set ins \<Longrightarrow> cache_utxo utxo c (prevout i) \<noteq> None" "MoneyRange a"
  shows "let coins = spent_coins (cache_utxo utxo c) ins
    in case tx_inputs_loop vw st h ins a c of
         Inl e \<Rightarrow> e = TxAmount SignedOverflow \<and> list_ex overflow_value coins
       | Inr (c', r) \<Rightarrow> same_view I utxo best c c' \<and>
           (case r of Inl v \<Rightarrow> \<not> fst v \<and> \<not> state_IsValid (snd v) \<and> \<not> inputs_ok h a coins
            | Inr s \<Rightarrow> inputs_ok h a coins \<and> s = a + sum_list (map coin_value coins))"
  using assms
proof (induction ins arbitrary: a c)
  case Nil
  then show ?case by (auto simp: same_view_refl spent_coins_def inputs_ok_def MoneyRange_def)
next
  case (Cons i ins)
  obtain coin where coin: "cache_utxo utxo c (prevout i) = Some coin" using Cons.prems(2) [of i] by auto
  obtain c1 coin' where acc: "AccessCoin vw c (prevout i) = (c1, coin')" by force
  note s = AccessCoin_spec [OF Cons.prems(1) acc]
  have eq: "coin' = coin" "\<not> Coin_IsSpent coin" using s coin by (auto split: if_splits)
  have c1: "same_view I utxo best c c1" using s by (simp add: same_view_def)
  have u1: "cache_utxo utxo c1 = cache_utxo utxo c" using s by simp
  let ?v = "coin_value coin" and ?cs = "spent_coins (cache_utxo utxo c) ins"
  have step: "tx_inputs_loop vw st h (i # ins) a c =
    (if \<not> mature h coin then Inr (c1, Inl (state_Invalid False REJECT_INVALID ''bad-txns-premature-spend-of-coinbase'' st))
     else if \<not> int64_range (a + ?v) then Inl (TxAmount SignedOverflow)
     else if \<not> MoneyRange ?v \<or> \<not> MoneyRange (a + ?v)
     then Inr (c1, Inl (state_DoS 100 False REJECT_INVALID ''bad-txns-inputvalues-outofrange'' False st))
     else tx_inputs_loop vw st h ins (a + ?v) c1)"
    using acc eq by (auto simp: Let_def mature_def coin_value_def)
  have sc: "spent_coins (cache_utxo utxo c) (i # ins) = coin # ?cs" using coin by (simp add: spent_coins_def)
  note ok = inputs_ok_Cons [OF Cons.prems(3), of h coin ?cs]
  consider (young) "\<not> mature h coin" | (over) "mature h coin" "\<not> int64_range (a + ?v)"
    | (big) "mature h coin" "int64_range (a + ?v)" "\<not> MoneyRange ?v \<or> \<not> MoneyRange (a + ?v)"
    | (go) "mature h coin" "int64_range (a + ?v)" "MoneyRange ?v" "MoneyRange (a + ?v)" by blast
  then show ?case
  proof cases
    case young
    then show ?thesis using c1 step ok by (simp add: sc Let_def state_Invalid_def state_DoS_verdict del: tx_inputs_loop.simps)
  next
    case over
    then show ?thesis using step overflow_valueI [OF Cons.prems(3) over(2)] by (simp add: sc Let_def del: tx_inputs_loop.simps)
  next
    case big
    then have "\<not> inputs_ok h a (coin # ?cs)" using ok by blast
    then show ?thesis using big c1 step by (simp add: sc Let_def state_DoS_verdict del: tx_inputs_loop.simps)
  next
    case go
    have "tx_inputs_loop vw st h (i # ins) a c = tx_inputs_loop vw st h ins (a + ?v) c1" using step go by simp
    moreover have "\<And>i. i \<in> set ins \<Longrightarrow> cache_utxo utxo c1 (prevout i) \<noteq> None" "cache_inv I utxo c1" using Cons.prems(2) s by simp_all
    ultimately show ?thesis using Cons.IH [of c1 "a + ?v"] go ok same_view_trans [OF c1] unfolding sc u1
      by (auto simp: Let_def add.assoc simp del: tx_inputs_loop.simps split: sum.splits)
  qed
qed

end

lemma MoneyRange_zero [simp]: "MoneyRange 0"
  using MAX_MONEY_fits by (simp add: MoneyRange_def)

lemma GetValueOut_in_range:
  "list_all MoneyRange (amounts (vout tx)) \<Longrightarrow> sum_list (amounts (vout tx)) \<le> MAX_MONEY \<Longrightarrow> GetValueOut tx = Inr (sum_list (amounts (vout tx)))"
  using GetValueOut_loop_sum [of 0 "vout tx" "sum_list (amounts (vout tx))"] by (simp add: GetValueOut_def)

definition base_size :: "CTransaction \<Rightarrow> nat" where
  "base_size tx = length (SerializeTransaction (PROTOCOL_VERSION OR SERIALIZE_TRANSACTION_NO_WITNESS) tx)"

definition tx_valid :: "u8 \<Rightarrow> nat \<Rightarrow> bool \<Rightarrow> CTransaction \<Rightarrow> bool" where
  "tx_valid past dgpMaxBlockWeight dup tx \<longleftrightarrow>
     vin tx \<noteq> [] \<and> vout tx \<noteq> [] \<and> base_size tx \<le> MAX_TRANSACTION_BASE_SIZE \<and> base_size tx * WITNESS_SCALE_FACTOR \<le> dgpMaxBlockWeight \<and>
     list_all MoneyRange (amounts (vout tx)) \<and> sum_list (amounts (vout tx)) \<le> MAX_MONEY \<and>
     (IsNormalTx tx \<longrightarrow> \<not> list_ex CTxOut_IsEmpty (vout tx)) \<and>
     list_all (\<lambda>out. HasOpCall (scriptPubKey out) \<or> HasOpCreate (scriptPubKey out) \<longrightarrow>
       fst (Solver past True TX_NONSTANDARD (scriptPubKey out))) (vout tx) \<and>
     (dup \<longrightarrow> distinct (map prevout (vin tx))) \<and>
     (if IsCoinBase tx then length (scriptSig (vin tx ! 0)) \<in> {2..100} else \<not> list_ex (\<lambda>i. COutPoint_IsNull (prevout i)) (vin tx))"

lemma CheckTransaction_valid: "fst (CheckTransaction past w tx st dup) \<longleftrightarrow> tx_valid past w dup tx"
proof (cases "check_outputs past tx (vout tx) 0")
  case None
  note outs = check_outputs_None [of 0 past tx "vout tx", unfolded None, simplified]
  have cb: "(\<not> IsCoinBase tx \<longrightarrow> Q) \<and> (IsCoinBase tx \<longrightarrow> P) \<longleftrightarrow> (if IsCoinBase tx then P else Q)" for P Q by simp
  have "fst (CheckTransaction past w tx st dup) \<longleftrightarrow>
    vin tx \<noteq> [] \<and> vout tx \<noteq> [] \<and> \<not> (base_size tx > MAX_TRANSACTION_BASE_SIZE \<or> base_size tx * WITNESS_SCALE_FACTOR > w) \<and>
    \<not> (dup \<and> duplicate_input {} (vin tx)) \<and>
    (if IsCoinBase tx then \<not> (length (scriptSig (vin tx ! 0)) < 2 \<or> length (scriptSig (vin tx ! 0)) > 100)
     else \<not> list_ex (\<lambda>i. COutPoint_IsNull (prevout i)) (vin tx))"
    unfolding CheckTransaction_def Let_def None base_size_def by (simp split del: if_split add: if_distrib [of fst]) simp
  also have "\<dots> \<longleftrightarrow> tx_valid past w dup tx"
    unfolding tx_valid_def using outs by (simp add: duplicate_input_iff not_less)
  finally show ?thesis .
next
  case (Some r)
  then have "\<not> tx_valid past w dup tx" using check_outputs_None [of 0 past tx "vout tx"] by (auto simp: tx_valid_def)
  then show ?thesis using Some by (simp add: CheckTransaction_def Let_def)
qed

definition verdict :: "CValidationState \<Rightarrow> bool \<times> CValidationState \<Rightarrow> bool" where
  "verdict st r \<longleftrightarrow> (if fst r then snd r = st else \<not> state_IsValid (snd r) \<and> chRejectCode (snd r) = REJECT_INVALID)"

lemma verdict_simps: "verdict st (True, st)" "verdict st (state_DoS l False REJECT_INVALID reason co st)"
  by (simp_all add: verdict_def state_DoS_verdict)

lemma CheckTransaction_verdict: "verdict st (CheckTransaction past w tx st dup)"
  unfolding CheckTransaction_def Let_def by (simp only: verdict_simps simp_thms split: if_split option.split)

text \<open>C34. A transaction passes the checks without context exactly when it has inputs and outputs, respects the size limits, all
  amounts and their sum are in the money range, only a coinbase or coinstake has empty outputs, contract outputs are standard,
  no input is spent twice (where that is checked), a coinbase has a script of 2 to 100 bytes and no other transaction has a null
  input. The sum of the outputs of an accepted transaction is then the exact one, and no exception is thrown; every rejection
  leaves a verdict that is not valid and carries the code for an invalid transaction.\<close>
theorem CheckTransaction_iff:
  "let r = CheckTransaction past w tx st dup
   in (fst r \<longleftrightarrow> tx_valid past w dup tx) \<and>
      (if fst r then snd r = st \<and> GetValueOut tx = Inr (sum_list (amounts (vout tx)))
       else \<not> state_IsValid (snd r) \<and> chRejectCode (snd r) = REJECT_INVALID)"
proof -
  have "GetValueOut tx = Inr (sum_list (amounts (vout tx)))" if "tx_valid past w dup tx"
    using that by (intro GetValueOut_in_range) (simp_all add: tx_valid_def)
  then show ?thesis using CheckTransaction_verdict [of st past w tx dup]
    by (simp add: Let_def verdict_def CheckTransaction_valid)
qed

lemma CheckTxInputs_cases:
  assumes "coins_view vw I utxo best" "cache_inv I utxo c" "fst (CheckTransaction past w tx st0 dup)" "\<not> IsCoinBase tx"
  shows "let u = cache_utxo utxo c; coins = spent_coins u (vin tx)
    in case CheckTxInputs vw tx st c h of
         Inl e \<Rightarrow> e = TxAmount SignedOverflow \<and> (\<forall>i \<in> set (vin tx). u (prevout i) \<noteq> None) \<and> list_ex overflow_value coins
       | Inr (c', ok, st') \<Rightarrow> same_view I utxo best c c' \<and> (if ok then st' = st else \<not> state_IsValid st') \<and>
           (ok \<longleftrightarrow> (\<forall>i \<in> set (vin tx). u (prevout i) \<noteq> None) \<and> inputs_ok h 0 coins \<and>
              (IsCoinStake tx \<or> sum_list (amounts (vout tx)) \<le> sum_list (map coin_value coins)))"
proof -
  let ?u = "cache_utxo utxo c"
  let ?coins = "spent_coins ?u (vin tx)"
  have out: "GetValueOut tx = Inr (sum_list (amounts (vout tx)))" "0 \<le> sum_list (amounts (vout tx))"
    using assms(3) GetValueOut_in_range [of tx] unfolding CheckTransaction_valid
    by (auto simp: tx_valid_def list_all_iff MoneyRange_def intro!: sum_list_nonneg)
  obtain c1 have_all where h: "HaveInputs vw c tx = (c1, have_all)" by force
  then have "HaveInputs_loop vw (vin tx) c = (c1, have_all)" using assms(4) by (simp add: HaveInputs_def)
  note hs = coins_view.HaveInputs_loop_spec [OF assms(1,2) this]
  show ?thesis
  proof (cases have_all)
    case False
    then show ?thesis using h hs by (auto simp: CheckTxInputs_def state_Invalid_def state_DoS_def state_IsValid_def Let_def)
  next
    case True
    have c1: "cache_inv I utxo c1" "cache_utxo utxo c1 = ?u" "same_view I utxo best c c1" using hs by (simp_all add: same_view_def)
    have ins: "cache_utxo utxo c1 (prevout i) \<noteq> None" if "i \<in> set (vin tx)" for i using hs True that c1(2) by simp
    note l = coins_view.tx_inputs_loop_spec [where st = st and h = h and ins = "vin tx", OF assms(1) c1(1) ins MoneyRange_zero, unfolded c1(2) Let_def]
    show ?thesis
    proof (cases "tx_inputs_loop vw st h (vin tx) 0 c1")
      case (Inl e)
      then show ?thesis using h hs True l by (simp add: CheckTxInputs_def Let_def)
    next
      case (Inr p)
      obtain c2 r where p: "p = (c2, r)" by (cases p)
      have c2: "same_view I utxo best c c2" using same_view_trans [OF c1(3)] l Inr p by simp
      show ?thesis
      proof (cases r)
        case (Inl v)
        then show ?thesis using h True l Inr p c2 \<open>tx_inputs_loop vw st h (vin tx) 0 c1 = Inr p\<close>
          by (cases v) (auto simp: CheckTxInputs_def Let_def)
      next
        case (Inr s)
        then have ok: "inputs_ok h 0 ?coins" "s = sum_list (map coin_value ?coins)" using l p \<open>tx_inputs_loop vw st h (vin tx) 0 c1 = Inr p\<close> by simp_all
        have "MoneyRange (s - sum_list (amounts (vout tx)))" if "sum_list (amounts (vout tx)) \<le> s"
          using that ok out(2) by (simp add: MoneyRange_def inputs_ok_def)
        then show ?thesis using h True c2 ok hs out(1) Inr p \<open>tx_inputs_loop vw st h (vin tx) 0 c1 = Inr p\<close>
          by (cases "sum_list (amounts (vout tx)) \<le> s") (auto simp: CheckTxInputs_def Let_def state_DoS_def state_IsValid_def)
      qed
    qed
  qed
qed

lemma CheckTxInputs_accepted:
  assumes "coins_view vw I utxo best" "cache_inv I utxo c" "fst (CheckTransaction past w tx st0 dup)" "\<not> IsCoinBase tx"
    "CheckTxInputs vw tx st c h = Inr (c', True, st')"
  shows "same_view I utxo best c c'" "st' = st" "\<forall>i \<in> set (vin tx). cache_utxo utxo c (prevout i) \<noteq> None"
    "inputs_ok h 0 (spent_coins (cache_utxo utxo c) (vin tx))"
    "IsCoinStake tx \<or> sum_list (amounts (vout tx)) \<le> sum_list (map coin_value (spent_coins (cache_utxo utxo c) (vin tx)))"
  using CheckTxInputs_cases [OF assms(1-4), of st h] assms(5) by (simp_all add: Let_def)

lemma CheckTxInputs_accepts:
  assumes "coins_view vw I utxo best" "cache_inv I utxo c" "fst (CheckTransaction past w tx st0 dup)" "\<not> IsCoinBase tx"
    "\<forall>i \<in> set (vin tx). cache_utxo utxo c (prevout i) \<noteq> None" "inputs_ok h 0 (spent_coins (cache_utxo utxo c) (vin tx))"
    "IsCoinStake tx \<or> sum_list (amounts (vout tx)) \<le> sum_list (map coin_value (spent_coins (cache_utxo utxo c) (vin tx)))"
  shows "\<exists>c'. CheckTxInputs vw tx st c h = Inr (c', True, st) \<and> same_view I utxo best c c'"
proof -
  have "\<not> list_ex overflow_value (spent_coins (cache_utxo utxo c) (vin tx))"
    using assms(6) MAX_MONEY_fits by (auto simp: inputs_ok_def list_ex_iff list_all_iff overflow_value_def MoneyRange_def)
  then show ?thesis using CheckTxInputs_cases [OF assms(1-4), of st h] assms(5-7) by (auto simp: Let_def split: sum.splits)
qed

text \<open>C33. For a transaction that passed the checks without context, checking the inputs never fails an assertion or throws, and
  changes no coin. It accepts exactly when all inputs are unspent coins that are mature, the value of each and their sum are in
  the money range, and, unless the transaction has the shape of a coinstake, the outputs are worth at most the inputs. The
  64-bit sum overflows only if one of the coins is worth more than \<open>2 ^ 63 - 1\<close> less the money limit, far out of the money
  range.\<close>
theorem CheckTxInputs_iff:
  assumes "coins_view vw I utxo best" "cache_inv I utxo c" "fst (CheckTransaction past w tx st0 dup)" "\<not> IsCoinBase tx"
  shows "let coins = spent_coins (cache_utxo utxo c) (vin tx)
    in case CheckTxInputs vw tx st c h of
         Inl e \<Rightarrow> e = TxAmount SignedOverflow \<and> (\<forall>i \<in> set (vin tx). cache_utxo utxo c (prevout i) \<noteq> None) \<and>
           (\<exists>coin \<in> set coins. 2 ^ 63 - 1 - MAX_MONEY < coin_value coin)
       | Inr (c', ok, st') \<Rightarrow> same_view I utxo best c c' \<and> (if ok then st' = st else \<not> state_IsValid st') \<and>
           (ok \<longleftrightarrow> (\<forall>i \<in> set (vin tx). cache_utxo utxo c (prevout i) \<noteq> None) \<and>
              list_all (mature h) coins \<and> list_all (\<lambda>coin. MoneyRange (coin_value coin)) coins \<and> sum_list (map coin_value coins) \<le> MAX_MONEY \<and>
              (IsCoinStake tx \<or> sum_list (amounts (vout tx)) \<le> sum_list (map coin_value coins)))"
proof -
  have o: "list_ex overflow_value coins \<longleftrightarrow> (\<exists>coin \<in> set coins. 2 ^ 63 - 1 - MAX_MONEY < coin_value coin)" for coins
    unfolding list_ex_iff overflow_value_def by (intro bex_cong refl) linarith
  show ?thesis using CheckTxInputs_cases [OF assms, of st h] unfolding Let_def inputs_ok_def o add_0 conj_assoc .
qed

subsection \<open>Samples\<close>

definition sample_spent :: COutPoint where
  "sample_spent = COutPoint_null\<lparr>op_n := 5\<rparr>"

text \<open>A payment of 40 from a coin of 50.\<close>

definition sample_payment :: CTransaction where
  "sample_payment = \<lparr>tx_nVersion = 1, vin = [\<lparr>prevout = sample_spent, scriptSig = [], nSequence = 0, scriptWitness = []\<rparr>],
     vout = [\<lparr>nValue = 40, scriptPubKey = [OP_1]\<rparr>], tx_nLockTime = 0\<rparr>"

definition sample_coins :: "COutPoint \<rightharpoonup> Coin" where
  "sample_coins = [sample_spent \<mapsto> sample_coin\<lparr>fCoinBase := False\<rparr>]"

definition sample_cache :: "CCoinsViewDB CCoinsViewCache" where
  "sample_cache = CCoinsViewCache_of (sample_db\<lparr>db_coins := sample_coins\<rparr>)"

lemma sample_cache_ok: "cache_inv db_inv db_coins sample_cache" "cache_utxo db_coins sample_cache = sample_coins"
proof -
  have "\<not> Coin_IsSpent (sample_coin\<lparr>fCoinBase := False\<rparr>)" using sample_coin_unspent(1) by (simp add: Coin_IsSpent_def)
  then show "cache_inv db_inv db_coins sample_cache"
    by (auto simp: cache_inv_def sample_cache_def CCoinsViewCache_of_def db_inv_def sample_coins_def sample_db_def split: if_splits)
  show "cache_utxo db_coins sample_cache = sample_coins" by (simp add: cache_utxo_def sample_cache_def CCoinsViewCache_of_def fun_eq_iff)
qed

lemma sample_coin_value: "coin_value (sample_coin\<lparr>fCoinBase := b\<rparr>) = 50" "\<not> fCoinStake (sample_coin\<lparr>fCoinBase := b\<rparr>)"
  by (simp_all add: coin_value_def sample_coin_def Coin_of_def)

lemma sample_coins_range: "sample_coins p = Some coin \<Longrightarrow> MoneyRange (coin_value coin)"
  by (auto simp: sample_coins_def sample_coin_value MoneyRange_def MAX_MONEY_def COIN_def CENT_def split: if_splits)

lemma sample_range: "coins_in_range (cache_utxo db_coins sample_cache)"
  using sample_coins_range by (simp add: sample_cache_ok coins_in_range_def)

lemma sample_spent_not_null: "\<not> COutPoint_IsNull sample_spent"
  by (simp add: COutPoint_IsNull_def sample_spent_def COutPoint_null_def)

lemma sample_scripts: "\<not> HasOpCall []" "\<not> HasOpCreate []" "\<not> HasOpCall [OP_1]" "\<not> HasOpCreate [OP_1]"
  by (simp_all add: HasOpCall_def HasOpCreate_def Find_op.simps GetOp2_def)

lemma base_size_plain: "base_size tx = length (plain_bytes tx)"
proof -
  have "\<not> fAllowWitness (PROTOCOL_VERSION OR SERIALIZE_TRANSACTION_NO_WITNESS)"
    by (simp add: fAllowWitness_def PROTOCOL_VERSION_def SERIALIZE_TRANSACTION_NO_WITNESS_def)
  then show ?thesis by (simp add: base_size_def SerializeTransaction_forms)
qed

lemma sample_size: "base_size sample_payment \<le> 200"
  by (simp add: base_size_plain plain_bytes_def sample_payment_def Serialize_vec_def Serialize_CTxIn_def Serialize_CTxOut_def
      Serialize_COutPoint_def Serialize_prevector_def WriteCompactSize_def sample_spent_def COutPoint_null_def
      ser_writedata8_def ser_writedata32_def ser_writedata64_def)

lemma sample_valid: "tx_valid past 8000000 True sample_payment" "\<not> IsCoinBase sample_payment"
proof -
  show c: "\<not> IsCoinBase sample_payment" using sample_spent_not_null by (simp add: IsCoinBase_def sample_payment_def)
  have m: "MoneyRange 40" "40 \<le> MAX_MONEY" by (simp_all add: MoneyRange_def MAX_MONEY_def COIN_def CENT_def)
  show "tx_valid past 8000000 True sample_payment"
    using sample_size c sample_spent_not_null m unfolding tx_valid_def
    by (simp add: MAX_TRANSACTION_BASE_SIZE_def WITNESS_SCALE_FACTOR_def) (simp add: sample_payment_def sample_scripts CTxOut_IsEmpty_def)
qed

lemma sample_inputs_ok: "inputs_ok h 0 (spent_coins sample_coins (vin sample_payment))" "\<forall>i \<in> set (vin sample_payment). sample_coins (prevout i) \<noteq> None"
  "sum_list (map coin_value (spent_coins sample_coins (vin sample_payment))) = 50"
  by (simp_all add: inputs_ok_def mature_def sample_coins_def sample_payment_def spent_coins_def sample_coin_value MoneyRange_def MAX_MONEY_def COIN_def CENT_def)

theorem CheckTxInputs_iff_witness:
  "fst (CheckTransaction 0 8000000 sample_payment CValidationState_init True) \<and>
   (\<exists>c'. CheckTxInputs (db_view length 0) sample_payment CValidationState_init sample_cache 1 = Inr (c', True, CValidationState_init))"
proof -
  have v: "fst (CheckTransaction 0 8000000 sample_payment CValidationState_init True)" by (simp add: CheckTransaction_valid sample_valid)
  have "\<not> (\<exists>coin \<in> set (spent_coins sample_coins (vin sample_payment)). 2 ^ 63 - 1 - MAX_MONEY < coin_value coin)"
    by (simp add: sample_coins_def sample_payment_def spent_coins_def sample_coin_value MAX_MONEY_def COIN_def CENT_def)
  moreover have "sum_list (amounts (vout sample_payment)) = 40" by (simp add: sample_payment_def)
  ultimately show ?thesis
    using CheckTxInputs_iff [where st = CValidationState_init and h = 1, OF db.coins_view_axioms [of length 0] sample_cache_ok(1) v sample_valid(2)]
      sample_inputs_ok(1) [of 1] sample_inputs_ok(2,3) v unfolding sample_cache_ok(2) Let_def inputs_ok_def
    by (cases "CheckTxInputs (db_view length 0) sample_payment CValidationState_init sample_cache 1") auto
qed

end
