(* ===== verification/Merkle.thy ===== *)
theory Merkle
  imports Block
begin

text \<open>
  Merkle roots and branches of a block (\<^verbatim>\<open>src/src/consensus/merkle.cpp\<close>). The code computes them in constant space from an array
  of finished subtrees, one per bit of the number of leaves read; the reference is the tree built level by level, where an odd
  level repeats its last node. A test of bit \<open>level\<close> of \<^verbatim>\<open>count\<close> is written as the parity of \<open>count div 2 ^ level\<close>, which the
  loops keep as an argument. Counts are natural numbers where the code has a \<^verbatim>\<open>uint32_t\<close>: rounding the count up to a power of
  two wraps there for more than \<open>2 ^ 31\<close> leaves, so the model is that of the code for lists of at most \<open>2 ^ 31\<close> hashes, far more
  than the limit on the size of a block allows.
\<close>

subsection \<open>The constant-space computation\<close>

text \<open>The bookkeeping for a branch: whether the current node covers the wanted leaf, and the siblings collected so far.\<close>

(* src/src/consensus/merkle.cpp:74-81 MerkleComputation *)
definition match_step :: "bool \<Rightarrow> bytes \<Rightarrow> bool \<Rightarrow> bytes \<Rightarrow> bool \<times> bytes list \<Rightarrow> bool \<times> bytes list" where
  "match_step pbranch inner_level at_level h = (\<lambda>(matchh, branch).
     if pbranch
     then if matchh then (True, branch @ [inner_level])
          else if at_level then (True, branch @ [h])
          else (matchh, branch)
     else (matchh, branch))"

(* src/src/consensus/merkle.cpp:73-84 MerkleComputation *)
fun leaf_loop :: "bool \<Rightarrow> (nat \<Rightarrow> bytes) \<Rightarrow> int \<Rightarrow> nat \<Rightarrow> nat \<Rightarrow> bytes \<Rightarrow> bool \<times> bytes list \<Rightarrow> bool \<Rightarrow>
    nat \<times> bytes \<times> (bool \<times> bytes list) \<times> bool" where
  "leaf_loop pbranch arr matchlevel c level h m mutated =
     (if c = 0 \<or> odd c then (level, h, m, mutated)
      else leaf_loop pbranch arr matchlevel (c div 2) (Suc level) (Hash2 (arr level) h)
             (match_step pbranch (arr level) (matchlevel = int level) h m) (mutated \<or> arr level = h))"

declare leaf_loop.simps [simp del]

(* src/src/consensus/merkle.cpp:53-63 MerkleComputation *)
record merkle_state =
  m_count :: nat
  m_inner :: "nat \<Rightarrow> bytes"
  m_mutated :: bool
  m_matchlevel :: int
  m_branch :: "bytes list"

(* src/src/consensus/merkle.cpp:66-89 MerkleComputation *)
definition add_leaf :: "bool \<Rightarrow> nat \<Rightarrow> bytes \<Rightarrow> merkle_state \<Rightarrow> merkle_state" where
  "add_leaf pbranch branchpos leaf s =
     (case leaf_loop pbranch (m_inner s) (m_matchlevel s) (m_count s + 1) 0 leaf (m_count s = branchpos, m_branch s) (m_mutated s) of
        (level, h, (matchh, branch), mutated) \<Rightarrow>
          \<lparr>m_count = m_count s + 1, m_inner = (m_inner s)(level := h), m_mutated = mutated,
           m_matchlevel = (if matchh then int level else m_matchlevel s), m_branch = branch\<rparr>)"

(* src/src/consensus/merkle.cpp:53-63 MerkleComputation *)
definition merkle_start :: merkle_state where
  "merkle_start = \<lparr>m_count = 0, m_inner = (\<lambda>_. replicate 32 0), m_mutated = False, m_matchlevel = - 1, m_branch = []\<rparr>"

(* src/src/consensus/merkle.cpp:97-99 MerkleComputation *)
fun skip_levels :: "nat \<Rightarrow> nat \<Rightarrow> nat \<times> nat" where
  "skip_levels c level = (if c = 0 \<or> odd c then (c, level) else skip_levels (c div 2) (Suc level))"

declare skip_levels.simps [simp del]

(* src/src/consensus/merkle.cpp:115-126 MerkleComputation *)
fun merge_loop :: "bool \<Rightarrow> (nat \<Rightarrow> bytes) \<Rightarrow> int \<Rightarrow> nat \<Rightarrow> nat \<Rightarrow> bytes \<Rightarrow> bool \<times> bytes list \<Rightarrow> nat \<times> nat \<times> bytes \<times> bool \<times> bytes list" where
  "merge_loop pbranch arr matchlevel c level h m =
     (if c = 0 \<or> odd c then (c, level, h, m)
      else merge_loop pbranch arr matchlevel (c div 2) (Suc level) (Hash2 (arr level) h)
             (match_step pbranch (arr level) (matchlevel = int level) h m))"

declare merge_loop.simps [simp del]

lemma merge_loop_le: "merge_loop pb arr ml c level h m = (c', level', h', m') \<Longrightarrow> c' \<le> c"
proof (induction c arbitrary: level h m rule: less_induct)
  case (less c)
  show ?case
  proof (cases "c = 0 \<or> odd c")
    case False
    then have "c div 2 < c" by simp
    with less.IH [OF this] less.prems False show ?thesis
      by (fastforce simp: merge_loop.simps [of pb arr ml c])
  qed (use less.prems in \<open>auto simp: merge_loop.simps [of pb arr ml c]\<close>)
qed

(* src/src/consensus/merkle.cpp:102-127 MerkleComputation *)
function sweep :: "bool \<Rightarrow> (nat \<Rightarrow> bytes) \<Rightarrow> int \<Rightarrow> nat \<Rightarrow> nat \<Rightarrow> bytes \<Rightarrow> bool \<times> bytes list \<Rightarrow> bytes \<times> bytes list" where
  "sweep pbranch arr matchlevel c level h m =
     (if c \<le> 1 then (h, snd m)
      else case merge_loop pbranch arr matchlevel ((c + 1) div 2) (Suc level) (Hash2 h h)
                  (fst m, if pbranch \<and> fst m then snd m @ [h] else snd m) of
             (c', level', h', m') \<Rightarrow> sweep pbranch arr matchlevel c' level' h' m')"
  by pat_completeness auto
termination
proof (relation "measure (\<lambda>(pb, arr, ml, c, level, h, m). c)", goal_cases)
  case (2 pb arr ml c level h m c' y level' z h' m')
  then have "merge_loop pb arr ml ((c + 1) div 2) (Suc level) (Hash2 h h) (fst m, if pb \<and> fst m then snd m @ [h] else snd m) = (c', level', h', m')"
    by metis
  from merge_loop_le [OF this] 2(1) show ?case by simp
qed simp

declare sweep.simps [simp del]

(* src/src/consensus/merkle.cpp:46-131 MerkleComputation *)
definition MerkleComputation :: "bytes list \<Rightarrow> nat \<Rightarrow> bool \<Rightarrow> bytes \<times> bool \<times> bytes list" where
  "MerkleComputation leaves branchpos pbranch =
     (if leaves = [] then (replicate 32 0, False, [])
      else let s = fold (add_leaf pbranch branchpos) leaves merkle_start;
               (c, level) = skip_levels (m_count s) 0;
               (h, branch) = sweep pbranch (m_inner s) (m_matchlevel s) c level (m_inner s level) (m_matchlevel s = int level, m_branch s)
           in (h, m_mutated s, branch))"

(* src/src/consensus/merkle.cpp:133-137 ComputeMerkleRoot *)
definition ComputeMerkleRoot :: "bytes list \<Rightarrow> bytes \<times> bool" where
  "ComputeMerkleRoot leaves = (case MerkleComputation leaves 0xffffffff False of (hash, mutated, _) \<Rightarrow> (hash, mutated))"

(* src/src/consensus/merkle.cpp:139-143 ComputeMerkleBranch *)
definition ComputeMerkleBranch :: "bytes list \<Rightarrow> nat \<Rightarrow> bytes list" where
  "ComputeMerkleBranch leaves position = snd (snd (MerkleComputation leaves position True))"

(* src/src/consensus/merkle.cpp:145-156 ComputeMerkleRootFromBranch *)
fun ComputeMerkleRootFromBranch :: "bytes \<Rightarrow> bytes list \<Rightarrow> nat \<Rightarrow> bytes" where
  "ComputeMerkleRootFromBranch hash [] nIndex = hash"
| "ComputeMerkleRootFromBranch hash (b # vMerkleBranch) nIndex =
     ComputeMerkleRootFromBranch (if odd nIndex then Hash2 b hash else Hash2 hash b) vMerkleBranch (nIndex div 2)"

(* src/src/consensus/merkle.cpp:158-166 BlockMerkleRoot *)
definition BlockMerkleRoot :: "CBlock \<Rightarrow> (bytes \<times> bool) option" where
  "BlockMerkleRoot block = map_option ComputeMerkleRoot (those (map tx_GetHash (vtx block)))"

text \<open>Without transactions the code writes to the first element of an empty vector.\<close>

(* src/src/consensus/merkle.cpp:168-182 BlockWitnessMerkleRoot *)
definition BlockWitnessMerkleRoot :: "CBlock \<Rightarrow> bool \<Rightarrow> (bytes \<times> bool) option" where
  "BlockWitnessMerkleRoot block fProofOfStake =
     (let k = (if fProofOfStake then 2 else 1)
      in if length (vtx block) < k then None
         else map_option (\<lambda>hs. ComputeMerkleRoot (replicate k (replicate 32 0) @ hs)) (those (map tx_GetWitnessHash (drop k (vtx block)))))"

(* src/src/consensus/merkle.cpp:184-192 BlockMerkleBranch *)
definition BlockMerkleBranch :: "CBlock \<Rightarrow> nat \<Rightarrow> bytes list option" where
  "BlockMerkleBranch block position = map_option (\<lambda>leaves. ComputeMerkleBranch leaves position) (those (map tx_GetHash (vtx block)))"

subsection \<open>The tree\<close>

fun level_up :: "('a \<Rightarrow> 'a \<Rightarrow> 'a) \<Rightarrow> 'a list \<Rightarrow> 'a list" where
  "level_up f [] = []"
| "level_up f [x] = [f x x]"
| "level_up f (x # y # xs) = f x y # level_up f xs"

lemma length_level_up: "length (level_up f xs) = (length xs + 1) div 2"
  by (induction f xs rule: level_up.induct) simp_all

text \<open>The reference: one level after the other.\<close>

function merkle_ref :: "('a \<Rightarrow> 'a \<Rightarrow> 'a) \<Rightarrow> 'a list \<Rightarrow> 'a" where
  "merkle_ref f xs = (if length xs \<le> 1 then hd xs else merkle_ref f (level_up f xs))"
  by pat_completeness auto
termination
  by (relation "measure (\<lambda>(f, xs). length xs)") (auto simp: length_level_up)

declare merkle_ref.simps [simp del]

text \<open>The same tree from the top, for a given height.\<close>

fun tree :: "('a \<Rightarrow> 'a \<Rightarrow> 'a) \<Rightarrow> nat \<Rightarrow> 'a list \<Rightarrow> 'a" where
  "tree f 0 xs = hd xs"
| "tree f (Suc l) xs =
     (if length xs \<le> 2 ^ l then f (tree f l xs) (tree f l xs)
      else f (tree f l (take (2 ^ l) xs)) (tree f l (drop (2 ^ l) xs)))"

lemma level_up_append: "even (length xs) \<Longrightarrow> level_up f (xs @ ys) = level_up f xs @ level_up f ys"
  by (induction f xs rule: level_up.induct) simp_all

lemma level_up_take_drop:
  "level_up f (take (2 * n) xs) = take n (level_up f xs) \<or> length xs < 2 * n" "level_up f (drop (2 * n) xs) = drop n (level_up f xs)"
proof -
  show "level_up f (take (2 * n) xs) = take n (level_up f xs) \<or> length xs < 2 * n"
  proof (cases "length xs < 2 * n")
    case False
    then have "even (length (take (2 * n) xs))" "length (take (2 * n) xs) = 2 * n" by simp_all
    then show ?thesis using level_up_append [of "take (2 * n) xs" f "drop (2 * n) xs"] length_level_up [of f "take (2 * n) xs"] by simp
  qed simp
  show "level_up f (drop (2 * n) xs) = drop n (level_up f xs)"
  proof (cases "length xs < 2 * n")
    case True
    then show ?thesis using length_level_up [of f xs] by simp
  next
    case False
    then have "even (length (take (2 * n) xs))" "length (take (2 * n) xs) = 2 * n" by simp_all
    then show ?thesis using level_up_append [of "take (2 * n) xs" f "drop (2 * n) xs"] length_level_up [of f "take (2 * n) xs"] by simp
  qed
qed

lemma tree_level_up: "xs \<noteq> [] \<Longrightarrow> length xs \<le> 2 ^ Suc l \<Longrightarrow> tree f (Suc l) xs = tree f l (level_up f xs)"
proof (induction l arbitrary: xs)
  case 0
  then show ?case by (cases "(f, xs)" rule: level_up.cases) auto
next
  case (Suc l)
  let ?n = "2 ^ l :: nat"
  have len: "length (level_up f xs) \<le> ?n \<longleftrightarrow> length xs \<le> 2 * ?n" using length_level_up [of f xs] by auto
  show ?case
  proof (cases "length xs \<le> 2 ^ Suc l")
    case True
    with Suc.IH [OF Suc.prems(1) True] len show ?thesis by (simp del: tree.simps(2) add: tree.simps(2) [of f "Suc l"] tree.simps(2) [of f l "level_up f xs"])
  next
    case False
    then have t: "tree f (Suc l) (take (2 * ?n) xs) = tree f l (take ?n (level_up f xs))"
      using Suc.IH [of "take (2 * ?n) xs"] level_up_take_drop(1) [where f = f and n = ?n and xs = xs] by (cases xs) (auto simp del: tree.simps(2))
    have d: "tree f (Suc l) (drop (2 * ?n) xs) = tree f l (drop ?n (level_up f xs))"
      using Suc.IH [of "drop (2 * ?n) xs"] level_up_take_drop(2) [of f ?n xs] False Suc.prems(2) by (auto simp del: tree.simps(2))
    show ?thesis using False len t d by (simp del: tree.simps(2) add: tree.simps(2) [of f "Suc l"] tree.simps(2) [of f l "level_up f xs"])
  qed
qed

lemma merkle_ref_tree: "length xs \<le> 2 ^ l \<Longrightarrow> l = 0 \<or> 2 ^ (l - 1) < length xs \<Longrightarrow> xs \<noteq> [] \<Longrightarrow> merkle_ref f xs = tree f l xs"
proof (induction l arbitrary: xs)
  case 0
  then show ?case by (simp add: merkle_ref.simps)
next
  case (Suc l)
  have n: "\<not> length xs \<le> 1" using Suc.prems by (cases l) auto
  have u: "length (level_up f xs) \<le> 2 ^ l" "l = 0 \<or> 2 ^ (l - 1) < length (level_up f xs)" "level_up f xs \<noteq> []"
    using length_level_up [of f xs] Suc.prems n by (cases l; auto)+
  have "merkle_ref f xs = merkle_ref f (level_up f xs)" using n by (simp add: merkle_ref.simps [of f xs])
  also have "\<dots> = tree f l (level_up f xs)" by (rule Suc.IH [OF u])
  finally show ?case using tree_level_up [OF Suc.prems(3,1)] by simp
qed

subsection \<open>Merging finished subtrees\<close>

text \<open>The array entry of every set bit of \<open>p\<close> from a level on is the node over the leaves that bit stands for.\<close>

definition inner_ok :: "bytes list \<Rightarrow> nat \<Rightarrow> nat \<Rightarrow> (nat \<Rightarrow> bytes) \<Rightarrow> bool" where
  "inner_ok xs p level arr \<longleftrightarrow>
     (\<forall>l \<ge> level. odd (p div 2 ^ l) \<longrightarrow> arr l = tree Hash2 l (take (2 ^ l) (drop (p div 2 ^ Suc l * 2 ^ Suc l) xs)))"

text \<open>Node \<open>c - 1\<close> of a level, the last one, which starts at leaf \<open>(c - 1) * 2 ^ level\<close>.\<close>

definition last_node :: "bytes list \<Rightarrow> nat \<Rightarrow> nat \<Rightarrow> (nat \<Rightarrow> bytes) \<Rightarrow> bytes \<Rightarrow> bool" where
  "last_node xs c level arr h \<longleftrightarrow> 0 < c \<and> (c - 1) * 2 ^ level < length xs \<and> length xs \<le> c * 2 ^ level \<and>
     h = tree Hash2 level (drop ((c - 1) * 2 ^ level) xs) \<and> inner_ok xs ((c - 1) * 2 ^ level) level arr"

lemma odd_half: "(2 * k + 1) * 2 ^ level div 2 ^ Suc level = (k :: nat)" "2 * k * 2 ^ level div 2 ^ Suc level = (k :: nat)"
proof -
  have h: "n * 2 ^ level div 2 ^ Suc level = n div (2 :: nat)" for n
    unfolding power_Suc2 div_mult2_eq by simp
  show "(2 * k + 1) * 2 ^ level div 2 ^ Suc level = k" "2 * k * 2 ^ level div 2 ^ Suc level = k" unfolding h by simp_all
qed

lemma div_above: "level < l \<Longrightarrow> even c \<Longrightarrow> (c + 1) * 2 ^ level div 2 ^ l = c * 2 ^ level div (2 ^ l :: nat)"
proof -
  assume l: "level < l" and "even c"
  then obtain k where c: "c = 2 * k" by blast
  have "(2 :: nat) ^ l = 2 ^ Suc level * 2 ^ (l - Suc level)" using l by (simp only: power_add [symmetric] Suc_le_eq le_add_diff_inverse)
  then show ?thesis using odd_half [of k level] unfolding c by (simp only: div_mult2_eq)
qed

lemma half_above: "even c \<Longrightarrow> c div 2 * 2 ^ Suc level = c * (2 ^ level :: nat)"
  by (elim evenE) simp

lemma inner_ok_up:
  assumes "inner_ok xs p level arr" "even c" "p = (c + 1) * 2 ^ level"
  shows "inner_ok xs (c * 2 ^ level) (Suc level) arr"
  unfolding inner_ok_def
proof (intro allI impI)
  fix l
  assume l: "Suc level \<le> l" "odd (c * 2 ^ level div 2 ^ l)"
  have e: "p div 2 ^ l = c * 2 ^ level div 2 ^ l" "p div 2 ^ Suc l = c * 2 ^ level div 2 ^ Suc l"
    using div_above [of level l c] div_above [of level "Suc l" c] l(1) assms(2,3) by simp_all
  have "arr l = tree Hash2 l (take (2 ^ l) (drop (p div 2 ^ Suc l * 2 ^ Suc l) xs))"
    using assms(1) l e(1) unfolding inner_ok_def by simp
  then show "arr l = tree Hash2 l (take (2 ^ l) (drop (c * 2 ^ level div 2 ^ Suc l * 2 ^ Suc l) xs))" unfolding e(2) .
qed

lemma last_node_merge:
  assumes "last_node xs c level arr h" "even c"
  shows "last_node xs (c div 2) (Suc level) arr (Hash2 (arr level) h)" "2 ^ level < length xs"
    "arr level = tree Hash2 level (take (2 ^ level) (drop ((c - 2) * 2 ^ level) xs))"
proof -
  obtain k where c: "c = Suc (Suc (2 * k))" using assms by (auto simp: last_node_def elim!: evenE) (metis Suc_pred mult_Suc_right add_2_eq_Suc neq0_conv)
  let ?p = "(2 * k + 1) * 2 ^ level" and ?q = "2 * k * 2 ^ level"
  have n: "?p < length xs" "length xs \<le> c * 2 ^ level" "h = tree Hash2 level (drop ?p xs)" "inner_ok xs ?p level arr"
    using assms(1) by (simp_all add: last_node_def c)
  have q: "?p div 2 ^ Suc level * 2 ^ Suc level = ?q" unfolding odd_half(1) by simp
  have odd: "odd (?p div 2 ^ level)" by (simp only: nonzero_mult_div_cancel_right [OF power_not_zero [OF zero_neq_numeral [symmetric]]]) simp
  have arr: "arr level = tree Hash2 level (take (2 ^ level) (drop ?q xs))"
    using n(4) [unfolded inner_ok_def, rule_format, OF order_refl odd] unfolding q .
  then show "arr level = tree Hash2 level (take (2 ^ level) (drop ((c - 2) * 2 ^ level) xs))" by (simp add: c)
  show "2 ^ level < length xs" using n(1) by simp
  have half: "(c div 2 - 1) * 2 ^ Suc level = ?q" "c div 2 * 2 ^ Suc level = c * 2 ^ level" by (simp_all add: c)
  have "tree Hash2 (Suc level) (drop ?q xs) = Hash2 (arr level) h"
    using n(1,3) arr by (simp add: add.commute)
  moreover have "inner_ok xs ?q (Suc level) arr" by (rule inner_ok_up [OF n(4)]) simp_all
  ultimately show "last_node xs (c div 2) (Suc level) arr (Hash2 (arr level) h)"
    using n(1,2) unfolding last_node_def half by (simp add: c)
qed

lemma merge_loop_node:
  assumes "last_node xs c level arr h" "merge_loop pb arr ml c level h m = (c', level', h', m')"
  shows "last_node xs c' level' arr h' \<and> odd c' \<and> c' * 2 ^ level' = c * 2 ^ level \<and> level \<le> level' \<and> (level' = level \<or> 2 ^ (level' - 1) < length xs)"
  using assms
proof (induction c arbitrary: level h m rule: less_induct)
  case (less c)
  show ?case
  proof (cases "odd c")
    case False
    then have pos: "c \<noteq> 0" "c div 2 < c" using less.prems(1) by (auto simp: last_node_def)
    note up = last_node_merge [OF less.prems(1)]
    have "merge_loop pb arr ml (c div 2) (Suc level) (Hash2 (arr level) h) (match_step pb (arr level) (ml = int level) h m) = (c', level', h', m')"
      using less.prems(2) False pos by (simp add: merge_loop.simps [of pb arr ml c])
    from less.IH [OF pos(2) up(1) this] False up(2) half_above [of c level] show ?thesis by (auto simp: Suc_le_eq)
  qed (use less.prems in \<open>auto simp: merge_loop.simps [of pb arr ml c]\<close>)
qed

subsection \<open>Reading the leaves\<close>

text \<open>Two equal neighbouring subtrees of height \<open>l\<close> that end at leaf \<open>n\<close>.\<close>

definition dup_at :: "bytes list \<Rightarrow> nat \<Rightarrow> nat \<Rightarrow> bool" where
  "dup_at xs n l \<longleftrightarrow> 2 ^ Suc l dvd n \<and>
     tree Hash2 l (take (2 ^ l) (drop (n - 2 ^ Suc l) xs)) = tree Hash2 l (take (2 ^ l) (drop (n - 2 ^ l) xs))"

lemma leaf_loop_merge:
  assumes "last_node xs c level arr h" "length xs = c * 2 ^ level" "leaf_loop pb arr ml c level h m mut = (level', h', m', mut')"
  shows "(\<exists>c'. merge_loop pb arr ml c level h m = (c', level', h', m')) \<and> (mut' \<longleftrightarrow> mut \<or> (\<exists>l\<ge>level. dup_at xs (length xs) l))"
  using assms
proof (induction c arbitrary: level h m mut rule: less_induct)
  case (less c)
  show ?case
  proof (cases "odd c")
    case True
    have "\<not> 2 ^ Suc l dvd c * 2 ^ level" if "level \<le> l" for l
    proof
      assume "2 ^ Suc l dvd c * 2 ^ level"
      then have "2 ^ Suc level dvd c * 2 ^ level" using le_imp_power_dvd [of "Suc level" "Suc l" "2 :: nat"] that by (meson Suc_le_mono dvd_trans)
      then show False using True by simp
    qed
    then show ?thesis using less.prems True
      by (auto simp: merge_loop.simps [of pb arr ml c] leaf_loop.simps [of pb arr ml c] dup_at_def)
  next
    case False
    then have pos: "c \<noteq> 0" "c div 2 < c" using less.prems(1) by (auto simp: last_node_def)
    note up = last_node_merge [OF less.prems(1)]
    have len: "length xs = c div 2 * 2 ^ Suc level" using less.prems(2) half_above [of c level] False by simp
    have "leaf_loop pb arr ml (c div 2) (Suc level) (Hash2 (arr level) h) (match_step pb (arr level) (ml = int level) h m)
        (mut \<or> arr level = h) = (level', h', m', mut')"
      using less.prems(3) False pos by (simp add: leaf_loop.simps [of pb arr ml c])
    note IH = less.IH [OF pos(2) up(1) len this]
    have n: "c * 2 ^ level - 2 ^ Suc level = (c - 2) * 2 ^ level" "c * 2 ^ level - 2 ^ level = (c - 1) * 2 ^ level"
      by (simp_all add: diff_mult_distrib)
    have "c * 2 ^ level - (c - 1) * 2 ^ level = 2 ^ level" using pos(1) by (cases c) simp_all
    then have tk: "take (2 ^ level) (drop ((c - 1) * 2 ^ level) xs) = drop ((c - 1) * 2 ^ level) xs"
      by (simp only: take_all_iff length_drop less.prems(2))
    have "arr level = h \<longleftrightarrow> dup_at xs (length xs) level"
      using up(3) False less.prems(1) unfolding dup_at_def less.prems(2) n last_node_def tk by simp
    then have "(mut \<or> arr level = h) \<or> (\<exists>l\<ge>Suc level. dup_at xs (length xs) l) \<longleftrightarrow> mut \<or> (\<exists>l\<ge>level. dup_at xs (length xs) l)"
      by (metis Suc_leD Suc_leI le_eq_less_or_eq)
    with IH pos False show ?thesis by (simp add: merge_loop.simps [of pb arr ml c])
  qed
qed

lemma inner_ok_take:
  assumes "p \<le> n"
  shows "inner_ok (take n xs) p level arr \<longleftrightarrow> inner_ok xs p level arr"
proof -
  have "take (2 ^ l) (drop (p div 2 ^ Suc l * 2 ^ Suc l) (take n xs)) = take (2 ^ l) (drop (p div 2 ^ Suc l * 2 ^ Suc l) xs)"
    if "odd (p div 2 ^ l)" for l
  proof -
    obtain j where j: "p div 2 ^ l = 2 * j + 1" using \<open>odd (p div 2 ^ l)\<close> by (rule oddE)
    then have "p div 2 ^ Suc l = j" by (simp add: power_Suc2 div_mult2_eq del: power_Suc)
    moreover have "(2 * j + 1) * 2 ^ l \<le> p" unfolding j [symmetric] by (rule div_times_less_eq_dividend)
    ultimately have "p div 2 ^ Suc l * 2 ^ Suc l + 2 ^ l \<le> n" using assms by (simp add: algebra_simps)
    then show ?thesis by (simp add: drop_take min_def)
  qed
  then show ?thesis unfolding inner_ok_def by metis
qed

lemma inner_ok_store:
  assumes "last_node (take (Suc n) xs) c level arr h" "odd c" "c * 2 ^ level = Suc n" "n < length xs"
  shows "inner_ok xs (Suc n) 0 (arr(level := h))"
  unfolding inner_ok_def
proof (intro allI impI)
  fix l
  assume "odd (Suc n div 2 ^ l)"
  obtain k where k: "c = 2 * k + 1" using assms(2) by (rule oddE)
  have p: "(c - 1) * 2 ^ level = 2 * k * 2 ^ level" "2 * k * 2 ^ level \<le> Suc n" "Suc n - 2 * k * 2 ^ level = 2 ^ level"
    using assms(3) by (simp_all add: k)
  have h: "h = tree Hash2 level (drop (2 * k * 2 ^ level) (take (Suc n) xs))" and i: "inner_ok xs (2 * k * 2 ^ level) level arr"
    using assms(1) p(2) unfolding last_node_def p(1) by (simp_all add: inner_ok_take)
  consider "l < level" | "l = level" | "level < l" by linarith
  then show "(arr(level := h)) l = tree Hash2 l (take (2 ^ l) (drop (Suc n div 2 ^ Suc l * 2 ^ Suc l) xs))"
  proof cases
    case 1
    then have "(2 :: nat) ^ level = 2 ^ (level - l) * 2 ^ l" by (simp flip: power_add)
    then have "c * 2 ^ level div 2 ^ l = c * 2 ^ (level - l)" by (simp flip: mult.assoc)
    with 1 \<open>odd (Suc n div 2 ^ l)\<close> assms(3) show ?thesis by simp
  next
    case 2
    have "Suc n div 2 ^ Suc level = k" using odd_half(1) [of k level] assms(3) by (simp only: k)
    then have "Suc n div 2 ^ Suc level * 2 ^ Suc level = 2 * k * 2 ^ level" by simp
    then show ?thesis using h p(3) by (simp only: 2 fun_upd_same drop_take)
  next
    case 3
    have e: "Suc n div 2 ^ l = 2 * k * 2 ^ level div 2 ^ l" "Suc n div 2 ^ Suc l = 2 * k * 2 ^ level div 2 ^ Suc l"
      using div_above [of level l "2 * k"] div_above [of level "Suc l" "2 * k"] 3 assms(3) by (simp_all only: k less_Suc_eq even_mult_iff even_numeral simp_thms)
    show ?thesis using i [unfolded inner_ok_def, rule_format, of l] 3 \<open>odd (Suc n div 2 ^ l)\<close> by (simp only: e fun_upd_other less_imp_le) simp
  qed
qed

definition leaves_ok :: "bytes list \<Rightarrow> nat \<Rightarrow> merkle_state \<Rightarrow> bool" where
  "leaves_ok xs n s \<longleftrightarrow> m_count s = n \<and> inner_ok xs n 0 (m_inner s) \<and> (m_mutated s \<longleftrightarrow> (\<exists>k l. 0 < k \<and> k \<le> n \<and> dup_at xs k l))"

lemma dup_at_take:
  assumes "0 < k" "k \<le> n"
  shows "dup_at (take n xs) k l \<longleftrightarrow> dup_at xs k l"
proof (cases "2 ^ Suc l dvd k")
  case True
  then have "2 ^ Suc l \<le> k" using assms(1) by (rule dvd_imp_le)
  then show ?thesis using assms(2) by (simp add: dup_at_def drop_take min_def)
qed (simp add: dup_at_def)

lemma add_leaf_split:
  assumes "leaves_ok xs n s" "n < length xs"
  obtains c level h m where
    "last_node (take (Suc n) xs) (Suc n) 0 (m_inner s) (xs ! n)"
    "merge_loop pb (m_inner s) (m_matchlevel s) (Suc n) 0 (xs ! n) (n = pos, m_branch s) = (c, level, h, m)"
    "add_leaf pb pos (xs ! n) s = \<lparr>m_count = Suc n, m_inner = (m_inner s)(level := h),
       m_mutated = (m_mutated s \<or> (\<exists>l. dup_at xs (Suc n) l)),
       m_matchlevel = (if fst m then int level else m_matchlevel s), m_branch = snd m\<rparr>"
    "last_node (take (Suc n) xs) c level (m_inner s) h" "odd c" "c * 2 ^ level = Suc n"
proof -
  let ?ys = "take (Suc n) xs"
  have s: "m_count s = n" "inner_ok ?ys n 0 (m_inner s)" using assms(1) by (simp_all add: leaves_ok_def inner_ok_take)
  have node: "last_node ?ys (Suc n) 0 (m_inner s) (xs ! n)"
    using s(2) assms(2) by (simp add: last_node_def drop_take hd_drop_conv_nth hd_take)
  obtain level h m mut where l: "leaf_loop pb (m_inner s) (m_matchlevel s) (Suc n) 0 (xs ! n) (n = pos, m_branch s) (m_mutated s) = (level, h, m, mut)"
    by (cases "leaf_loop pb (m_inner s) (m_matchlevel s) (Suc n) 0 (xs ! n) (n = pos, m_branch s) (m_mutated s)")
  from leaf_loop_merge [OF node _ l] assms(2) obtain c where
    c: "merge_loop pb (m_inner s) (m_matchlevel s) (Suc n) 0 (xs ! n) (n = pos, m_branch s) = (c, level, h, m)"
    and mut: "mut \<longleftrightarrow> m_mutated s \<or> (\<exists>l. dup_at xs (Suc n) l)" using dup_at_take [of "Suc n" "Suc n" xs] by auto
  have "add_leaf pb pos (xs ! n) s = \<lparr>m_count = Suc n, m_inner = (m_inner s)(level := h),
       m_mutated = (m_mutated s \<or> (\<exists>l. dup_at xs (Suc n) l)),
       m_matchlevel = (if fst m then int level else m_matchlevel s), m_branch = snd m\<rparr>"
    using l mut by (simp add: add_leaf_def s(1) split: prod.split)
  with node c merge_loop_node [OF node c] show ?thesis by (intro that [of c level h m]) simp_all
qed

lemma add_leaf_ok:
  assumes "leaves_ok xs n s" "n < length xs"
  shows "leaves_ok xs (Suc n) (add_leaf pb pos (xs ! n) s)"
proof -
  obtain c level h m where a: "add_leaf pb pos (xs ! n) s = \<lparr>m_count = Suc n, m_inner = (m_inner s)(level := h),
       m_mutated = (m_mutated s \<or> (\<exists>l. dup_at xs (Suc n) l)),
       m_matchlevel = (if fst m then int level else m_matchlevel s), m_branch = snd m\<rparr>"
    "last_node (take (Suc n) xs) c level (m_inner s) h" "odd c" "c * 2 ^ level = Suc n"
    by (rule add_leaf_split [OF assms])
  have "(\<exists>k l. 0 < k \<and> k \<le> Suc n \<and> dup_at xs k l) \<longleftrightarrow> (\<exists>k l. 0 < k \<and> k \<le> n \<and> dup_at xs k l) \<or> (\<exists>l. dup_at xs (Suc n) l)"
    by (auto simp: le_Suc_eq)
  then show ?thesis using assms(1) inner_ok_store [OF a(2-4) assms(2)] unfolding a(1) leaves_ok_def by simp
qed

lemma fold_add_leaf:
  assumes "P 0 merkle_start" "\<And>n s. n < length xs \<Longrightarrow> P n s \<Longrightarrow> P (Suc n) (add_leaf pb pos (xs ! n) s)"
  shows "n \<le> length xs \<Longrightarrow> P n (fold (add_leaf pb pos) (take n xs) merkle_start)"
  by (induction n) (simp_all add: assms take_Suc_conv_app_nth)

lemma leaves_ok_start: "leaves_ok xs 0 merkle_start"
  by (simp add: leaves_ok_def merkle_start_def inner_ok_def)

subsection \<open>The final sweep\<close>

lemma skip_levels_odd: "0 < n \<Longrightarrow> skip_levels n l = (c, level) \<Longrightarrow> odd c \<and> c * 2 ^ level = n * 2 ^ l \<and> l \<le> level"
proof (induction n arbitrary: l rule: less_induct)
  case (less n)
  show ?case
  proof (cases "odd n")
    case False
    then have "n div 2 < n" "0 < n div 2" using less.prems(1) by auto
    with less.IH [OF this, of "Suc l"] less.prems False half_above [of n l] show ?thesis by (simp add: skip_levels.simps [of n])
  qed (use less.prems in \<open>simp add: skip_levels.simps [of n]\<close>)
qed

lemma last_node_start:
  assumes "inner_ok xs (length xs) 0 arr" "odd c" "c * 2 ^ level = length xs"
  shows "last_node xs c level arr (arr level)"
proof -
  obtain k where k: "c = 2 * k + 1" using assms(2) by (rule oddE)
  let ?p = "2 * k * 2 ^ level"
  have n1: "length xs = ?p + 2 ^ level" using assms(3) by (simp add: k)
  then have n: "length xs = ?p + 2 ^ level" "?p < length xs" using zero_less_power [of "2 :: nat" level] by linarith+
  have odd: "odd (length xs div 2 ^ level)" using assms(2) by (simp add: assms(3) [symmetric])
  have off: "length xs div 2 ^ Suc level * 2 ^ Suc level = ?p"
    using odd_half(1) [of k level] by (simp only: assms(3) [symmetric] k) simp
  have node: "arr level = tree Hash2 level (drop ?p xs)"
    using assms(1) [unfolded inner_ok_def, rule_format, OF _ odd] unfolding off by (simp add: n(1))
  have "inner_ok xs ?p (Suc level) arr"
    by (rule inner_ok_up [of xs "length xs"]) (use assms(1,3) in \<open>simp_all add: k inner_ok_def\<close>)
  moreover have "even (?p div 2 ^ level)" by simp
  ultimately have "inner_ok xs ?p level arr" unfolding inner_ok_def by (metis Suc_leI le_neq_implies_less)
  then show ?thesis using n node by (simp add: last_node_def k)
qed

lemma last_node_double:
  assumes "last_node xs c level arr h" "odd c" "1 < c"
  shows "last_node xs ((c + 1) div 2) (Suc level) arr (Hash2 h h)" "2 ^ level < length xs"
proof -
  obtain k where k: "c = 2 * k + 1" using assms(2) by (rule oddE)
  let ?p = "2 * k * 2 ^ level"
  have n: "?p < length xs" "length xs \<le> ?p + 2 ^ level" "h = tree Hash2 level (drop ?p xs)" "inner_ok xs ?p level arr"
    using assms(1) by (simp_all add: last_node_def k)
  have half: "((c + 1) div 2 - 1) * 2 ^ Suc level = ?p" "(c + 1) div 2 * 2 ^ Suc level = ?p + 2 * 2 ^ level" by (simp_all add: k)
  have "inner_ok xs ?p (Suc level) arr" using n(4) by (simp add: inner_ok_def)
  with n show "last_node xs ((c + 1) div 2) (Suc level) arr (Hash2 h h)" unfolding last_node_def half by (simp add: k)
  have "2 ^ level \<le> ?p" using assms(3) k by simp
  then show "2 ^ level < length xs" using n(1) by (rule le_less_trans)
qed

lemma sweep_root:
  assumes "last_node xs c level arr h" "odd c" "level = 0 \<or> 2 ^ (level - 1) < length xs"
  shows "fst (sweep pb arr ml c level h m) = merkle_ref Hash2 xs"
  using assms
proof (induction pb arr ml c level h m rule: sweep.induct)
  case (1 pb arr ml c level h m)
  show ?case
  proof (cases "c \<le> 1")
    case True
    then have "c = 1" using "1.prems"(2) by (cases c) auto
    then have "h = tree Hash2 level xs" "length xs \<le> 2 ^ level" "xs \<noteq> []" using "1.prems"(1) by (auto simp: last_node_def)
    then show ?thesis using merkle_ref_tree [of xs level Hash2] "1.prems"(3) True by (simp add: sweep.simps)
  next
    case False
    obtain c' level' h' m' where l: "merge_loop pb arr ml ((c + 1) div 2) (Suc level) (Hash2 h h)
        (fst m, if pb \<and> fst m then snd m @ [h] else snd m) = (c', level', h', m')" by (rule prod_cases4)
    note d = last_node_double [OF "1.prems"(1,2)]
    have "last_node xs c' level' arr h'" "odd c'" "level' = 0 \<or> 2 ^ (level' - 1) < length xs"
      using merge_loop_node [OF d(1) l] d(2) False by auto
    with "1.IH" [OF False l [symmetric] refl refl] False l show ?thesis by (simp add: sweep.simps [of pb arr ml c])
  qed
qed

lemma MerkleComputation_split:
  assumes "xs \<noteq> []"
  obtains s c level where "s = fold (add_leaf pb pos) xs merkle_start" "leaves_ok xs (length xs) s" "odd c" "c * 2 ^ level = length xs"
    "last_node xs c level (m_inner s) (m_inner s level)"
    "MerkleComputation xs pos pb =
       (case sweep pb (m_inner s) (m_matchlevel s) c level (m_inner s level) (m_matchlevel s = int level, m_branch s) of
          (h, branch) \<Rightarrow> (h, m_mutated s, branch))"
proof -
  let ?s = "fold (add_leaf pb pos) xs merkle_start"
  have s: "leaves_ok xs (length xs) ?s"
    using fold_add_leaf [of "leaves_ok xs" xs pb pos "length xs"] leaves_ok_start add_leaf_ok by simp
  obtain c level where c: "skip_levels (length xs) 0 = (c, level)" by (cases "skip_levels (length xs) 0")
  then have odd: "odd c" "c * 2 ^ level = length xs" using skip_levels_odd [of "length xs" 0 c level] assms by auto
  have "last_node xs c level (m_inner ?s) (m_inner ?s level)"
    by (rule last_node_start [OF _ odd]) (use s in \<open>simp add: leaves_ok_def\<close>)
  moreover have "MerkleComputation xs pos pb =
       (case sweep pb (m_inner ?s) (m_matchlevel ?s) c level (m_inner ?s level) (m_matchlevel ?s = int level, m_branch ?s) of
          (h, branch) \<Rightarrow> (h, m_mutated ?s, branch))"
    using assms s c by (simp add: MerkleComputation_def leaves_ok_def Let_def)
  ultimately show ?thesis using that s odd by blast
qed

lemma MerkleComputation_root:
  assumes "xs \<noteq> []"
  shows "fst (MerkleComputation xs pos pb) = merkle_ref Hash2 xs"
    and "fst (snd (MerkleComputation xs pos pb)) \<longleftrightarrow> (\<exists>k l. 0 < k \<and> k \<le> length xs \<and> dup_at xs k l)"
proof -
  obtain s c level where s: "leaves_ok xs (length xs) s" "odd c" "c * 2 ^ level = length xs"
      "last_node xs c level (m_inner s) (m_inner s level)"
    and eq: "MerkleComputation xs pos pb =
       (case sweep pb (m_inner s) (m_matchlevel s) c level (m_inner s level) (m_matchlevel s = int level, m_branch s) of
          (h, branch) \<Rightarrow> (h, m_mutated s, branch))"
    by (rule MerkleComputation_split [OF assms])
  have "2 ^ level \<le> length xs" using s(2,3) by (cases c) (simp_all flip: s(3))
  then have "level = 0 \<or> 2 ^ (level - 1) < length xs"
    using less_le_trans [of "2 ^ (level - 1)" "2 ^ level" "length xs"] by (cases "level = 0") simp_all
  from sweep_root [OF s(4,2) this] show "fst (MerkleComputation xs pos pb) = merkle_ref Hash2 xs"
    unfolding eq by (simp add: case_prod_beta)
  show "fst (snd (MerkleComputation xs pos pb)) \<longleftrightarrow> (\<exists>k l. 0 < k \<and> k \<le> length xs \<and> dup_at xs k l)"
    using s(1) unfolding eq leaves_ok_def by (simp add: case_prod_beta)
qed

subsection \<open>Branches\<close>

lemma branch_snoc:
  "ComputeMerkleRootFromBranch h (br @ [x]) pos =
     (if odd (pos div 2 ^ length br) then Hash2 x (ComputeMerkleRootFromBranch h br pos) else Hash2 (ComputeMerkleRootFromBranch h br pos) x)"
  by (induction h br pos rule: ComputeMerkleRootFromBranch.induct) (simp_all add: div_mult2_eq)

text \<open>The branch so far leads from the leaf to the current node, or to the array entry of the matching level.\<close>

definition branch_to :: "bytes \<Rightarrow> nat \<Rightarrow> bytes list \<Rightarrow> nat \<Rightarrow> nat \<Rightarrow> bytes \<Rightarrow> bool" where
  "branch_to leaf pos br level i h \<longleftrightarrow> h = ComputeMerkleRootFromBranch leaf br pos \<and> length br = level \<and> pos div 2 ^ level = i"

definition match_inner :: "bytes \<Rightarrow> nat \<Rightarrow> (nat \<Rightarrow> bytes) \<Rightarrow> int \<Rightarrow> nat \<Rightarrow> nat \<Rightarrow> bytes list \<Rightarrow> bool" where
  "match_inner leaf pos arr ml level p br \<longleftrightarrow>
     (\<exists>l\<ge>level. ml = int l \<and> odd (p div 2 ^ l) \<and> branch_to leaf pos br l (p div 2 ^ l - 1) (arr l))"

definition match_ok :: "bytes \<Rightarrow> nat \<Rightarrow> (nat \<Rightarrow> bytes) \<Rightarrow> int \<Rightarrow> nat \<Rightarrow> nat \<Rightarrow> bytes \<Rightarrow> bool \<times> bytes list \<Rightarrow> bool" where
  "match_ok leaf pos arr ml c level h m \<longleftrightarrow>
     (if fst m then branch_to leaf pos (snd m) level (c - 1) h
      else match_inner leaf pos arr ml level ((c - 1) * 2 ^ level) (snd m) \<or> ml = - 1 \<and> snd m = [])"

lemma branch_to_step:
  assumes "branch_to leaf pos br level i h"
  shows "branch_to leaf pos (br @ [x]) (Suc level) (i div 2) (if odd i then Hash2 x h else Hash2 h x)"
  using assms by (auto simp: branch_to_def branch_snoc div_mult2_eq power_Suc2 simp del: power_Suc)

lemma match_inner_up:
  assumes "match_inner leaf pos arr ml level ((2 * k + 1) * 2 ^ level) br" "ml \<noteq> int level"
  shows "match_inner leaf pos arr ml (Suc level) (2 * k * 2 ^ level) br"
proof -
  obtain l where l: "l \<ge> level" "ml = int l" "odd ((2 * k + 1) * 2 ^ level div 2 ^ l)"
      "branch_to leaf pos br l ((2 * k + 1) * 2 ^ level div 2 ^ l - 1) (arr l)"
    using assms(1) unfolding match_inner_def by blast
  then have "Suc level \<le> l" using assms(2) by (cases "l = level") simp_all
  moreover have "(2 * k + 1) * 2 ^ level div 2 ^ l = 2 * k * 2 ^ level div 2 ^ l" using div_above [of level l "2 * k"] calculation by simp
  ultimately show ?thesis using l unfolding match_inner_def by metis
qed

lemma match_step_ok:
  assumes "match_ok leaf pos arr ml c level h m" "even c" "0 < c"
  shows "match_ok leaf pos arr ml (c div 2) (Suc level) (Hash2 (arr level) h) (match_step True (arr level) (ml = int level) h m)"
proof -
  obtain j where "c = 2 * j" using assms(2) by (rule evenE)
  then obtain k where c: "c = 2 * k + 2" using assms(3) by (cases j) simp_all
  have half: "c div 2 - 1 = k" "(c div 2 - 1) * 2 ^ Suc level = 2 * k * 2 ^ level" "c - 1 = 2 * k + 1" by (simp_all add: c)
  obtain b br where m: "m = (b, br)" by (cases m)
  consider (cur) b | (inner) "\<not> b" "ml = int level" | (above) "\<not> b" "ml \<noteq> int level" by blast
  then show ?thesis
  proof cases
    case cur
    then have "branch_to leaf pos br level (2 * k + 1) h" using assms(1) unfolding match_ok_def half m by simp
    from branch_to_step [OF this, of "arr level"] cur show ?thesis unfolding match_ok_def half m match_step_def by simp
  next
    case inner
    then have "match_inner leaf pos arr ml level ((2 * k + 1) * 2 ^ level) br"
      using assms(1) unfolding match_ok_def half m by auto
    then have "branch_to leaf pos br level (2 * k) (arr level)" unfolding match_inner_def using inner(2) by auto
    from branch_to_step [OF this, of h] inner show ?thesis unfolding match_ok_def half m match_step_def by simp
  next
    case above
    then have "match_inner leaf pos arr ml level ((2 * k + 1) * 2 ^ level) br \<or> ml = - 1 \<and> br = []"
      using assms(1) unfolding match_ok_def half m by simp
    then show ?thesis using match_inner_up [of leaf pos arr ml level k br] above unfolding match_ok_def half(2,3) m match_step_def by auto
  qed
qed

lemma merge_loop_match:
  assumes "match_ok leaf pos arr ml c level h m" "0 < c" "merge_loop True arr ml c level h m = (c', level', h', m')"
  shows "match_ok leaf pos arr ml c' level' h' m'"
  using assms
proof (induction c arbitrary: level h m rule: less_induct)
  case (less c)
  show ?case
  proof (cases "odd c")
    case False
    then have "c div 2 < c" "0 < c div 2" using less.prems(2) by auto
    with less.IH [OF _ match_step_ok [OF less.prems(1) _ less.prems(2)]] less.prems(2,3) False show ?thesis
      by (simp add: merge_loop.simps [of True arr ml c])
  qed (use less.prems in \<open>auto simp: merge_loop.simps [of True arr ml c]\<close>)
qed

lemma merge_loop_keeps: "merge_loop True arr ml c level h m = (c', level', h', m') \<Longrightarrow> fst m \<Longrightarrow> fst m'"
proof (induction c arbitrary: level h m rule: less_induct)
  case (less c)
  show ?case
  proof (cases "c = 0 \<or> odd c")
    case False
    then have "c div 2 < c" by simp
    moreover have "fst (match_step True (arr level) (ml = int level) h m)" using less.prems(2) by (cases m) (simp add: match_step_def)
    ultimately show ?thesis using less.IH less.prems(1) False by (simp add: merge_loop.simps [of True arr ml c])
  qed (use less.prems in \<open>auto simp: merge_loop.simps [of True arr ml c]\<close>)
qed

lemma match_inner_down:
  assumes "match_inner leaf pos arr ml level (2 * k * 2 ^ level) br"
  shows "match_inner leaf pos (arr(level := h)) ml 0 ((2 * k + 1) * 2 ^ level) br"
proof -
  obtain l where l: "l \<ge> level" "ml = int l" "odd (2 * k * 2 ^ level div 2 ^ l)"
      "branch_to leaf pos br l (2 * k * 2 ^ level div 2 ^ l - 1) (arr l)"
    using assms unfolding match_inner_def by blast
  then have "level < l" by (cases "l = level") simp_all
  moreover have "(2 * k + 1) * 2 ^ level div 2 ^ l = 2 * k * 2 ^ level div 2 ^ l" using div_above [of level l "2 * k"] calculation by simp
  ultimately show ?thesis using l unfolding match_inner_def by (intro exI [of _ l]) simp
qed

text \<open>Between two leaves: the branch leads to an array entry once the leaf has been read.\<close>

definition branch_ok :: "bytes list \<Rightarrow> nat \<Rightarrow> nat \<Rightarrow> merkle_state \<Rightarrow> bool" where
  "branch_ok xs pos n s \<longleftrightarrow> leaves_ok xs n s \<and>
     (if pos < n then match_inner (xs ! pos) pos (m_inner s) (m_matchlevel s) 0 n (m_branch s) else m_matchlevel s = - 1 \<and> m_branch s = [])"

lemma add_leaf_branch:
  assumes "n < length xs" "branch_ok xs pos n s"
  shows "branch_ok xs pos (Suc n) (add_leaf True pos (xs ! n) s)"
proof -
  have ok: "leaves_ok xs n s" using assms(2) by (simp add: branch_ok_def)
  obtain c level h m where a:
    "merge_loop True (m_inner s) (m_matchlevel s) (Suc n) 0 (xs ! n) (n = pos, m_branch s) = (c, level, h, m)"
    "add_leaf True pos (xs ! n) s = \<lparr>m_count = Suc n, m_inner = (m_inner s)(level := h),
       m_mutated = (m_mutated s \<or> (\<exists>l. dup_at xs (Suc n) l)),
       m_matchlevel = (if fst m then int level else m_matchlevel s), m_branch = snd m\<rparr>"
    "odd c" "c * 2 ^ level = Suc n"
    by (rule add_leaf_split [OF ok assms(1)])
  have "match_ok (xs ! pos) pos (m_inner s) (m_matchlevel s) (Suc n) 0 (xs ! n) (n = pos, m_branch s)"
    using assms(2) by (cases "pos < n"; cases "n = pos") (simp_all add: match_ok_def branch_ok_def branch_to_def)
  from merge_loop_match [OF this _ a(1)] have m: "match_ok (xs ! pos) pos (m_inner s) (m_matchlevel s) c level h m" by simp
  obtain k where k: "c = 2 * k + 1" using a(3) by (rule oddE)
  note n = a(4) [unfolded k, symmetric]
  have match: "(if fst m then branch_to (xs ! pos) pos (snd m) level (2 * k) h
      else match_inner (xs ! pos) pos (m_inner s) (m_matchlevel s) level (2 * k * 2 ^ level) (snd m) \<or> m_matchlevel s = - 1 \<and> snd m = [])"
    using m unfolding match_ok_def k add_diff_cancel_right' .
  let ?arr = "(m_inner s)(level := h)" and ?ml = "if fst m then int level else m_matchlevel s"
  have "if pos < Suc n then match_inner (xs ! pos) pos ?arr ?ml 0 (Suc n) (snd m) else ?ml = - 1 \<and> snd m = []"
  proof (cases "fst m")
    case True
    then have b: "branch_to (xs ! pos) pos (snd m) level (2 * k) h" using match by simp
    have d: "Suc n div 2 ^ level = 2 * k + 1" unfolding n by simp
    have "pos < Suc n"
    proof (rule ccontr)
      assume "\<not> pos < Suc n"
      then have "Suc n div 2 ^ level \<le> pos div 2 ^ level" by (intro div_le_mono) simp
      then show False using b d by (simp add: branch_to_def)
    qed
    moreover have "match_inner (xs ! pos) pos ?arr (int level) 0 (Suc n) (snd m)"
      unfolding match_inner_def using b d by (intro exI [of _ level]) simp
    ultimately show ?thesis using True by simp
  next
    case False
    have "m_matchlevel s \<noteq> - 1" if "pos < Suc n"
      using assms(2) merge_loop_keeps [OF a(1)] False that by (auto simp: branch_ok_def match_inner_def less_Suc_eq split: if_splits)
    moreover have "m_matchlevel s = - 1" if "\<not> pos < Suc n" using assms(2) that by (simp add: branch_ok_def)
    moreover have "match_inner (xs ! pos) pos ?arr (m_matchlevel s) 0 (Suc n) (snd m)"
      if "match_inner (xs ! pos) pos (m_inner s) (m_matchlevel s) level (2 * k * 2 ^ level) (snd m)"
      using match_inner_down [OF that] unfolding n .
    ultimately show ?thesis using False match by (auto simp: match_inner_def)
  qed
  then show ?thesis using add_leaf_ok [OF ok assms(1), of True pos] unfolding branch_ok_def a(2) by simp
qed

lemma sweep_branch:
  assumes "match_ok leaf pos arr ml c level h m" "odd c" "ml \<noteq> - 1" "last_node xs c level arr h"
  shows "case sweep True arr ml c level h m of (root, br) \<Rightarrow> root = ComputeMerkleRootFromBranch leaf br pos"
  using assms
proof (induction True arr ml c level h m rule: sweep.induct)
  case (1 arr ml c level h m)
  obtain k where k: "c = 2 * k + 1" using "1.prems"(2) by (rule oddE)
  show ?case
  proof (cases "c \<le> 1")
    case True
    then have c: "c = 1" using k by simp
    then have "fst m" using "1.prems"(1,3) unfolding match_ok_def match_inner_def by (auto split: if_splits)
    then show ?thesis using "1.prems"(1) True by (simp add: sweep.simps match_ok_def branch_to_def)
  next
    case False
    let ?m = "(fst m, if True \<and> fst m then snd m @ [h] else snd m)"
    obtain c' level' h' m' where l: "merge_loop True arr ml ((c + 1) div 2) (Suc level) (Hash2 h h) ?m = (c', level', h', m')" by (rule prod_cases4)
    have half: "(c + 1) div 2 - 1 = k" "((c + 1) div 2 - 1) * 2 ^ Suc level = 2 * k * 2 ^ level" "c - 1 = 2 * k" "0 < (c + 1) div 2" by (simp_all add: k)
    have "match_ok leaf pos arr ml ((c + 1) div 2) (Suc level) (Hash2 h h) ?m"
    proof (cases "fst m")
      case True
      then have "branch_to leaf pos (snd m) level (2 * k) h" using "1.prems"(1) unfolding match_ok_def half by simp
      from branch_to_step [OF this, of h] True show ?thesis unfolding match_ok_def half(1) by simp
    next
      case False
      then have "match_inner leaf pos arr ml level (2 * k * 2 ^ level) (snd m)" using "1.prems"(1,3) unfolding match_ok_def half by simp
      then obtain i where i: "i \<ge> level" "ml = int i" "odd (2 * k * 2 ^ level div 2 ^ i)"
          "branch_to leaf pos (snd m) i (2 * k * 2 ^ level div 2 ^ i - 1) (arr i)"
        unfolding match_inner_def by blast
      then have "Suc level \<le> i" by (cases "i = level") simp_all
      with i have "match_inner leaf pos arr ml (Suc level) (2 * k * 2 ^ level) (snd m)" unfolding match_inner_def by blast
      then show ?thesis using False unfolding match_ok_def half(2) by simp
    qed
    from merge_loop_match [OF this half(4) l] have m: "match_ok leaf pos arr ml c' level' h' m'" .
    have n: "last_node xs c' level' arr h'" "odd c'"
      using merge_loop_node [OF last_node_double(1) [OF "1.prems"(4,2)] l] False by auto
    show ?thesis using "1.hyps" [OF False l [symmetric] refl refl m n(2) "1.prems"(3) n(1)] False l
      by (simp add: sweep.simps [of True arr ml c])
  qed
qed

lemma MerkleComputation_branch:
  assumes "pos < length xs"
  shows "ComputeMerkleRootFromBranch (xs ! pos) (ComputeMerkleBranch xs pos) pos = fst (MerkleComputation xs pos True)"
proof -
  have ne: "xs \<noteq> []" using assms by auto
  obtain s c level where s: "s = fold (add_leaf True pos) xs merkle_start" "odd c" "c * 2 ^ level = length xs"
      "last_node xs c level (m_inner s) (m_inner s level)"
    and eq: "MerkleComputation xs pos True =
       (case sweep True (m_inner s) (m_matchlevel s) c level (m_inner s level) (m_matchlevel s = int level, m_branch s) of
          (h, branch) \<Rightarrow> (h, m_mutated s, branch))"
    by (rule MerkleComputation_split [OF ne])
  have "branch_ok xs pos 0 merkle_start" using leaves_ok_start by (simp add: branch_ok_def merkle_start_def)
  then have "branch_ok xs pos (length xs) s"
    using fold_add_leaf [of "branch_ok xs pos" xs True pos "length xs"] add_leaf_branch s(1) by simp
  then obtain l where l: "m_matchlevel s = int l" "odd (length xs div 2 ^ l)"
      "branch_to (xs ! pos) pos (m_branch s) l (length xs div 2 ^ l - 1) (m_inner s l)"
    using assms unfolding branch_ok_def match_inner_def by auto
  obtain k where k: "c = 2 * k + 1" using s(2) by (rule oddE)
  have "match_ok (xs ! pos) pos (m_inner s) (m_matchlevel s) c level (m_inner s level) (m_matchlevel s = int level, m_branch s)"
  proof (cases "l = level")
    case True
    have "length xs div 2 ^ level = c" by (simp flip: s(3))
    then show ?thesis using l True by (simp add: match_ok_def)
  next
    case False
    have "\<not> l < level"
    proof
      assume "l < level"
      then have "(2 :: nat) ^ level = 2 ^ (level - l) * 2 ^ l" by (simp flip: power_add)
      then have "length xs div 2 ^ l = c * 2 ^ (level - l)" unfolding s(3) [symmetric] by (simp flip: mult.assoc)
      then show False using l(2) \<open>l < level\<close> by simp
    qed
    with False have lt: "level < l" by simp
    then have "length xs div 2 ^ l = 2 * k * 2 ^ level div 2 ^ l" using div_above [of level l "2 * k"] unfolding s(3) [symmetric] k by simp
    then have "match_inner (xs ! pos) pos (m_inner s) (m_matchlevel s) level (2 * k * 2 ^ level) (m_branch s)"
      using l lt unfolding match_inner_def by (intro exI [of _ l]) simp
    then show ?thesis using False l(1) unfolding match_ok_def k by simp
  qed
  from sweep_branch [OF this s(2) _ s(4)] l(1) show ?thesis
    unfolding eq ComputeMerkleBranch_def by (simp add: case_prod_beta)
qed

subsection \<open>Binding\<close>

text \<open>The pairs hashed together in a tree.\<close>

fun pairs :: "('a \<Rightarrow> 'a \<Rightarrow> 'a) \<Rightarrow> nat \<Rightarrow> 'a list \<Rightarrow> ('a \<times> 'a) set" where
  "pairs f 0 xs = {}"
| "pairs f (Suc l) xs =
     (if length xs \<le> 2 ^ l then insert (tree f l xs, tree f l xs) (pairs f l xs)
      else insert (tree f l (take (2 ^ l) xs), tree f l (drop (2 ^ l) xs)) (pairs f l (take (2 ^ l) xs) \<union> pairs f l (drop (2 ^ l) xs)))"

definition collision :: "('a \<Rightarrow> 'a \<Rightarrow> 'a) \<Rightarrow> ('a \<times> 'a) set \<Rightarrow> bool" where
  "collision f A \<longleftrightarrow> (\<exists>a b c d. (a, b) \<in> A \<and> (c, d) \<in> A \<and> (a, b) \<noteq> (c, d) \<and> f a b = f c d)"

lemma collision_mono: "collision f A \<Longrightarrow> A \<subseteq> B \<Longrightarrow> collision f B"
  unfolding collision_def by blast

definition duplicated :: "bytes list \<Rightarrow> bool" where
  "duplicated xs \<longleftrightarrow> (\<exists>k l. 0 < k \<and> k \<le> length xs \<and> dup_at xs k l)"

lemma duplicated_take: "duplicated (take n xs) \<Longrightarrow> duplicated xs"
  unfolding duplicated_def by (metis dup_at_take length_take min.bounded_iff)

lemma duplicated_drop:
  assumes "duplicated (drop (2 ^ L) xs)" "length xs \<le> 2 ^ Suc L"
  shows "duplicated xs"
proof -
  obtain k l where k: "0 < k" "k \<le> length xs - 2 ^ L" "dup_at (drop (2 ^ L) xs) k l" using assms(1) by (auto simp: duplicated_def)
  have le: "2 ^ Suc l \<le> k" using k(1,3) by (intro dvd_imp_le) (simp_all add: dup_at_def)
  have "k \<le> 2 ^ L" using k(2) assms(2) by simp
  with le have "(2 :: nat) ^ Suc l \<le> 2 ^ L" by linarith
  then have "Suc l \<le> L" by (rule power_le_imp_le_exp [rotated]) simp
  then have d: "(2 :: nat) ^ Suc l dvd 2 ^ L" by (rule le_imp_power_dvd)
  have "k - 2 ^ Suc l + 2 ^ L = 2 ^ L + k - 2 ^ Suc l" "k - 2 ^ l + 2 ^ L = 2 ^ L + k - 2 ^ l" using le by simp_all
  then have "dup_at xs (2 ^ L + k) l" using k(3) d unfolding dup_at_def drop_drop by (simp only: dvd_add simp_thms)
  then show ?thesis using k(1,2) unfolding duplicated_def by (intro exI [of _ "2 ^ L + k"] exI [of _ l]) simp
qed

lemma duplicated_halves:
  assumes "length xs = 2 ^ Suc l" "tree Hash2 l (take (2 ^ l) xs) = tree Hash2 l (drop (2 ^ l) xs)"
  shows "duplicated xs"
proof -
  have "dup_at xs (length xs) l" using assms by (simp add: dup_at_def)
  then show ?thesis using assms(1) unfolding duplicated_def by (intro exI [of _ "length xs"] exI [of _ l]) simp
qed

lemma tree_binding:
  assumes "xs \<noteq> []" "length xs \<le> 2 ^ l" "ys \<noteq> []" "length ys \<le> 2 ^ l" "\<not> duplicated xs" "\<not> duplicated ys"
    "tree Hash2 l xs = tree Hash2 l ys" "length xs \<le> length ys"
  shows "xs = ys \<or> collision Hash2 (pairs Hash2 l xs \<union> pairs Hash2 l ys)"
  using assms
proof (induction l arbitrary: xs ys)
  case 0
  then show ?case by (cases xs; cases ys) auto
next
  case (Suc l)
  let ?t = "tree Hash2 l" and ?P = "pairs Hash2 l"
  let ?U = "pairs Hash2 (Suc l) xs \<union> pairs Hash2 (Suc l) ys"
  have up: "collision Hash2 (A \<union> B) \<Longrightarrow> A \<subseteq> ?U \<Longrightarrow> B \<subseteq> ?U \<Longrightarrow> xs = ys \<or> collision Hash2 ?U" for A B
    using collision_mono by blast
  consider (both) "length ys \<le> 2 ^ l" | (mixed) "length xs \<le> 2 ^ l" "2 ^ l < length ys" | (none) "2 ^ l < length xs" by linarith
  then show ?case
  proof cases
    case both
    then have n: "length xs \<le> 2 ^ l" "length ys \<le> 2 ^ l" using Suc.prems(8) by simp_all
    show ?thesis
    proof (cases "?t xs = ?t ys")
      case True
      from Suc.IH [OF Suc.prems(1) n(1) Suc.prems(3) n(2) Suc.prems(5,6) True Suc.prems(8)] show ?thesis
        using up [of "?P xs" "?P ys"] n by auto
    next
      case False
      then show ?thesis using Suc.prems(7) n unfolding collision_def by auto
    qed
  next
    case mixed
    let ?a = "take (2 ^ l) ys" and ?b = "drop (2 ^ l) ys"
    have eq: "Hash2 (?t xs) (?t xs) = Hash2 (?t ?a) (?t ?b)" using Suc.prems(7) mixed by simp
    have in_U: "(?t xs, ?t xs) \<in> ?U" "(?t ?a, ?t ?b) \<in> ?U" "?P ?a \<subseteq> ?U" "?P ?b \<subseteq> ?U" using mixed by auto
    show ?thesis
    proof (cases "?t ?a = ?t ?b")
      case False
      then have "(?t xs, ?t xs) \<noteq> (?t ?a, ?t ?b)" by auto
      then show ?thesis using eq in_U(1,2) unfolding collision_def by blast
    next
      case True
      then have lt: "length ys < 2 ^ Suc l" using duplicated_halves [of ys l] Suc.prems(4,6) by (cases "length ys = 2 ^ Suc l") simp_all
      have "\<not> duplicated ?a" "\<not> duplicated ?b" using duplicated_take duplicated_drop [OF _ Suc.prems(4)] Suc.prems(6) by blast+
      moreover have "length ys - 2 ^ l \<le> 2 ^ l" using lt by simp
      ultimately have "?b = ?a \<or> collision Hash2 (?P ?b \<union> ?P ?a)" using Suc.IH [of ?b ?a] True mixed Suc.prems(3) by auto
      moreover have "length ?b \<noteq> length ?a" using mixed lt by simp
      then have "?b \<noteq> ?a" by metis
      ultimately show ?thesis using up [of "?P ?b" "?P ?a"] in_U by blast
    qed
  next
    case none
    then have n: "2 ^ l < length xs" "2 ^ l < length ys" using Suc.prems(8) by simp_all
    let ?a = "take (2 ^ l) xs" and ?b = "drop (2 ^ l) xs" and ?c = "take (2 ^ l) ys" and ?d = "drop (2 ^ l) ys"
    have in_U: "(?t ?a, ?t ?b) \<in> ?U" "(?t ?c, ?t ?d) \<in> ?U" "?P ?a \<subseteq> ?U" "?P ?b \<subseteq> ?U" "?P ?c \<subseteq> ?U" "?P ?d \<subseteq> ?U" using n by auto
    have eq: "Hash2 (?t ?a) (?t ?b) = Hash2 (?t ?c) (?t ?d)" using Suc.prems(7) n by simp
    have nd: "\<not> duplicated ?a" "\<not> duplicated ?b" "\<not> duplicated ?c" "\<not> duplicated ?d"
      using duplicated_take duplicated_drop [OF _ Suc.prems(2)] duplicated_drop [OF _ Suc.prems(4)] Suc.prems(5,6) by blast+
    show ?thesis
    proof (cases "?t ?a = ?t ?c \<and> ?t ?b = ?t ?d")
      case False
      then show ?thesis using eq in_U(1,2) unfolding collision_def by blast
    next
      case True
      have "?a = ?c \<or> collision Hash2 (?P ?a \<union> ?P ?c)" using Suc.IH [of ?a ?c] True n nd Suc.prems(1,3) by auto
      moreover have "?b = ?d \<or> collision Hash2 (?P ?b \<union> ?P ?d)" using Suc.IH [of ?b ?d] True n nd Suc.prems(2,4,8) by auto
      ultimately show ?thesis using up [of "?P ?a" "?P ?c"] up [of "?P ?b" "?P ?d"] in_U append_take_drop_id [of "2 ^ l"] by metis
    qed
  qed
qed

subsection \<open>Properties\<close>

text \<open>C27. The constant-space computation returns the root of the tree built level by level, where an odd level repeats its last
  node, and reports a mutation exactly when two neighbouring complete subtrees of the same height have the same hash.\<close>
theorem merkle_root_reference:
  assumes "leaves \<noteq> []"
  shows "ComputeMerkleRoot leaves =
    (merkle_ref Hash2 leaves, \<exists>n l. 0 < n \<and> n \<le> length leaves \<and> 2 ^ Suc l dvd n \<and>
       merkle_ref Hash2 (take (2 ^ l) (drop (n - 2 ^ Suc l) leaves)) = merkle_ref Hash2 (take (2 ^ l) (drop (n - 2 ^ l) leaves)))"
proof -
  have ref: "merkle_ref Hash2 (take (2 ^ l) (drop i leaves)) = tree Hash2 l (take (2 ^ l) (drop i leaves))"
    if "i + 2 ^ l \<le> length leaves" for i l
  proof (rule merkle_ref_tree)
    have n: "length (take (2 ^ l) (drop i leaves)) = 2 ^ l" using that by simp
    show "length (take (2 ^ l) (drop i leaves)) \<le> 2 ^ l" "l = 0 \<or> 2 ^ (l - 1) < length (take (2 ^ l) (drop i leaves))"
      unfolding n by (cases l; simp)+
    show "take (2 ^ l) (drop i leaves) \<noteq> []" using n by (metis list.size(3) power_not_zero zero_neq_numeral)
  qed
  have "dup_at leaves n l \<longleftrightarrow> 2 ^ Suc l dvd n \<and>
      merkle_ref Hash2 (take (2 ^ l) (drop (n - 2 ^ Suc l) leaves)) = merkle_ref Hash2 (take (2 ^ l) (drop (n - 2 ^ l) leaves))"
    if "0 < n" "n \<le> length leaves" for n l
  proof (cases "2 ^ Suc l dvd n")
    case True
    then have "2 ^ Suc l \<le> n" using that(1) by (rule dvd_imp_le)
    then have "n - 2 ^ Suc l + 2 ^ l \<le> length leaves" "n - 2 ^ l + 2 ^ l \<le> length leaves" using that(2) by simp_all
    from ref [OF this(1)] ref [OF this(2)] show ?thesis unfolding dup_at_def by simp
  qed (simp add: dup_at_def)
  then have "fst (snd (MerkleComputation leaves 0xffffffff False)) \<longleftrightarrow> (\<exists>n l. 0 < n \<and> n \<le> length leaves \<and> 2 ^ Suc l dvd n \<and>
      merkle_ref Hash2 (take (2 ^ l) (drop (n - 2 ^ Suc l) leaves)) = merkle_ref Hash2 (take (2 ^ l) (drop (n - 2 ^ l) leaves)))"
    unfolding MerkleComputation_root(2) [OF assms] by blast
  then show ?thesis using MerkleComputation_root(1) [OF assms] by (simp add: ComputeMerkleRoot_def case_prod_beta)
qed

theorem merkle_root_reference_witness:
  "fst (ComputeMerkleRoot [[1], [2], [3]]) = Hash2 (Hash2 [1] [2]) (Hash2 [3] [3]) \<and> snd (ComputeMerkleRoot [[1], [2], [3], [3]])"
proof
  show "fst (ComputeMerkleRoot [[1], [2], [3]]) = Hash2 (Hash2 [1] [2]) (Hash2 [3] [3])"
    unfolding merkle_root_reference [of "[[1], [2], [3]]", simplified list.distinct simp_thms, OF TrueI] by (simp add: merkle_ref.simps)
  show "snd (ComputeMerkleRoot [[1], [2], [3], [3]])"
    by (subst merkle_root_reference, simp, simp only: snd_conv, rule exI [of _ 4], rule exI [of _ 0], simp add: merkle_ref.simps)
qed

text \<open>C28. A branch proves membership: folding the leaf with the branch computed for its position gives the root.\<close>
theorem merkle_branch_verifies:
  assumes "position < length leaves"
  shows "ComputeMerkleRootFromBranch (leaves ! position) (ComputeMerkleBranch leaves position) position = fst (ComputeMerkleRoot leaves)"
proof -
  have "leaves \<noteq> []" using assms by auto
  then show ?thesis using MerkleComputation_branch [OF assms] MerkleComputation_root(1) by (simp add: ComputeMerkleRoot_def case_prod_beta)
qed

theorem merkle_branch_verifies_witness:
  "ComputeMerkleRootFromBranch [3] (ComputeMerkleBranch [[1], [2], [3]] 2) 2 = fst (ComputeMerkleRoot [[1], [2], [3]])"
  using merkle_branch_verifies [of 2 "[[1], [2], [3]]"] by simp

lemma root_binds:
  assumes "ComputeMerkleRoot xs = (root, False)" "ComputeMerkleRoot ys = (root, False)" "xs \<noteq> []" "ys \<noteq> []"
    and "length xs \<le> 2 ^ h" "length ys \<le> 2 ^ h" "h = 0 \<or> 2 ^ (h - 1) < length xs" "h = 0 \<or> 2 ^ (h - 1) < length ys"
  shows "xs = ys \<or> collision Hash2 (pairs Hash2 h xs \<union> pairs Hash2 h ys)"
proof -
  have r: "tree Hash2 h zs = root" "\<not> duplicated zs"
    if "ComputeMerkleRoot zs = (root, False)" "zs \<noteq> []" "length zs \<le> 2 ^ h" "h = 0 \<or> 2 ^ (h - 1) < length zs" for zs
    using that(1) MerkleComputation_root [OF that(2), of "0xffffffff" False] merkle_ref_tree [OF that(3,4,2), of Hash2]
    by (auto simp: ComputeMerkleRoot_def duplicated_def case_prod_beta)
  note x = r [OF assms(1,3,5,7)] and y = r [OF assms(2,4,6,8)]
  show ?thesis
  proof (cases "length xs \<le> length ys")
    case True
    then show ?thesis using tree_binding [OF assms(3,5,4,6) x(2) y(2)] x(1) y(1) by simp
  next
    case False
    then show ?thesis using tree_binding [OF assms(4,6,3,5) y(2) x(2)] x(1) y(1) by (auto simp: Un_commute)
  qed
qed

text \<open>C29. The root binds the leaves: two lists whose trees have the same height, with equal roots and no mutation reported, are
  equal, unless two different pairs among those hashed in the two trees have the same hash. So leaves cannot be repeated
  unnoticed, as they could be without the mutation flag.\<close>
theorem merkle_root_binding:
  assumes "ComputeMerkleRoot xs = (root, False)" "ComputeMerkleRoot ys = (root, False)" "xs \<noteq> []" "ys \<noteq> []"
    and "length xs \<le> 2 ^ h" "length ys \<le> 2 ^ h" "h = 0 \<or> 2 ^ (h - 1) < length xs" "h = 0 \<or> 2 ^ (h - 1) < length ys"
  shows "xs = ys \<or> collision Hash2 (pairs Hash2 h xs \<union> pairs Hash2 h ys)"
  by (rule root_binds [OF assms])

theorem merkle_root_binding_witness:
  "ComputeMerkleRoot [[1], [2]] = (Hash2 [1] [2], False) \<and>
   ([[1], [2]] = [[1], [2 :: u8]] \<or> collision Hash2 (pairs Hash2 1 [[1], [2]] \<union> pairs Hash2 1 [[1], [2]]))"
proof -
  have r: "ComputeMerkleRoot [[1], [2]] = (Hash2 [1] [2], False)"
    by (simp add: ComputeMerkleRoot_def MerkleComputation_def Let_def add_leaf_def merkle_start_def leaf_loop.simps match_step_def
        skip_levels.simps sweep.simps)
  from r merkle_root_binding [OF r r, of 1] show ?thesis by simp
qed

end
