(* ===== verification/Connect.thy ===== *)
theory Connect
  imports TxVerify Merkle
begin

text \<open>
  What a block does to the set of unspent coins, from \<^verbatim>\<open>src/src/validation.cpp\<close>: applying a transaction and recording
  how to undo it, undoing a block, the reward of a block and the checks of a block without context.

  Undoing a block gives back the coins from before it; transactions that pass the checks never create money, unless they
  have the shape of a coinstake; the checks without context accept a block only with its whole contents fixed by the root.

  The effects of a block on the state of the contract machine and on the log indexes are not modelled; they do not touch coins.
\<close>

subsection \<open>Applying a transaction\<close>

(* src/src/validation.cpp:2249-2253 UpdateCoins *)
fun spend_inputs :: "'b CCoinsView \<Rightarrow> CTxIn list \<Rightarrow> 'b CCoinsViewCache \<Rightarrow> coins_error + 'b CCoinsViewCache \<times> Coin list" where
  "spend_inputs vw [] c = Inr (c, [])"
| "spend_inputs vw (txin # ins) c =
     (case SpendCoin vw c (prevout txin) of
        (c', None) \<Rightarrow> Inl CoinsAssert
      | (c', Some coin) \<Rightarrow> map_sum id (\<lambda>(c'', vprevout). (c'', coin # vprevout)) (spend_inputs vw ins c'))"

text \<open>The second component is the undo record.\<close>

(* src/src/validation.cpp:2244-2257 UpdateCoins *)
definition UpdateCoins :: "'b CCoinsView \<Rightarrow> CTransaction \<Rightarrow> 'b CCoinsViewCache \<Rightarrow> int \<Rightarrow> coins_error + 'b CCoinsViewCache \<times> Coin list" where
  "UpdateCoins vw tx inputs height =
     (case (if IsCoinBase tx then Inr (inputs, []) else spend_inputs vw (vin tx) inputs) of
        Inl e \<Rightarrow> Inl e
      | Inr (c, txundo) \<Rightarrow> map_sum id (\<lambda>c'. (c', txundo)) (AddCoins vw c tx height False))"

text \<open>The calls the loop of \<^verbatim>\<open>ConnectBlock\<close> makes; the record of the coinbase is not kept.\<close>

(* src/src/validation.cpp:3528-3532 ConnectBlock *)
fun connect_txs :: "'b CCoinsView \<Rightarrow> int \<Rightarrow> CTransaction list \<Rightarrow> 'b CCoinsViewCache \<Rightarrow> coins_error + 'b CCoinsViewCache \<times> Coin list list" where
  "connect_txs vw height [] view = Inr (view, [])"
| "connect_txs vw height (tx # txs) view =
     (case UpdateCoins vw tx view height of Inl e \<Rightarrow> Inl e
      | Inr (view', txundo) \<Rightarrow> map_sum id (\<lambda>(view'', us). (view'', txundo # us)) (connect_txs vw height txs view'))"

subsection \<open>Undoing a block\<close>

(* src/src/validation.cpp:2468-2473 DisconnectResult *)
datatype DisconnectResult = DISCONNECT_OK | DISCONNECT_UNCLEAN | DISCONNECT_FAILED

(* src/src/validation.cpp:2482-2507 ApplyTxInUndo *)
definition ApplyTxInUndo :: "'b CCoinsView \<Rightarrow> Coin \<Rightarrow> 'b CCoinsViewCache \<Rightarrow> COutPoint \<Rightarrow> coins_error + 'b CCoinsViewCache \<times> DisconnectResult" where
  "ApplyTxInUndo vw undo view out =
     (case HaveCoin vw view out of (c, have_it) \<Rightarrow>
        let fClean = (\<not> have_it);
            (c', restored) =
              (if coin_nHeight undo = 0
               then case AccessByTxid vw c (COutPoint.op_hash out) of (c1, alternate) \<Rightarrow>
                      (c1, if \<not> Coin_IsSpent alternate
                           then Some (undo\<lparr>coin_nHeight := coin_nHeight alternate, fCoinBase := fCoinBase alternate\<rparr>) else None)
               else (c, Some undo))
        in case restored of None \<Rightarrow> Inr (c', DISCONNECT_FAILED)
           | Some coin \<Rightarrow> map_sum id (\<lambda>c''. (c'', if fClean then DISCONNECT_OK else DISCONNECT_UNCLEAN)) (AddCoin c' out coin (\<not> fClean)))"

(* src/src/validation.cpp:2545-2554 DisconnectBlock *)
fun disconnect_outputs :: "'b CCoinsView \<Rightarrow> bytes \<Rightarrow> int \<Rightarrow> bool \<Rightarrow> bool \<Rightarrow> nat \<Rightarrow> CTxOut list \<Rightarrow> bool \<Rightarrow> 'b CCoinsViewCache \<Rightarrow> 'b CCoinsViewCache \<times> bool" where
  "disconnect_outputs vw hash height is_coinbase is_coinstake o1 [] fClean view = (view, fClean)"
| "disconnect_outputs vw hash height is_coinbase is_coinstake o1 (txout # outs) fClean view =
     (if IsUnspendable (scriptPubKey txout) then disconnect_outputs vw hash height is_coinbase is_coinstake (Suc o1) outs fClean view
      else case SpendCoin vw view (COutPoint_of hash (of_nat o1)) of (view', spent_coin) \<Rightarrow>
        let matches = (case spent_coin of None \<Rightarrow> False
              | Some coin \<Rightarrow> txout = coin_out coin \<and> height = uint (coin_nHeight coin) \<and> is_coinbase = fCoinBase coin \<and> is_coinstake = fCoinStake coin)
        in disconnect_outputs vw hash height is_coinbase is_coinstake (Suc o1) outs (fClean \<and> matches) view')"

text \<open>Inputs are restored from the last to the first, so the list of inputs with their undo coins is handed over reversed. A
  result of \<open>None\<close> is a failure.\<close>

(* src/src/validation.cpp:2563-2568 DisconnectBlock *)
fun restore_inputs :: "'b CCoinsView \<Rightarrow> (CTxIn \<times> Coin) list \<Rightarrow> bool \<Rightarrow> 'b CCoinsViewCache \<Rightarrow> coins_error + 'b CCoinsViewCache \<times> bool option" where
  "restore_inputs vw [] fClean view = Inr (view, Some fClean)"
| "restore_inputs vw ((txin, undo) # ins) fClean view =
     (case ApplyTxInUndo vw undo view (prevout txin) of
        Inl e \<Rightarrow> Inl e
      | Inr (view', res) \<Rightarrow>
          if res = DISCONNECT_FAILED then Inr (view', None)
          else restore_inputs vw ins (fClean \<and> res \<noteq> DISCONNECT_UNCLEAN) view')"

text \<open>The transactions from the last to the first, each with its undo record; the coinbase has none.\<close>

(* src/src/validation.cpp:2537-2571 DisconnectBlock *)
fun disconnect_txs :: "'b CCoinsView \<Rightarrow> int \<Rightarrow> (CTransaction \<times> Coin list option) list \<Rightarrow> bool \<Rightarrow> 'b CCoinsViewCache \<Rightarrow>
    coins_error + 'b CCoinsViewCache \<times> bool option" where
  "disconnect_txs vw height [] fClean view = Inr (view, Some fClean)"
| "disconnect_txs vw height ((tx, txundo) # txs) fClean view =
     (case tx_GetHash tx of None \<Rightarrow> Inl CoinsNoHash
      | Some hash \<Rightarrow>
          (case disconnect_outputs vw hash height (IsCoinBase tx) (IsCoinStake tx) 0 (vout tx) fClean view of (view', fClean') \<Rightarrow>
             (case txundo of None \<Rightarrow> disconnect_txs vw height txs fClean' view'
              | Some vprevout \<Rightarrow>
                  if length vprevout \<noteq> length (vin tx) then Inr (view', None)
                  else (case restore_inputs vw (rev (zip (vin tx) vprevout)) fClean' view' of
                          Inl e \<Rightarrow> Inl e
                        | Inr (view'', None) \<Rightarrow> Inr (view'', None)
                        | Inr (view'', Some fClean'') \<Rightarrow> disconnect_txs vw height txs fClean'' view''))))"

text \<open>The undo data is what was read from disk, \<open>None\<close> if there is none or reading failed; \<open>prev_hash\<close> is the hash of the
  parent.\<close>

(* src/src/validation.cpp:2511-2574 DisconnectBlock *)
definition DisconnectBlock :: "'b CCoinsView \<Rightarrow> CTransaction list \<Rightarrow> bytes \<Rightarrow> bytes \<Rightarrow> int \<Rightarrow> Coin list list option \<Rightarrow> 'b CCoinsViewCache \<Rightarrow>
    coins_error + 'b CCoinsViewCache \<times> DisconnectResult" where
  "DisconnectBlock vw txs block_hash parent_hash height undo view =
     (case GetBestBlock vw view of (c, best) \<Rightarrow>
        if best \<noteq> block_hash then Inl CoinsAssert
        else case undo of None \<Rightarrow> Inr (c, DISCONNECT_FAILED)
          | Some vtxundo \<Rightarrow>
              if length vtxundo + 1 \<noteq> length txs then Inr (c, DISCONNECT_FAILED)
              else case disconnect_txs vw height (rev (zip txs (None # map Some vtxundo))) True c of
                Inl e \<Rightarrow> Inl e
              | Inr (c', None) \<Rightarrow> Inr (c', DISCONNECT_FAILED)
              | Inr (c', Some fClean) \<Rightarrow> Inr (SetBestBlock c' parent_hash, if fClean then DISCONNECT_OK else DISCONNECT_UNCLEAN))"

subsection \<open>The reward of a block\<close>

(* src/src/util.h:54-54 TICKET_VALVE *)
definition TICKET_VALVE :: int where
  "TICKET_VALVE = 5000"

(* src/src/util.h:57-57 TICKET_PRICE *)
definition TICKET_PRICE :: int where
  "TICKET_PRICE = 30000"

(* src/src/validation.cpp:2082-2098 GetBlockSubsidy *)
definition GetBlockSubsidy :: "int \<Rightarrow> int" where
  "GetBlockSubsidy height = (if height \<le> TICKET_VALVE then 260000 * COIN else 2200 * COIN)"

(* src/src/validation.cpp:2754-2761 CheckReward *)
fun refunds_paid :: "CTxOut list \<Rightarrow> CTxOut list \<Rightarrow> bool" where
  "refunds_paid vTempVouts [] = True"
| "refunds_paid vTempVouts (v # vouts) = (if v \<in> set vTempVouts then refunds_paid (remove1 v vTempVouts) vouts else False)"

datatype reward_error = RewardNoTransaction | RewardAmount amount_error

text \<open>Every block is a proof-of-work block (\<^verbatim>\<open>IsProofOfStake\<close> is constantly false), so that the branch for staked blocks is dead
  code. The number of outputs times the price of a ticket is a product of two \<^verbatim>\<open>int\<close>.\<close>

(* src/src/validation.cpp:2749-2787 CheckReward *)
definition CheckReward :: "CTransaction list \<Rightarrow> CValidationState \<Rightarrow> int \<Rightarrow> int \<Rightarrow> CTxOut list \<Rightarrow> reward_error + bool \<times> CValidationState" where
  "CheckReward txs st height nFees vouts =
     (case txs of [] \<Rightarrow> Inl RewardNoTransaction
      | tx0 # _ \<Rightarrow>
          if \<not> refunds_paid (vout tx0) vouts then Inr (state_DoS 100 False 0 [] False st)
          else
            let N = (case List.find IsCoinBase txs of None \<Rightarrow> 0 | Some tx \<Rightarrow> int (length (vout tx)) - 1);
                blockReward = nFees + GetBlockSubsidy height + N * TICKET_PRICE * COIN
            in if N * TICKET_PRICE \<ge> 2 ^ 31 \<or> \<not> int64_range blockReward then Inl (RewardAmount SignedOverflow)
               else case GetValueOut tx0 of Inl e \<Rightarrow> Inl (RewardAmount e)
                 | Inr out \<Rightarrow>
                     if out > blockReward then Inr (state_DoS 100 False REJECT_INVALID ''bad-cb-amount'' False st)
                     else Inr (True, st))"

subsection \<open>Checks of a block without context\<close>

(* src/src/serialize.h:161-161 SER_NETWORK *)
definition SER_NETWORK :: nat where
  "SER_NETWORK = 1"

(* src/src/validation.cpp:4802-4809 CheckBlockHeader *)
definition CheckBlockHeader :: "CBlock \<Rightarrow> CValidationState \<Rightarrow> Params \<Rightarrow> bool \<Rightarrow> (bool \<times> CValidationState) option" where
  "CheckBlockHeader block st params fCheckPOW =
     (case block_GetHash block of None \<Rightarrow> None
      | Some hash \<Rightarrow>
          if fCheckPOW \<and> \<not> CheckProofOfWork hash (bh_nBits block) params False
          then Some (state_DoS 50 False REJECT_INVALID ''high-hash'' False st)
          else Some (True, st))"

(* src/src/validation.cpp:4910-4928 CheckBlock *)
fun check_block_txs :: "u8 \<Rightarrow> nat \<Rightarrow> CTransaction list \<Rightarrow> bool \<Rightarrow> CValidationState \<Rightarrow> bool \<times> CValidationState" where
  "check_block_txs past w [] lastWasContract st = (True, st)"
| "check_block_txs past w (tx # txs) lastWasContract st =
     (case CheckTransaction past w tx st True of (ok, st') \<Rightarrow>
        if \<not> ok then state_Invalid False (chRejectCode st') (strRejectReason st') st'
        else if tx_HasOpSpend tx \<and> \<not> lastWasContract then state_DoS 100 False REJECT_INVALID ''bad-opspend-tx'' False st'
        else check_block_txs past w txs (HasCreateOrCall tx \<or> tx_HasOpSpend tx) st')"

text \<open>The limits a running node can change are parameters. The result holds the block with its flag \<^verbatim>\<open>fChecked\<close>; \<open>None\<close> would be a
  failure to compute a hash.\<close>

record block_limits =
  dgpMaxBlockSize :: nat
  lim_dgpMaxBlockWeight :: nat
  dgpMaxBlockSigOps :: int

(* src/src/validation.cpp:4811-4944 CheckBlock *)
definition CheckBlock :: "u8 \<Rightarrow> block_limits \<Rightarrow> CBlock \<Rightarrow> CValidationState \<Rightarrow> Params \<Rightarrow> bool \<Rightarrow> bool \<Rightarrow> (bool \<times> CValidationState \<times> CBlock) option" where
  "CheckBlock past lim block st params fCheckPOW fCheckMerkleRoot =
     (if fChecked block then Some (True, st, block)
      else case CheckBlockHeader block st params fCheckPOW of None \<Rightarrow> None
        | Some (ok, st1) \<Rightarrow>
            if \<not> ok then Some (False, st1, block)
            else case BlockMerkleRoot block of None \<Rightarrow> None
              | Some (root, mutated) \<Rightarrow>
                  let reject = (\<lambda>reason corrupt. case state_DoS 100 False REJECT_INVALID reason corrupt st1 of (r, st') \<Rightarrow> Some (r, st', block));
                      txs = vtx block
                  in if fCheckMerkleRoot \<and> bh_hashMerkleRoot block \<noteq> root then reject ''bad-txnmrklroot'' True
                     else if fCheckMerkleRoot \<and> mutated then reject ''bad-txns-duplicate'' True
                     else if txs = [] \<or> length txs > dgpMaxBlockSize lim \<or>
                       length (Serialize_CBlock SER_NETWORK (PROTOCOL_VERSION OR SERIALIZE_TRANSACTION_NO_WITNESS) block) > dgpMaxBlockSize lim
                     then reject ''bad-blk-length'' False
                     else if txs = [] \<or> \<not> IsCoinBase (hd txs) then reject ''bad-cb-missing'' False
                     else if list_ex IsCoinBase (tl txs) then reject ''bad-cb-multiple'' False
                     else if tx_HasOpSpend (hd txs) \<or> HasCreateOrCall (hd txs) then reject ''bad-cb-contract'' False
                     else case check_block_txs past (lim_dgpMaxBlockWeight lim) txs False st1 of (ok2, st2) \<Rightarrow>
                       if \<not> ok2 then Some (False, st2, block)
                       else let nSigOps = fold (\<lambda>tx n. n + GetLegacySigOpCount tx) txs 0
                            in if uint (nSigOps * of_nat WITNESS_SCALE_FACTOR) > dgpMaxBlockSigOps lim
                               then (case state_DoS 100 False REJECT_INVALID ''bad-blk-sigops'' False st2 of (r, st') \<Rightarrow> Some (r, st', block))
                               else Some (True, st2, if fCheckPOW \<and> fCheckMerkleRoot then block\<lparr>fChecked := True\<rparr> else block))"

subsection \<open>What a cache represents\<close>

text \<open>A cache stands for a map of unspent coins and the hash of the best block.\<close>

definition represents :: "('b \<Rightarrow> bool) \<Rightarrow> ('b \<Rightarrow> COutPoint \<Rightarrow> Coin option) \<Rightarrow> ('b \<Rightarrow> bytes) \<Rightarrow> 'b CCoinsViewCache \<Rightarrow> (COutPoint \<rightharpoonup> Coin) \<Rightarrow> bytes \<Rightarrow> bool" where
  "represents I u bst c m b \<longleftrightarrow> cache_inv I u c \<and> cache_utxo u c = m \<and> cache_best bst c = b"

fun add_outs :: "bytes \<Rightarrow> int \<Rightarrow> bool \<Rightarrow> bool \<Rightarrow> nat \<Rightarrow> CTxOut list \<Rightarrow> (COutPoint \<rightharpoonup> Coin) \<Rightarrow> (COutPoint \<rightharpoonup> Coin)" where
  "add_outs txid h cb cs i [] m = m"
| "add_outs txid h cb cs i (out # outs) m =
     add_outs txid h cb cs (Suc i) outs
       (if IsUnspendable (scriptPubKey out) then m else m(COutPoint_of txid (of_nat i) \<mapsto> Coin_of out h cb cs))"

text \<open>None of \<open>n\<close> outpoints of a transaction, from index \<open>i\<close> on, has a coin.\<close>

definition no_coins :: "bytes \<Rightarrow> nat \<Rightarrow> nat \<Rightarrow> (COutPoint \<rightharpoonup> Coin) \<Rightarrow> bool" where
  "no_coins txid i n m \<longleftrightarrow> (\<forall>j. i \<le> j \<and> j < i + n \<longrightarrow> m (COutPoint_of txid (of_nat j)) = None)"

definition coin_ok :: "Coin \<Rightarrow> bool" where
  "coin_ok coin \<longleftrightarrow> \<not> Coin_IsSpent coin \<and> \<not> IsUnspendable (scriptPubKey (coin_out coin)) \<and> coin_nHeight coin \<noteq> 0"

lemma COutPoint_of_inject: "i < 2 ^ 32 \<Longrightarrow> j < 2 ^ 32 \<Longrightarrow> COutPoint_of t (of_nat i) = COutPoint_of t (of_nat j) \<longleftrightarrow> i = j"
  by (simp add: COutPoint_of_def word_of_nat_eq_iff take_bit_eq_mod)

lemma Coin_of_simps [simp]: "Coin_IsSpent (Coin_of out h cb cs) \<longleftrightarrow> CTxOut_IsNull out" "coin_out (Coin_of out h cb cs) = out"
  "fCoinBase (Coin_of out h cb cs) = cb" "fCoinStake (Coin_of out h cb cs) = cs" "coin_nHeight (Coin_of out h cb cs) = of_int h"
  by (simp_all add: Coin_of_def Coin_IsSpent_def)

lemma no_coins_Suc: "no_coins t i (Suc n) m \<longleftrightarrow> m (COutPoint_of t (of_nat i)) = None \<and> no_coins t (Suc i) n m"
proof -
  have e: "i \<le> j \<and> j < i + Suc n \<longleftrightarrow> j = i \<or> Suc i \<le> j \<and> j < Suc i + n" for j by auto
  show ?thesis unfolding no_coins_def e by (simp only: imp_disjL all_conj_distrib simp_thms)
qed

lemma no_coins_upd: "no_coins t (Suc i) n m \<Longrightarrow> Suc i + n \<le> 2 ^ 32 \<Longrightarrow> no_coins t (Suc i) n (m(COutPoint_of t (of_nat i) := x))"
  unfolding no_coins_def by (auto simp: COutPoint_of_inject)

lemma add_outs_upd:
  "k < i \<Longrightarrow> i + length outs \<le> 2 ^ 32 \<Longrightarrow>
     add_outs t h cb cs i outs (m(COutPoint_of t (of_nat k) := x)) = (add_outs t h cb cs i outs m)(COutPoint_of t (of_nat k) := x)"
proof (induction outs arbitrary: i m)
  case (Cons out outs)
  have "COutPoint_of t (of_nat i) \<noteq> COutPoint_of t (of_nat k)" using Cons.prems by (simp add: COutPoint_of_inject)
  then have e: "(if IsUnspendable (scriptPubKey out) then m(COutPoint_of t (of_nat k) := x)
      else (m(COutPoint_of t (of_nat k) := x))(COutPoint_of t (of_nat i) \<mapsto> Coin_of out h cb cs)) =
    (if IsUnspendable (scriptPubKey out) then m else m(COutPoint_of t (of_nat i) \<mapsto> Coin_of out h cb cs))(COutPoint_of t (of_nat k) := x)"
    by (simp add: fun_upd_twist)
  show ?case unfolding add_outs.simps e by (rule Cons.IH) (use Cons.prems in simp_all)
qed simp

context coins_view
begin

lemma rep_have:
  "represents I utxo best c m b \<Longrightarrow> HaveCoin vw c p = (c', ok) \<Longrightarrow> represents I utxo best c' m b \<and> (ok \<longleftrightarrow> m p \<noteq> None)"
  using HaveCoin_spec [of c p c' ok] by (auto simp: represents_def)

lemma rep_spend:
  assumes "represents I utxo best c m b" "m p = Some coin"
  shows "\<exists>c'. SpendCoin vw c p = (c', Some coin) \<and> represents I utxo best c' (m(p := None)) b"
proof -
  obtain c' r where s: "SpendCoin vw c p = (c', r)" by force
  show ?thesis using SpendCoin_spec [OF _ s] assms s by (auto simp: represents_def split: option.splits if_splits)
qed

lemma rep_add:
  assumes "represents I utxo best c m b" "\<not> Coin_IsSpent coin" "\<not> IsUnspendable (scriptPubKey (coin_out coin))" "m p = None"
  shows "\<exists>c'. AddCoin c p coin ovw = Inr c' \<and> represents I utxo best c' (m(p \<mapsto> coin)) b"
  using AddCoin_spec [of I utxo c coin ovw p] assms by (auto simp: represents_def cache_best_def)

lemma rep_AddCoins_loop:
  "represents I utxo best c m b \<Longrightarrow> \<not> list_ex CTxOut_IsNull outs \<Longrightarrow> i + length outs \<le> 2 ^ 32 \<Longrightarrow> no_coins t i (length outs) m \<Longrightarrow>
     \<exists>c'. AddCoins_loop vw t h False cb cs i outs c = Inr c' \<and> represents I utxo best c' (add_outs t h cb cs i outs m) b"
proof (induction outs arbitrary: i c m)
  case (Cons out outs)
  let ?p = "COutPoint_of t (of_nat i)" and ?coin = "Coin_of out h cb cs"
  have n: "m ?p = None" "no_coins t (Suc i) (length outs) m" using Cons.prems(4) by (simp_all add: no_coins_Suc)
  have ok: "\<not> list_ex CTxOut_IsNull outs" and le: "Suc i + length outs \<le> 2 ^ 32" using Cons.prems(2,3) by simp_all
  show ?case
  proof (cases "IsUnspendable (scriptPubKey out)")
    case True
    then have "AddCoin c ?p ?coin cb = Inr c" using Cons.prems(2) by (simp add: AddCoin_unspendable)
    then show ?thesis using Cons.IH [OF Cons.prems(1), of "Suc i"] Cons.prems n True by (simp add: Let_def)
  next
    case False
    obtain c1 where c1: "AddCoin c ?p ?coin cb = Inr c1" "represents I utxo best c1 (m(?p \<mapsto> ?coin)) b"
      using rep_add [OF Cons.prems(1), of ?coin ?p cb] Cons.prems(2) False n(1) by auto
    obtain c' where c': "AddCoins_loop vw t h False cb cs (Suc i) outs c1 = Inr c'"
      "represents I utxo best c' (add_outs t h cb cs (Suc i) outs (m(?p \<mapsto> ?coin))) b"
      using Cons.IH [OF c1(2) ok le no_coins_upd [OF n(2) le]] by blast
    have "AddCoins_loop vw t h False cb cs i (out # outs) c = Inr c'" using c1(1) c'(1) by (simp add: Let_def)
    moreover have "add_outs t h cb cs i (out # outs) m = add_outs t h cb cs (Suc i) outs (m(?p \<mapsto> ?coin))" using False by simp
    ultimately show ?thesis using c'(2) by metis
  qed
qed simp

lemma rep_disconnect_outputs:
  "represents I utxo best c (add_outs t h cb cs i outs m) b \<Longrightarrow> i + length outs \<le> 2 ^ 32 \<Longrightarrow> no_coins t i (length outs) m \<Longrightarrow> 0 \<le> h \<Longrightarrow> h < 2 ^ 30 \<Longrightarrow>
     \<exists>c'. disconnect_outputs vw t h cb cs i outs fClean c = (c', fClean) \<and> represents I utxo best c' m b"
proof (induction outs arbitrary: i c m)
  case (Cons out outs)
  let ?p = "COutPoint_of t (of_nat i)" and ?coin = "Coin_of out h cb cs" and ?m = "add_outs t h cb cs (Suc i) outs m"
  have n: "m ?p = None" "no_coins t (Suc i) (length outs) m" "Suc i + length outs \<le> 2 ^ 32" using Cons.prems(2,3) by (simp_all add: no_coins_Suc)
  show ?case
  proof (cases "IsUnspendable (scriptPubKey out)")
    case True
    then show ?thesis using Cons.IH [of c "Suc i" m] Cons.prems n by simp
  next
    case False
    note upd = add_outs_upd [of i "Suc i" outs t h cb cs m, OF _ n(3)]
    have "add_outs t h cb cs i (out # outs) m = ?m(?p \<mapsto> ?coin)" using False upd [of "Some ?coin"] by simp
    then have rep: "represents I utxo best c (?m(?p \<mapsto> ?coin)) b" using Cons.prems(1) by metis
    obtain c1 where c1: "SpendCoin vw c ?p = (c1, Some ?coin)" "represents I utxo best c1 (?m(?p := None)) b"
      using rep_spend [OF rep fun_upd_same, unfolded fun_upd_upd] by blast
    have "m(?p := None) = m" using n(1) by (rule fun_upd_idem)
    then have "?m(?p := None) = ?m" using upd [of None] by simp
    then have "represents I utxo best c1 ?m b" using c1(2) by metis
    from Cons.IH [OF this n(3,2) Cons.prems(4,5)]
    obtain c' where "disconnect_outputs vw t h cb cs (Suc i) outs fClean c1 = (c', fClean)" "represents I utxo best c' m b" by blast
    moreover have "uint (of_int h :: 30 word) = h" using Cons.prems(4,5) by (simp add: uint_word_of_int take_bit_int_eq_self)
    ultimately show ?thesis using c1(1) False by (simp add: Let_def)
  qed
qed simp

lemma rep_spend_inputs:
  "represents I utxo best c m b \<Longrightarrow> distinct (map prevout ins) \<Longrightarrow> \<forall>i \<in> set ins. m (prevout i) \<noteq> None \<Longrightarrow>
     \<exists>c'. spend_inputs vw ins c = Inr (c', spent_coins m ins) \<and> represents I utxo best c' (m |` (- prevout ` set ins)) b"
proof (induction ins arbitrary: c m)
  case Nil
  then show ?case by (simp add: spent_coins_def)
next
  case (Cons i ins)
  let ?p = "prevout i"
  obtain coin where coin: "m ?p = Some coin" using Cons.prems(3) by auto
  obtain c1 where c1: "SpendCoin vw c ?p = (c1, Some coin)" "represents I utxo best c1 (m(?p := None)) b"
    using rep_spend [OF Cons.prems(1) coin] by blast
  have notin: "\<forall>j \<in> set ins. prevout j \<noteq> ?p" using Cons.prems(2) by (auto simp: image_iff)
  have "\<forall>j \<in> set ins. (m(?p := None)) (prevout j) \<noteq> None" using notin Cons.prems(3) by simp
  have d: "distinct (map prevout ins)" using Cons.prems(2) by simp
  obtain c' where c': "spend_inputs vw ins c1 = Inr (c', spent_coins (m(?p := None)) ins)"
    "represents I utxo best c' ((m(?p := None)) |` (- prevout ` set ins)) b"
    using Cons.IH [OF c1(2) d \<open>\<forall>j \<in> set ins. (m(?p := None)) (prevout j) \<noteq> None\<close>] by blast
  have "spent_coins (m(?p := None)) ins = spent_coins m ins" using notin by (simp add: spent_coins_def)
  then have "spend_inputs vw (i # ins) c = Inr (c', spent_coins m (i # ins))" using c1(1) c'(1) coin by (simp add: spent_coins_def)
  moreover have "(m(?p := None)) |` (- prevout ` set ins) = m |` (- prevout ` set (i # ins))"
    by (rule ext) (simp add: restrict_map_def)
  ultimately show ?case using c'(2) by metis
qed

lemma rep_restore_inputs:
  "represents I utxo best c (m |` (- (prevout \<circ> fst) ` set xs)) b \<Longrightarrow> distinct (map (prevout \<circ> fst) xs) \<Longrightarrow>
     \<forall>(i, coin) \<in> set xs. m (prevout i) = Some coin \<and> coin_ok coin \<Longrightarrow>
     \<exists>c'. restore_inputs vw xs fClean c = Inr (c', Some fClean) \<and> represents I utxo best c' m b"
proof (induction xs arbitrary: c)
  case Nil
  then show ?case by simp
next
  case (Cons x xs)
  obtain i coin where x: "x = (i, coin)" by (cases x)
  let ?p = "prevout i" and ?m = "m |` (- (prevout \<circ> fst) ` set (x # xs))"
  have coin: "m ?p = Some coin" "coin_ok coin" using Cons.prems(3) x by auto
  obtain c1 ok where h: "HaveCoin vw c ?p = (c1, ok)" by force
  have c1: "represents I utxo best c1 ?m b" "\<not> ok" using rep_have [OF Cons.prems(1) h] x by simp_all
  have "?m ?p = None" using x by simp
  then obtain c2 where c2: "AddCoin c1 ?p coin False = Inr c2" "represents I utxo best c2 (?m(?p \<mapsto> coin)) b"
    using rep_add [OF c1(1)] coin(2) unfolding coin_ok_def by blast
  have a: "ApplyTxInUndo vw coin c ?p = Inr (c2, DISCONNECT_OK)" using h c1(2) c2(1) coin(2) by (simp add: ApplyTxInUndo_def coin_ok_def)
  have "?p \<notin> (prevout \<circ> fst) ` set xs" using Cons.prems(2) x by auto
  then have "?m(?p \<mapsto> coin) = m |` (- (prevout \<circ> fst) ` set xs)" using coin(1) x by (auto simp: fun_eq_iff restrict_map_def)
  then have "represents I utxo best c2 (m |` (- (prevout \<circ> fst) ` set xs)) b" using c2(2) by metis
  from Cons.IH [OF this] Cons.prems(2,3) a x show ?case by simp
qed

end

subsection \<open>Applying and undoing transactions\<close>

definition txid :: "CTransaction \<Rightarrow> bytes" where
  "txid tx = the (tx_GetHash tx)"

lemma tx_GetHash_txid: "tx_GetHash tx = Some (txid tx)"
  by (simp add: txid_def tx_GetHash_def SerializeHash_sha3)

definition unspent_inputs :: "CTransaction \<Rightarrow> (COutPoint \<rightharpoonup> Coin) \<Rightarrow> (COutPoint \<rightharpoonup> Coin)" where
  "unspent_inputs tx m = (if IsCoinBase tx then m else m |` (- prevout ` set (vin tx)))"

definition apply_tx :: "int \<Rightarrow> CTransaction \<Rightarrow> (COutPoint \<rightharpoonup> Coin) \<Rightarrow> (COutPoint \<rightharpoonup> Coin)" where
  "apply_tx h tx m = add_outs (txid tx) h (IsCoinBase tx) (IsCoinStake tx) 0 (vout tx) (unspent_inputs tx m)"

text \<open>What has to hold for a transaction to be applied: its inputs are different unspent coins, its outputs have values and do not
  overwrite coins.\<close>

definition applicable :: "CTransaction \<Rightarrow> (COutPoint \<rightharpoonup> Coin) \<Rightarrow> bool" where
  "applicable tx m \<longleftrightarrow> (IsCoinBase tx \<or> distinct (map prevout (vin tx)) \<and> (\<forall>i \<in> set (vin tx). m (prevout i) \<noteq> None)) \<and>
     \<not> list_ex CTxOut_IsNull (vout tx) \<and> length (vout tx) \<le> 2 ^ 32 \<and> no_coins (txid tx) 0 (length (vout tx)) (unspent_inputs tx m)"

definition undo_of :: "CTransaction \<Rightarrow> (COutPoint \<rightharpoonup> Coin) \<Rightarrow> Coin list" where
  "undo_of tx m = (if IsCoinBase tx then [] else spent_coins m (vin tx))"

definition coins_ok :: "(COutPoint \<rightharpoonup> Coin) \<Rightarrow> bool" where
  "coins_ok m \<longleftrightarrow> (\<forall>p coin. m p = Some coin \<longrightarrow> coin_ok coin)"

lemma add_outs_ran:
  "add_outs t h cb cs i outs m p = Some coin \<Longrightarrow>
     m p = Some coin \<or> (\<exists>out \<in> set outs. \<not> IsUnspendable (scriptPubKey out) \<and> coin = Coin_of out h cb cs)"
proof (induction outs arbitrary: i m)
  case (Cons out outs)
  show ?case using Cons.IH [OF Cons.prems [unfolded add_outs.simps]] by (auto split: if_splits)
qed simp

lemma apply_tx_coins_ok:
  assumes "coins_ok m" "applicable tx m" "0 < h" "h < 2 ^ 30"
  shows "coins_ok (apply_tx h tx m)"
  unfolding coins_ok_def
proof (intro allI impI)
  fix p coin assume c: "apply_tx h tx m p = Some coin"
  have "(of_int h :: 30 word) \<noteq> 0"
  proof
    assume "(of_int h :: 30 word) = 0"
    then have "uint (of_int h :: 30 word) = 0" by simp
    then show False using assms(3,4) by (simp add: uint_word_of_int take_bit_int_eq_self)
  qed
  moreover have "unspent_inputs tx m p = Some coin \<Longrightarrow> m p = Some coin" by (auto simp: unspent_inputs_def restrict_map_def split: if_splits)
  ultimately show "coin_ok coin" using add_outs_ran [OF c [unfolded apply_tx_def]] assms(1,2)
    by (auto simp: coins_ok_def coin_ok_def applicable_def list_ex_iff)
qed

context coins_view
begin

lemma rep_UpdateCoins:
  assumes "represents I utxo best c m b" "applicable tx m"
  shows "\<exists>c'. UpdateCoins vw tx c h = Inr (c', undo_of tx m) \<and> represents I utxo best c' (apply_tx h tx m) b"
proof -
  have "\<exists>c1. (if IsCoinBase tx then Inr (c, []) else spend_inputs vw (vin tx) c) = Inr (c1, undo_of tx m) \<and>
    represents I utxo best c1 (unspent_inputs tx m) b"
    using rep_spend_inputs [OF assms(1), of "vin tx"] assms by (cases "IsCoinBase tx") (auto simp: applicable_def undo_of_def unspent_inputs_def)
  then obtain c1 where c1: "(if IsCoinBase tx then Inr (c, []) else spend_inputs vw (vin tx) c) = Inr (c1, undo_of tx m)"
    "represents I utxo best c1 (unspent_inputs tx m) b" by blast
  obtain c' where "AddCoins_loop vw (txid tx) h False (IsCoinBase tx) (IsCoinStake tx) 0 (vout tx) c1 = Inr c'"
    "represents I utxo best c' (apply_tx h tx m) b"
    using rep_AddCoins_loop [OF c1(2), of "vout tx" 0 "txid tx" h "IsCoinBase tx" "IsCoinStake tx"] assms(2)
    unfolding applicable_def apply_tx_def by (simp only: add_0) blast
  then show ?thesis using c1(1) by (simp add: UpdateCoins_def AddCoins_def tx_GetHash_txid)
qed

lemma rep_disconnect_tx:
  assumes "represents I utxo best c (apply_tx h tx m) b" "applicable tx m" "coins_ok m" "0 \<le> h" "h < 2 ^ 30"
  shows "\<exists>c'. disconnect_txs vw h [(tx, if IsCoinBase tx then None else Some (undo_of tx m))] fClean c = Inr (c', Some fClean) \<and> represents I utxo best c' m b"
proof -
  have ap: "0 + length (vout tx) \<le> 2 ^ 32" "no_coins (txid tx) 0 (length (vout tx)) (unspent_inputs tx m)"
    using assms(2) by (simp_all add: applicable_def)
  obtain c1 where c1: "disconnect_outputs vw (txid tx) h (IsCoinBase tx) (IsCoinStake tx) 0 (vout tx) fClean c = (c1, fClean)"
    "represents I utxo best c1 (unspent_inputs tx m) b"
    using rep_disconnect_outputs [OF assms(1) [unfolded apply_tx_def] ap assms(4,5)] by blast
  show ?thesis
  proof (cases "IsCoinBase tx")
    case True
    then show ?thesis using c1 by (simp add: tx_GetHash_txid unspent_inputs_def)
  next
    case False
    let ?xs = "rev (zip (vin tx) (spent_coins m (vin tx)))"
    have xs: "set ?xs = (\<lambda>i. (i, the (m (prevout i)))) ` set (vin tx)" "map (prevout \<circ> fst) ?xs = rev (map prevout (vin tx))"
      by (simp_all add: spent_coins_def zip_map2 zip_same_conv_map rev_map)
    have in1: "distinct (map prevout (vin tx))" "\<forall>i \<in> set (vin tx). m (prevout i) \<noteq> None" using assms(2) False by (simp_all add: applicable_def)
    have "(prevout \<circ> fst) ` set ?xs = prevout ` set (vin tx)" unfolding xs(1) by force
    then have "represents I utxo best c1 (m |` (- (prevout \<circ> fst) ` set ?xs)) b" using c1(2) False by (simp add: unspent_inputs_def)
    moreover have "distinct (map (prevout \<circ> fst) ?xs)" unfolding xs(2) using in1(1) by simp
    moreover have "\<forall>(i, coin) \<in> set ?xs. m (prevout i) = Some coin \<and> coin_ok coin"
      unfolding xs(1) using in1(2) assms(3) by (auto simp: coins_ok_def)
    ultimately obtain c' where "restore_inputs vw ?xs fClean c1 = Inr (c', Some fClean)" "represents I utxo best c' m b"
      using rep_restore_inputs by blast
    then show ?thesis using c1(1) False by (simp add: tx_GetHash_txid undo_of_def spent_coins_def)
  qed
qed

end

fun apply_txs :: "int \<Rightarrow> CTransaction list \<Rightarrow> (COutPoint \<rightharpoonup> Coin) \<Rightarrow> (COutPoint \<rightharpoonup> Coin)" where
  "apply_txs h [] m = m"
| "apply_txs h (tx # txs) m = apply_txs h txs (apply_tx h tx m)"

fun all_applicable :: "int \<Rightarrow> CTransaction list \<Rightarrow> (COutPoint \<rightharpoonup> Coin) \<Rightarrow> bool" where
  "all_applicable h [] m = True"
| "all_applicable h (tx # txs) m \<longleftrightarrow> applicable tx m \<and> all_applicable h txs (apply_tx h tx m)"

fun undos :: "int \<Rightarrow> CTransaction list \<Rightarrow> (COutPoint \<rightharpoonup> Coin) \<Rightarrow> Coin list list" where
  "undos h [] m = []"
| "undos h (tx # txs) m = undo_of tx m # undos h txs (apply_tx h tx m)"

definition undo_pair :: "CTransaction \<Rightarrow> Coin list \<Rightarrow> CTransaction \<times> Coin list option" where
  "undo_pair tx u = (tx, if IsCoinBase tx then None else Some u)"

lemma length_undos [simp]: "length (undos h txs m) = length txs"
  by (induction txs arbitrary: m) simp_all

lemma disconnect_txs_append:
  "disconnect_txs vw h xs fClean c = Inr (c', Some fClean') \<Longrightarrow> disconnect_txs vw h (xs @ ys) fClean c = disconnect_txs vw h ys fClean' c'"
proof (induction xs arbitrary: fClean c)
  case (Cons x xs)
  obtain tx u where x: "x = (tx, u)" by (cases x)
  obtain c1 f1 where o: "disconnect_outputs vw (txid tx) h (IsCoinBase tx) (IsCoinStake tx) 0 (vout tx) fClean c = (c1, f1)" by force
  show ?case
  proof (cases u)
    case None
    then show ?thesis using Cons x o by (simp add: tx_GetHash_txid)
  next
    case (Some vs)
    show ?thesis
    proof (cases "restore_inputs vw (rev (zip (vin tx) vs)) f1 c1")
      case (Inl e)
      then show ?thesis using Cons.prems x o Some by (simp add: tx_GetHash_txid split: if_splits)
    next
      case (Inr r)
      then show ?thesis using Cons x o Some by (cases r) (auto simp: tx_GetHash_txid split: if_splits option.splits)
    qed
  qed
qed simp

context coins_view
begin

lemma rep_connect_txs:
  "represents I utxo best c m b \<Longrightarrow> all_applicable h txs m \<Longrightarrow>
     \<exists>c'. connect_txs vw h txs c = Inr (c', undos h txs m) \<and> represents I utxo best c' (apply_txs h txs m) b"
proof (induction txs arbitrary: c m)
  case (Cons tx txs)
  obtain c1 where c1: "UpdateCoins vw tx c h = Inr (c1, undo_of tx m)" "represents I utxo best c1 (apply_tx h tx m) b"
    using rep_UpdateCoins [OF Cons.prems(1)] Cons.prems(2) by fastforce
  obtain c' where "connect_txs vw h txs c1 = Inr (c', undos h txs (apply_tx h tx m))" "represents I utxo best c' (apply_txs h txs (apply_tx h tx m)) b"
    using Cons.IH [OF c1(2)] Cons.prems(2) by auto
  then show ?case using c1(1) by simp
qed simp

lemma rep_disconnect_txs:
  assumes "0 < h" "h < 2 ^ 30"
  shows "represents I utxo best c (apply_txs h txs m) b \<Longrightarrow> all_applicable h txs m \<Longrightarrow> coins_ok m \<Longrightarrow>
    \<exists>c'. disconnect_txs vw h (rev (map2 undo_pair txs (undos h txs m))) fClean c = Inr (c', Some fClean) \<and> represents I utxo best c' m b"
proof (induction txs arbitrary: m)
  case (Cons tx txs)
  have ap: "applicable tx m" "all_applicable h txs (apply_tx h tx m)" using Cons.prems(2) by simp_all
  have rep: "represents I utxo best c (apply_txs h txs (apply_tx h tx m)) b" using Cons.prems(1) by simp
  obtain c1 where c1: "disconnect_txs vw h (rev (map2 undo_pair txs (undos h txs (apply_tx h tx m)))) fClean c = Inr (c1, Some fClean)"
    "represents I utxo best c1 (apply_tx h tx m) b"
    using Cons.IH [OF rep ap(2) apply_tx_coins_ok [OF Cons.prems(3) ap(1) assms]] by blast
  obtain c' where "disconnect_txs vw h [undo_pair tx (undo_of tx m)] fClean c1 = Inr (c', Some fClean)" "represents I utxo best c' m b"
    using rep_disconnect_tx [OF c1(2) ap(1) Cons.prems(3)] assms unfolding undo_pair_def by fastforce
  then show ?case using disconnect_txs_append [OF c1(1), of "[undo_pair tx (undo_of tx m)]"] by simp
qed simp

end

lemma rep_SetBestBlock:
  assumes "represents I u bst c m b" "\<not> hash_IsNull x"
  shows "represents I u bst (SetBestBlock c x) m x"
proof -
  have "cache_utxo u (SetBestBlock c x) = cache_utxo u c" by (simp add: cache_utxo_def SetBestBlock_def fun_eq_iff split: option.split)
  then show ?thesis using assms by (simp add: represents_def) (simp add: SetBestBlock_def cache_inv_def cache_best_def)
qed

text \<open>C2. Undoing a block restores the coins. Whatever the cache and the view below it hold, if the transactions of a block, a
  coinbase first, can be applied one after the other, then applying them gives the expected coins, and undoing the block with
  the recorded data reports a clean result and gives back exactly the coins from before, with the parent as best block; this
  includes outputs created and spent inside the block.\<close>
theorem disconnect_undoes_connect:
  assumes "coins_view vw I utxo best" "represents I utxo best c m b" "coins_ok m" "0 < h" "h < 2 ^ 30"
    "txs = tx0 # rest" "IsCoinBase tx0" "\<not> list_ex IsCoinBase rest" "all_applicable h txs m" "\<not> hash_IsNull hash" "\<not> hash_IsNull parent"
  shows "\<exists>c1 undo c2. connect_txs vw h txs c = Inr (c1, undo) \<and> represents I utxo best c1 (apply_txs h txs m) b \<and>
    DisconnectBlock vw txs hash parent h (Some (tl undo)) (SetBestBlock c1 hash) = Inr (c2, DISCONNECT_OK) \<and> represents I utxo best c2 m parent"
proof -
  obtain c1 where c1: "connect_txs vw h txs c = Inr (c1, undos h txs m)" "represents I utxo best c1 (apply_txs h txs m) b"
    using coins_view.rep_connect_txs [OF assms(1,2,9)] by blast
  obtain c2 where g: "GetBestBlock vw (SetBestBlock c1 hash) = (c2, hash)" "represents I utxo best c2 (apply_txs h txs m) hash"
    using rep_SetBestBlock [OF c1(2) assms(10)] assms(10) by (auto simp: GetBestBlock_def SetBestBlock_def)
  have "map2 undo_pair txs (undos h txs m) = zip txs (None # map Some (tl (undos h txs m)))"
  proof (rule nth_equalityI)
    fix i assume i: "i < length (map2 undo_pair txs (undos h txs m))"
    show "map2 undo_pair txs (undos h txs m) ! i = zip txs (None # map Some (tl (undos h txs m))) ! i"
    proof (cases i)
      case 0
      then show ?thesis using assms(6,7) by (simp add: undo_pair_def)
    next
      case (Suc j)
      then have "\<not> IsCoinBase (rest ! j)" using assms(6,8) i by (auto simp: list_ex_iff)
      then show ?thesis using i assms(6) Suc by (simp add: undo_pair_def)
    qed
  qed (simp add: assms(6))
  then obtain c3 where c3: "disconnect_txs vw h (rev (zip txs (None # map Some (tl (undos h txs m))))) True c2 = Inr (c3, Some True)" "represents I utxo best c3 m hash"
    using coins_view.rep_disconnect_txs [OF assms(1,4,5) g(2) assms(9,3), of True] by auto
  have "length (tl (undos h txs m)) + 1 = length txs" using assms(6) by simp
  then have "DisconnectBlock vw txs hash parent h (Some (tl (undos h txs m))) (SetBestBlock c1 hash) = Inr (SetBestBlock c3 parent, DISCONNECT_OK)"
    using g(1) c3(1) by (simp add: DisconnectBlock_def)
  then show ?thesis using c1 rep_SetBestBlock [OF c3(2) assms(11)] by blast
qed

definition sample_coinbase :: CTransaction where
  "sample_coinbase = \<lparr>tx_nVersion = 1, vin = [\<lparr>prevout = COutPoint_null, scriptSig = [1, 2], nSequence = 0, scriptWitness = []\<rparr>],
     vout = [\<lparr>nValue = 10, scriptPubKey = [OP_RETURN]\<rparr>], tx_nLockTime = 0\<rparr>"

lemma sample_coinbase_facts: "IsCoinBase sample_coinbase" "apply_tx h sample_coinbase m = m" "applicable sample_coinbase m \<longleftrightarrow> no_coins (txid sample_coinbase) 0 1 m"
proof -
  have n: "COutPoint_IsNull COutPoint_null" by (simp add: COutPoint_IsNull_def COutPoint_null_def list_all_iff)
  then show c: "IsCoinBase sample_coinbase" by (simp add: IsCoinBase_def sample_coinbase_def)
  show "apply_tx h sample_coinbase m = m" using c unfolding apply_tx_def unspent_inputs_def by (simp add: sample_coinbase_def IsUnspendable_def)
  show "applicable sample_coinbase m \<longleftrightarrow> no_coins (txid sample_coinbase) 0 1 m"
    using c unfolding applicable_def unspent_inputs_def by (simp add: sample_coinbase_def CTxOut_IsNull_def)
qed

lemma sample_payment_applicable: "applicable sample_payment sample_coins"
proof -
  have "sample_coins |` (- {sample_spent}) = Map.empty" by (auto simp: sample_coins_def)
  then have "unspent_inputs sample_payment sample_coins = Map.empty" using sample_valid(2) by (simp add: unspent_inputs_def sample_payment_def)
  then show ?thesis unfolding applicable_def by (simp add: no_coins_def sample_payment_def CTxOut_IsNull_def sample_coins_def)
qed

lemma sample_coins_ok: "coins_ok sample_coins" "represents db_inv db_coins db_GetBestBlock sample_cache sample_coins (replicate 32 0)"
proof -
  have "coin_ok (sample_coin\<lparr>fCoinBase := False\<rparr>)"
    using sample_coin_unspent by (simp add: coin_ok_def Coin_IsSpent_def) (simp add: sample_coin_def)
  then show "coins_ok sample_coins" by (simp add: coins_ok_def sample_coins_def)
  show "represents db_inv db_coins db_GetBestBlock sample_cache sample_coins (replicate 32 0)"
    by (simp add: represents_def sample_cache_ok) (simp add: sample_cache_def CCoinsViewCache_of_def cache_best_def hash_IsNull_def list_all_iff db_GetBestBlock_def sample_db_def)
qed

lemma sample_all_applicable: "all_applicable 9 [sample_coinbase, sample_payment] sample_coins"
proof -
  have "COutPoint_of t 0 \<noteq> sample_spent" for t by (simp add: COutPoint_of_def sample_spent_def COutPoint_null_def)
  then have "no_coins (txid sample_coinbase) 0 1 sample_coins" by (simp add: no_coins_def sample_coins_def)
  then show ?thesis by (simp add: sample_coinbase_facts sample_payment_applicable)
qed

theorem disconnect_undoes_connect_witness:
  "\<exists>c1 undo c2. connect_txs (db_view length 0) 9 [sample_coinbase, sample_payment] sample_cache = Inr (c1, undo) \<and>
     DisconnectBlock (db_view length 0) [sample_coinbase, sample_payment] [1] [2] 9 (Some (tl undo)) (SetBestBlock c1 [1]) = Inr (c2, DISCONNECT_OK) \<and>
     cache_utxo db_coins c2 = sample_coins"
proof -
  have n: "\<not> list_ex IsCoinBase [sample_payment]" "\<not> hash_IsNull [1]" "\<not> hash_IsNull [2]" using sample_valid(2) by (simp_all add: hash_IsNull_def)
  show ?thesis
    using disconnect_undoes_connect [OF db.coins_view_axioms [of length 0] sample_coins_ok(2,1) _ _ refl sample_coinbase_facts(1) n(1) sample_all_applicable n(2,3)]
    unfolding represents_def by auto
qed

subsection \<open>The amount of money\<close>

definition money :: "(COutPoint \<rightharpoonup> Coin) \<Rightarrow> int" where
  "money m = (\<Sum>p \<in> dom m. coin_value (the (m p)))"

definition paid_in :: "CTransaction \<Rightarrow> (COutPoint \<rightharpoonup> Coin) \<Rightarrow> int" where
  "paid_in tx m = sum_list (map coin_value (spent_coins m (vin tx)))"

definition paid_out :: "CTransaction \<Rightarrow> int" where
  "paid_out tx = sum_list (amounts (vout tx))"

lemma money_add: "finite (dom m) \<Longrightarrow> m p = None \<Longrightarrow> money (m(p \<mapsto> coin)) = money m + coin_value coin"
proof -
  assume f: "finite (dom m)" and n: "m p = None"
  have "(\<Sum>q \<in> dom m. coin_value (the ((m(p \<mapsto> coin)) q))) = money m" unfolding money_def using n by (intro sum.cong) auto
  then show ?thesis using f n by (simp add: money_def domIff)
qed

lemma money_del:
  assumes "finite (dom m)" "m p = Some coin"
  shows "money (m(p := None)) = money m - coin_value coin"
proof -
  have "(m(p := None))(p \<mapsto> coin) = m" using assms(2) by (auto simp: fun_eq_iff)
  then show ?thesis using money_add [of "m(p := None)" p coin] assms(1) by (simp add: dom_fun_upd)
qed

lemma money_restrict:
  "finite (dom m) \<Longrightarrow> distinct (map prevout ins) \<Longrightarrow> \<forall>i \<in> set ins. m (prevout i) \<noteq> None \<Longrightarrow>
     money (m |` (- prevout ` set ins)) = money m - sum_list (map coin_value (spent_coins m ins))"
proof (induction ins arbitrary: m)
  case Nil
  then show ?case by (simp add: spent_coins_def)
next
  case (Cons i ins)
  let ?p = "prevout i" and ?m = "m(prevout i := None)"
  obtain coin where coin: "m ?p = Some coin" using Cons.prems(3) by auto
  have notin: "\<forall>j \<in> set ins. prevout j \<noteq> ?p" using Cons.prems(2) by (auto simp: image_iff)
  have "money (?m |` (- prevout ` set ins)) = money ?m - sum_list (map coin_value (spent_coins ?m ins))"
  proof (rule Cons.IH)
    show "finite (dom ?m)" using Cons.prems(1) by (simp add: dom_fun_upd)
  qed (use Cons.prems notin in simp_all)
  moreover have "?m |` (- prevout ` set ins) = m |` (- prevout ` set (i # ins))" by (rule ext) (simp add: restrict_map_def)
  moreover have "spent_coins ?m ins = spent_coins m ins" using notin by (simp add: spent_coins_def)
  moreover have "spent_coins m (i # ins) = coin # spent_coins m ins" using coin by (simp add: spent_coins_def)
  ultimately show ?case using money_del [OF Cons.prems(1) coin] by (simp only: list.map sum_list.Cons)
qed

lemma money_add_outs:
  "finite (dom m) \<Longrightarrow> i + length outs \<le> 2 ^ 32 \<Longrightarrow> no_coins t i (length outs) m \<Longrightarrow>
     finite (dom (add_outs t h cb cs i outs m)) \<and>
     money (add_outs t h cb cs i outs m) = money m + sum_list (amounts (filter (\<lambda>out. \<not> IsUnspendable (scriptPubKey out)) outs))"
proof (induction outs arbitrary: i m)
  case (Cons out outs)
  let ?p = "COutPoint_of t (of_nat i)" and ?coin = "Coin_of out h cb cs"
  let ?m = "if IsUnspendable (scriptPubKey out) then m else m(?p \<mapsto> ?coin)"
  have n: "m ?p = None" "no_coins t (Suc i) (length outs) m" using Cons.prems(3) by (simp_all add: no_coins_Suc)
  have le: "Suc i + length outs \<le> 2 ^ 32" using Cons.prems(2) by simp
  have "no_coins t (Suc i) (length outs) ?m" using n(2) no_coins_upd [OF n(2) le] by (cases "IsUnspendable (scriptPubKey out)") (simp_all only: if_True if_False)
  moreover have "finite (dom ?m)" using Cons.prems(1) by simp
  ultimately have i: "finite (dom (add_outs t h cb cs (Suc i) outs ?m)) \<and> money (add_outs t h cb cs (Suc i) outs ?m) =
      money ?m + sum_list (amounts (filter (\<lambda>out. \<not> IsUnspendable (scriptPubKey out)) outs))" using Cons.IH le by blast
  have "money ?m = money m + (if IsUnspendable (scriptPubKey out) then 0 else sint (nValue out))"
    using money_add [OF Cons.prems(1) n(1), of ?coin] by (simp add: coin_value_def)
  then show ?case using i by (simp split del: if_split) simp
qed simp

lemma kept_outs_le: "list_all MoneyRange (amounts outs) \<Longrightarrow> sum_list (amounts (filter P outs)) \<le> sum_list (amounts outs)"
  by (induction outs) (auto simp: MoneyRange_def)

lemma outs_le_size: "length (vout tx) \<le> base_size tx"
proof -
  have "length outs \<le> length (concat (map Serialize_CTxOut outs))" for outs
    by (induction outs) (simp_all add: Serialize_CTxOut_def ser_writedata64_def)
  then show ?thesis by (simp add: base_size_plain plain_bytes_def Serialize_vec_def le_SucI trans_le_add2 trans_le_add1)
qed

lemma valid_outputs:
  assumes "tx_valid past w dup tx"
  shows "list_all MoneyRange (amounts (vout tx))" "\<not> list_ex CTxOut_IsNull (vout tx)" "length (vout tx) \<le> 2 ^ 32" "0 \<le> paid_out tx"
proof -
  show r: "list_all MoneyRange (amounts (vout tx))" using assms by (simp add: tx_valid_def)
  have "\<not> CTxOut_IsNull out" if "out \<in> set (vout tx)" for out
  proof
    assume "CTxOut_IsNull out"
    then have "sint (nValue out) = - 1" by (simp add: CTxOut_IsNull_def)
    then show False using r that by (auto simp: list_all_iff MoneyRange_def)
  qed
  then show "\<not> list_ex CTxOut_IsNull (vout tx)" by (simp add: list_ex_iff)
  show "length (vout tx) \<le> 2 ^ 32" using outs_le_size [of tx] assms by (simp add: tx_valid_def MAX_TRANSACTION_BASE_SIZE_def)
  show "0 \<le> paid_out tx" unfolding paid_out_def using r by (intro sum_list_nonneg) (auto simp: list_all_iff MoneyRange_def)
qed

lemma apply_tx_money_exact:
  assumes "finite (dom m)" "applicable tx m"
  shows "finite (dom (apply_tx h tx m))" "money (apply_tx h tx m) =
    money m + sum_list (amounts (filter (\<lambda>out. \<not> IsUnspendable (scriptPubKey out)) (vout tx))) - (if IsCoinBase tx then 0 else paid_in tx m)"
proof -
  have "finite (dom (unspent_inputs tx m))" using assms(1) by (simp add: unspent_inputs_def)
  note a = money_add_outs [OF this, of 0 "vout tx" "txid tx" h "IsCoinBase tx" "IsCoinStake tx"]
  have "money (unspent_inputs tx m) = money m - (if IsCoinBase tx then 0 else paid_in tx m)"
    using assms(1,2) money_restrict [of m "vin tx"] by (auto simp: unspent_inputs_def applicable_def paid_in_def)
  then show "finite (dom (apply_tx h tx m))" "money (apply_tx h tx m) =
      money m + sum_list (amounts (filter (\<lambda>out. \<not> IsUnspendable (scriptPubKey out)) (vout tx))) - (if IsCoinBase tx then 0 else paid_in tx m)"
    using a assms(2) by (simp_all add: apply_tx_def applicable_def)
qed

lemma apply_tx_money:
  assumes "finite (dom m)" "applicable tx m" "list_all MoneyRange (amounts (vout tx))"
  shows "finite (dom (apply_tx h tx m))" "money (apply_tx h tx m) \<le> money m + paid_out tx - (if IsCoinBase tx then 0 else paid_in tx m)"
  using apply_tx_money_exact [OF assms(1,2), of h] kept_outs_le [OF assms(3)] by (simp_all add: paid_out_def)

lemma apply_tx_in_range:
  assumes "coins_in_range m" "list_all MoneyRange (amounts (vout tx))"
  shows "coins_in_range (apply_tx h tx m)"
  unfolding coins_in_range_def
proof (intro allI impI)
  fix p coin assume c: "apply_tx h tx m p = Some coin"
  have "unspent_inputs tx m p = Some coin \<Longrightarrow> m p = Some coin" by (auto simp: unspent_inputs_def restrict_map_def split: if_splits)
  then show "MoneyRange (coin_value coin)" using add_outs_ran [OF c [unfolded apply_tx_def]] assms
    by (auto simp: coins_in_range_def coin_value_def list_all_iff)
qed

text \<open>C3. Payments create no money. When a transaction other than a coinbase or coinstake passes both checks on a cache whose coins
  are in the money range, and its outputs overwrite no coin, it is applied without an assertion failing or an exception, all
  coins are in the money range again, and the money of all unspent coins has dropped by at least the fee, which is not negative.\<close>
theorem payments_create_no_money:
  assumes "coins_view vw I utxo best" "represents I utxo best c m b" "coins_in_range m" "finite (dom m)" "IsNormalTx tx"
    "fst (CheckTransaction past w tx st0 True)" "CheckTxInputs vw tx st c hs = Inr (c1, True, st1)"
    "no_coins (txid tx) 0 (length (vout tx)) (unspent_inputs tx m)"
  shows "\<exists>c2 undo. UpdateCoins vw tx c1 h = Inr (c2, undo) \<and> represents I utxo best c2 (apply_tx h tx m) b \<and>
    coins_in_range (apply_tx h tx m) \<and> finite (dom (apply_tx h tx m)) \<and>
    money (apply_tx h tx m) \<le> money m - (paid_in tx m - paid_out tx) \<and> paid_out tx \<le> paid_in tx m"
proof -
  have c: "cache_inv I utxo c" "cache_utxo utxo c = m" using assms(2) by (simp_all add: represents_def)
  have n: "\<not> IsCoinBase tx" "\<not> IsCoinStake tx" using assms(5) by (simp_all add: IsNormalTx_def)
  have v: "tx_valid past w True tx" using assms(6) by (simp add: CheckTransaction_valid)
  have "same_view I utxo best c c1 \<and> (\<forall>i \<in> set (vin tx). m (prevout i) \<noteq> None) \<and> paid_out tx \<le> paid_in tx m"
    using CheckTxInputs_accepted [OF assms(1) c(1) assms(6) n(1) assms(7)] n(2) by (simp add: c(2) paid_in_def paid_out_def)
  then have a: "represents I utxo best c1 m b" "paid_out tx \<le> paid_in tx m" "applicable tx m"
    using assms(2,8) v n(1) valid_outputs [OF v] by (auto simp: represents_def same_view_def applicable_def tx_valid_def)
  obtain c2 where c2: "UpdateCoins vw tx c1 h = Inr (c2, undo_of tx m)" "represents I utxo best c2 (apply_tx h tx m) b"
    using coins_view.rep_UpdateCoins [OF assms(1) a(1,3)] by blast
  note t = apply_tx_money [OF assms(4) a(3) valid_outputs(1) [OF v], of h]
  have "money (apply_tx h tx m) \<le> money m - (paid_in tx m - paid_out tx)" using t(2) n(1) by simp
  then show ?thesis using c2 a(2) t(1) apply_tx_in_range [OF assms(3) valid_outputs(1) [OF v]] by blast
qed

lemma sample_payment_checked:
  "\<exists>c1. CheckTxInputs (db_view sz bs) sample_payment CValidationState_init sample_cache 1 = Inr (c1, True, CValidationState_init)"
proof -
  have v: "fst (CheckTransaction 0 8000000 sample_payment CValidationState_init True)" by (simp add: CheckTransaction_valid sample_valid)
  have "sum_list (amounts (vout sample_payment)) \<le> 50" by (simp add: sample_payment_def)
  then show ?thesis
    using CheckTxInputs_accepts [OF db.coins_view_axioms [of sz bs] sample_cache_ok(1) v sample_valid(2), of 1] sample_inputs_ok
    unfolding sample_cache_ok(2) by metis
qed

lemma sample_amounts: "paid_in sample_payment sample_coins = 50" "paid_out sample_payment = 40" "money sample_coins = 50" "finite (dom sample_coins)"
  by (simp_all add: paid_in_def paid_out_def sample_payment_def spent_coins_def sample_coins_def sample_coin_value money_def)

theorem payments_create_no_money_witness:
  "\<exists>c1 c2 undo. CheckTxInputs (db_view length 0) sample_payment CValidationState_init sample_cache 1 = Inr (c1, True, CValidationState_init) \<and>
     UpdateCoins (db_view length 0) sample_payment c1 9 = Inr (c2, undo) \<and> money (cache_utxo db_coins c2) \<le> 40"
proof -
  obtain c1 where c1: "CheckTxInputs (db_view length 0) sample_payment CValidationState_init sample_cache 1 = Inr (c1, True, CValidationState_init)"
    using sample_payment_checked by blast
  have n: "IsNormalTx sample_payment" "no_coins (txid sample_payment) 0 (length (vout sample_payment)) (unspent_inputs sample_payment sample_coins)"
    using sample_payment_applicable sample_valid(2) by (simp_all add: applicable_def IsNormalTx_def IsCoinStake_def) (simp add: sample_payment_def)
  have r: "coins_in_range sample_coins" using sample_range by (simp add: sample_cache_ok)
  have v: "fst (CheckTransaction 0 8000000 sample_payment CValidationState_init True)" by (simp add: CheckTransaction_valid sample_valid)
  show ?thesis
    using payments_create_no_money [OF db.coins_view_axioms [of length 0] sample_coins_ok(2) r sample_amounts(4) n(1) v c1 n(2), of 9] c1
    by (auto simp: sample_amounts represents_def)
qed

subsection \<open>Accepted blocks\<close>

definition spends_follow_contracts :: "bool \<Rightarrow> CTransaction list \<Rightarrow> bool" where
  "spends_follow_contracts first txs \<longleftrightarrow> (\<forall>i < length txs. tx_HasOpSpend (txs ! i) \<longrightarrow>
     (if i = 0 then first else HasCreateOrCall (txs ! (i - 1)) \<or> tx_HasOpSpend (txs ! (i - 1))))"

lemma spends_follow_contracts_Cons:
  "spends_follow_contracts first (tx # txs) \<longleftrightarrow>
     (tx_HasOpSpend tx \<longrightarrow> first) \<and> spends_follow_contracts (HasCreateOrCall tx \<or> tx_HasOpSpend tx) txs"
  unfolding spends_follow_contracts_def by (auto simp: All_less_Suc2 nth_Cons' split: if_splits)

lemma check_block_txs_accepts:
  "fst (check_block_txs past w txs lastWas st) \<longleftrightarrow> list_all (tx_valid past w True) txs \<and> spends_follow_contracts lastWas txs"
  "fst (check_block_txs past w txs lastWas st) \<Longrightarrow> snd (check_block_txs past w txs lastWas st) = st"
proof (induction txs arbitrary: lastWas)
  case Nil
  { case 1 then show ?case by (simp add: spends_follow_contracts_def) next case 2 then show ?case by simp }
next
  case (Cons tx txs)
  obtain ok st' where c: "CheckTransaction past w tx st True = (ok, st')" by force
  have ok: "ok \<longleftrightarrow> tx_valid past w True tx" "ok \<Longrightarrow> st' = st"
    using CheckTransaction_valid [of past w tx st True] CheckTransaction_verdict [of st past w tx True] c by (simp_all add: verdict_def)
  { case 1 then show ?case using Cons.IH c ok by (cases ok) (auto simp: spends_follow_contracts_Cons)
  next case 2 then show ?case using Cons.IH c ok by (cases ok) (auto split: if_splits) }
qed

definition block_size :: "CBlock \<Rightarrow> nat" where
  "block_size block = length (Serialize_CBlock SER_NETWORK (PROTOCOL_VERSION OR SERIALIZE_TRANSACTION_NO_WITNESS) block)"

definition block_sigops :: "CBlock \<Rightarrow> u32" where
  "block_sigops block = fold (\<lambda>tx n. n + GetLegacySigOpCount tx) (vtx block) 0"

lemma CheckBlock_accepted:
  assumes "CheckBlock past lim block st params fCheckPOW fCheckMerkleRoot = Some (True, st', block')" "\<not> fChecked block"
  shows "st' = st" "block' = (if fCheckPOW \<and> fCheckMerkleRoot then block\<lparr>fChecked := True\<rparr> else block)"
    "fCheckPOW \<Longrightarrow> \<exists>hash. block_GetHash block = Some hash \<and> CheckProofOfWork hash (bh_nBits block) params False"
    "fCheckMerkleRoot \<Longrightarrow> BlockMerkleRoot block = Some (bh_hashMerkleRoot block, False)"
    "vtx block \<noteq> []" "IsCoinBase (hd (vtx block))" "\<not> list_ex IsCoinBase (tl (vtx block))" "block_size block \<le> dgpMaxBlockSize lim"
    "list_all (tx_valid past (lim_dgpMaxBlockWeight lim) True) (vtx block)" "spends_follow_contracts False (vtx block)"
    "uint (block_sigops block * of_nat WITNESS_SCALE_FACTOR) \<le> dgpMaxBlockSigOps lim"
proof -
  obtain st1 where h: "CheckBlockHeader block st params fCheckPOW = Some (True, st1)"
    using assms by (auto simp: CheckBlock_def split: option.splits prod.splits if_splits)
  have st1: "st1 = st" "fCheckPOW \<Longrightarrow> \<exists>hash. block_GetHash block = Some hash \<and> CheckProofOfWork hash (bh_nBits block) params False"
    using h by (auto simp: CheckBlockHeader_def state_DoS_def Let_def split: option.splits if_splits)
  obtain root mutated where r: "BlockMerkleRoot block = Some (root, mutated)"
    using assms h by (auto simp: CheckBlock_def split: option.splits)
  obtain ok2 st2 where t: "check_block_txs past (lim_dgpMaxBlockWeight lim) (vtx block) False st = (ok2, st2)" by force
  have rej: "(case state_DoS l False code reason co x of (r, s) \<Rightarrow> Some (r, s, block)) = Some (True, st', block') \<longleftrightarrow> False" for l code reason co x
    by (simp add: state_DoS_def Let_def)
  have facts: "(fCheckMerkleRoot \<longrightarrow> bh_hashMerkleRoot block = root \<and> \<not> mutated) \<and> vtx block \<noteq> [] \<and> block_size block \<le> dgpMaxBlockSize lim \<and>
    IsCoinBase (hd (vtx block)) \<and> \<not> list_ex IsCoinBase (tl (vtx block)) \<and> ok2 \<and> st' = st2 \<and>
    uint (block_sigops block * of_nat WITNESS_SCALE_FACTOR) \<le> dgpMaxBlockSigOps lim \<and>
    block' = (if fCheckPOW \<and> fCheckMerkleRoot then block\<lparr>fChecked := True\<rparr> else block)"
    using assms unfolding CheckBlock_def h st1(1) r t Let_def block_size_def block_sigops_def option.case prod.case
    by (simp only: rej if_False not_True_eq_False simp_thms not_less not_le split: if_split_asm) auto
  note ct = check_block_txs_accepts [of past "lim_dgpMaxBlockWeight lim" "vtx block" False st, unfolded t fst_conv snd_conv]
  from facts st1(2) r ct show "st' = st" "block' = (if fCheckPOW \<and> fCheckMerkleRoot then block\<lparr>fChecked := True\<rparr> else block)"
    "fCheckPOW \<Longrightarrow> \<exists>hash. block_GetHash block = Some hash \<and> CheckProofOfWork hash (bh_nBits block) params False"
    "fCheckMerkleRoot \<Longrightarrow> BlockMerkleRoot block = Some (bh_hashMerkleRoot block, False)"
    "vtx block \<noteq> []" "IsCoinBase (hd (vtx block))" "\<not> list_ex IsCoinBase (tl (vtx block))" "block_size block \<le> dgpMaxBlockSize lim"
    "list_all (tx_valid past (lim_dgpMaxBlockWeight lim) True) (vtx block)" "spends_follow_contracts False (vtx block)"
    "uint (block_sigops block * of_nat WITNESS_SCALE_FACTOR) \<le> dgpMaxBlockSigOps lim" by simp_all
qed

text \<open>C35. What the checks without context guarantee of a block they accept: the proof of work (where asked for), the Merkle root of its
  transactions without a repetition (where asked for), one coinbase, which comes first, the limits on size and signature
  operations, transactions that all pass their own checks and differ in their inputs, and contract spends only behind contract
  transactions. The verdict is untouched, and a block accepted once is not looked at again.\<close>
theorem CheckBlock_accepts:
  assumes "CheckBlock past lim block st params fCheckPOW fCheckMerkleRoot = Some (True, st', block')" "\<not> fChecked block"
  shows "st' = st \<and> (fCheckPOW \<longrightarrow> (\<exists>hash. block_GetHash block = Some hash \<and> CheckProofOfWork hash (bh_nBits block) params False)) \<and>
    (fCheckMerkleRoot \<longrightarrow> BlockMerkleRoot block = Some (bh_hashMerkleRoot block, False)) \<and>
    (\<exists>tx0 rest. vtx block = tx0 # rest \<and> IsCoinBase tx0 \<and> \<not> list_ex IsCoinBase rest) \<and>
    block_size block \<le> dgpMaxBlockSize lim \<and> uint (block_sigops block * of_nat WITNESS_SCALE_FACTOR) \<le> dgpMaxBlockSigOps lim \<and>
    list_all (tx_valid past (lim_dgpMaxBlockWeight lim) True) (vtx block) \<and> spends_follow_contracts False (vtx block) \<and>
    (fCheckPOW \<and> fCheckMerkleRoot \<longrightarrow> CheckBlock past lim block' st2 params fCheckPOW fCheckMerkleRoot = Some (True, st2, block'))"
proof -
  note a = CheckBlock_accepted [OF assms]
  have "\<exists>tx0 rest. vtx block = tx0 # rest \<and> IsCoinBase tx0 \<and> \<not> list_ex IsCoinBase rest" using a(5-7) by (cases "vtx block") auto
  moreover have "CheckBlock past lim block' st2 params fCheckPOW fCheckMerkleRoot = Some (True, st2, block')" if "fCheckPOW \<and> fCheckMerkleRoot"
    using that a(2) by (simp add: CheckBlock_def)
  ultimately show ?thesis using a by blast
qed

definition sample_block :: "bytes \<Rightarrow> CBlock" where
  "sample_block sig = (CBlock_of_header (CBlockHeader_SetNull\<lparr>bh_hashMerkleRoot := txid sample_coinbase, bh_sig1 := sig\<rparr>))\<lparr>vtx := [sample_coinbase]\<rparr>"

definition sample_limits :: "bytes \<Rightarrow> block_limits" where
  "sample_limits sig = \<lparr>dgpMaxBlockSize = block_size (sample_block sig) + 1, lim_dgpMaxBlockWeight = 8000000, dgpMaxBlockSigOps = 2 ^ 32\<rparr>"

lemma sample_coinbase_valid: "tx_valid past 8000000 True sample_coinbase" "\<not> tx_HasOpSpend sample_coinbase" "\<not> HasCreateOrCall sample_coinbase"
proof -
  have "\<not> HasOpCall [OP_RETURN]" "\<not> HasOpCreate [OP_RETURN]" by (simp_all add: HasOpCall_def HasOpCreate_def Find_op.simps GetOp2_def)
  moreover have "base_size sample_coinbase \<le> 200"
    by (simp add: base_size_plain plain_bytes_def sample_coinbase_def Serialize_vec_def Serialize_CTxIn_def Serialize_CTxOut_def
      Serialize_COutPoint_def Serialize_prevector_def WriteCompactSize_def COutPoint_null_def ser_writedata8_def ser_writedata32_def ser_writedata64_def)
  moreover have "MoneyRange 10" "10 \<le> MAX_MONEY" by (simp_all add: MoneyRange_def MAX_MONEY_def COIN_def CENT_def)
  ultimately show "tx_valid past 8000000 True sample_coinbase"
    using sample_coinbase_facts(1) unfolding tx_valid_def
    by (simp add: MAX_TRANSACTION_BASE_SIZE_def WITNESS_SCALE_FACTOR_def IsNormalTx_def) (simp add: sample_coinbase_def)
  show "\<not> tx_HasOpSpend sample_coinbase" by (simp add: tx_HasOpSpend_def sample_coinbase_def HasOpSpend_def)
  show "\<not> HasCreateOrCall sample_coinbase" using \<open>\<not> HasOpCall [OP_RETURN]\<close> \<open>\<not> HasOpCreate [OP_RETURN]\<close>
    by (simp add: HasCreateOrCall_def sample_coinbase_def)
qed

lemma sample_block_checked:
  "CheckBlock past (sample_limits sig) (sample_block sig) st params False True = Some (True, st, (sample_block sig))"
proof -
  have b: "vtx (sample_block sig) = [sample_coinbase]" "\<not> fChecked (sample_block sig)" "bh_hashMerkleRoot (sample_block sig) = txid sample_coinbase"
    by (simp_all add: sample_block_def CBlock_of_header_def CBlock.defs CBlockHeader.defs)
  have "ComputeMerkleRoot [x] = (x, False)" for x
    by (simp add: ComputeMerkleRoot_def MerkleComputation_def Let_def add_leaf_def merkle_start_def leaf_loop.simps match_step_def skip_levels.simps sweep.simps)
  then have r: "BlockMerkleRoot (sample_block sig) = Some (txid sample_coinbase, False)" by (simp add: BlockMerkleRoot_def b tx_GetHash_txid)
  have h: "CheckBlockHeader (sample_block sig) st params False = Some (True, st)" by (simp add: CheckBlockHeader_def block_hash_value)
  have "spends_follow_contracts False [sample_coinbase]" using sample_coinbase_valid(2) by (simp add: spends_follow_contracts_def)
  then have "check_block_txs past 8000000 [sample_coinbase] False st = (True, st)"
    using check_block_txs_accepts [of past 8000000 "[sample_coinbase]" False st] sample_coinbase_valid(1) by (simp add: prod_eq_iff)
  moreover have "\<not> 2 ^ 32 < uint (w :: u32)" for w using uint_bounded [of w] by simp
  moreover have "1 \<le> block_size (sample_block sig)" by (simp add: block_size_def Serialize_CBlock_def Serialize_vec_def b WriteCompactSize_def ser_writedata8_def)
  ultimately show ?thesis unfolding CheckBlock_def h r
    using sample_coinbase_facts(1) sample_coinbase_valid(2,3) by (simp add: b sample_limits_def block_size_def Let_def)
qed

theorem CheckBlock_accepts_witness:
  "BlockMerkleRoot (sample_block []) = Some (bh_hashMerkleRoot (sample_block []), False) \<and> block_size (sample_block []) \<le> dgpMaxBlockSize (sample_limits [])"
  using CheckBlock_accepts [OF sample_block_checked [of 0 "[]" CValidationState_init CTestNetParams]]
  by (simp add: sample_block_def CBlock_of_header_def CBlock.defs CBlockHeader.defs)

end
