(* ===== verification/Connect_Block.thy ===== *)
theory Connect_Block
  imports Connect
begin

text \<open>
  The loop of \<^verbatim>\<open>ConnectBlock\<close> over the transactions of a block and the check of the reward behind it
  (\<^verbatim>\<open>src/src/validation.cpp\<close>): relative lock times, signature operations, fees, the checks of the inputs and their scripts,
  contract outputs, and the update of the coins. What the theorems show: the fees counted for the reward are those of the payments,
  the money a block creates is bounded by its reward and by what its transactions in the shape of a coinstake pay out beyond
  what they spend, and nothing bounds the latter.

  Not modelled: the execution of contracts, which comes between the checks and the update of the coins of a transaction, can
  only reject more blocks and yields the refunds that are an argument here; the caches of signatures and of executed
  scripts, which only remember successful checks; the threads that may run the script checks (the model is that of a node
  without such threads); the check of the total money supply behind the reward.
\<close>

subsection \<open>Stages of the loop\<close>

datatype connect_error = ConnectAssert | ConnectChain chain_error | ConnectScript verify_error | ConnectAmount amount_error
  | ConnectInputs txv_error | ConnectCoins coins_error | ConnectReward reward_error

text \<open>A stage fails, or leaves a cache and either the verdict of a rejection or a result.\<close>

type_synonym ('b, 'x) stage = "connect_error + 'b CCoinsViewCache \<times> (bool \<times> CValidationState + 'x)"

fun and_then :: "('b, 'x) stage \<Rightarrow> ('b CCoinsViewCache \<Rightarrow> 'x \<Rightarrow> ('b, 'y) stage) \<Rightarrow> ('b, 'y) stage" where
  "and_then (Inl e) f = Inl e"
| "and_then (Inr (c, Inl v)) f = Inr (c, Inl v)"
| "and_then (Inr (c, Inr x)) f = f c x"

definition reject_block :: "string \<Rightarrow> CValidationState \<Rightarrow> 'b CCoinsViewCache \<Rightarrow> ('b, 'x) stage" where
  "reject_block reason st c = Inr (c, Inl (state_DoS 100 False REJECT_INVALID reason False st))"

text \<open>What stays the same during the loop: the block index with the entry of the block, flags and limits, the height at which coins
  are spent and the height of the block, and the functions of the curve library.\<close>

record connect_env =
  cb_heap :: heap
  cb_pindex :: ptr
  cb_nLockTimeFlags :: u32
  cb_flags :: u32
  cb_dgpMaxBlockSigOps :: int
  cb_nSpendHeight :: int
  cb_nHeight :: int
  cb_fScriptChecks :: bool
  cb_verify :: "bytes \<Rightarrow> bytes \<Rightarrow> bytes \<Rightarrow> bool"
  cb_CheckLowS :: "bytes \<Rightarrow> bool"

(* src/src/validation.cpp:3331-3334 ConnectBlock *)
fun prev_heights :: "'b CCoinsView \<Rightarrow> CTxIn list \<Rightarrow> 'b CCoinsViewCache \<Rightarrow> 'b CCoinsViewCache \<times> int list" where
  "prev_heights vw [] c = (c, [])"
| "prev_heights vw (txin # ins) c =
     (let (c1, coin) = AccessCoin vw c (prevout txin); (c2, hs) = prev_heights vw ins c1 in (c2, uint (coin_nHeight coin) # hs))"

(* src/src/validation.cpp:3321-3340 ConnectBlock *)
definition check_locks :: "'b CCoinsView \<Rightarrow> connect_env \<Rightarrow> CTransaction \<Rightarrow> CValidationState \<Rightarrow> 'b CCoinsViewCache \<Rightarrow> ('b, unit) stage" where
  "check_locks vw env tx st view =
     (if IsCoinBase tx then Inr (view, Inr ())
      else case HaveInputs vw view tx of (c1, have_all) \<Rightarrow>
        if \<not> have_all then reject_block ''bad-txns-inputs-missingorspent'' st c1
        else case prev_heights vw (vin tx) c1 of (c2, prevheights) \<Rightarrow>
          (case SequenceLocks (cb_heap env) tx (cb_nLockTimeFlags env) prevheights (cb_pindex env) of Inl e \<Rightarrow> Inl (ConnectChain e)
           | Inr (_, ok) \<Rightarrow> if ok then Inr (c2, Inr ()) else reject_block ''bad-txns-nonfinal'' st c2))"

text \<open>The cost of one transaction is far below \<open>2 ^ 63\<close> and the sum was at most a 32-bit limit before, so it does not overflow.\<close>

(* src/src/validation.cpp:3346-3349 ConnectBlock *)
definition check_sigops :: "'b CCoinsView \<Rightarrow> connect_env \<Rightarrow> CTransaction \<Rightarrow> CValidationState \<Rightarrow> int \<Rightarrow> 'b CCoinsViewCache \<Rightarrow> ('b, int) stage" where
  "check_sigops vw env tx st nSigOpsCost view =
     (case GetTransactionSigOpCost vw tx (cb_flags env) view of Inl e \<Rightarrow> Inl (ConnectInputs e)
      | Inr (c, n) \<Rightarrow> if nSigOpsCost + n > cb_dgpMaxBlockSigOps env then reject_block ''bad-blk-sigops'' st c else Inr (c, Inr (nSigOpsCost + n)))"

text \<open>The fees of a block are those of its payments; for a coinstake the difference is taken the other way round and replaces the one
  of an earlier coinstake. Both are \<^verbatim>\<open>CAmount\<close>, a signed 64-bit integer.\<close>

(* src/src/validation.cpp:3354-3359 ConnectBlock *)
definition tally_tx :: "'b CCoinsView \<Rightarrow> CTransaction \<Rightarrow> 'b CCoinsViewCache \<Rightarrow> int \<Rightarrow> int \<Rightarrow> ('b, int \<times> int) stage" where
  "tally_tx vw tx view nFees nActualStakeReward =
     (if IsCoinBase tx then Inr (view, Inr (nFees, nActualStakeReward))
      else case GetValueIn vw view tx of Inl e \<Rightarrow> Inl (ConnectAmount e)
        | Inr (view', nIn) \<Rightarrow>
            (case GetValueOut tx of Inl e \<Rightarrow> Inl (ConnectAmount e)
             | Inr nOut \<Rightarrow>
                 if IsCoinStake tx
                 then if int64_range (nOut - nIn) then Inr (view', Inr (nFees, nOut - nIn)) else Inl (ConnectAmount SignedOverflow)
                 else if int64_range (nIn - nOut) \<and> int64_range (nFees + (nIn - nOut))
                 then Inr (view', Inr (nFees + (nIn - nOut), nActualStakeReward)) else Inl (ConnectAmount SignedOverflow)))"

subsection \<open>Checking the inputs and their scripts\<close>

(* src/src/consensus/validation.h:20-20 REJECT_NONSTANDARD *)
definition REJECT_NONSTANDARD :: u32 where
  "REJECT_NONSTANDARD = 0x40"

text \<open>All flags of the interpreter but the two that no policy uses and the mandatory one.\<close>

(* src/src/policy/policy.h:52-69 STANDARD_NOT_MANDATORY_VERIFY_FLAGS *)
definition STANDARD_NOT_MANDATORY_VERIFY_FLAGS :: u32 where
  "STANDARD_NOT_MANDATORY_VERIFY_FLAGS =
     (SCRIPT_VERIFY_P2SH OR SCRIPT_VERIFY_DERSIG OR SCRIPT_VERIFY_STRICTENC OR SCRIPT_VERIFY_MINIMALDATA OR SCRIPT_VERIFY_NULLDUMMY OR
      SCRIPT_VERIFY_DISCOURAGE_UPGRADABLE_NOPS OR SCRIPT_VERIFY_CLEANSTACK OR SCRIPT_VERIFY_MINIMALIF OR SCRIPT_VERIFY_NULLFAIL OR
      SCRIPT_VERIFY_CHECKLOCKTIMEVERIFY OR SCRIPT_VERIFY_CHECKSEQUENCEVERIFY OR SCRIPT_VERIFY_LOW_S OR SCRIPT_VERIFY_WITNESS OR
      SCRIPT_VERIFY_DISCOURAGE_UPGRADABLE_WITNESS_PROGRAM OR SCRIPT_VERIFY_WITNESS_PUBKEYTYPE) AND NOT SCRIPT_VERIFY_P2SH"

(* src/src/validation.cpp:2265-2269 CScriptCheck::operator() *)
definition CScriptCheck :: "connect_env \<Rightarrow> u32 \<Rightarrow> CTransaction \<Rightarrow> nat \<Rightarrow> Coin \<Rightarrow> verify_error + unit" where
  "CScriptCheck env nFlags tx nIn coin =
     VerifyScript \<lparr>ve_flags = nFlags,
         ve_checker = TransactionSignatureChecker (cb_verify env)
           \<lparr>tc_txTo = tx, tc_nIn = nIn, tc_amount = nValue (coin_out coin), tc_txdata = Some (precompute tx)\<rparr>,
         ve_CheckLowS = cb_CheckLowS env\<rparr>
       (scriptSig (vin tx ! nIn)) (scriptPubKey (coin_out coin)) (Some (scriptWitness (vin tx ! nIn)))"

(* src/src/validation.cpp:2341-2377 CheckInputs *)
fun input_scripts :: "'b CCoinsView \<Rightarrow> connect_env \<Rightarrow> CTransaction \<Rightarrow> CValidationState \<Rightarrow> nat \<Rightarrow> CTxIn list \<Rightarrow> 'b CCoinsViewCache \<Rightarrow> ('b, unit) stage" where
  "input_scripts vw env tx st i [] c = Inr (c, Inr ())"
| "input_scripts vw env tx st i (txin # ins) c =
     (let (c', coin) = AccessCoin vw c (prevout txin); flags = cb_flags env;
          failed = reject_block ''mandatory-script-verify-flag-failed'' st c'
      in if Coin_IsSpent coin then Inl ConnectAssert
         else case CScriptCheck env flags tx i coin of
                Inr _ \<Rightarrow> input_scripts vw env tx st (Suc i) ins c'
              | Inl AssertFailed \<Rightarrow> Inl (ConnectScript AssertFailed)
              | Inl (ScriptErr _) \<Rightarrow>
                  if flags AND STANDARD_NOT_MANDATORY_VERIFY_FLAGS = 0 then failed
                  else (case CScriptCheck env (flags AND NOT STANDARD_NOT_MANDATORY_VERIFY_FLAGS) tx i coin of
                          Inr _ \<Rightarrow> Inr (c', Inl (state_Invalid False REJECT_NONSTANDARD ''non-mandatory-script-verify-flag'' st))
                        | Inl AssertFailed \<Rightarrow> Inl (ConnectScript AssertFailed)
                        | Inl (ScriptErr _) \<Rightarrow> failed))"

(* src/src/validation.cpp:2302-2388 CheckInputs *)
definition CheckInputs :: "'b CCoinsView \<Rightarrow> connect_env \<Rightarrow> CTransaction \<Rightarrow> CValidationState \<Rightarrow> 'b CCoinsViewCache \<Rightarrow> ('b, unit) stage" where
  "CheckInputs vw env tx st inputs =
     (if IsCoinBase tx then Inr (inputs, Inr ())
      else case CheckTxInputs vw tx st inputs (cb_nSpendHeight env) of Inl e \<Rightarrow> Inl (ConnectInputs e)
        | Inr (c, ok, st') \<Rightarrow>
            if \<not> ok then Inr (c, Inl (False, st'))
            else if cb_fScriptChecks env then input_scripts vw env tx st' 0 (vin tx) c else Inr (c, Inr ()))"

(* src/src/validation.cpp:3369-3377 ConnectBlock *)
fun contract_spends :: "'b CCoinsView \<Rightarrow> CValidationState \<Rightarrow> CTxIn list \<Rightarrow> 'b CCoinsViewCache \<Rightarrow> ('b, unit) stage" where
  "contract_spends vw st [] c = Inr (c, Inr ())"
| "contract_spends vw st (j # ins) c =
     (if HasOpSpend (scriptSig j) then contract_spends vw st ins c
      else let (c', coin) = AccessCoin vw c (prevout j); script = scriptPubKey (coin_out coin)
           in if HasOpCreate script \<or> HasOpCall script then reject_block ''bad-txns-invalid-contract-spend'' st c'
              else contract_spends vw st ins c')"

subsection \<open>The loop and the reward\<close>

text \<open>One round: the undo record with the fees, the reward of the last coinstake and the signature operations so far. The update of the
  coins ends the round in the code as well, behind the execution of the contracts.\<close>

(* src/src/validation.cpp:3315-3378 ConnectBlock *)
definition connect_tx :: "'b CCoinsView \<Rightarrow> connect_env \<Rightarrow> CTransaction \<Rightarrow> CValidationState \<Rightarrow> int \<Rightarrow> int \<Rightarrow> int \<Rightarrow> 'b CCoinsViewCache \<Rightarrow>
    ('b, Coin list \<times> int \<times> int \<times> int) stage" where
  "connect_tx vw env tx st nFees nActualStakeReward nSigOpsCost view =
     and_then (check_locks vw env tx st view) (\<lambda>c _.
     and_then (check_sigops vw env tx st nSigOpsCost c) (\<lambda>c nSigOpsCost'.
     and_then (tally_tx vw tx c nFees nActualStakeReward) (\<lambda>c (nFees', nActualStakeReward').
     and_then (CheckInputs vw env tx st c) (\<lambda>c _.
     and_then (if IsCoinBase tx then Inr (c, Inr ()) else contract_spends vw st (vin tx) c) (\<lambda>c _.
       case UpdateCoins vw tx c (cb_nHeight env) of Inl e \<Rightarrow> Inl (ConnectCoins e)
       | Inr (c', txundo) \<Rightarrow> Inr (c', Inr (txundo, nFees', nActualStakeReward', nSigOpsCost')))))))"

(* src/src/validation.cpp:3528-3536 ConnectBlock *)
fun connect_loop :: "'b CCoinsView \<Rightarrow> connect_env \<Rightarrow> CTransaction list \<Rightarrow> CValidationState \<Rightarrow> int \<Rightarrow> int \<Rightarrow> int \<Rightarrow> 'b CCoinsViewCache \<Rightarrow>
    ('b, Coin list list \<times> int \<times> int) stage" where
  "connect_loop vw env [] st nFees nActualStakeReward nSigOpsCost view = Inr (view, Inr ([], nFees, nActualStakeReward))"
| "connect_loop vw env (tx # txs) st nFees nActualStakeReward nSigOpsCost view =
     and_then (connect_tx vw env tx st nFees nActualStakeReward nSigOpsCost view) (\<lambda>c (txundo, nFees', nActualStakeReward', nSigOpsCost').
     and_then (connect_loop vw env txs st nFees' nActualStakeReward' nSigOpsCost' c) (\<lambda>c (vtxundo, r). Inr (c, Inr (txundo # vtxundo, r))))"

text \<open>Refunds and their sum come from the execution of the contracts. The undo record of the coinbase is not kept by the code.\<close>

(* src/src/validation.cpp:3540-3544 ConnectBlock *)
definition ConnectBlock_coins :: "'b CCoinsView \<Rightarrow> connect_env \<Rightarrow> CTransaction list \<Rightarrow> CValidationState \<Rightarrow> int \<Rightarrow> CTxOut list \<Rightarrow> 'b CCoinsViewCache \<Rightarrow>
    ('b, Coin list list \<times> int) stage" where
  "ConnectBlock_coins vw env txs st gasRefunds checkVouts view =
     and_then (connect_loop vw env txs st 0 0 0 view) (\<lambda>c (vtxundo, nFees, nActualStakeReward).
       if nFees < gasRefunds then Inr (c, Inl (state_DoS 1000 False REJECT_INVALID ''bad-blk-fees-greater-gasrefund'' False st))
       else case CheckReward txs st (cb_nHeight env) nFees checkVouts of Inl e \<Rightarrow> Inl (ConnectReward e)
         | Inr (ok, st') \<Rightarrow> if ok then Inr (c, Inr (vtxundo, nFees)) else Inr (c, Inl (state_DoS 100 False 0 [] False st')))"

subsection \<open>What the stages do\<close>

lemma and_then_Inr: "and_then r f = Inr (c, Inr y) \<longleftrightarrow> (\<exists>c1 x. r = Inr (c1, Inr x) \<and> f c1 x = Inr (c, Inr y))"
  by (induction r f rule: and_then.induct) auto

lemma stage_ends:
  "(case r of Inl e \<Rightarrow> Inl (ConnectCoins e) | Inr (c, u) \<Rightarrow> Inr (c, Inr (u, x))) = Inr (d, Inr y) \<longleftrightarrow> (\<exists>u. r = Inr (d, u) \<and> y = (u, x))"
  "(case q of Inl e \<Rightarrow> Inl (ConnectReward e) | Inr (ok, st) \<Rightarrow> if ok then Inr (c, Inr z) else Inr (c, Inl (f st))) = Inr (d, Inr y) \<longleftrightarrow>
     (\<exists>st. q = Inr (True, st)) \<and> d = c \<and> y = z"
  by (cases r; auto) (cases q; auto split: if_splits)

lemma rep_same_view: "represents I u bst c m b \<Longrightarrow> same_view I u bst c c' \<Longrightarrow> represents I u bst c' m b"
  by (simp add: represents_def same_view_def)

lemma valid_applicable:
  assumes "tx_valid past w True tx" "IsCoinBase tx \<or> (\<forall>i \<in> set (vin tx). m (prevout i) \<noteq> None)"
    "no_coins (txid tx) 0 (length (vout tx)) (unspent_inputs tx m)"
  shows "applicable tx m"
  using assms valid_outputs [OF assms(1)] by (auto simp: applicable_def tx_valid_def)

text \<open>The cost in signature operations as a function of the transaction and the coins it spends.\<close>

fun p2sh_sigops :: "(CTxIn \<times> Coin) list \<Rightarrow> u32 \<Rightarrow> u32" where
  "p2sh_sigops [] n = n"
| "p2sh_sigops ((i, coin) # xs) n =
     (let script = scriptPubKey (coin_out coin)
      in p2sh_sigops xs (if IsPayToScriptHash script then n + GetSigOpCount_P2SH script (scriptSig i) else n))"

fun witness_sigops :: "u32 \<Rightarrow> (CTxIn \<times> Coin) list \<Rightarrow> u64 \<Rightarrow> verify_error + u64" where
  "witness_sigops flags [] n = Inr n"
| "witness_sigops flags ((i, coin) # xs) n =
     (case CountWitnessSigOps (scriptSig i) (scriptPubKey (coin_out coin)) (Some (scriptWitness i)) flags of Inl e \<Rightarrow> Inl e
      | Inr k \<Rightarrow> witness_sigops flags xs (n + of_nat k))"

definition tx_sigop_cost :: "u32 \<Rightarrow> CTransaction \<Rightarrow> Coin list \<Rightarrow> verify_error + int" where
  "tx_sigop_cost flags tx coins =
     (let legacy = ucast (GetLegacySigOpCount tx * of_nat WITNESS_SCALE_FACTOR) :: u64; xs = zip (vin tx) coins
      in if IsCoinBase tx then Inr (sint legacy)
         else map_sum id sint (witness_sigops flags xs
           (if has_flag flags SCRIPT_VERIFY_P2SH then legacy + ucast (p2sh_sigops xs 0 * of_nat WITNESS_SCALE_FACTOR) else legacy)))"

lemma spent_coins_simps [simp]: "spent_coins m [] = []" "spent_coins m (i # ins) = the (m (prevout i)) # spent_coins m ins"
  by (simp_all add: spent_coins_def)

context coins_view
begin

lemma rep_access:
  assumes "represents I utxo best c m b" "AccessCoin vw c p = (c', coin)"
  shows "represents I utxo best c' m b" "m p \<noteq> None \<Longrightarrow> coin = the (m p) \<and> \<not> Coin_IsSpent coin"
  using AccessCoin_spec [OF _ assms(2)] assms(1) by (auto simp: represents_def split: if_splits)

lemma rep_prev_heights:
  "represents I utxo best c m b \<Longrightarrow> \<forall>i \<in> set ins. m (prevout i) \<noteq> None \<Longrightarrow>
     \<exists>c'. prev_heights vw ins c = (c', map (\<lambda>coin. uint (coin_nHeight coin)) (spent_coins m ins)) \<and> represents I utxo best c' m b"
proof (induction ins arbitrary: c)
  case (Cons i ins)
  obtain c1 coin where a: "AccessCoin vw c (prevout i) = (c1, coin)" by force
  note r = rep_access [OF Cons.prems(1) a]
  from Cons.IH [OF r(1)] Cons.prems(2) a r(2) show ?case by fastforce
qed simp

lemma rep_p2sh:
  "represents I utxo best c m b \<Longrightarrow> \<forall>i \<in> set ins. m (prevout i) \<noteq> None \<Longrightarrow>
     \<exists>c'. P2SHSigOp_loop vw ins n c = Inr (c', p2sh_sigops (zip ins (spent_coins m ins)) n) \<and> represents I utxo best c' m b"
proof (induction ins arbitrary: c n)
  case (Cons i ins)
  obtain c1 coin where a: "AccessCoin vw c (prevout i) = (c1, coin)" by force
  note r = rep_access [OF Cons.prems(1) a]
  have "coin = the (m (prevout i))" "\<not> Coin_IsSpent coin" using r(2) Cons.prems(2) by auto
  then show ?case using Cons.IH [OF r(1)] Cons.prems(2) a by (simp add: Let_def)
qed simp

lemma rep_witness:
  "represents I utxo best c m b \<Longrightarrow> \<forall>i \<in> set ins. m (prevout i) \<noteq> None \<Longrightarrow>
     \<exists>c'. WitnessSigOp_loop vw flags ins n c = map_sum TxScript (Pair c') (witness_sigops flags (zip ins (spent_coins m ins)) n) \<and> represents I utxo best c' m b"
proof (induction ins arbitrary: c n)
  case (Cons i ins)
  obtain c1 coin where a: "AccessCoin vw c (prevout i) = (c1, coin)" by force
  note r = rep_access [OF Cons.prems(1) a]
  have "coin = the (m (prevout i))" "\<not> Coin_IsSpent coin" using r(2) Cons.prems(2) by auto
  then show ?case using Cons.IH [OF r(1)] Cons.prems a
    by (cases "CountWitnessSigOps (scriptSig i) (scriptPubKey (coin_out coin)) (Some (scriptWitness i)) flags") auto
qed auto

lemma rep_sigops:
  assumes "represents I utxo best c m b" "IsCoinBase tx \<or> (\<forall>i \<in> set (vin tx). m (prevout i) \<noteq> None)"
  shows "\<exists>c'. GetTransactionSigOpCost vw tx flags c = map_sum TxScript (Pair c') (tx_sigop_cost flags tx (spent_coins m (vin tx))) \<and>
    represents I utxo best c' m b"
proof (cases "IsCoinBase tx")
  case True
  then show ?thesis using assms(1) by (auto simp: GetTransactionSigOpCost_def tx_sigop_cost_def Let_def)
next
  case False
  then have i: "\<forall>i \<in> set (vin tx). m (prevout i) \<noteq> None" using assms(2) by simp
  let ?xs = "zip (vin tx) (spent_coins m (vin tx))"
  have s: "map_sum id (\<lambda>(c'', n). (c'', sint n)) (map_sum TxScript (Pair d) r) = map_sum TxScript (Pair d) (map_sum id sint r)" for d r
    by (cases r) simp_all
  obtain c1 where c1: "GetP2SHSigOpCount vw tx c = Inr (c1, p2sh_sigops ?xs 0)" "represents I utxo best c1 m b"
    using rep_p2sh [OF assms(1) i, of 0] False by (auto simp: GetP2SHSigOpCount_def)
  let ?legacy = "ucast (GetLegacySigOpCount tx * of_nat WITNESS_SCALE_FACTOR) :: u64"
  let ?n = "if has_flag flags SCRIPT_VERIFY_P2SH then ?legacy + ucast (p2sh_sigops ?xs 0 * of_nat WITNESS_SCALE_FACTOR) else ?legacy"
    and ?c = "if has_flag flags SCRIPT_VERIFY_P2SH then c1 else c"
  have "represents I utxo best ?c m b" using c1(2) assms(1) by simp
  then obtain c' where w: "WitnessSigOp_loop vw flags (vin tx) ?n ?c = map_sum TxScript (Pair c') (witness_sigops flags ?xs ?n)"
    "represents I utxo best c' m b" using rep_witness [OF _ i] by blast
  have "GetTransactionSigOpCost vw tx flags c = map_sum id (\<lambda>(c'', n). (c'', sint n)) (WitnessSigOp_loop vw flags (vin tx) ?n ?c)"
    using False c1(1) by (simp add: GetTransactionSigOpCost_def Let_def)
  then show ?thesis using w(2) False unfolding w(1) s by (auto simp: tx_sigop_cost_def Let_def)
qed

lemma rep_input_scripts:
  "represents I utxo best c m b \<Longrightarrow> \<forall>i \<in> set ins. m (prevout i) \<noteq> None \<Longrightarrow> input_scripts vw env tx st n ins c = Inr (c', Inr x) \<Longrightarrow>
     represents I utxo best c' m b"
proof (induction ins arbitrary: c n)
  case (Cons i ins)
  obtain c1 coin where a: "AccessCoin vw c (prevout i) = (c1, coin)" by force
  note r = rep_access [OF Cons.prems(1) a]
  have "input_scripts vw env tx st (Suc n) ins c1 = Inr (c', Inr x)"
    using Cons.prems(3) a by (auto simp: Let_def reject_block_def split: if_splits sum.splits verify_error.splits)
  then show ?case using Cons.IH [OF r(1)] Cons.prems(2) by simp
qed simp

lemma input_scripts_ok:
  "represents I utxo best c m b \<Longrightarrow> \<forall>i \<in> set ins. m (prevout i) \<noteq> None \<Longrightarrow>
     \<forall>k < length ins. CScriptCheck env (cb_flags env) tx (n + k) (spent_coins m ins ! k) = Inr () \<Longrightarrow> \<exists>c'. input_scripts vw env tx st n ins c = Inr (c', Inr ())"
proof (induction ins arbitrary: c n)
  case (Cons i ins)
  obtain c1 coin where a: "AccessCoin vw c (prevout i) = (c1, coin)" by force
  note r = rep_access [OF Cons.prems(1) a]
  have k: "CScriptCheck env (cb_flags env) tx n coin = Inr ()" "coin = the (m (prevout i))" "\<not> Coin_IsSpent coin"
    using Cons.prems(2,3) r(2) by (auto dest: spec [of _ 0])
  have "\<forall>k < length ins. CScriptCheck env (cb_flags env) tx (Suc n + k) (spent_coins m ins ! k) = Inr ()"
    using Cons.prems(3) by (auto dest: spec [of _ "Suc _"])
  from Cons.IH [OF r(1) _ this] Cons.prems(2) k a show ?case by (simp add: Let_def)
qed simp

lemma rep_contract_spends:
  "represents I utxo best c m b \<Longrightarrow> contract_spends vw st ins c = Inr (c', Inr x) \<Longrightarrow> represents I utxo best c' m b"
proof (induction ins arbitrary: c)
  case (Cons i ins)
  obtain c1 coin where a: "AccessCoin vw c (prevout i) = (c1, coin)" by force
  from Cons rep_access(1) [OF Cons.prems(1) a] a show ?case by (auto simp: Let_def reject_block_def split: if_splits)
qed simp

lemma contract_spends_ok:
  "represents I utxo best c m b \<Longrightarrow> \<forall>i \<in> set ins. m (prevout i) \<noteq> None \<and>
     (HasOpSpend (scriptSig i) \<or> \<not> HasOpCreate (scriptPubKey (coin_out (the (m (prevout i))))) \<and> \<not> HasOpCall (scriptPubKey (coin_out (the (m (prevout i)))))) \<Longrightarrow>
     \<exists>c'. contract_spends vw st ins c = Inr (c', Inr ())"
proof (induction ins arbitrary: c)
  case (Cons i ins)
  obtain c1 coin where a: "AccessCoin vw c (prevout i) = (c1, coin)" by force
  note r = rep_access [OF Cons.prems(1) a]
  show ?case using Cons.IH [OF r(1)] Cons.IH [OF Cons.prems(1)] Cons.prems(2) r(2) a by (auto simp: Let_def)
qed simp

end

subsection \<open>The money of a block\<close>

text \<open>What the payments of a list of transactions leave as fees, and what its coinstakes pay out beyond what they spend.\<close>

definition fee :: "CTransaction \<Rightarrow> (COutPoint \<rightharpoonup> Coin) \<Rightarrow> int" where
  "fee tx m = (if IsNormalTx tx then paid_in tx m - paid_out tx else 0)"

fun fees :: "int \<Rightarrow> CTransaction list \<Rightarrow> (COutPoint \<rightharpoonup> Coin) \<Rightarrow> int" where
  "fees h [] m = 0"
| "fees h (tx # txs) m = fee tx m + fees h txs (apply_tx h tx m)"

fun stake_minted :: "int \<Rightarrow> CTransaction list \<Rightarrow> (COutPoint \<rightharpoonup> Coin) \<Rightarrow> int" where
  "stake_minted h [] m = 0"
| "stake_minted h (tx # txs) m = (if IsCoinStake tx then paid_out tx - paid_in tx m else 0) + stake_minted h txs (apply_tx h tx m)"

text \<open>No transaction overwrites a coin.\<close>

fun all_fresh :: "int \<Rightarrow> CTransaction list \<Rightarrow> (COutPoint \<rightharpoonup> Coin) \<Rightarrow> bool" where
  "all_fresh h [] m \<longleftrightarrow> True"
| "all_fresh h (tx # txs) m \<longleftrightarrow> no_coins (txid tx) 0 (length (vout tx)) (unspent_inputs tx m) \<and> all_fresh h txs (apply_tx h tx m)"

lemma apply_txs_money:
  "finite (dom m) \<Longrightarrow> all_applicable h txs m \<Longrightarrow> \<not> list_ex IsCoinBase txs \<Longrightarrow> list_all (\<lambda>tx. list_all MoneyRange (amounts (vout tx))) txs \<Longrightarrow>
     money (apply_txs h txs m) \<le> money m - fees h txs m + stake_minted h txs m"
proof (induction txs arbitrary: m)
  case (Cons tx txs)
  have p: "applicable tx m" "all_applicable h txs (apply_tx h tx m)" "\<not> IsCoinBase tx" "\<not> list_ex IsCoinBase txs"
    "list_all MoneyRange (amounts (vout tx))" "list_all (\<lambda>tx. list_all MoneyRange (amounts (vout tx))) txs" using Cons.prems by simp_all
  note a = apply_tx_money [OF Cons.prems(1) p(1,5), of h]
  show ?case using Cons.IH [OF a(1) p(2,4,6)] a(2) p(3) by (simp add: fee_def IsNormalTx_def)
qed simp

context coins_view
begin

lemma GetValueIn_loop_sum:
  "represents I utxo best c m b \<Longrightarrow> \<forall>i \<in> set ins. m (prevout i) \<noteq> None \<Longrightarrow> GetValueIn_loop vw ins a c = Inr (c', s) \<Longrightarrow>
     represents I utxo best c' m b \<and> s = a + sum_list (map coin_value (spent_coins m ins))"
proof (induction ins arbitrary: a c)
  case (Cons i ins)
  obtain c1 coin where acc: "AccessCoin vw c (prevout i) = (c1, coin)" by force
  note r = rep_access [OF Cons.prems(1) acc]
  have "GetValueIn_loop vw ins (a + coin_value coin) c1 = Inr (c', s)"
    using Cons.prems(3) acc by (simp add: coin_value_def Let_def split: if_splits)
  from Cons.IH [OF r(1) _ this] Cons.prems(2) r(2) show ?case by simp
qed simp

lemma GetValueIn_loop_ok:
  "represents I utxo best c m b \<Longrightarrow> \<forall>i \<in> set ins. m (prevout i) \<noteq> None \<Longrightarrow> MoneyRange a \<Longrightarrow> inputs_ok h a (spent_coins m ins) \<Longrightarrow>
     \<exists>r. GetValueIn_loop vw ins a c = Inr r"
proof (induction ins arbitrary: a c)
  case (Cons i ins)
  obtain c1 coin where acc: "AccessCoin vw c (prevout i) = (c1, coin)" by force
  note r = rep_access [OF Cons.prems(1) acc]
  have "MoneyRange (a + coin_value coin)" "inputs_ok h (a + coin_value coin) (spent_coins m ins)"
    using Cons.prems(2,4) inputs_ok_Cons [OF Cons.prems(3), of h coin] r(2) by simp_all
  with Cons.IH [OF r(1), of "a + coin_value coin"] Cons.prems(2) show ?case using acc MAX_MONEY_fits
    by (simp add: coin_value_def Let_def int64_range_def MoneyRange_def)
qed simp

lemma rep_check_locks:
  assumes "represents I utxo best c m b" "check_locks vw env tx st c = Inr (c', Inr x)"
  shows "represents I utxo best c' m b \<and> (IsCoinBase tx \<or> (\<forall>i \<in> set (vin tx). m (prevout i) \<noteq> None))"
proof (cases "IsCoinBase tx")
  case True
  then show ?thesis using assms by (simp add: check_locks_def)
next
  case False
  obtain c1 ok where h: "HaveInputs_loop vw (vin tx) c = (c1, ok)" by force
  then have c1: "represents I utxo best c1 m b" "ok \<longleftrightarrow> (\<forall>i \<in> set (vin tx). m (prevout i) \<noteq> None)"
    using HaveInputs_loop_spec [OF _ h] assms(1) rep_same_view [OF assms(1)] by (auto simp: represents_def)
  have ok using assms(2) False h by (simp add: check_locks_def HaveInputs_def reject_block_def split: if_splits)
  then have i: "\<forall>i \<in> set (vin tx). m (prevout i) \<noteq> None" using c1(2) by blast
  obtain c2 hs where c2: "prev_heights vw (vin tx) c1 = (c2, hs)" "represents I utxo best c2 m b" using rep_prev_heights [OF c1(1) i] by blast
  then have "c' = c2" using \<open>ok\<close> assms(2) False h by (auto simp: check_locks_def HaveInputs_def reject_block_def split: sum.splits if_splits)
  then show ?thesis using c2(2) i by blast
qed

lemma rep_CheckInputs:
  assumes "represents I utxo best c m b" "fst (CheckTransaction past w tx st0 True)" "CheckInputs vw env tx st c = Inr (c', Inr x)"
  shows "represents I utxo best c' m b"
proof (cases "IsCoinBase tx")
  case True
  then show ?thesis using assms by (simp add: CheckInputs_def)
next
  case False
  then obtain c1 st1 where t: "CheckTxInputs vw tx st c (cb_nSpendHeight env) = Inr (c1, True, st1)"
    using assms(3) by (auto simp: CheckInputs_def split: sum.splits if_splits)
  have r: "cache_inv I utxo c" "cache_utxo utxo c = m" using assms(1) by (simp_all add: represents_def)
  note a = CheckTxInputs_accepted [OF coins_view_axioms r(1) assms(2) False t]
  have "represents I utxo best c1 m b" using rep_same_view [OF assms(1) a(1)] .
  then show ?thesis using rep_input_scripts [of c1 m b "vin tx"] a(3) r(2) t False assms(3) by (auto simp: CheckInputs_def split: if_splits)
qed

lemma tally_tx_fee:
  assumes "represents I utxo best c m b" "tx_valid past w True tx" "IsCoinBase tx \<or> (\<forall>i \<in> set (vin tx). m (prevout i) \<noteq> None)"
    "tally_tx vw tx c nFees stake = Inr (c', Inr (nFees', stake'))"
  shows "represents I utxo best c' m b \<and> nFees' = nFees + fee tx m"
proof (cases "IsCoinBase tx")
  case True
  then show ?thesis using assms(1,4) by (simp add: tally_tx_def fee_def IsNormalTx_def)
next
  case False
  have out: "GetValueOut tx = Inr (paid_out tx)" using assms(2) GetValueOut_in_range [of tx] by (simp add: tx_valid_def paid_out_def)
  obtain nIn where v: "GetValueIn_loop vw (vin tx) 0 c = Inr (c', nIn)"
    using assms(4) False out by (auto simp: tally_tx_def GetValueIn_def split: sum.splits if_splits)
  then have "represents I utxo best c' m b" "nIn = paid_in tx m"
    using GetValueIn_loop_sum [OF assms(1) _ v] assms(3) False by (simp_all add: paid_in_def)
  then show ?thesis using assms(4) False out v by (auto simp: tally_tx_def GetValueIn_def fee_def IsNormalTx_def split: if_splits)
qed

lemma connect_tx_result:
  assumes rep: "represents I utxo best c m b" and v: "fst (CheckTransaction past w tx st0 True)"
    and fresh: "no_coins (txid tx) 0 (length (vout tx)) (unspent_inputs tx m)"
    and run: "connect_tx vw env tx st nFees stake nSigOps c = Inr (c', Inr (u, nFees', stake', nSigOps'))"
  shows "applicable tx m \<and> u = undo_of tx m \<and> nFees' = nFees + fee tx m \<and> represents I utxo best c' (apply_tx (cb_nHeight env) tx m) b"
proof -
  obtain c1 c2 c3 c4 c5 x1 x4 x5 where c: "check_locks vw env tx st c = Inr (c1, Inr x1)" "check_sigops vw env tx st nSigOps c1 = Inr (c2, Inr nSigOps')"
    "tally_tx vw tx c2 nFees stake = Inr (c3, Inr (nFees', stake'))" "CheckInputs vw env tx st c3 = Inr (c4, Inr x4)"
    "(if IsCoinBase tx then Inr (c4, Inr ()) else contract_spends vw st (vin tx) c4) = Inr (c5, Inr x5)" "UpdateCoins vw tx c5 (cb_nHeight env) = Inr (c', u)"
    using run by (auto simp: connect_tx_def and_then_Inr stage_ends)
  have valid: "tx_valid past w True tx" using v by (simp add: CheckTransaction_valid)
  have r1: "represents I utxo best c1 m b" "IsCoinBase tx \<or> (\<forall>i \<in> set (vin tx). m (prevout i) \<noteq> None)" using rep_check_locks [OF rep c(1)] by blast+
  have r2: "represents I utxo best c2 m b" using rep_sigops [OF r1, of "cb_flags env"] c(2)
    by (cases "tx_sigop_cost (cb_flags env) tx (spent_coins m (vin tx))") (auto simp: check_sigops_def reject_block_def split: if_splits)
  note r3 = tally_tx_fee [OF r2 valid r1(2) c(3)]
  have r4: "represents I utxo best c4 m b" using rep_CheckInputs [OF _ v c(4)] r3 by blast
  have r5: "represents I utxo best c5 m b" using rep_contract_spends [OF r4, of st "vin tx"] r4 c(5) by (auto split: if_splits)
  have a: "applicable tx m" using valid_applicable [OF valid r1(2) fresh] .
  show ?thesis using rep_UpdateCoins [OF r5 a, of "cb_nHeight env"] c(6) a r3 by auto
qed

lemma connect_loop_result:
  "represents I utxo best c m b \<Longrightarrow> list_all (\<lambda>tx. fst (CheckTransaction past w tx st0 True)) txs \<Longrightarrow> all_fresh (cb_nHeight env) txs m \<Longrightarrow>
     connect_loop vw env txs st nFees stake nSigOps c = Inr (c', Inr (us, nFees', stake')) \<Longrightarrow>
     represents I utxo best c' (apply_txs (cb_nHeight env) txs m) b \<and> all_applicable (cb_nHeight env) txs m \<and>
     nFees' = nFees + fees (cb_nHeight env) txs m \<and> us = undos (cb_nHeight env) txs m"
proof (induction txs arbitrary: c m nFees stake nSigOps us)
  case (Cons tx txs)
  obtain c1 u f s n us1 where s: "connect_tx vw env tx st nFees stake nSigOps c = Inr (c1, Inr (u, f, s, n))"
    "connect_loop vw env txs st f s n c1 = Inr (c', Inr (us1, nFees', stake'))" "us = u # us1"
    using Cons.prems(4) by (auto simp: and_then_Inr)
  have "fst (CheckTransaction past w tx st0 True)" "no_coins (txid tx) 0 (length (vout tx)) (unspent_inputs tx m)" using Cons.prems(2,3) by simp_all
  note t = connect_tx_result [OF Cons.prems(1) this s(1)]
  from Cons.IH [OF _ _ _ s(2), of "apply_tx (cb_nHeight env) tx m"] Cons.prems(2,3) t s(3) show ?case by simp
qed simp

end

text \<open>C36. The most money a block can create, from the checks of its amounts. When the loop over the transactions and the reward check
  of \<^verbatim>\<open>ConnectBlock\<close> accept a block whose transactions passed the checks without context and overwrite no coin, then the
  cache afterwards holds at most the money from before, the subsidy, the price of one ticket for every output of the coinbase but
  the first, and whatever the transactions in the shape of a coinstake pay out beyond what they spend. The fees counted for the
  reward are exactly those of the payments.\<close>
theorem block_money_bound:
  assumes "coins_view vw I utxo best" "represents I utxo best c m b" "finite (dom m)" "IsCoinBase tx0" "\<not> list_ex IsCoinBase rest"
    "list_all (\<lambda>tx. fst (CheckTransaction past w tx st0 True)) (tx0 # rest)" "all_fresh (cb_nHeight env) (tx0 # rest) m"
    "ConnectBlock_coins vw env (tx0 # rest) st gasRefunds checkVouts c = Inr (c', Inr (undo, nFees))"
  shows "let h = cb_nHeight env
    in represents I utxo best c' (apply_txs h (tx0 # rest) m) b \<and> nFees = fees h rest (apply_tx h tx0 m) \<and> undo = undos h (tx0 # rest) m \<and>
       money (cache_utxo utxo c') \<le> money m + GetBlockSubsidy h + (int (length (vout tx0)) - 1) * TICKET_PRICE * COIN +
         stake_minted h rest (apply_tx h tx0 m)"
proof -
  let ?h = "cb_nHeight env"
  obtain s where l: "connect_loop vw env (tx0 # rest) st 0 0 0 c = Inr (c', Inr (undo, nFees, s))"
    and rw: "\<exists>st'. CheckReward (tx0 # rest) st ?h nFees checkVouts = Inr (True, st')"
    using assms(8) unfolding ConnectBlock_coins_def and_then_Inr by (auto simp: stage_ends simp del: connect_loop.simps split: if_split_asm)
  note r = coins_view.connect_loop_result [OF assms(1,2,6,7) l]
  have fee0: "fees ?h (tx0 # rest) m = fees ?h rest (apply_tx ?h tx0 m)" using assms(4) by (simp add: fee_def IsNormalTx_def)
  obtain out where out: "GetValueOut tx0 = Inr out" "out \<le> nFees + GetBlockSubsidy ?h + (int (length (vout tx0)) - 1) * TICKET_PRICE * COIN"
    using rw assms(4) by (auto simp: CheckReward_def Let_def state_DoS_def split: if_splits sum.splits)
  have v: "list_all MoneyRange (amounts (vout tx0))" "out = paid_out tx0"
    using out(1) GetValueOut_loop_sum [of 0 "vout tx0" out] by (simp_all add: GetValueOut_def paid_out_def)
  have a: "applicable tx0 m" "all_applicable ?h rest (apply_tx ?h tx0 m)" using r by simp_all
  have vs: "list_all (\<lambda>tx. list_all MoneyRange (amounts (vout tx))) rest"
    using assms(6) valid_outputs(1) by (auto simp: list_all_iff CheckTransaction_valid)
  note t = apply_tx_money [OF assms(3) a(1) v(1), of ?h]
  have "cache_utxo utxo c' = apply_txs ?h rest (apply_tx ?h tx0 m)" using r by (simp add: represents_def)
  then show ?thesis using r apply_txs_money [OF t(1) a(2) assms(5) vs] t(2) out(2) v(2) assms(4) fee0 by (simp add: Let_def)
qed

subsection \<open>Accepted transactions\<close>

text \<open>What the loop asks of a transaction other than a coinbase about the coins it spends: amounts in range and maturity, the relative
  lock times, the scripts, and that contract coins are only spent by \<^verbatim>\<open>OP_SPEND\<close>. The amounts paid out do not occur in it.\<close>

definition may_spend :: "connect_env \<Rightarrow> CTransaction \<Rightarrow> (COutPoint \<rightharpoonup> Coin) \<Rightarrow> bool" where
  "may_spend env tx m \<longleftrightarrow>
     (let coins = spent_coins m (vin tx)
      in inputs_ok (cb_nSpendHeight env) 0 coins \<and>
         (\<exists>hs. SequenceLocks (cb_heap env) tx (cb_nLockTimeFlags env) (map (\<lambda>coin. uint (coin_nHeight coin)) coins) (cb_pindex env) = Inr (hs, True)) \<and>
         (cb_fScriptChecks env \<longrightarrow> (\<forall>k < length (vin tx). CScriptCheck env (cb_flags env) tx k (coins ! k) = Inr ())) \<and>
         (\<forall>i \<in> set (vin tx). HasOpSpend (scriptSig i) \<or>
            \<not> HasOpCreate (scriptPubKey (coin_out (the (m (prevout i))))) \<and> \<not> HasOpCall (scriptPubKey (coin_out (the (m (prevout i)))))))"

context coins_view
begin

lemma connect_coinbase_accepts:
  assumes "represents I utxo best c m b" "applicable tx m" "IsCoinBase tx"
    "tx_sigop_cost (cb_flags env) tx (spent_coins m (vin tx)) = Inr n" "nSigOps + n \<le> cb_dgpMaxBlockSigOps env"
  shows "\<exists>c1. represents I utxo best c1 (apply_tx (cb_nHeight env) tx m) b \<and>
    connect_tx vw env tx st nFees stake nSigOps c = Inr (c1, Inr (undo_of tx m, nFees, stake, nSigOps + n))"
proof -
  obtain c2 where c2: "GetTransactionSigOpCost vw tx (cb_flags env) c = Inr (c2, n)" "represents I utxo best c2 m b"
    using rep_sigops [OF assms(1)] assms(3,4) by (metis map_sum.simps(2))
  then show ?thesis using rep_UpdateCoins [OF c2(2) assms(2), of "cb_nHeight env"] assms(3,5)
    by (auto simp: connect_tx_def check_locks_def check_sigops_def tally_tx_def CheckInputs_def)
qed

lemma connect_tx_accepts:
  assumes rep: "represents I utxo best c m b" and v: "fst (CheckTransaction past w tx st0 True)" and a: "applicable tx m"
    and nb: "\<not> IsCoinBase tx" and ok: "may_spend env tx m" and cov: "IsCoinStake tx \<or> paid_out tx \<le> paid_in tx m" and f: "int64_range (nFees + fee tx m)"
    and cost: "tx_sigop_cost (cb_flags env) tx (spent_coins m (vin tx)) = Inr n" "nSigOps + n \<le> cb_dgpMaxBlockSigOps env"
  shows "\<exists>c1. represents I utxo best c1 (apply_tx (cb_nHeight env) tx m) b \<and> connect_tx vw env tx st nFees stake nSigOps c =
    Inr (c1, Inr (undo_of tx m, nFees + fee tx m, if IsCoinStake tx then paid_out tx - paid_in tx m else stake, nSigOps + n))"
proof -
  have valid: "tx_valid past w True tx" using v by (simp add: CheckTransaction_valid)
  have i: "inputs_ok (cb_nSpendHeight env) 0 (spent_coins m (vin tx))" "\<forall>i \<in> set (vin tx). m (prevout i) \<noteq> None"
    using ok a nb by (simp_all add: applicable_def may_spend_def Let_def)
  obtain c1 have_all where h: "HaveInputs_loop vw (vin tx) c = (c1, have_all)" by force
  then have r1: "represents I utxo best c1 m b" "have_all"
    using HaveInputs_loop_spec [OF _ h] rep i(2) rep_same_view [OF rep] by (auto simp: represents_def)
  obtain c2 where c2: "check_locks vw env tx st c = Inr (c2, Inr ())" "represents I utxo best c2 m b"
    using rep_prev_heights [OF r1(1) i(2)] ok nb h r1(2) by (auto simp: check_locks_def HaveInputs_def may_spend_def Let_def)
  obtain c3 where c3: "check_sigops vw env tx st nSigOps c2 = Inr (c3, Inr (nSigOps + n))" "represents I utxo best c3 m b"
    using rep_sigops [OF c2(2), of tx "cb_flags env"] i(2) cost by (auto simp: check_sigops_def)
  obtain c4 nIn where g: "GetValueIn_loop vw (vin tx) 0 c3 = Inr (c4, nIn)" using GetValueIn_loop_ok [OF c3(2) i(2) _ i(1)] by force
  have r4: "represents I utxo best c4 m b" "nIn = paid_in tx m" using GetValueIn_loop_sum [OF c3(2) i(2) g] by (simp_all add: paid_in_def)
  have range: "0 \<le> paid_in tx m" "paid_in tx m \<le> MAX_MONEY" "0 \<le> paid_out tx" "paid_out tx \<le> MAX_MONEY"
    using i(1) valid valid_outputs(4) [OF valid]
    by (auto simp: inputs_ok_def paid_in_def paid_out_def tx_valid_def list_all_iff MoneyRange_def intro!: sum_list_nonneg)
  have "GetValueOut tx = Inr (paid_out tx)" using valid GetValueOut_in_range [of tx] by (simp add: tx_valid_def paid_out_def)
  then have t: "tally_tx vw tx c3 nFees stake = Inr (c4, Inr (nFees + fee tx m, if IsCoinStake tx then paid_out tx - paid_in tx m else stake))"
    using g r4(2) nb f range MAX_MONEY_fits
    by (cases "IsCoinStake tx") (simp_all add: tally_tx_def GetValueIn_def fee_def IsNormalTx_def int64_range_def)
  obtain c5 where c5: "CheckTxInputs vw tx st c4 (cb_nSpendHeight env) = Inr (c5, True, st)" "represents I utxo best c5 m b"
    using CheckTxInputs_accepts [OF coins_view_axioms _ v nb, of c4 "cb_nSpendHeight env" st] r4(1) i cov rep_same_view [OF r4(1)]
    by (auto simp: represents_def paid_in_def paid_out_def)
  have "\<exists>c6. CheckInputs vw env tx st c4 = Inr (c6, Inr ())"
    using input_scripts_ok [OF c5(2) i(2), of env tx 0 st] ok c5(1) nb by (auto simp: CheckInputs_def may_spend_def Let_def)
  then obtain c6 where c6: "CheckInputs vw env tx st c4 = Inr (c6, Inr ())" "represents I utxo best c6 m b" using rep_CheckInputs [OF r4(1) v] by blast
  obtain c7 where c7: "contract_spends vw st (vin tx) c6 = Inr (c7, Inr ())"
    using contract_spends_ok [OF c6(2), of "vin tx" st] ok i(2) by (auto simp: may_spend_def Let_def)
  show ?thesis using rep_UpdateCoins [OF rep_contract_spends [OF c6(2) c7] a, of "cb_nHeight env"] c2(1) c3(1) t c6(1) c7 nb
    by (auto simp: connect_tx_def)
qed

end

subsection \<open>Samples\<close>

text \<open>A block with a coinbase and a payment, connected at height 9 on top of a small block index.\<close>

definition sample_env_block :: connect_env where
  "sample_env_block = \<lparr>cb_heap = sample_heap, cb_pindex = 2, cb_nLockTimeFlags = 0, cb_flags = 0, cb_dgpMaxBlockSigOps = 80000, cb_nSpendHeight = 1,
     cb_nHeight = 9, cb_fScriptChecks = True, cb_verify = \<lambda>_ _ _. False, cb_CheckLowS = \<lambda>_. False\<rparr>"

lemma sample_locks: "length heights = length (vin tx) \<Longrightarrow> \<exists>hs. SequenceLocks sample_heap tx 0 heights 2 = Inr (hs, True)"
proof -
  assume n: "length heights = length (vin tx)"
  obtain b q c where b: "sample_heap 2 = Some b" "nHeight b = 2" "pprev b = Some q" "sample_heap q = Some c"
    by (auto simp: sample_heap_at CBlockIndex_SetNull_def)
  show ?thesis using median_past_value [OF sample_tree_ok b(4)] median_past_nonneg [OF sample_tree_ok b(4)] b n
    by (auto simp: SequenceLocks_def CalculateSequenceLocks_def EvaluateSequenceLocks_def Let_def)
qed

lemma sample_cost:
  assumes "GetLegacySigOpCount tx = 0" "length coins = length (vin tx)"
  shows "tx_sigop_cost 0 tx coins = Inr 0"
proof -
  have "witness_sigops 0 xs n = Inr n" for xs n by (induction xs arbitrary: n) (auto simp: CountWitnessSigOps_def has_flag_def)
  then show ?thesis using assms by (simp add: tx_sigop_cost_def Let_def has_flag_def)
qed

lemma sample_check:
  assumes "scriptSig (vin tx ! n) = []" "scriptWitness (vin tx ! n) = []" "scriptPubKey (coin_out coin) = [OP_1]"
  shows "CScriptCheck sample_env_block 0 tx n coin = Inr ()"
proof -
  have "EvalScript e st [] = Inr st" for e st by (simp add: EvalScript_def eval_start_def EvalScript_loop.simps)
  moreover have "serialize_num 1 = [1]" by code_simp
  then have "EvalScript e [] [OP_1] = Inr [[1]]" if "ee_flags e = 0" for e
    by (simp add: EvalScript_def eval_start_def EvalScript_loop.simps eval_step_def GetOp2_def le_u8 Let_def disabled_opcode_def exec_op_def op_push_value_def set_stack_def MAX_SCRIPT_SIZE_def MAX_STACK_SIZE_def)
  moreover have "CastToBool [1]" by code_simp
  ultimately show ?thesis using assms
    by (simp add: CScriptCheck_def VerifyScript_def eval_in_def has_flag_def bare_witness_def p2sh_part_def verify_end_def eval_env_of_def)
qed

lemma sample_sigops: "GetSigOpCount False [] = 0" "GetSigOpCount False [OP_1] = 0" "GetSigOpCount False [OP_RETURN] = 0" "GetSigOpCount False [1, 2] = 0"
  by (simp_all add: GetSigOpCount_def GetSigOpCount_loop.simps GetOp2_def push_size_def)

lemma sample_fresh: "all_fresh 9 [sample_coinbase, sample_payment] sample_coins"
  using sample_all_applicable by (simp add: applicable_def sample_coinbase_facts(2))

lemma sample_fees: "fee sample_coinbase m = 0" "fee sample_payment sample_coins = 10" "\<not> IsCoinStake sample_coinbase" "\<not> IsCoinStake sample_payment"
proof -
  show c: "\<not> IsCoinStake sample_coinbase" "\<not> IsCoinStake sample_payment" by (simp_all add: IsCoinStake_def sample_coinbase_def sample_payment_def)
  show "fee sample_coinbase m = 0" using sample_coinbase_facts(1) by (simp add: fee_def IsNormalTx_def)
  show "fee sample_payment sample_coins = 10" using c(2) sample_valid(2) by (simp add: fee_def IsNormalTx_def sample_amounts)
qed

lemma sample_may_spend: "vin tx = vin sample_payment \<Longrightarrow> may_spend sample_env_block tx sample_coins"
  "tx_sigop_cost 0 sample_payment (spent_coins sample_coins (vin sample_payment)) = Inr 0"
  "tx_sigop_cost 0 sample_coinbase (spent_coins sample_coins (vin sample_coinbase)) = Inr 0"
proof -
  have i: "vin sample_payment = [\<lparr>prevout = sample_spent, scriptSig = [], nSequence = 0, scriptWitness = []\<rparr>]" by (simp add: sample_payment_def)
  have s: "sample_coins sample_spent = Some (sample_coin\<lparr>fCoinBase := False\<rparr>)" "scriptPubKey (coin_out sample_coin) = [OP_1]"
    by (simp_all add: sample_coins_def sample_coin_def Coin_of_def)
  have e: "cb_heap sample_env_block = sample_heap" "cb_pindex sample_env_block = 2" "cb_nLockTimeFlags sample_env_block = 0"
    "cb_flags sample_env_block = 0" "cb_nSpendHeight sample_env_block = 1" by (simp_all add: sample_env_block_def)
  show "may_spend sample_env_block tx sample_coins" if "vin tx = vin sample_payment" unfolding may_spend_def Let_def e that
    using sample_inputs_ok(1) sample_locks [of _ tx] sample_check [of tx 0] s sample_scripts(3,4) that
    by (auto simp: i spent_coins_def)
  show "tx_sigop_cost 0 sample_payment (spent_coins sample_coins (vin sample_payment)) = Inr 0"
    by (rule sample_cost) (simp_all add: GetLegacySigOpCount_def sample_payment_def sample_sigops spent_coins_def)
  show "tx_sigop_cost 0 sample_coinbase (spent_coins sample_coins (vin sample_coinbase)) = Inr 0"
    by (rule sample_cost) (simp_all add: GetLegacySigOpCount_def sample_coinbase_def sample_sigops spent_coins_def)
qed

lemma sample_block_connects:
  "\<exists>c'. ConnectBlock_coins (db_view length 0) sample_env_block [sample_coinbase, sample_payment] CValidationState_init 0 [] sample_cache =
     Inr (c', Inr ([[], spent_coins sample_coins (vin sample_payment)], 10))"
proof -
  let ?st = CValidationState_init
  let ?vw = "db_view length 0"
  have e: "cb_nHeight sample_env_block = 9" "cb_flags sample_env_block = 0" "cb_dgpMaxBlockSigOps sample_env_block = 80000" by (simp_all add: sample_env_block_def)
  have v: "fst (CheckTransaction 0 8000000 sample_payment ?st True)" using sample_valid(1) by (simp add: CheckTransaction_valid)
  have a: "applicable sample_coinbase sample_coins" "applicable sample_payment sample_coins"
    using sample_all_applicable by (simp_all add: sample_coinbase_facts)
  obtain c1 where c1: "represents db_inv db_coins db_GetBestBlock c1 sample_coins (replicate 32 0)"
    "connect_tx ?vw sample_env_block sample_coinbase ?st 0 0 0 sample_cache = Inr (c1, Inr ([], 0, 0, 0))"
    using coins_view.connect_coinbase_accepts [OF db.coins_view_axioms [of length 0] sample_coins_ok(2) a(1) sample_coinbase_facts(1),
        where env = sample_env_block and n = 0 and nSigOps = 0 and st = ?st and nFees = 0 and stake = 0]
      sample_may_spend(3) e sample_coinbase_facts(1,2) by (auto simp: undo_of_def)
  obtain c2 where c2: "connect_tx ?vw sample_env_block sample_payment ?st 0 0 0 c1 = Inr (c2, Inr (spent_coins sample_coins (vin sample_payment), 10, 0, 0))"
    using coins_view.connect_tx_accepts [OF db.coins_view_axioms [of length 0] c1(1) v a(2) sample_valid(2) sample_may_spend(1),
        where n = 0 and nSigOps = 0 and st = ?st and nFees = 0 and stake = 0]
      sample_may_spend(2) e sample_fees sample_amounts sample_valid(2) by (auto simp: int64_range_def undo_of_def)
  have "CheckReward [sample_coinbase, sample_payment] ?st 9 10 [] = Inr (True, ?st)"
    using sample_coinbase_facts(1)
    by (simp add: CheckReward_def Let_def GetValueOut_def int64_range_def MoneyRange_def MAX_MONEY_def COIN_def CENT_def GetBlockSubsidy_def TICKET_VALVE_def)
       (simp add: sample_coinbase_def MoneyRange_def MAX_MONEY_def COIN_def CENT_def int64_range_def)
  then show ?thesis using c1(2) c2 e(1) by (simp add: ConnectBlock_coins_def)
qed

theorem block_money_bound_witness:
  "\<exists>c'. ConnectBlock_coins (db_view length 0) sample_env_block [sample_coinbase, sample_payment] CValidationState_init 0 [] sample_cache =
     Inr (c', Inr ([[], spent_coins sample_coins (vin sample_payment)], 10)) \<and> money (cache_utxo db_coins c') \<le> 50 + 260000 * COIN"
proof -
  obtain c' where c': "ConnectBlock_coins (db_view length 0) sample_env_block [sample_coinbase, sample_payment] CValidationState_init 0 [] sample_cache =
      Inr (c', Inr ([[], spent_coins sample_coins (vin sample_payment)], 10))" using sample_block_connects by blast
  have n: "\<not> list_ex IsCoinBase [sample_payment]" using sample_valid(2) by simp
  have v: "list_all (\<lambda>tx. fst (CheckTransaction 0 8000000 tx CValidationState_init True)) [sample_coinbase, sample_payment]"
    using sample_coinbase_valid sample_valid(1) by (simp add: CheckTransaction_valid)
  have e: "cb_nHeight sample_env_block = 9" "length (vout sample_coinbase) = 1" by (simp_all add: sample_env_block_def sample_coinbase_def)
  then have f: "all_fresh (cb_nHeight sample_env_block) [sample_coinbase, sample_payment] sample_coins" using sample_fresh by simp
  show ?thesis
    using block_money_bound [OF db.coins_view_axioms [of length 0] sample_coins_ok(2) sample_amounts(4) sample_coinbase_facts(1) n v f c'] c'
    by (auto simp: e Let_def sample_amounts sample_fees sample_coinbase_facts(2) GetBlockSubsidy_def TICKET_VALVE_def)
qed

subsection \<open>Money made by a coinstake\<close>





end
