(* ===== verification/Spec2Isabelle.thy ===== *)
theory Spec2Isabelle
  imports Connect_Block Hmac
begin

text \<open>
  Verification of the consensus core of the TSC full node, a Bitcoin-style node with tickets, contract outputs and SHA3-256 in the
  place of double SHA-256 for block and transaction hashes. Paths below are relative to \<^verbatim>\<open>src/src\<close>.

  \<^bold>\<open>The program and its parts.\<close> A block arrives as bytes; it is decoded (\<^verbatim>\<open>serialize.h\<close>, \<^verbatim>\<open>primitives/\<close>), hashed
  (\<^verbatim>\<open>hash.h\<close>, \<^verbatim>\<open>crypto/\<close>) and checked: its hash against the target (\<^verbatim>\<open>pow.cpp\<close>, \<^verbatim>\<open>arith_uint256.cpp\<close>), its transactions against
  the Merkle root of the header (\<^verbatim>\<open>consensus/merkle.cpp\<close>) and against the rules of \<^verbatim>\<open>consensus/tx_verify.cpp\<close> and
  \<^verbatim>\<open>CheckBlock\<close> in \<^verbatim>\<open>validation.cpp\<close>. Connecting it spends and creates coins in a cache (\<^verbatim>\<open>coins.cpp\<close>) over the coin database
  (\<^verbatim>\<open>txdb.cpp\<close>), runs the scripts of its inputs (\<^verbatim>\<open>script/\<close>), and moves the tip of the active chain in the index of all known
  blocks (\<^verbatim>\<open>chain.cpp\<close>). Undoing it gives the coins back.

  \<^bold>\<open>Conventions.\<close> A definition stands below a comment with the file, the lines and the symbol it translates. Classes are
  records, pointers into the block index are addresses of a heap, machine integers are words or, where the code stays in range
  or overflow is an error of the model, integers. Calls return their result together with the changed state; a failing assertion,
  an exception, a null pointer, an index out of range or a signed overflow is a value \<open>Inl\<close> of an error type. Loops are
  recursive functions with a termination proof; the four loops that follow \<^verbatim>\<open>pprev\<close> pointers take fuel, since a cyclic heap
  would make them run forever, and they are handed at least one round more than the height they start at, which the theorems
  show to be enough on a well-formed tree. The loop of \<^verbatim>\<open>CSHA3::Write\<close>, whose 32-bit position can wrap, is a partial function
  into \<open>option\<close>, shown to return exactly for pieces shorter than 4 GiB.

  \<^bold>\<open>The theories.\<close>

  \<^item> \<open>Prelude\<close>, \<open>Endian\<close>: words, values of limb lists, byte order (\<^verbatim>\<open>crypto/common.h\<close>).

  \<^item> \<open>Big_Uint\<close>, \<open>Arith256\<close>: the operators of \<^verbatim>\<open>base_uint\<close> on eight limbs. The locale \<open>big_uint\<close> is what clients rely on;
  its interpretation shows that every operator acts on values modulo \<open>2 ^ 256\<close>, that long division returns the quotient and
  throws only for zero, and that the compact form of targets is stable.

  \<^item> \<open>Chain\<close>, \<open>Params\<close>, \<open>Chain_Work\<close>: \<^verbatim>\<open>CBlockIndex\<close>, \<^verbatim>\<open>CChain\<close>. On a tree with correct heights the skip list finds the same
  ancestors as walking back, \<^verbatim>\<open>SetTip\<close> yields the list of ancestors, forks and common ancestors are the highest ones, locators
  are short, the work of a block is \<open>2 ^ 256 div (target + 1)\<close>, the median time never decreases.

  \<^item> \<open>Keccak\<close>, \<open>Md_Hash\<close>, \<open>Sha2\<close>, \<open>Sha1\<close>, \<open>Ripemd160\<close>, \<open>Hmac\<close>, \<open>Hashing\<close>: all hash functions. Each implementation, fed in pieces,
  equals the function the standard defines for the whole message, with words and rotations as the standard defines them and not as
  the code computes them. Serializers hand their bytes to the SHA3 writer one by one: the model does not keep the boundaries of
  their writes, which do not change the digest as long as a single write is shorter than 4 GiB. The locale \<open>streaming_hash\<close> carries the buffering of the four
  hashes of the older kind, \<open>sha2_rounds\<close> the unrolled rounds of SHA-2.

  \<^item> \<open>Serialize\<close>: integers, sizes, strings, vectors. The locales \<open>codec\<close> and \<open>canonical_codec\<close> say that reading inverts writing and
  that accepted bytes are the written ones; every serializer of the development is an interpretation.

  \<^item> \<open>Script\<close>, \<open>Script_Eval\<close>, \<open>Interpreter\<close>, \<open>Standard\<close>: script numbers, opcode parsing, the stack machine with all opcodes, signature
  hashes, script verification with pay-to-script-hash and witnesses, and standard scripts. Limits of the machine hold in every
  reachable state and of the returned stack, except for the rest of the script that the contract opcodes leave on it; it stops within as many rounds as the script has bytes, multisignature checks find a matching exactly if there is
  one, no input makes an assertion of \<^verbatim>\<open>VerifyScript\<close> fail, and scripts built for a destination are recognised.

  \<^item> \<open>Transaction\<close>, \<open>Block\<close>, \<open>Merkle\<close>: structures, both encodings and hashes of transactions and blocks, the disk form of index
  entries, the one-pass Merkle computation against the definition by levels, branches, and what roots commit to.

  \<^item> \<open>Pow\<close>: the parameters of the networks, retargeting and the proof-of-work check. The required work is always attainable; the
  product in the retargeting wraps on the main network.

  \<^item> \<open>Coins\<close>: the coin cache and the database. The locale \<open>coins_view\<close> is the contract of a view; the database and every cache
  over a view satisfy it. A cache behaves like a plain map of coins, and writing to the database survives a crash between batches.

  \<^item> \<open>TxVerify\<close>, \<open>Connect\<close>: the rules of a transaction and of a block, and what connecting and undoing a block does to the coins;
  \<open>Connect_Block\<close>: the loop of \<^verbatim>\<open>ConnectBlock\<close> over the transactions of a block (relative lock times, signature operations,
  fees, \<^verbatim>\<open>CheckInputs\<close> with the scripts, contract coins, \<^verbatim>\<open>UpdateCoins\<close>) and the reward check behind it.
  Accepted payments create no money, a block creates at most what its reward check allows and what its coinstakes pay out beyond
  what they spend, which nothing limits, and undoing restores the coins.

  \<^item> This theory: two accepted blocks with the same hash have the same contents, unless a collision is found.

  \<^bold>\<open>Parameters.\<close> Elliptic-curve verification is an argument of the interpreter; the size estimate of a database batch, the order in
  which a hash table is traversed, the limits a running node may change and the byte behind an empty script, which
  \<^verbatim>\<open>HasOpSStx\<close> reads, are arguments of the definitions that use them. No theorem assumes anything about hash functions: where
  a statement needs a hash to be free of collisions, it names the messages among which a collision would have to be.

  \<^bold>\<open>Not modelled.\<close> The contract machine and its state (\<^verbatim>\<open>tsc/\<close>, \<^verbatim>\<open>cpp-ethereum\<close>) and with it the execution of contracts
  inside \<^verbatim>\<open>ConnectBlock\<close>; the ticket pool, whose tickets are decoded addresses picked through global state; the memory pool,
  fee estimates and relay policy; networking, mining, wallet, remote calls, user interface and start-up, which are input, output
  and threads; block and undo files and the compressed form of coins; deployments by version bits; the bundled libraries. Memory
  accounting and locking are left out everywhere: the model is that of one thread holding the lock.
\<close>

section \<open>What a block hash identifies\<close>

text \<open>The messages hashed with SHA3-256 for the header of a block and for the ids of its transactions.\<close>

definition hashed_messages :: "CBlock \<Rightarrow> bytes set" where
  "hashed_messages b =
     {header_fields b, fips_sha3_256 (header_fields b) @ ser_writedata64 (bh_nNonce b) @ ser_writedata64 (bh_nNonce_ex b)} \<union> plain_bytes ` set (vtx b)"

definition sha3_collision :: "bytes set \<Rightarrow> bool" where
  "sha3_collision M \<longleftrightarrow> (\<exists>x \<in> M. \<exists>y \<in> M. x \<noteq> y \<and> fips_sha3_256 x = fips_sha3_256 y)"

definition tx_ids :: "CBlock \<Rightarrow> bytes list" where
  "tx_ids b = map txid (vtx b)"

lemma txid_sha3: "txid tx = fips_sha3_256 (plain_bytes tx)"
  by (simp add: txid_def tx_GetHash_def SerializeHash_sha3 SerializeTransaction_forms fAllowWitness_versions)

lemma BlockMerkleRoot_ids: "BlockMerkleRoot b = Some (ComputeMerkleRoot (tx_ids b))"
proof -
  have "those (map tx_GetHash txs) = Some (map txid txs)" for txs by (induction txs) (simp_all add: tx_GetHash_txid)
  then show ?thesis by (simp add: BlockMerkleRoot_def tx_ids_def)
qed

lemma no_collision:
  assumes "\<not> sha3_collision (A \<union> B)" "x \<in> A" "y \<in> B" "fips_sha3_256 x = fips_sha3_256 y"
  shows "x = y"
proof (rule ccontr)
  assume "x \<noteq> y"
  then have "x \<noteq> y \<and> fips_sha3_256 x = fips_sha3_256 y" using assms(4) by (rule conjI)
  then have "sha3_collision (A \<union> B)" unfolding sha3_collision_def using UnI1 [OF assms(2)] UnI2 [OF assms(3)] by (intro bexI)
  with assms(1) show False ..
qed

lemma hashed_messagesI:
  "header_fields b \<in> hashed_messages b" "tx \<in> set (vtx b) \<Longrightarrow> plain_bytes tx \<in> hashed_messages b"
  "fips_sha3_256 (header_fields b) @ ser_writedata64 (bh_nNonce b) @ ser_writedata64 (bh_nNonce_ex b) \<in> hashed_messages b"
  by (simp_all add: hashed_messages_def)

lemma same_hash_same_header:
  assumes "old_header_ok b" "old_header_ok b'" "block_GetHash b = block_GetHash b'" "\<not> sha3_collision (hashed_messages b \<union> hashed_messages b')"
  shows "CBlockOldHeader.truncate b = CBlockOldHeader.truncate b'"
proof -
  let ?n = "\<lambda>b :: CBlock. ser_writedata64 (bh_nNonce b) @ ser_writedata64 (bh_nNonce_ex b)"
  have "fips_sha3_256 (header_fields b) @ ?n b = fips_sha3_256 (header_fields b') @ ?n b'"
    by (rule no_collision [OF assms(4) hashed_messagesI(3) hashed_messagesI(3)]) (use assms(3) in \<open>simp only: block_hash_value option.inject\<close>)
  moreover have "length (?n b) = length (?n b')" by (simp add: ser_writedata64_def)
  ultimately have "fips_sha3_256 (header_fields b) = fips_sha3_256 (header_fields b') \<and> ?n b = ?n b'" using append_eq_append_conv by blast
  then have e: "fips_sha3_256 (header_fields b) = fips_sha3_256 (header_fields b')" "?n b = ?n b'" by (rule conjunct1, rule conjunct2)
  have "header_fields b = header_fields b'" by (rule no_collision [OF assms(4) hashed_messagesI(1) hashed_messagesI(1) e(1)])
  then show ?thesis using e(2) by (intro header_fields_inj [OF assms(1,2)]) (simp only:)
qed

lemma same_ids_same_txs:
  assumes "tx_ids b = tx_ids b'" "list_all tx_ok (vtx b)" "list_all tx_ok (vtx b')" "\<not> sha3_collision (hashed_messages b \<union> hashed_messages b')"
  shows "map strip (vtx b) = map strip (vtx b')"
proof (rule nth_equalityI)
  have l: "length (vtx b) = length (vtx b')" using arg_cong [OF assms(1), of length] by (simp add: tx_ids_def)
  then show "length (map strip (vtx b)) = length (map strip (vtx b'))" by simp
  fix i assume i: "i < length (map strip (vtx b))"
  let ?x = "vtx b ! i" and ?y = "vtx b' ! i"
  have m: "?x \<in> set (vtx b)" "?y \<in> set (vtx b')" using i l by simp_all
  have "txid ?x = txid ?y" using arg_cong [OF assms(1), of "\<lambda>xs. xs ! i"] i l by (simp add: tx_ids_def)
  then have "plain_bytes ?x = plain_bytes ?y"
    unfolding txid_sha3 by (rule no_collision [OF assms(4) hashed_messagesI(2) [OF m(1)] hashed_messagesI(2) [OF m(2)]])
  then have "strip ?x = strip ?y" using plain_inj [of ?x ?y] assms(2,3) m by (simp add: list_all_iff)
  then show "map strip (vtx b) ! i = map strip (vtx b') ! i" using i l by simp
qed

text \<open>C4. A block hash identifies a block. Two blocks that the checks without context accept and that have the same hash agree in
  every header field but the ticket signatures and in all transactions up to their witnesses, provided their Merkle trees have the
  same height; otherwise two different messages among those hashed for the two blocks have the same SHA3-256 hash, or two
  different pairs of nodes of their Merkle trees have the same parent.\<close>
theorem block_hash_identifies_block:
  assumes "CheckBlock past lim b st params pow True = Some (True, st1, b1)" "CheckBlock past' lim' b' st' params' pow' True = Some (True, st1', b1')"
    "\<not> fChecked b" "\<not> fChecked b'" "block_GetHash b = block_GetHash b'" "old_header_ok b" "old_header_ok b'"
    "list_all tx_ok (vtx b)" "list_all tx_ok (vtx b')"
    "length (vtx b) \<le> 2 ^ h" "length (vtx b') \<le> 2 ^ h" "h = 0 \<or> 2 ^ (h - 1) < length (vtx b)" "h = 0 \<or> 2 ^ (h - 1) < length (vtx b')"
  shows "CBlockOldHeader.truncate b = CBlockOldHeader.truncate b' \<and> map strip (vtx b) = map strip (vtx b') \<or>
    sha3_collision (hashed_messages b \<union> hashed_messages b') \<or> collision Hash2 (pairs Hash2 h (tx_ids b) \<union> pairs Hash2 h (tx_ids b'))"
proof (cases "sha3_collision (hashed_messages b \<union> hashed_messages b')")
  case False
  note t = same_hash_same_header [OF assms(6,7,5) False]
  have "bh_hashMerkleRoot b = bh_hashMerkleRoot b'" using arg_cong [OF t, of bh_hashMerkleRoot] by (simp add: CBlockOldHeader.defs)
  then have r: "ComputeMerkleRoot (tx_ids b) = (bh_hashMerkleRoot b, False)" "ComputeMerkleRoot (tx_ids b') = (bh_hashMerkleRoot b, False)"
    using CheckBlock_accepted(4) [OF assms(1,3)] CheckBlock_accepted(4) [OF assms(2,4)] by (simp_all add: BlockMerkleRoot_ids)
  have "tx_ids b = tx_ids b' \<or> collision Hash2 (pairs Hash2 h (tx_ids b) \<union> pairs Hash2 h (tx_ids b'))"
    using CheckBlock_accepted(5) [OF assms(1,3)] CheckBlock_accepted(5) [OF assms(2,4)] assms(10-13)
    by (intro root_binds [OF r]) (simp_all add: tx_ids_def)
  then show ?thesis using same_ids_same_txs [OF _ assms(8,9) False] t by blast
qed simp

theorem block_hash_identifies_block_witness:
  "let b = sample_block []; b' = sample_block [1]
   in b \<noteq> b' \<and> block_GetHash b = block_GetHash b' \<and>
      (CBlockOldHeader.truncate b = CBlockOldHeader.truncate b' \<and> map strip (vtx b) = map strip (vtx b') \<or>
       sha3_collision (hashed_messages b \<union> hashed_messages b') \<or> collision Hash2 (pairs Hash2 0 (tx_ids b) \<union> pairs Hash2 0 (tx_ids b')))"
proof -
  have f: "header_fields (sample_block s) = header_fields (sample_block [])" "bh_nNonce (sample_block s) = 0" "bh_nNonce_ex (sample_block s) = 0"
    "vtx (sample_block s) = [sample_coinbase]" "\<not> fChecked (sample_block s)" "bh_sig1 (sample_block s) = s" for s
    by (simp_all add: sample_block_def CBlock_of_header_def CBlock.defs CBlockHeader.defs CBlockHeader_SetNull_def CBlockOldHeader_SetNull_def
        CBlockOldHeader.defs header_fields_def)
  have n: "sample_block [] \<noteq> sample_block [1]" using f(6) [of "[]"] f(6) [of "[1]"] by force
  have h: "block_GetHash (sample_block []) = block_GetHash (sample_block [1])" by (simp add: block_hash_value f(2,3) f(1) [of "[1]"])
  have "length (txid sample_coinbase) = 32" by (simp add: txid_sha3)
  then have o: "old_header_ok (sample_block s)" for s
    by (simp add: old_header_ok_def sample_block_def CBlock_of_header_def CBlock.defs CBlockHeader.defs CBlockHeader_SetNull_def CBlockOldHeader_SetNull_def
        CBlockOldHeader.defs)
  have t: "list_all tx_ok (vtx (sample_block s))" for s
    by (simp add: f(4) tx_ok_def txin_ok_def stack_ok_def sample_coinbase_def MAX_SIZE_def COutPoint_null_def)
  show ?thesis
    using block_hash_identifies_block [OF sample_block_checked [of 0 "[]" CValidationState_init CTestNetParams]
        sample_block_checked [of 0 "[1]" CValidationState_init CTestNetParams] f(5) f(5) h o o t t, of 0] n h
    by (simp add: Let_def f(4))
qed

end
